(* ===== verification/LtsPrelude.thy ===== *)
theory LtsPrelude
  imports "HOL-Library.Word" "HOL-Library.Monad_Syntax"
begin

text \<open>
  Shared vocabulary of the development: bytes, C arrays with checked accesses, C integer
  division, and the lemma collections the component theories extend.

  A C access outside its array has no defined result.  It is modelled by \<open>None\<close>: the
  checked accessors below return \<open>None\<close> exactly when the C code would touch memory
  outside the object, and every function built from them inherits that reading
  (\<open>None\<close> = out of bounds access, failed ASSERT or abort()).
\<close>

type_synonym byte = "8 word"
type_synonym bstr = "byte list"

named_theorems mem_simps \<open>evaluation of checked array accesses that are in range\<close>
named_theorems byte_defs \<open>character constants\<close>

section \<open>Checked array accesses\<close>

definition rd :: "'a list \<Rightarrow> nat \<Rightarrow> 'a option" where
  "rd xs i = (if i < length xs then Some (xs ! i) else None)"

definition wr :: "'a list \<Rightarrow> nat \<Rightarrow> 'a \<Rightarrow> 'a list option" where
  "wr xs i v = (if i < length xs then Some (xs[i := v]) else None)"

text \<open>The same with a signed index, as in \<open>int i\<close> or \<open>ssize_t i\<close>.\<close>

definition rdi :: "'a list \<Rightarrow> int \<Rightarrow> 'a option" where
  "rdi xs i = (if 0 \<le> i then rd xs (nat i) else None)"

definition wri :: "'a list \<Rightarrow> int \<Rightarrow> 'a \<Rightarrow> 'a list option" where
  "wri xs i v = (if 0 \<le> i then wr xs (nat i) v else None)"

text \<open>\<open>memcpy\<close>/\<open>memmove\<close>: read \<open>n\<close> bytes from offset \<open>i\<close>, write a block at offset \<open>i\<close>.\<close>

definition rdn :: "'a list \<Rightarrow> int \<Rightarrow> int \<Rightarrow> 'a list option" where
  "rdn xs i n = (if 0 \<le> i \<and> 0 \<le> n \<and> nat i + nat n \<le> length xs
                 then Some (take (nat n) (drop (nat i) xs)) else None)"

definition wrn :: "'a list \<Rightarrow> int \<Rightarrow> 'a list \<Rightarrow> 'a list option" where
  "wrn xs i ys = (if 0 \<le> i \<and> nat i + length ys \<le> length xs
                  then Some (take (nat i) xs @ ys @ drop (nat i + length ys) xs) else None)"

lemma rd_Some [mem_simps]: "i < length xs \<Longrightarrow> rd xs i = Some (xs ! i)"
  by (simp add: rd_def)

lemma wr_Some [mem_simps]: "i < length xs \<Longrightarrow> wr xs i v = Some (xs[i := v])"
  by (simp add: wr_def)

lemma rd_None [mem_simps]: "length xs \<le> i \<Longrightarrow> rd xs i = None"
  by (simp add: rd_def)

lemma wr_None [mem_simps]: "length xs \<le> i \<Longrightarrow> wr xs i v = None"
  by (simp add: wr_def)

lemma rdi_int [simp]: "rdi xs (int i) = rd xs i"
  by (simp add: rdi_def)

lemma wri_int [simp]: "wri xs (int i) v = wr xs i v"
  by (simp add: wri_def)

lemma rd_append [mem_simps]: "rd (xs @ y # ys) (length xs) = Some y"
  by (simp add: rd_def)

lemma wr_append [mem_simps]: "wr (xs @ y # ys) (length xs) v = Some (xs @ v # ys)"
  by (simp add: wr_def)

lemma wr_length: "wr xs i v = Some ys \<Longrightarrow> length ys = length xs"
  by (auto simp: wr_def split: if_splits)

lemma rdn_append [mem_simps]: "rdn (xs @ ys @ zs) (int (length xs)) (int (length ys)) = Some ys"
  by (simp add: rdn_def)

lemma wrn_append [mem_simps]:
  "length ys' = length ys \<Longrightarrow> wrn (xs @ ys @ zs) (int (length xs)) ys' = Some (xs @ ys' @ zs)"
  by (simp add: wrn_def)

lemma wrn_length: "wrn xs i ys = Some zs \<Longrightarrow> length zs = length xs"
  by (auto simp: wrn_def split: if_splits)

section \<open>Signed C division\<close>

text \<open>C's \<open>/\<close> truncates towards zero.\<close>

definition c_div :: "int \<Rightarrow> int \<Rightarrow> int" where
  "c_div a b = sgn a * sgn b * (\<bar>a\<bar> div \<bar>b\<bar>)"

lemma c_div_nonneg: "0 \<le> a \<Longrightarrow> 0 < b \<Longrightarrow> c_div a b = a div b"
  by (cases "a = 0") (simp_all add: c_div_def)

lemma c_div_neg: "a < 0 \<Longrightarrow> 0 < b \<Longrightarrow> c_div a b = - ((- a) div b)"
  by (simp add: c_div_def)

section \<open>Lists\<close>

lemma takeWhile_dropWhile_split:
  "xs = takeWhile P xs @ dropWhile P xs"
  by simp

lemma dropWhile_head: "dropWhile P xs = y # ys \<Longrightarrow> \<not> P y"
  by (metis hd_dropWhile list.distinct(1) list.sel(1))

lemma filter_takeWhile_id: "filter P (takeWhile P xs) = takeWhile P xs"
  by (metis filter_True set_takeWhileD)

lemma uint_eq_iff [simp]: "uint a = uint b \<longleftrightarrow> a = b"
  by (simp add: word_uint_eq_iff)

lemma unat_byte_less [simp]: "unat (b::byte) < 256"
  using unsigned_less [of b] by simp

section \<open>Options\<close>

lemma bind_Some_iff: "(m \<bind> f = Some y) \<longleftrightarrow> (\<exists>x. m = Some x \<and> f x = Some y)"
  by (cases m) simp_all

lemmas option_bind_splits = Option.bind_split Option.bind_split_asm

section \<open>Characters\<close>

text \<open>String literals of the source are written \<open>lit ''abc''\<close>; they are byte lists without
  the terminating NUL, as \<open>lts_string\<close> takes them.\<close>

definition lit :: "string \<Rightarrow> bstr" where
  "lit s = map of_char s"

abbreviation c_tab :: byte where "c_tab \<equiv> 0x09"
abbreviation c_nl :: byte where "c_nl \<equiv> 0x0A"
abbreviation c_cr :: byte where "c_cr \<equiv> 0x0D"
abbreviation c_space :: byte where "c_space \<equiv> 0x20"
abbreviation c_quot :: byte where "c_quot \<equiv> 0x22"
abbreviation c_hash :: byte where "c_hash \<equiv> 0x23"
abbreviation c_comma :: byte where "c_comma \<equiv> 0x2C"
abbreviation c_minus :: byte where "c_minus \<equiv> 0x2D"
abbreviation c_plus :: byte where "c_plus \<equiv> 0x2B"
abbreviation c_zero :: byte where "c_zero \<equiv> 0x30"
abbreviation c_colon :: byte where "c_colon \<equiv> 0x3A"
abbreviation c_eq :: byte where "c_eq \<equiv> 0x3D"
abbreviation c_lbrack :: byte where "c_lbrack \<equiv> 0x5B"
abbreviation c_rbrack :: byte where "c_rbrack \<equiv> 0x5D"
abbreviation c_lbrace :: byte where "c_lbrace \<equiv> 0x7B"
abbreviation c_rbrace :: byte where "c_rbrace \<equiv> 0x7D"

text \<open>A NUL-terminated C string read from memory: the bytes before the first NUL.\<close>

definition cstr :: "byte list \<Rightarrow> bstr" where
  "cstr m = takeWhile (\<lambda>c. c \<noteq> 0) m"

lemma cstr_terminated: "0 \<notin> set xs \<Longrightarrow> cstr (xs @ 0 # ys) = xs"
  unfolding cstr_def by (subst takeWhile_append2) auto

end
