(* ===== verification/StrFind.thy ===== *)
theory StrFind
  imports LtsPrelude
begin

text \<open>
  Substring search of src/adv_string.c: the Knuth-Morris-Pratt table \<open>__kmp_next\<close> and
  \<open>lts_str_find\<close>.  The table has \<open>pattern->len\<close> entries of type \<open>int\<close>, with \<open>-1\<close> at
  index 0; every access to it is checked.  Both loops of the code have no syntactic bound,
  so they are \<open>partial_function\<close>s, and the correctness lemmas show that they return.
  Lengths are below \<open>2^31\<close> (the code casts them to \<open>int\<close>); \<open>malloc\<close> succeeds, and the
  content it returns is the zero list here, which no result depends on
  (\<open>kmp_next_correct\<close> holds for any initial content).
\<close>

section \<open>The program\<close>

partial_function (option) kmp_next_loop :: "bstr \<Rightarrow> int list \<Rightarrow> int \<Rightarrow> int \<Rightarrow> int list option" where
  "kmp_next_loop p nx i j =
     (if j < int (length p) - 1 then do {
        a \<leftarrow> rdi p i;
        b \<leftarrow> rdi p j;
        if a = b then do {
          nx' \<leftarrow> wri nx (j + 1) (i + 1);
          kmp_next_loop p nx' (i + 1) (j + 1) }
        else do {
          i' \<leftarrow> rdi nx i;
          if i' = -1 then do {
            nx' \<leftarrow> wri nx (j + 1) 0;
            kmp_next_loop p nx' 0 (j + 1) }
          else kmp_next_loop p nx i' j } }
      else Some nx)"

declare kmp_next_loop.simps [code]

definition kmp_next :: "bstr \<Rightarrow> int list \<Rightarrow> int \<Rightarrow> int list option" where
  "kmp_next p nx sz =
     (if sz < int (length p) then None \<comment> \<open>ASSERT\<close>
      else do {
        nx \<leftarrow> wri nx 0 (-1);
        nx \<leftarrow> wri nx 1 0;
        kmp_next_loop p nx 0 1 })"

partial_function (option) kmp_loop ::
  "bstr \<Rightarrow> int \<Rightarrow> bstr \<Rightarrow> int list \<Rightarrow> int \<Rightarrow> int \<Rightarrow> (int \<times> int) option" where
  "kmp_loop txt rlen p nx i j =
     (if i < rlen \<and> j < int (length p) then do {
        same \<leftarrow> (if j = -1 then Some True
                else do { a \<leftarrow> rdi txt i; b \<leftarrow> rdi p j; Some (a = b) });
        if same then kmp_loop txt rlen p nx (i + 1) (j + 1)
        else do { j' \<leftarrow> rdi nx j; kmp_loop txt rlen p nx i j' } }
      else Some (i, j))"

declare kmp_loop.simps [code]

definition lts_str_find :: "bstr \<Rightarrow> bstr \<Rightarrow> int \<Rightarrow> int option" where
  "lts_str_find txt p offset =
     (if offset < 0 then None \<comment> \<open>abort()\<close>
      else do {
        nx \<leftarrow> kmp_next p (replicate (length p) 0) (4 * int (length p));
        (i, j) \<leftarrow> kmp_loop (drop (nat offset) txt) (int (length txt) - offset) p nx 0 0;
        Some (if int (length p) \<le> j then i - int (length p) else -1) })"

section \<open>Borders\<close>

text \<open>\<open>border p j k\<close>: the first \<open>k\<close> characters of \<open>p\<close> end the first \<open>j\<close>; the table entry
  for \<open>j\<close> is the longest border.\<close>

definition border :: "bstr \<Rightarrow> nat \<Rightarrow> nat \<Rightarrow> bool" where
  "border p j k \<longleftrightarrow> k < j \<and> (\<forall>t<k. p ! t = p ! (j - k + t))"

definition fail :: "bstr \<Rightarrow> nat \<Rightarrow> nat \<Rightarrow> bool" where
  "fail p j k \<longleftrightarrow> border p j k \<and> (\<forall>m. border p j m \<longrightarrow> m \<le> k)"

lemma border_trans:
  assumes "border p j i" and "border p i k"
  shows "border p j k"
  unfolding border_def
proof (intro conjI allI impI)
  show "k < j" using assms by (auto simp: border_def)
  fix t assume "t < k"
  then have "p ! t = p ! (i - k + t)" using assms(2) by (simp add: border_def)
  also have "\<dots> = p ! (j - i + (i - k + t))"
  proof -
    have "i - k + t < i" using assms(2) \<open>t < k\<close> unfolding border_def by linarith
    with assms(1) show ?thesis unfolding border_def by blast
  qed
  also have "j - i + (i - k + t) = j - k + t" using assms by (simp add: border_def)
  finally show "p ! t = p ! (j - k + t)" .
qed

lemma border_restrict:
  assumes "border p j i" and "border p j m" and "m < i"
  shows "border p i m"
  unfolding border_def
proof (intro conjI allI impI)
  show "m < i" by fact
  fix t assume t: "t < m"
  have "p ! t = p ! (j - m + t)" using assms t by (simp add: border_def)
  also have "j - m + t = j - i + (i - m + t)" using assms t by (simp add: border_def)
  also have "p ! \<dots> = p ! (i - m + t)" using assms t by (simp add: border_def)
  finally show "p ! t = p ! (i - m + t)" .
qed

lemma border_Suc: "border p (Suc j) (Suc m) \<longleftrightarrow> border p j m \<and> p ! m = p ! j"
  by (auto simp: border_def less_Suc_eq)

lemma border_0: "border p j 0 \<longleftrightarrow> 0 < j"
  by (simp add: border_def)

section \<open>The table\<close>

definition table_upto :: "bstr \<Rightarrow> int list \<Rightarrow> nat \<Rightarrow> bool" where
  "table_upto p nx j \<longleftrightarrow> length nx = length p \<and> nx ! 0 = -1 \<and>
     (\<forall>t. 1 \<le> t \<and> t \<le> j \<longrightarrow> (\<exists>k. nx ! t = int k \<and> fail p t k))"

lemma table_upto_entry:
  assumes "table_upto p nx n" and "1 \<le> t" and "t \<le> n"
  obtains k where "nx ! t = int k" "fail p t k"
  using assms by (auto simp: table_upto_def)

lemma table_upto_step:
  assumes "table_upto p nx j" and "fail p (Suc j) k" and "Suc j < length p"
  shows "table_upto p (nx[Suc j := int k]) (Suc j)"
  using assms by (auto simp: table_upto_def nth_list_update le_Suc_eq)

lemma kmp_next_loop_correct:
  assumes "table_upto p nx j" and "border p j i" and "j < length p"
    and "\<And>m. border p (Suc j) m \<Longrightarrow> m \<le> Suc i"
  shows "\<exists>nx'. kmp_next_loop p nx (int i) (int j) = Some nx' \<and> table_upto p nx' (length p - 1)"
  using assms
proof (induction "2 * (length p - j) + i" arbitrary: nx i j rule: less_induct)
  case less
  note inv = less.prems
  have ij: "i < j" and len: "length nx = length p" using inv(1,2) by (auto simp: border_def table_upto_def)
  show ?case
  proof (cases "Suc j < length p")
    case False
    then have "length p - 1 = j" using inv(3) by simp
    with False inv show ?thesis by (subst kmp_next_loop.simps) simp
  next
    case True
    have ri: "rdi p (int i) = Some (p ! i)" and rj: "rdi p (int j) = Some (p ! j)"
      using ij inv(3) by (simp_all add: mem_simps)
    have w: "wri nx (int j + 1) v = Some (nx[Suc j := v])" for v
      using True len wri_int [of nx "Suc j" v] by (simp add: mem_simps add.commute)
    consider (same) "p ! i = p ! j" | (zero) "p ! i \<noteq> p ! j" "i = 0"
      | (fallback) "p ! i \<noteq> p ! j" "0 < i"
      by blast
    then show ?thesis
    proof cases
      case same
      then have f: "fail p (Suc j) (Suc i)" using inv by (simp add: fail_def border_Suc)
      have "\<exists>nx'. kmp_next_loop p (nx[Suc j := int (Suc i)]) (int (Suc i)) (int (Suc j)) = Some nx' \<and>
          table_upto p nx' (length p - 1)"
      proof (rule less.hyps)
        show "table_upto p (nx[Suc j := int (Suc i)]) (Suc j)" using inv(1) f True by (rule table_upto_step)
        show "border p (Suc j) (Suc i)" using f by (simp add: fail_def)
        show "m \<le> Suc (Suc i)" if "border p (Suc (Suc j)) m" for m
          using that f by (cases m) (auto simp: border_Suc fail_def)
      qed (use True in simp_all)
      then show ?thesis
        using True same ri rj w by (subst kmp_next_loop.simps) (simp add: add.commute)
    next
      case zero
      have m0: "m = 0" if "border p (Suc j) m" for m
        using that zero inv(4) [of m] by (cases m) (auto simp: border_Suc)
      then have f: "fail p (Suc j) 0" by (auto simp: fail_def border_0)
      have "\<exists>nx'. kmp_next_loop p (nx[Suc j := int 0]) (int 0) (int (Suc j)) = Some nx' \<and>
          table_upto p nx' (length p - 1)"
      proof (rule less.hyps)
        show "table_upto p (nx[Suc j := int 0]) (Suc j)" using inv(1) f True by (rule table_upto_step)
        show "border p (Suc j) 0" by (simp add: border_0)
        show "m \<le> Suc 0" if "border p (Suc (Suc j)) m" for m
          using that m0 by (cases m) (auto simp: border_Suc)
      qed (use True zero in simp_all)
      moreover have "rdi nx (int i) = Some (-1)"
        using zero inv(1,3) len rdi_int [of nx 0] by (auto simp: rd_def table_upto_def)
      ultimately show ?thesis
        using True zero ri rj w by (subst kmp_next_loop.simps) (simp add: add.commute)
    next
      case fallback
      then obtain k where k: "nx ! i = int k" "fail p i k"
        using inv(1) ij unfolding table_upto_def by (metis Suc_leI less_imp_le One_nat_def)
      then have bk: "border p j k" and ki: "k < i"
        using inv(2) by (auto simp: fail_def border_def intro: border_trans [unfolded border_def])
      have "\<exists>nx'. kmp_next_loop p nx (int k) (int j) = Some nx' \<and> table_upto p nx' (length p - 1)"
      proof (rule less.hyps)
        show "m \<le> Suc k" if bm: "border p (Suc j) m" for m
        proof (cases m)
          case (Suc m')
          then have m': "border p j m'" "p ! m' = p ! j" using bm by (auto simp: border_Suc)
          then have "m' < i" using inv(4) [OF bm] Suc fallback by (cases "m' = i") auto
          then show ?thesis using border_restrict [OF inv(2) m'(1)] k Suc by (auto simp: fail_def)
        qed simp
      qed (use inv bk ki in simp_all)
      moreover have "rdi nx (int i) = Some (int k)"
        using k ij inv(3) len by (simp add: mem_simps)
      ultimately show ?thesis
        using True fallback ri rj by (subst kmp_next_loop.simps) simp
    qed
  qed
qed

lemma kmp_next_correct:
  assumes "2 \<le> length p" and "length nx = length p"
  shows "\<exists>nx'. kmp_next p nx (4 * int (length p)) = Some nx' \<and> table_upto p nx' (length p - 1)"
proof -
  let ?nx = "nx[0 := -1, 1 := 0]"
  have "wri nx 0 (-1) = Some (nx[0 := -1])" "wri (nx[0 := -1]) 1 0 = Some ?nx"
    using assms by (auto simp: wri_def wr_def)
  moreover have "\<exists>nx'. kmp_next_loop p ?nx (int 0) (int 1) = Some nx' \<and> table_upto p nx' (length p - 1)"
  proof (rule kmp_next_loop_correct)
    have "fail p 1 0" by (auto simp: fail_def border_def)
    then show "table_upto p ?nx 1" using assms
      by (auto simp: table_upto_def nth_list_update le_Suc_eq intro!: nth_list_update_eq)
    show "border p 1 0" by (simp add: border_0)
    show "1 < length p" using assms by simp
    show "m \<le> Suc 0" if "border p (Suc 1) m" for m using that by (simp add: border_def)
  qed
  ultimately show ?thesis by (simp add: kmp_next_def)
qed

text \<open>With a pattern of one character the table has one entry, and \<open>next[1] = 0\<close> is written
  behind it.\<close>

lemma kmp_next_single: "length p = 1 \<Longrightarrow> length nx = 1 \<Longrightarrow> kmp_next p nx sz = None"
  by (auto simp: kmp_next_def wri_def wr_def)

section \<open>The search\<close>

definition occurs_at :: "bstr \<Rightarrow> bstr \<Rightarrow> nat \<Rightarrow> bool" where
  "occurs_at txt p s \<longleftrightarrow> s + length p \<le> length txt \<and> (\<forall>t<length p. txt ! (s + t) = p ! t)"

lemma occurs_at_take: "occurs_at txt p s \<longleftrightarrow> take (length p) (drop s txt) = p \<and> s + length p \<le> length txt"
  by (auto simp: occurs_at_def list_eq_iff_nth_eq)

text \<open>What the search knows at text position \<open>i\<close> and pattern position \<open>j\<close>: the last \<open>j\<close>
  characters read match, and nothing starts before them.\<close>

definition search_inv :: "bstr \<Rightarrow> bstr \<Rightarrow> nat \<Rightarrow> nat \<Rightarrow> bool" where
  "search_inv txt p i j \<longleftrightarrow> j \<le> i \<and> i \<le> length txt \<and> j \<le> length p \<and>
     (\<forall>t<j. txt ! (i - j + t) = p ! t) \<and> (\<forall>s < i - j. \<not> occurs_at txt p s)"

lemma search_inv_match:
  assumes "search_inv txt p i j" and "i < length txt" and "j < length p" and "txt ! i = p ! j"
  shows "search_inv txt p (Suc i) (Suc j)"
  using assms by (auto simp: search_inv_def less_Suc_eq)

lemma search_inv_restart:
  assumes "search_inv txt p i 0" and "i < length txt" and "0 < length p" and "txt ! i \<noteq> p ! 0"
  shows "search_inv txt p (Suc i) 0"
proof -
  have "\<not> occurs_at txt p i" using assms(3,4) by (auto simp: occurs_at_def)
  with assms show ?thesis by (auto simp: search_inv_def less_Suc_eq)
qed

lemma search_inv_fail:
  assumes inv: "search_inv txt p i j" and j: "j < length p" and f: "fail p j k"
    and ne: "txt ! i \<noteq> p ! j"
  shows "search_inv txt p i k"
proof -
  have k: "k < j" and bk: "\<And>t. t < k \<Longrightarrow> p ! t = p ! (j - k + t)"
    using f by (auto simp: fail_def border_def)
  have ji: "j \<le> i" and m: "\<And>t. t < j \<Longrightarrow> txt ! (i - j + t) = p ! t"
    and none: "\<And>s. s < i - j \<Longrightarrow> \<not> occurs_at txt p s" and il: "i \<le> length txt"
    using inv by (auto simp: search_inv_def)
  have "\<not> occurs_at txt p s" if s: "s < i - k" for s
  proof
    assume o: "occurs_at txt p s"
    then have ot: "\<And>t. t < length p \<Longrightarrow> txt ! (s + t) = p ! t" by (simp add: occurs_at_def)
    have "i - j \<le> s" using none o by (meson not_le)
    show False
    proof (cases "s = i - j")
      case True
      then show False using ot [OF j] ne ji by simp
    next
      case False
      define d where "d = i - s"
      have d: "k < d" "d < j" "s = i - d" using s False \<open>i - j \<le> s\<close> ji by (auto simp: d_def)
      have "border p j d" unfolding border_def
      proof (intro conjI allI impI)
        show "d < j" by (rule d)
        fix t assume t: "t < d"
        have "p ! t = txt ! (i - d + t)" using ot [of t] t d j by simp
        also have "i - d + t = i - j + (j - d + t)" using d ji by simp
        also have "txt ! \<dots> = p ! (j - d + t)" using m [of "j - d + t"] t d by simp
        finally show "p ! t = p ! (j - d + t)" .
      qed
      then show False using f d(1) by (auto simp: fail_def)
    qed
  qed
  moreover have "txt ! (i - k + t) = p ! t" if "t < k" for t
  proof -
    have "i - k + t = i - j + (j - k + t)" using k ji by simp
    then show ?thesis using m [of "j - k + t"] bk [OF that] that k by simp
  qed
  ultimately show ?thesis using k ji il j by (simp add: search_inv_def)
qed

lemma kmp_loop_correct:
  assumes tab: "table_upto p nx (length p - 1)" and "0 < length p"
    and "search_inv txt p i j"
  shows "\<exists>i' j'. kmp_loop txt (int (length txt)) p nx (int i) (int j) = Some (int i', int j') \<and>
    search_inv txt p i' j' \<and> (i' = length txt \<or> j' = length p)"
  using assms(3)
proof (induction "2 * (length txt - i) + j" arbitrary: i j rule: less_induct)
  case less
  note inv = less.prems
  have il: "i \<le> length txt" and jl: "j \<le> length p" and ji: "j \<le> i"
    using inv by (auto simp: search_inv_def)
  show ?case
  proof (cases "i < length txt \<and> j < length p")
    case False
    then show ?thesis using inv il jl by (subst kmp_loop.simps) auto
  next
    case True
    have r: "rdi txt (int i) = Some (txt ! i)" "rdi p (int j) = Some (p ! j)"
      using True by (simp_all add: mem_simps)
    consider (same) "txt ! i = p ! j" | (zero) "txt ! i \<noteq> p ! j" "j = 0"
      | (fallback) "txt ! i \<noteq> p ! j" "0 < j"
      by blast
    then show ?thesis
    proof cases
      case same
      then have "search_inv txt p (Suc i) (Suc j)" using inv True by (intro search_inv_match) auto
      then have "\<exists>i' j'. kmp_loop txt (int (length txt)) p nx (int (Suc i)) (int (Suc j))
            = Some (int i', int j') \<and> search_inv txt p i' j' \<and> (i' = length txt \<or> j' = length p)"
        using True by (intro less.hyps) auto
      then show ?thesis using True same r by (subst kmp_loop.simps) (simp add: add.commute)
    next
      case zero
      then have "search_inv txt p (Suc i) 0" using inv True by (intro search_inv_restart) auto
      then have "\<exists>i' j'. kmp_loop txt (int (length txt)) p nx (int (Suc i)) (int 0)
            = Some (int i', int j') \<and> search_inv txt p i' j' \<and> (i' = length txt \<or> j' = length p)"
        using True zero by (intro less.hyps) auto
      moreover have "rdi nx 0 = Some (-1)"
        using tab True rdi_int [of nx 0] by (auto simp: rd_def table_upto_def)
      moreover have "kmp_loop txt (int (length txt)) p nx (int i) (-1)
          = kmp_loop txt (int (length txt)) p nx (int (Suc i)) 0"
        using True by (subst kmp_loop.simps) (simp add: add.commute)
      ultimately show ?thesis using True zero r by (subst kmp_loop.simps) simp
    next
      case fallback
      have "1 \<le> j" "j \<le> length p - 1" using fallback True by linarith+
      then obtain k where k: "nx ! j = int k" "fail p j k"
        by (rule table_upto_entry [OF tab])
      then have kj: "k < j" by (simp add: fail_def border_def)
      have "search_inv txt p i k" 
        by (rule search_inv_fail [OF inv conjunct2 [OF True] k(2) fallback(1)])
      then have "\<exists>i' j'. kmp_loop txt (int (length txt)) p nx (int i) (int k)
            = Some (int i', int j') \<and> search_inv txt p i' j' \<and> (i' = length txt \<or> j' = length p)"
        using kj by (intro less.hyps) simp_all
      moreover have "rdi nx (int j) = Some (int k)"
        using k True tab by (simp add: mem_simps table_upto_def)
      ultimately show ?thesis using True fallback r by (subst kmp_loop.simps) simp
    qed
  qed
qed

text \<open>The answer: the first position at which the pattern occurs behind the offset.\<close>

definition first_occurrence :: "bstr \<Rightarrow> bstr \<Rightarrow> int \<Rightarrow> bool" where
  "first_occurrence txt p r \<longleftrightarrow>
     (if r = -1 then \<forall>s. \<not> occurs_at txt p s
      else 0 \<le> r \<and> occurs_at txt p (nat r) \<and> (\<forall>s < nat r. \<not> occurs_at txt p s))"

lemma lts_str_find_total:
  assumes "2 \<le> length p" and "0 \<le> offset"
  shows "\<exists>r. lts_str_find txt p offset = Some r \<and> first_occurrence (drop (nat offset) txt) p r"
proof -
  let ?t = "drop (nat offset) txt"
  have p0: "0 < length p" using assms(1) by linarith
  obtain nx where nx: "kmp_next p (replicate (length p) 0) (4 * int (length p)) = Some nx"
    and tab: "table_upto p nx (length p - 1)"
    using kmp_next_correct [of p "replicate (length p) 0"] assms(1) by auto
  show ?thesis
  proof (cases "nat offset \<le> length txt")
    case True
    then have rl: "int (length txt) - offset = int (length ?t)" using assms(2) by simp
    have "search_inv ?t p 0 0" by (simp add: search_inv_def)
    from kmp_loop_correct [OF tab p0 this]
    obtain i j where l0: "kmp_loop ?t (int (length ?t)) p nx (int 0) (int 0) = Some (int i, int j)"
      and inv: "search_inv ?t p i j" and stop: "i = length ?t \<or> j = length p"
      by blast
    have l: "kmp_loop ?t (int (length txt) - offset) p nx 0 0 = Some (int i, int j)"
      using l0 unfolding rl by simp
    show ?thesis
    proof (cases "j = length p")
      case True
      have ij: "int i - int j = int (i - j)" using inv by (simp add: search_inv_def)
      have "occurs_at ?t p (i - j)" using inv True by (auto simp: search_inv_def occurs_at_def)
      moreover have "\<forall>s < i - j. \<not> occurs_at ?t p s"
        using inv unfolding search_inv_def by blast
      ultimately have f: "first_occurrence ?t p (int (i - j))"
        unfolding first_occurrence_def nat_int by simp
      have "lts_str_find txt p offset = Some (int (i - j))"
        unfolding ij [symmetric] using assms l nx True by (simp add: lts_str_find_def)
      with f show ?thesis by (intro exI [of _ "int (i - j)"] conjI)
    next
      case False
      then have "j < length p" "i = length ?t" using inv stop by (auto simp: search_inv_def)
      have "\<not> occurs_at ?t p s" for s
      proof
        assume o: "occurs_at ?t p s"
        then have "s + length p \<le> length ?t" by (simp add: occurs_at_def)
        then have "s < i - j" using \<open>j < length p\<close> \<open>i = length ?t\<close> by linarith
        then show False using inv o by (simp add: search_inv_def)
      qed
      then show ?thesis
        using assms l nx \<open>j < length p\<close> by (simp add: lts_str_find_def first_occurrence_def)
    qed
  next
    case False
    then have "int (length txt) < offset" using assms(2) by linarith
    then have "kmp_loop ?t (int (length txt) - offset) p nx 0 0 = Some (0, 0)"
      by (subst kmp_loop.simps) simp
    moreover have "\<not> occurs_at ?t p s" for s using False p0 by (simp add: occurs_at_def)
    ultimately show ?thesis
      using assms nx p0 by (simp add: lts_str_find_def first_occurrence_def)
  qed
qed

section \<open>Properties\<close>



end
