(* ===== verification/AdvString.thy ===== *)
theory AdvString
  imports LtsPrelude
begin

text \<open>
  src/adv_string.c and include/adv_string.h: the character bitmap (\<open>charmap_t\<close>) and the
  byte strings (\<open>lts_str_t\<close>) with their in-place operations.

  An \<open>lts_str_t\<close> is a pointer and a length.  The record \<open>lts_str\<close> keeps the memory the
  pointer can reach (from \<open>data\<close> to the end of the allocation) and the length; the
  characters of the string are the first \<open>len\<close> bytes (\<open>chars\<close>).  All accesses go through
  the checked accessors of the prelude.  Functions that only read a string take its value
  (\<open>bstr\<close>).
\<close>

section \<open>charmap\<close>

unbundle bit_operations_syntax

type_synonym charmap = "byte list"

definition count_bit_1 :: "32 word \<Rightarrow> 32 word" where
  "count_bit_1 x0 =
    (let x1 = (x0 AND 0x55555555) + ((drop_bit 1 x0) AND 0x55555555);
         x2 = (x1 AND 0x33333333) + ((drop_bit 2 x1) AND 0x33333333);
         x3 = (x2 AND 0x0F0F0F0F) + ((drop_bit 4 x2) AND 0x0F0F0F0F);
         x4 = (x3 AND 0x00FF00FF) + ((drop_bit 8 x3) AND 0x00FF00FF)
     in (x4 AND 0x0000FFFF) + ((drop_bit 16 x4) AND 0x0000FFFF))"

definition charmap_clean :: "charmap" where
  "charmap_clean = replicate 32 0"

definition charmap_set :: "charmap \<Rightarrow> byte \<Rightarrow> charmap" where
  "charmap_set cm c =
     (let k = unat (c div 8) in cm[k := cm ! k OR push_bit (unat (c mod 8)) 1])"

definition charmap_isset :: "charmap \<Rightarrow> byte \<Rightarrow> bool" where
  "charmap_isset cm c \<longleftrightarrow> cm ! unat (c div 8) AND push_bit (unat (c mod 8)) 1 \<noteq> 0"

lemma byte_div_8: "unat ((c::byte) div 8) < 32"
proof -
  have "unat c div 8 < 32" using unat_byte_less [of c] by linarith
  then show ?thesis by (simp add: unat_div)
qed

lemma byte_mod_8: "unat ((c::byte) mod 8) < 8"
  by (simp add: unat_mod)

lemma charmap_set_length [simp]: "length (charmap_set cm c) = length cm"
  by (simp add: charmap_set_def Let_def)

text \<open>The test of one bit of the map, as a bit of the byte that holds it.\<close>

lemma charmap_isset_bit:
  "charmap_isset cm c \<longleftrightarrow> bit (cm ! unat (c div 8)) (unat (c mod 8))"
  unfolding charmap_isset_def
  by (simp add: and_exp_eq_0_iff_not_bit)

lemma charmap_index_inj:
  fixes c d :: byte
  assumes "unat (c div 8) = unat (d div 8)" and "unat (c mod 8) = unat (d mod 8)"
  shows "c = d"
proof -
  have "unat c = 8 * (unat c div 8) + unat c mod 8" by simp
  also have "\<dots> = 8 * (unat d div 8) + unat d mod 8"
    using assms by (simp add: unat_div unat_mod)
  finally show ?thesis by (simp add: unsigned_word_eqI)
qed

lemma charmap_isset_set [simp]:
  assumes "length cm = 32"
  shows "charmap_isset (charmap_set cm c) d \<longleftrightarrow> d = c \<or> charmap_isset cm d"
proof -
  have "bit (push_bit (unat (c mod 8)) 1 :: byte) (unat (d mod 8)) \<longleftrightarrow> unat (c mod 8) = unat (d mod 8)"
    using byte_mod_8 [of c] byte_mod_8 [of d] by (auto simp: bit_exp_iff)
  then show ?thesis
    using assms byte_div_8 [of c] charmap_index_inj [of c d]
    by (auto simp: charmap_isset_bit charmap_set_def Let_def nth_list_update bit_or_iff)
qed

lemma charmap_isset_clean [simp]: "\<not> charmap_isset charmap_clean c"
  using byte_div_8 [of c] by (simp add: charmap_isset_def charmap_clean_def)

lemma charmap_clean_length [simp]: "length charmap_clean = 32"
  by (simp add: charmap_clean_def)


definition charmap_count :: "charmap \<Rightarrow> nat" where
  "charmap_count cm =
     (\<Sum>i\<leftarrow>[0..<8]. unat (count_bit_1
        (ucast (cm ! (4 * i)) OR push_bit 8 (ucast (cm ! (4 * i + 1)))
         OR push_bit 16 (ucast (cm ! (4 * i + 2))) OR push_bit 24 (ucast (cm ! (4 * i + 3))))))"

section \<open>Strings\<close>

record lts_str =
  s_data :: "byte list"
  s_len :: nat

definition lts_str_init :: "byte list \<Rightarrow> nat \<Rightarrow> lts_str" where
  "lts_str_init d n = \<lparr>s_data = d, s_len = n\<rparr>"

definition lts_str_share :: "lts_str \<Rightarrow> lts_str \<Rightarrow> lts_str" where
  "lts_str_share dst src = dst\<lparr>s_data := s_data src, s_len := s_len src\<rparr>"

text \<open>The string's value, and well-formedness: the length fits the memory.\<close>

definition chars :: "lts_str \<Rightarrow> bstr" where
  "chars s = take (s_len s) (s_data s)"

definition str_ok :: "lts_str \<Rightarrow> bool" where
  "str_ok s \<longleftrightarrow> s_len s \<le> length (s_data s)"

lemma length_chars [simp]: "str_ok s \<Longrightarrow> length (chars s) = s_len s"
  by (simp add: chars_def str_ok_def)

lemma str_split: "s_data s = chars s @ drop (s_len s) (s_data s)"
  by (simp add: chars_def)

subsection \<open>Reversing a region\<close>

function rev_region :: "byte list \<Rightarrow> int \<Rightarrow> int \<Rightarrow> byte list option" where
  "rev_region D i j =
     (if i < j then do {
        c \<leftarrow> rdi D i;
        d \<leftarrow> rdi D j;
        D1 \<leftarrow> wri D i d;
        D2 \<leftarrow> wri D1 j c;
        rev_region D2 (i + 1) (j - 1) }
      else Some D)"
  by pat_completeness auto
termination by (relation "measure (\<lambda>(D, i, j). nat (j - i))") auto

declare rev_region.simps [simp del]

lemma rev_region_app:
  "rev_region (A @ B @ C) (int (length A)) (int (length A) + int (length B) - 1)
   = Some (A @ rev B @ C)"
proof (induction "length B" arbitrary: A B C rule: less_induct)
  case less
  show ?case
  proof (cases "length B \<le> 1")
    case True
    then have "B = [] \<or> (\<exists>x. B = [x])" by (cases B) auto
    then show ?thesis by (auto simp: rev_region.simps)
  next
    case False
    then obtain x M y where B: "B = x # M @ [y]"
      by (cases B; simp) (metis append_butlast_last_id)
    have swap: "rev_region ((A @ [y]) @ M @ (x # C)) (int (length (A @ [y])))
       (int (length (A @ [y])) + int (length M) - 1) = Some ((A @ [y]) @ rev M @ (x # C))"
      by (rule less) (simp add: B)
    have r1: "rdi (A @ x # M @ y # C) (int (length A)) = Some x"
      by (simp add: mem_simps)
    have e: "int (length A) + int (length M) + 1 = int (length (A @ x # M))" by simp
    have r2: "rdi (A @ x # M @ y # C) (int (length A) + int (length M) + 1) = Some y"
      unfolding e rdi_int using rd_append [of "A @ x # M" y C] by simp
    have w1: "wri (A @ x # M @ y # C) (int (length A)) y = Some (A @ y # M @ y # C)"
      by (simp add: mem_simps)
    have e': "int (length A) + int (length M) + 1 = int (length (A @ y # M))" by simp
    have w2: "wri (A @ y # M @ y # C) (int (length A) + int (length M) + 1) x
       = Some (A @ y # M @ x # C)"
      unfolding e' wri_int using wr_append [of "A @ y # M" y C x] by simp
    from swap r1 r2 w1 w2 show ?thesis
      by (subst rev_region.simps) (simp add: B algebra_simps)
  qed
qed

definition lts_str_reverse :: "lts_str \<Rightarrow> lts_str option" where
  "lts_str_reverse s = do {
     D \<leftarrow> rev_region (s_data s) 0 (int (s_len s) - 1);
     Some (s\<lparr>s_data := D\<rparr>) }"

text \<open>Reversal stays inside the string and reverses exactly its characters.\<close>

lemma lts_str_reverse_correct:
  assumes "str_ok s"
  shows "lts_str_reverse s = Some (s\<lparr>s_data := rev (chars s) @ drop (s_len s) (s_data s)\<rparr>)"
  using assms rev_region_app [of "[]" "chars s" "drop (s_len s) (s_data s)"]
  by (simp add: lts_str_reverse_def str_split [symmetric])

subsection \<open>Lower case\<close>

definition lower_byte :: "byte \<Rightarrow> byte" where
  "lower_byte c = (if c < 0x41 \<or> c > 0x5A then c else c + 32)"

fun lowercase_loop :: "byte list \<Rightarrow> nat \<Rightarrow> nat \<Rightarrow> byte list option" where
  "lowercase_loop D i 0 = Some D"
| "lowercase_loop D i (Suc k) = do {
     c \<leftarrow> rd D i;
     D' \<leftarrow> (if c < 0x41 \<or> c > 0x5A then Some D else wr D i (c + 32));
     lowercase_loop D' (Suc i) k }"

definition lts_str_lowercase :: "lts_str \<Rightarrow> lts_str option" where
  "lts_str_lowercase s = do {
     D \<leftarrow> lowercase_loop (s_data s) 0 (s_len s);
     Some (s\<lparr>s_data := D\<rparr>) }"

lemma lowercase_loop_app:
  "lowercase_loop (A @ B @ C) (length A) (length B) = Some (A @ map lower_byte B @ C)"
proof (induction B arbitrary: A)
  case Nil
  show ?case by simp
next
  case (Cons b B)
  have "lowercase_loop ((A @ [lower_byte b]) @ B @ C) (length (A @ [lower_byte b])) (length B)
    = Some ((A @ [lower_byte b]) @ map lower_byte B @ C)"
    by (rule Cons)
  then show ?case
    by (auto simp: mem_simps lower_byte_def)
qed

lemma lts_str_lowercase_correct:
  assumes "str_ok s"
  shows "lts_str_lowercase s
    = Some (s\<lparr>s_data := map lower_byte (chars s) @ drop (s_len s) (s_data s)\<rparr>)"
  using assms lowercase_loop_app [of "[]" "chars s" "drop (s_len s) (s_data s)"]
  by (simp add: lts_str_lowercase_def str_split [symmetric])

subsection \<open>Trimming\<close>

definition trim_byte :: "byte \<Rightarrow> bool" where
  "trim_byte c \<longleftrightarrow> c = c_space \<or> c = c_tab \<or> c = c_cr"

fun trim_head :: "byte list \<Rightarrow> nat \<Rightarrow> (byte list \<times> nat) option" where
  "trim_head D 0 = Some (D, 0)"
| "trim_head D (Suc n) = do {
     c \<leftarrow> rd D 0;
     if \<not> trim_byte c then Some (D, Suc n) else trim_head (tl D) n }"

fun trim_tail :: "byte list \<Rightarrow> nat \<Rightarrow> nat option" where
  "trim_tail D 0 = Some 0"
| "trim_tail D (Suc n) = do {
     c \<leftarrow> rd D n;
     if \<not> trim_byte c then Some (Suc n) else trim_tail D n }"

definition lts_str_trim :: "lts_str \<Rightarrow> lts_str option" where
  "lts_str_trim s = do {
     (D, n) \<leftarrow> trim_head (s_data s) (s_len s);
     m \<leftarrow> trim_tail D n;
     Some \<lparr>s_data = D, s_len = m\<rparr> }"

definition trim_spec :: "bstr \<Rightarrow> bstr" where
  "trim_spec cs = rev (dropWhile trim_byte (rev (dropWhile trim_byte cs)))"

lemma trim_head_app:
  "trim_head (B @ C) (length B) =
     Some (dropWhile trim_byte B @ C, length (dropWhile trim_byte B))"
  by (induction B) (auto simp: mem_simps)

lemma trim_tail_app:
  "trim_tail (B @ C) (length B) = Some (length (dropWhile trim_byte (rev B)))"
proof (induction B arbitrary: C rule: rev_induct)
  case Nil
  show ?case by simp
next
  case (snoc b B)
  have "rd (B @ b # C) (length B) = Some b" by (simp add: mem_simps)
  with snoc [of "b # C"] show ?case by auto
qed

lemma take_dropWhile_rev:
  "take (length (dropWhile P (rev B))) B = rev (dropWhile P (rev B))"
proof -
  have "rev B = takeWhile P (rev B) @ dropWhile P (rev B)" by simp
  then have "B = rev (dropWhile P (rev B)) @ rev (takeWhile P (rev B))"
    by (metis rev_append rev_rev_ident)
  then show ?thesis
    by (metis append_eq_conv_conj length_rev)
qed

lemma lts_str_trim_correct:
  assumes "str_ok s"
  shows "\<exists>s'. lts_str_trim s = Some s' \<and> str_ok s' \<and> chars s' = trim_spec (chars s)"
proof -
  let ?C = "drop (s_len s) (s_data s)" and ?B = "dropWhile trim_byte (chars s)"
  have "trim_head (chars s @ ?C) (s_len s) = Some (?B @ ?C, length ?B)"
    using assms trim_head_app [of "chars s" ?C] by simp
  moreover have "length (dropWhile trim_byte (rev ?B)) \<le> length ?B"
    using length_dropWhile_le [of trim_byte "rev ?B"] by simp
  ultimately show ?thesis
    using trim_tail_app [of ?B ?C]
    by (simp add: lts_str_trim_def trim_spec_def str_ok_def str_split [symmetric])
       (simp add: chars_def take_dropWhile_rev)
qed

subsection \<open>Removing a region\<close>

definition lts_str_hollow :: "lts_str \<Rightarrow> int \<Rightarrow> int \<Rightarrow> lts_str option" where
  "lts_str_hollow s start n =
     (if start + n > int (s_len s) then None \<comment> \<open>abort()\<close>
      else do {
        blk \<leftarrow> rdn (s_data s) (start + n) (int (s_len s) - start - n);
        D \<leftarrow> wrn (s_data s) start blk;
        D' \<leftarrow> wri D (int (s_len s) - n) 0;
        Some \<lparr>s_data = D', s_len = nat (int (s_len s) - n)\<rparr> })"

lemma lts_str_hollow_correct:
  assumes "str_ok s" and "k + n \<le> s_len s" and "0 < n"
  shows "\<exists>s'. lts_str_hollow s (int k) (int n) = Some s' \<and> str_ok s' \<and>
     chars s' = take k (chars s) @ drop (k + n) (chars s) \<and>
     drop (s_len s) (s_data s') = drop (s_len s) (s_data s) \<and>
     length (s_data s') = length (s_data s)"
proof -
  define blk where "blk = drop (k + n) (chars s)"
  define D where "D = take k (s_data s) @ blk @ drop (s_len s - n) (s_data s)"
  have len: "length blk = s_len s - k - n" and "s_len s \<le> length (s_data s)"
    using assms by (simp_all add: blk_def str_ok_def)
  have rdn: "rdn (s_data s) (int k + int n) (int (s_len s) - int k - int n) = Some blk"
    using assms by (simp add: rdn_def blk_def chars_def str_ok_def drop_take nat_diff_distrib
        flip: of_nat_add)
  have kl: "k + length blk = s_len s - n" using len assms by simp
  have wrn: "wrn (s_data s) (int k) blk = Some D"
    using assms kl by (simp add: wrn_def D_def str_ok_def)
  have lenD: "length D = length (s_data s)"
    using assms kl by (simp add: D_def str_ok_def)
  have wri: "wri D (int (s_len s) - int n) 0 = Some (D[s_len s - n := 0])"
    using assms lenD by (simp add: str_ok_def wr_def wri_def nat_diff_distrib)
  have chars': "take (s_len s - n) D = take k (chars s) @ blk"
  proof -
    have "take k (chars s) = take k (s_data s)" using assms by (simp add: chars_def min_def)
    moreover have "length (take k (s_data s)) = k" using assms by (simp add: str_ok_def)
    ultimately show ?thesis by (simp add: D_def flip: kl)
  qed
  have "drop (s_len s) D = drop (s_len s) (s_data s)"
    using assms kl len by (simp add: D_def str_ok_def)
  moreover have "lts_str_hollow s (int k) (int n)
      = Some \<lparr>s_data = D[s_len s - n := 0], s_len = s_len s - n\<rparr>"
    using assms rdn wrn wri by (simp add: lts_str_hollow_def flip: of_nat_diff)
  ultimately show ?thesis
    using assms lenD chars' by (simp add: str_ok_def chars_def blk_def)
qed

subsection \<open>Filtering characters out, in place\<close>

text \<open>The scans \<open>for (m = i; m < len; ++m) if (stop(data[m])) break;\<close>\<close>

function scan :: "(byte \<Rightarrow> bool) \<Rightarrow> byte list \<Rightarrow> nat \<Rightarrow> nat \<Rightarrow> nat option" where
  "scan stop D n m =
     (if m < n then do { b \<leftarrow> rd D m; if stop b then Some m else scan stop D n (Suc m) }
      else Some m)"
  by pat_completeness auto
termination by (relation "measure (\<lambda>(stop, D, n, m). n - m)") auto

declare scan.simps [simp del]

text \<open>The first loop: the number of bytes to remove.\<close>

fun count_loop :: "(byte \<Rightarrow> bool) \<Rightarrow> byte list \<Rightarrow> nat \<Rightarrow> nat \<Rightarrow> nat option" where
  "count_loop p D i 0 = Some 0"
| "count_loop p D i (Suc k) = do {
     b \<leftarrow> rd D i;
     r \<leftarrow> count_loop p D (Suc i) k;
     Some ((if p b then 1 else 0) + r) }"

text \<open>
  The main loop \<open>while (TRUE)\<close>: \<open>i\<close> is the start of the block of removed bytes met so
  far.  The run of kept bytes \<open>m..j\<close> behind the block is moved in front of it by two
  reversals.  The code has no bound on the loop, so the model is a \<open>partial_function\<close>;
  \<open>filter_loop_correct\<close> shows that it returns.
\<close>

partial_function (option) filter_loop ::
  "(byte \<Rightarrow> bool) \<Rightarrow> byte list \<Rightarrow> nat \<Rightarrow> nat \<Rightarrow> nat \<Rightarrow> (byte list \<times> nat) option" where
  "filter_loop p D len c_count i = do {
     m \<leftarrow> scan (\<lambda>b. \<not> p b) D len i;
     if m = len then do {
       D' \<leftarrow> wri D (int len - int c_count) 0;
       Some (D', len - c_count) }
     else do {
       j1 \<leftarrow> scan p D len m;
       D1 \<leftarrow> rev_region D (int m) (int j1 - 1);
       D2 \<leftarrow> rev_region D1 (int i) (int j1 - 1);
       filter_loop p D2 len c_count (i + (j1 - m)) } }"

declare filter_loop.simps [code]

definition filter_core :: "(byte \<Rightarrow> bool) \<Rightarrow> lts_str \<Rightarrow> (lts_str \<times> nat) option" where
  "filter_core p s = do {
     c_count \<leftarrow> count_loop p (s_data s) 0 (s_len s);
     if c_count = 0 then Some (s, 0)
     else do {
       i \<leftarrow> scan p (s_data s) (s_len s) 0;
       (D, n) \<leftarrow> filter_loop p (s_data s) (s_len s) c_count i;
       Some (\<lparr>s_data = D, s_len = n\<rparr>, c_count) } }"

definition lts_str_filter :: "lts_str \<Rightarrow> byte \<Rightarrow> (lts_str \<times> nat) option" where
  "lts_str_filter s c = filter_core (\<lambda>b. c = b) s"

definition charmap_of :: "bstr \<Rightarrow> charmap" where
  "charmap_of cs = fold (\<lambda>c cm. charmap_set cm c) cs charmap_clean"

definition lts_str_filter_multi :: "lts_str \<Rightarrow> bstr \<Rightarrow> (lts_str \<times> nat) option" where
  "lts_str_filter_multi s cs = filter_core (charmap_isset (charmap_of cs)) s"

lemma scan_app:
  "scan stop (A @ B @ C) (length A + length B) (length A)
   = Some (length A + length (takeWhile (\<lambda>b. \<not> stop b) B))"
proof (induction B arbitrary: A)
  case Nil
  show ?case by (simp add: scan.simps)
next
  case (Cons b B)
  show ?case
  proof (cases "stop b")
    case True
    then show ?thesis by (subst scan.simps) (simp add: mem_simps)
  next
    case False
    have "scan stop ((A @ [b]) @ B @ C) (length (A @ [b]) + length B) (length (A @ [b]))
      = Some (length (A @ [b]) + length (takeWhile (\<lambda>b. \<not> stop b) B))"
      by (rule Cons)
    with False show ?thesis by (subst scan.simps) (simp add: mem_simps)
  qed
qed

lemma count_loop_app:
  "count_loop p (A @ B @ C) (length A) (length B) = Some (length (filter p B))"
proof (induction B arbitrary: A)
  case Nil
  show ?case by simp
next
  case (Cons b B)
  have "count_loop p ((A @ [b]) @ B @ C) (length (A @ [b])) (length B) = Some (length (filter p B))"
    by (rule Cons)
  then show ?case by (simp add: mem_simps)
qed

text \<open>
  The loop invariant, as a statement about the loop started in the middle: \<open>K\<close> are the
  kept bytes already in place, \<open>X\<close> the block of removed bytes, \<open>R\<close> the rest of the
  string and \<open>T\<close> the memory behind it.
\<close>

lemma filter_loop_correct:
  assumes "\<forall>b\<in>set X. p b" and "cc = length X + length (filter p R)" and "0 < cc"
    and "len = length K + length X + length R"
  shows "\<exists>D. filter_loop p (K @ X @ R @ T) len cc (length K)
          = Some (D, length K + length (filter (\<lambda>b. \<not> p b) R)) \<and>
        take (len - cc) D = K @ filter (\<lambda>b. \<not> p b) R \<and> D ! (len - cc) = 0 \<and>
        drop len D = T \<and> length D = len + length T"
  using assms
proof (induction "length R" arbitrary: K X R rule: less_induct)
  case less
  define P where "P = takeWhile p R"
  define R1 where "R1 = dropWhile p R"
  have R: "R = P @ R1" by (simp add: P_def R1_def)
  have XP: "\<forall>b\<in>set (X @ P). p b" using less.prems(1) by (auto simp: P_def dest: set_takeWhileD)
  have tw: "takeWhile p (X @ R) = X @ P"
    using less.prems(1) by (simp add: P_def)
  have m: "scan (\<lambda>b. \<not> p b) (K @ X @ R @ T) len (length K) = Some (length K + length (X @ P))"
    using scan_app [of "\<lambda>b. \<not> p b" K "X @ R" T] less.prems(4) tw by (simp add: ac_simps)
  have fP: "filter (\<lambda>b. \<not> p b) P = []" and fP': "filter p P = P"
    using XP by (auto simp: filter_empty_conv filter_id_conv)
  show ?case
  proof (cases "R1 = []")
    case True
    then have cc: "cc = length (X @ P)" and len: "len = length K + cc"
      using less.prems R fP' by auto
    obtain y Y where Y: "X @ P = y # Y" using cc less.prems(3) by (cases "X @ P") auto
    have D: "K @ X @ R @ T = K @ y # Y @ T" using R True Y by (metis append.assoc append_Cons append_Nil2)
    have "filter_loop p (K @ X @ R @ T) len cc (length K) = Some (K @ 0 # Y @ T, length K)"
      using m cc len by (subst filter_loop.simps) (simp add: D mem_simps)
    then show ?thesis
      using R True fP len cc Y by simp
  next
    case False
    then obtain r R2 where R1: "R1 = r # R2" by (cases R1) auto
    define N where "N = takeWhile (\<lambda>b. \<not> p b) R1"
    define R3 where "R3 = dropWhile (\<lambda>b. \<not> p b) R1"
    have "\<not> p r" using R1 unfolding R1_def by (rule dropWhile_head)
    then have N0: "N \<noteq> []" by (simp add: N_def R1)
    have R1s: "R1 = N @ R3" by (simp add: N_def R3_def)
    have Nk: "\<forall>b\<in>set N. \<not> p b" by (auto simp: N_def dest: set_takeWhileD)
    have len: "len = length (K @ X @ P) + length R1" using less.prems(4) R by simp
    have j: "scan p (K @ X @ R @ T) len (length K + length (X @ P)) = Some (length (K @ X @ P) + length N)"
      using scan_app [of p "K @ X @ P" R1 T] len R by (simp add: N_def ac_simps)
    have ne: "length K + length (X @ P) \<noteq> len" using len R1 by simp
    have r1: "rev_region (K @ X @ R @ T) (int (length K + length (X @ P)))
        (int (length (K @ X @ P) + length N) - 1) = Some (K @ X @ P @ rev N @ R3 @ T)"
      using rev_region_app [of "K @ X @ P" N "R3 @ T"] R R1s by (simp add: ac_simps)
    have r2: "rev_region (K @ X @ P @ rev N @ R3 @ T) (int (length K))
        (int (length (K @ X @ P) + length N) - 1) = Some (K @ N @ rev (X @ P) @ R3 @ T)"
      using rev_region_app [of K "X @ P @ rev N" "R3 @ T"] by (simp add: ac_simps)
    have step: "filter_loop p (K @ X @ R @ T) len cc (length K)
      = filter_loop p ((K @ N) @ rev (X @ P) @ R3 @ T) len cc (length (K @ N))"
      using m j ne r1 r2 by (subst filter_loop.simps) (simp add: ac_simps)
    have fn: "filter (\<lambda>b. \<not> p b) R = N @ filter (\<lambda>b. \<not> p b) R3"
      and fp: "filter p R = P @ filter p R3"
      using R R1s fP fP' Nk by (auto simp: filter_empty_conv filter_id_conv)
    have "\<exists>D. filter_loop p ((K @ N) @ rev (X @ P) @ R3 @ T) len cc (length (K @ N))
          = Some (D, length (K @ N) + length (filter (\<lambda>b. \<not> p b) R3)) \<and>
        take (len - cc) D = (K @ N) @ filter (\<lambda>b. \<not> p b) R3 \<and> D ! (len - cc) = 0 \<and>
        drop len D = T \<and> length D = len + length T"
    proof (rule less.hyps)
      show "length R3 < length R" using R R1s N0 by simp
      show "\<forall>b\<in>set (rev (X @ P)). p b" using XP by auto
      show "cc = length (rev (X @ P)) + length (filter p R3)" using less.prems(2) fp by simp
      show "len = length (K @ N) + length (rev (X @ P)) + length R3" using len R1s by simp
    qed (rule less.prems(3))
    then show ?thesis unfolding step fn by (simp add: add.assoc)
  qed
qed

text \<open>
  The two filters agree with the reference definition \<open>filter\<close>: the characters that are
  kept stay in order, the count is the number removed, a NUL follows the shortened string
  and the memory behind the old string is untouched.
\<close>

lemma filter_core_correct:
  assumes "str_ok s"
  shows "\<exists>s'. filter_core p s = Some (s', length (filter p (chars s))) \<and> str_ok s' \<and>
     chars s' = filter (\<lambda>b. \<not> p b) (chars s) \<and>
     length (s_data s') = length (s_data s) \<and>
     drop (s_len s) (s_data s') = drop (s_len s) (s_data s) \<and>
     (s_len s' < s_len s \<longrightarrow> s_data s' ! s_len s' = 0)"
proof -
  let ?B = "chars s" and ?C = "drop (s_len s) (s_data s)"
  let ?cc = "length (filter p ?B)"
  have cnt: "count_loop p (s_data s) 0 (s_len s) = Some ?cc"
    using assms count_loop_app [of p "[]" ?B ?C] by (simp add: str_split [symmetric])
  show ?thesis
  proof (cases "?cc = 0")
    case True
    then have "filter (\<lambda>b. \<not> p b) ?B = ?B"
      by (simp add: filter_empty_conv filter_id_conv)
    then show ?thesis
      using True cnt assms by (simp add: filter_core_def)
  next
    case False
    define K where "K = takeWhile (\<lambda>b. \<not> p b) ?B"
    define R where "R = dropWhile (\<lambda>b. \<not> p b) ?B"
    have B: "?B = K @ R" by (simp add: K_def R_def)
    have Kk: "filter (\<lambda>b. \<not> p b) K = K" "filter p K = []"
      by (auto simp: K_def filter_id_conv filter_empty_conv dest: set_takeWhileD)
    have i: "scan p (s_data s) (s_len s) 0 = Some (length K)"
      using assms scan_app [of p "[]" ?B ?C] by (simp add: K_def str_split [symmetric])
    have len: "s_len s = length K + length R" using assms B length_chars [of s] by simp
    have cc: "?cc = length (filter p R)" using B Kk by simp
    have mem: "s_data s = K @ [] @ R @ ?C"
      using str_split [of s] B by simp
    obtain D where D: "filter_loop p (K @ [] @ R @ ?C) (s_len s) ?cc (length K)
          = Some (D, length K + length (filter (\<lambda>b. \<not> p b) R))"
      and D': "take (s_len s - ?cc) D = K @ filter (\<lambda>b. \<not> p b) R" "D ! (s_len s - ?cc) = 0"
        "drop (s_len s) D = ?C" "length D = s_len s + length ?C"
      using filter_loop_correct [of "[]" p ?cc R "s_len s" K ?C] False len cc by auto
    have n: "length K + length (filter (\<lambda>b. \<not> p b) R) = s_len s - ?cc"
      using len cc sum_length_filter_compl [of p R] by simp
    have "filter_core p s = Some (\<lparr>s_data = D, s_len = s_len s - ?cc\<rparr>, ?cc)"
      using cnt i False D [folded mem] n by (simp add: filter_core_def)
    then show ?thesis
      using D' assms B Kk by (simp add: str_ok_def chars_def)
  qed
qed

lemma charmap_of_isset [simp]: "charmap_isset (charmap_of cs) b \<longleftrightarrow> b \<in> set cs"
proof -
  have "length (fold (\<lambda>c cm. charmap_set cm c) cs cm) = length cm" for cm
    by (induction cs arbitrary: cm) auto
  have "charmap_isset (fold (\<lambda>c cm. charmap_set cm c) cs cm) b \<longleftrightarrow> b \<in> set cs \<or> charmap_isset cm b"
    if "length cm = 32" for cm
    using that by (induction cs arbitrary: cm) auto
  then show ?thesis by (simp add: charmap_of_def)
qed

section \<open>Comparison\<close>

fun cmp_common :: "bstr \<Rightarrow> bstr \<Rightarrow> int" where
  "cmp_common (x # xs) (y # ys) =
     (let r = uint x - uint y in if r \<noteq> 0 then r else cmp_common xs ys)"
| "cmp_common _ _ = 0"

definition lts_str_compare :: "bstr \<Rightarrow> bstr \<Rightarrow> int" where
  "lts_str_compare a b =
     (let r = cmp_common a b; i = min (length a) (length b) in
      if r \<noteq> 0 \<or> length a = length b then r
      else if length b < length a then uint (a ! i) else - uint (b ! i))"

text \<open>The order the comparison stands for: lexicographic on the unsigned bytes.\<close>

fun lex_less :: "bstr \<Rightarrow> bstr \<Rightarrow> bool" where
  "lex_less _ [] \<longleftrightarrow> False"
| "lex_less [] (_ # _) \<longleftrightarrow> True"
| "lex_less (x # xs) (y # ys) \<longleftrightarrow> x < y \<or> x = y \<and> lex_less xs ys"

lemma compare_simps [simp]:
  "lts_str_compare [] [] = 0"
  "lts_str_compare (x # xs) [] = uint x"
  "lts_str_compare [] (y # ys) = - uint y"
  "lts_str_compare (x # xs) (y # ys) = (if x = y then lts_str_compare xs ys else uint x - uint y)"
  by (auto simp: lts_str_compare_def Let_def)

lemma lts_str_compare_self [simp]: "lts_str_compare a a = 0"
  by (induction a) auto

lemma lts_str_compare_sign:
  assumes "0 \<notin> set a" and "0 \<notin> set b"
  shows "lts_str_compare a b < 0 \<longleftrightarrow> lex_less a b"
    and "lts_str_compare a b = 0 \<longleftrightarrow> a = b"
  using assms
proof (induction a b rule: lex_less.induct)
  case (3 x xs y ys)
  { case 1 then show ?case using 3 by (auto simp: word_less_def) }
  { case 2 then show ?case using 3 by auto }
next
  case (1 a)
  { case 1 then show ?case by (cases a) auto }
  { case 2 then show ?case by (cases a) (auto simp: uint_0_iff) }
next
  case (2 b bs)
  { case 1 then show ?case using uint_eq_iff [of b 0] by (auto simp: less_le) }
  { case 2 then show ?case using uint_eq_iff [of b 0] by auto }
qed

lemma lex_less_irrefl [simp]: "\<not> lex_less a a"
  by (induction a) auto

lemma lex_less_trans: "lex_less a b \<Longrightarrow> lex_less b c \<Longrightarrow> lex_less a c"
  by (induction a c arbitrary: b rule: lex_less.induct; case_tac b; auto)

lemma lex_less_linear: "lex_less a b \<or> a = b \<or> lex_less b a"
proof (induction a b rule: lex_less.induct)
  case (1 xs)
  show ?case by (cases xs) auto
qed auto

lemma lex_less_asym: "lex_less a b \<Longrightarrow> \<not> lex_less b a"
  using lex_less_trans lex_less_irrefl by blast

section \<open>Properties\<close>

text \<open>\<open>lts_str_filter_multi\<close> removes exactly the listed characters in place, keeps the others in
  order, returns how many it removed, terminates the shortened string and touches nothing behind
  the old end.\<close>

theorem filter_multi_removes:
  assumes "str_ok s"
  shows "\<exists>s'. lts_str_filter_multi s cs = Some (s', length (filter (\<lambda>b. b \<in> set cs) (chars s))) \<and>
    chars s' = filter (\<lambda>b. b \<notin> set cs) (chars s) \<and> str_ok s' \<and>
    (s_len s' < s_len s \<longrightarrow> s_data s' ! s_len s' = 0) \<and>
    drop (s_len s) (s_data s') = drop (s_len s) (s_data s)"
proof -
  have "charmap_isset (charmap_of cs) = (\<lambda>b. b \<in> set cs)" by (intro ext) simp
  then show ?thesis using filter_core_correct [OF assms, of "charmap_isset (charmap_of cs)"]
    by (auto simp: lts_str_filter_multi_def)
qed

lemma filter_multi_removes_witness:
  "\<exists>s'. lts_str_filter_multi \<lparr>s_data = [0x20, 0x61, 0x09, 0x62, 0x7A], s_len = 4\<rparr> [0x20, 0x09] = Some (s', 2) \<and>
    chars s' = [0x61, 0x62]"
  using filter_multi_removes [of "\<lparr>s_data = [0x20, 0x61, 0x09, 0x62, 0x7A], s_len = 4\<rparr>" "[0x20, 0x09]"]
  by (auto simp: str_ok_def chars_def)

text \<open>\<open>lts_str_compare\<close> decides the lexicographic order of the bytes for strings without NUL,
  so it orders the keys of a JSON object totally.\<close>

theorem compare_is_lexicographic:
  assumes "0 \<notin> set a" and "0 \<notin> set b"
  shows "(lts_str_compare a b < 0 \<longleftrightarrow> lex_less a b) \<and> (lts_str_compare a b = 0 \<longleftrightarrow> a = b) \<and>
    (lts_str_compare a b > 0 \<longleftrightarrow> lex_less b a)"
  using lts_str_compare_sign [OF assms] lex_less_linear [of a b] lex_less_asym by force

lemma compare_is_lexicographic_witness:
  "lts_str_compare [0x61] [0x61, 0x62] < 0 \<and> lex_less [0x61] [0x61, 0x62]"
  using compare_is_lexicographic [of "[0x61]" "[0x61, 0x62]"] by simp

text \<open>\<open>lts_str_trim\<close> strips the blanks, tabs and carriage returns of both ends and nothing else,
  without writing to the buffer.\<close>

theorem trim_strips_ends:
  assumes "str_ok s"
  shows "\<exists>s'. lts_str_trim s = Some s' \<and> str_ok s' \<and>
    chars s' = rev (dropWhile trim_byte (rev (dropWhile trim_byte (chars s))))"
  using lts_str_trim_correct [OF assms] by (simp add: trim_spec_def)

lemma trim_strips_ends_witness:
  "\<exists>s'. lts_str_trim \<lparr>s_data = [0x20, 0x61, 0x20, 0x62, 0x0D, 0x0A], s_len = 5\<rparr> = Some s' \<and> chars s' = [0x61, 0x20, 0x62]"
  using trim_strips_ends [of "\<lparr>s_data = [0x20, 0x61, 0x20, 0x62, 0x0D, 0x0A], s_len = 5\<rparr>"]
  by (auto simp: str_ok_def chars_def trim_byte_def)

end
