(* ===== verification/Base64.thy ===== *)
theory Base64
  imports AdvString
begin

unbundle bit_operations_syntax

text \<open>
  \<open>src/base64.c\<close> and the two wrappers of \<open>src/adv_string.c\<close>: the encoder and the decoder write
  through an output pointer into a caller's buffer; every store is a checked \<open>wr\<close>, so \<open>None\<close>
  is a write behind the buffer (or a read behind the input).  \<open>char\<close> is signed: an input byte
  enters the encoder's expressions sign-extended to \<open>int\<close>.

  The specification is \<open>enc64\<close>; the results are that the encoder writes exactly \<open>enc64\<close> and a
  NUL when the buffer has \<open>base64_encode_len\<close> bytes, and that the decoder inverts it within
  \<open>base64_decode_len\<close> bytes.
\<close>

section \<open>The two tables\<close>

definition basis_64 :: bstr where
  "basis_64 = lit ''ABCDEFGHIJKLMNOPQRSTUVWXYZabcdefghijklmnopqrstuvwxyz0123456789+/''"

definition pr2six :: "byte list" where
  "pr2six =
    [64, 64, 64, 64, 64, 64, 64, 64, 64, 64, 64, 64, 64, 64, 64, 64,
     64, 64, 64, 64, 64, 64, 64, 64, 64, 64, 64, 64, 64, 64, 64, 64,
     64, 64, 64, 64, 64, 64, 64, 64, 64, 64, 64, 62, 64, 64, 64, 63,
     52, 53, 54, 55, 56, 57, 58, 59, 60, 61, 64, 64, 64, 64, 64, 64,
     64,  0,  1,  2,  3,  4,  5,  6,  7,  8,  9, 10, 11, 12, 13, 14,
     15, 16, 17, 18, 19, 20, 21, 22, 23, 24, 25, 64, 64, 64, 64, 64,
     64, 26, 27, 28, 29, 30, 31, 32, 33, 34, 35, 36, 37, 38, 39, 40,
     41, 42, 43, 44, 45, 46, 47, 48, 49, 50, 51, 64, 64, 64, 64, 64]
    @ replicate 128 64"

definition six :: "byte \<Rightarrow> byte" where
  "six c = pr2six ! unat c"

section \<open>The encoder\<close>

text \<open>\<open>*p++ = v\<close> on a buffer.\<close>

definition put :: "byte \<Rightarrow> byte list \<times> nat \<Rightarrow> (byte list \<times> nat) option" where
  "put v bp = do { b \<leftarrow> wr (fst bp) (snd bp) v; Some (b, Suc (snd bp)) }"

text \<open>An element of \<open>basis_64\<close> at an \<open>int\<close> index, and a \<open>char\<close> promoted to \<open>int\<close>.\<close>

definition b64char :: "32 word \<Rightarrow> byte option" where
  "b64char x = rd basis_64 (unat x)"

definition sx :: "byte \<Rightarrow> 32 word" where
  "sx c = signed c"

text \<open>The index expressions of the encoder, in the order of its lines; the last two are those of
  the incomplete group.\<close>

definition ix1 :: "byte \<Rightarrow> 32 word" where
  "ix1 a = signed_drop_bit 2 (sx a) AND 0x3F"

definition ix2 :: "byte \<Rightarrow> byte \<Rightarrow> 32 word" where
  "ix2 a b = push_bit 4 (sx a AND 0x3) OR signed_drop_bit 4 (sx b AND 0xF0)"

definition ix3 :: "byte \<Rightarrow> byte \<Rightarrow> 32 word" where
  "ix3 b c = push_bit 2 (sx b AND 0xF) OR signed_drop_bit 6 (sx c AND 0xC0)"

definition ix4 :: "byte \<Rightarrow> 32 word" where
  "ix4 c = sx c AND 0x3F"

definition ix2e :: "byte \<Rightarrow> 32 word" where
  "ix2e a = push_bit 4 (sx a AND 0x3)"

definition ix3e :: "byte \<Rightarrow> 32 word" where
  "ix3e b = push_bit 2 (sx b AND 0xF)"

definition base64_encode_len :: "int \<Rightarrow> int" where
  "base64_encode_len len = (if len > 0 then c_div (len + 2) 3 * 4 + 1 else 0)"

function encode_loop :: "byte list \<Rightarrow> int \<Rightarrow> int \<Rightarrow> byte list \<times> nat \<Rightarrow> ((byte list \<times> nat) \<times> int) option" where
  "encode_loop src len i p =
     (if i < len - 2 then do {
        a \<leftarrow> rdi src i; b \<leftarrow> rdi src (i + 1); c \<leftarrow> rdi src (i + 2);
        q1 \<leftarrow> b64char (ix1 a);
        q2 \<leftarrow> b64char (ix2 a b);
        q3 \<leftarrow> b64char (ix3 b c);
        q4 \<leftarrow> b64char (ix4 c);
        p \<leftarrow> put q1 p; p \<leftarrow> put q2 p; p \<leftarrow> put q3 p; p \<leftarrow> put q4 p;
        encode_loop src len (i + 3) p }
      else Some (p, i))"
  by pat_completeness auto
termination by (relation "measure (\<lambda>(src, len, i, p). nat (len - i))") auto

declare encode_loop.simps [simp del]

text \<open>The one or two bytes behind the last triple, and the NUL.\<close>

definition encode_tail :: "byte list \<Rightarrow> int \<Rightarrow> byte list \<times> nat \<Rightarrow> int \<Rightarrow> (byte list \<times> nat) option" where
  "encode_tail src len p i = do {
     p \<leftarrow> (if i < len then do {
             a \<leftarrow> rdi src i;
             q1 \<leftarrow> b64char (ix1 a);
             p \<leftarrow> put q1 p;
             p \<leftarrow> (if i = len - 1 then do {
                     q2 \<leftarrow> b64char (ix2e a);
                     p \<leftarrow> put q2 p;
                     put c_eq p }
                   else do {
                     b \<leftarrow> rdi src (i + 1);
                     q2 \<leftarrow> b64char (ix2 a b);
                     p \<leftarrow> put q2 p;
                     q3 \<leftarrow> b64char (ix3e b);
                     put q3 p });
             put c_eq p }
           else Some p);
     put 0 p }"

definition base64_encode :: "byte list \<Rightarrow> byte list \<Rightarrow> int \<Rightarrow> (byte list \<times> int) option" where
  "base64_encode buf src len = do {
     (p, i) \<leftarrow> encode_loop src len 0 (buf, 0);
     p \<leftarrow> encode_tail src len p i;
     Some (fst p, int (snd p)) }"

section \<open>The decoder\<close>

function b64_span :: "byte list \<Rightarrow> nat \<Rightarrow> nat option" where
  "b64_span src i =
     (if i < length src then if six (src ! i) \<le> 63 then b64_span src (Suc i) else Some i
      else None)"
  by pat_completeness auto
termination by (relation "measure (\<lambda>(src, i). length src - i)") auto

declare b64_span.simps [simp del]

definition base64_decode_len :: "byte list \<Rightarrow> int option" where
  "base64_decode_len src = do {
     n \<leftarrow> b64_span src 0;
     Some (c_div (int n + 3) 4 * 3 + 1) }"

definition dec1 :: "byte \<Rightarrow> byte \<Rightarrow> byte" where
  "dec1 a b = push_bit 2 (six a) OR drop_bit 4 (six b)"

definition dec2 :: "byte \<Rightarrow> byte \<Rightarrow> byte" where
  "dec2 b c = push_bit 4 (six b) OR drop_bit 2 (six c)"

definition dec3 :: "byte \<Rightarrow> byte \<Rightarrow> byte" where
  "dec3 c d = push_bit 6 (six c) OR six d"

function decode_loop :: "byte list \<Rightarrow> nat \<Rightarrow> int \<Rightarrow> byte list \<times> nat
    \<Rightarrow> ((byte list \<times> nat) \<times> nat \<times> int) option" where
  "decode_loop src i n p =
     (if n > 4 then do {
        a \<leftarrow> rd src i; b \<leftarrow> rd src (i + 1); c \<leftarrow> rd src (i + 2); d \<leftarrow> rd src (i + 3);
        p \<leftarrow> put (dec1 a b) p; p \<leftarrow> put (dec2 b c) p; p \<leftarrow> put (dec3 c d) p;
        decode_loop src (i + 4) (n - 4) p }
      else Some (p, i, n))"
  by pat_completeness auto
termination by (relation "measure (\<lambda>(src, i, n, p). nat n)") auto

declare decode_loop.simps [simp del]

definition decode_tail :: "byte list \<Rightarrow> byte list \<times> nat \<Rightarrow> nat \<Rightarrow> int \<Rightarrow> (byte list \<times> nat) option" where
  "decode_tail src p i n = do {
     p \<leftarrow> (if n > 1 then do { a \<leftarrow> rd src i; b \<leftarrow> rd src (i + 1); put (dec1 a b) p } else Some p);
     p \<leftarrow> (if n > 2 then do { b \<leftarrow> rd src (i + 1); c \<leftarrow> rd src (i + 2); put (dec2 b c) p } else Some p);
     p \<leftarrow> (if n > 3 then do { c \<leftarrow> rd src (i + 2); d \<leftarrow> rd src (i + 3); put (dec3 c d) p } else Some p);
     put 0 p }"

definition base64_decode :: "byte list \<Rightarrow> byte list \<Rightarrow> (byte list \<times> int) option" where
  "base64_decode buf src = do {
     nprbytes \<leftarrow> b64_span src 0;
     let nbytesdecoded = c_div (int nprbytes + 3) 4 * 3;
     (p, i, n) \<leftarrow> decode_loop src 0 (int nprbytes) (buf, 0);
     p \<leftarrow> decode_tail src p i n;
     Some (fst p, nbytesdecoded - ((4 - n) AND 3)) }"

text \<open>The wrappers: \<open>junk\<close> is the fresh pool memory, of the size the code asks for.\<close>

definition lts_str_base64_en2 :: "byte list \<Rightarrow> lts_str \<Rightarrow> lts_str option" where
  "lts_str_base64_en2 junk src = do {
     (b, _) \<leftarrow> base64_encode (take (nat (base64_encode_len (int (s_len src)))) junk)
                (s_data src) (int (s_len src));
     Some \<lparr> s_data = b, s_len = nat (base64_encode_len (int (s_len src)) - 1) \<rparr> }"

definition lts_str_base64_de2 :: "byte list \<Rightarrow> lts_str \<Rightarrow> lts_str option" where
  "lts_str_base64_de2 junk src = do {
     dl \<leftarrow> base64_decode_len (s_data src);
     (b, _) \<leftarrow> base64_decode (take (nat dl) junk) (s_data src);
     Some \<lparr> s_data = b, s_len = nat (dl - 1) \<rparr> }"

section \<open>Bit facts\<close>

named_theorems b64_bits \<open>the encoder's expressions, as bytes\<close>

lemma b64_masks: "(3::'a::len word) = mask 2" "(0xF::'a::len word) = mask 4"
  "(0x3F::'a::len word) = mask 6" "(0xF0::32 word) = push_bit 4 (mask 4)"
  "(0xC0::32 word) = push_bit 6 (mask 2)"
  by (simp_all add: mask_eq_exp_minus_1)

lemma bit_byte_bound: "bit (a::byte) n \<Longrightarrow> n < 8"
  using bit_imp_le_length [of a n] by simp

lemma less8: "(n::nat) < 8 \<longleftrightarrow> n = 0 \<or> n = 1 \<or> n = 2 \<or> n = 3 \<or> n = 4 \<or> n = 5 \<or> n = 6 \<or> n = 7"
  by arith

lemma byte_eqI:
  assumes "\<And>n. n = 0 \<or> n = 1 \<or> n = 2 \<or> n = 3 \<or> n = 4 \<or> n = 5 \<or> n = 6 \<or> n = 7
    \<Longrightarrow> bit a n = bit b n"
  shows "a = (b::byte)"
proof (rule bit_word_eqI)
  fix n assume "n < LENGTH(8)"
  then have "n < 8" by simp
  then show "bit a n = bit b n" unfolding less8 by (rule assms)
qed

lemma word32_eq_byte:
  assumes "\<And>n. n < 8 \<Longrightarrow> bit a n = bit b n" and "\<And>n. 8 \<le> n \<Longrightarrow> \<not> bit (a::32 word) n"
  shows "a = ucast (b::byte)"
proof (rule bit_word_eqI)
  fix n assume "n < LENGTH(32)"
  then show "bit a n = bit (ucast b :: 32 word) n"
    using assms(1) [of n] assms(2) [of n] bit_byte_bound [of b n]
    by (cases "n < 8") (auto simp: bit_simps)
qed

text \<open>The same four sextets as bytes.\<close>

definition x1 :: "byte \<Rightarrow> byte" where
  "x1 a = drop_bit 2 a"

definition x2 :: "byte \<Rightarrow> byte \<Rightarrow> byte" where
  "x2 a b = push_bit 4 (a AND 3) OR drop_bit 4 b"

definition x3 :: "byte \<Rightarrow> byte \<Rightarrow> byte" where
  "x3 b c = push_bit 2 (b AND 0xF) OR drop_bit 6 c"

definition x4 :: "byte \<Rightarrow> byte" where
  "x4 c = c AND 0x3F"

lemma ix1_x1 [b64_bits]: "ix1 a = ucast (x1 a)"
  unfolding ix1_def x1_def b64_masks sx_def
  by (rule word32_eq_byte) (auto simp: bit_simps less8 dest: bit_byte_bound)

lemma ix2_x2 [b64_bits]: "ix2 a b = ucast (x2 a b)"
  unfolding ix2_def x2_def b64_masks sx_def
proof (rule word32_eq_byte, goal_cases)
  case (1 n)
  then show ?case unfolding less8 by (elim disjE) (auto simp: bit_simps dest: bit_byte_bound)
next
  case (2 n)
  then show ?case by (auto simp: bit_simps dest: bit_byte_bound)
qed

lemma ix3_x3 [b64_bits]: "ix3 b c = ucast (x3 b c)"
  unfolding ix3_def x3_def b64_masks sx_def
proof (rule word32_eq_byte, goal_cases)
  case (1 n)
  then show ?case unfolding less8 by (elim disjE) (auto simp: bit_simps dest: bit_byte_bound)
next
  case (2 n)
  then show ?case by (auto simp: bit_simps dest: bit_byte_bound)
qed

lemma ix4_x4 [b64_bits]: "ix4 c = ucast (x4 c)"
  unfolding ix4_def x4_def b64_masks sx_def
  by (rule word32_eq_byte) (auto simp: bit_simps less8 dest: bit_byte_bound)

lemma ix2e_x2 [b64_bits]: "ix2e a = ucast (x2 a 0)"
  using ix2_x2 [of a 0] by (simp add: ix2_def ix2e_def sx_def)

lemma ix3e_x3 [b64_bits]: "ix3e b = ucast (x3 b 0)"
  using ix3_x3 [of b 0] by (simp add: ix3_def ix3e_def sx_def)

text \<open>Four sextets hold the three bytes.\<close>

lemma triple1: "push_bit 2 (x1 a) OR drop_bit 4 (x2 a b) = a"
  unfolding x1_def x2_def b64_masks
  by (rule byte_eqI) (elim disjE; auto simp: bit_simps dest: bit_byte_bound)

lemma triple2: "push_bit 4 (x2 a b) OR drop_bit 2 (x3 b c) = b"
  unfolding x2_def x3_def b64_masks
  by (rule byte_eqI) (elim disjE; auto simp: bit_simps dest: bit_byte_bound)

lemma triple3: "push_bit 6 (x3 b c) OR x4 c = c"
  unfolding x3_def x4_def b64_masks
  by (rule byte_eqI) (elim disjE; auto simp: bit_simps dest: bit_byte_bound)

section \<open>The specification\<close>

definition s64 :: "byte \<Rightarrow> byte" where
  "s64 x = basis_64 ! unat x"

fun enc64 :: "bstr \<Rightarrow> bstr" where
  "enc64 (a # b # c # r) = s64 (x1 a) # s64 (x2 a b) # s64 (x3 b c) # s64 (x4 c) # enc64 r"
| "enc64 [a, b] = [s64 (x1 a), s64 (x2 a b), s64 (x3 b 0), c_eq]"
| "enc64 [a] = [s64 (x1 a), s64 (x2 a 0), c_eq, c_eq]"
| "enc64 [] = []"

lemma length_basis_64 [simp]: "length basis_64 = 64"
  by (simp add: basis_64_def lit_def)

lemma length_enc64: "length (enc64 xs) = (length xs + 2) div 3 * 4"
proof (induction xs rule: enc64.induct)
  case (1 a b c r)
  have "(length r + 2 + 1 * 3) div 3 = (length r + 2) div 3 + 1"
    by (simp only: div_mult_self1 [of 3 "length r + 2" 1] mult_1 mult.commute)
  with 1 show ?case by (simp add: algebra_simps)
qed simp_all

lemma unat_less_64: "take_bit 6 x = (x::byte) \<Longrightarrow> unat x < 64"
proof -
  have "unat (take_bit 6 x) < 2 ^ 6" unfolding unsigned_take_bit_eq by (rule take_bit_nat_less_exp)
  then show "take_bit 6 x = x \<Longrightarrow> unat x < 64" by simp
qed

lemma sextets_small [simp]: "unat (x1 a) < 64" "unat (x2 a b) < 64" "unat (x3 b c) < 64" "unat (x4 c) < 64"
  unfolding x1_def x2_def x3_def x4_def b64_masks
  by (rule unat_less_64, rule bit_word_eqI, auto simp: bit_simps dest: bit_byte_bound)+

lemma b64char_s64 [b64_bits]: "unat x < 64 \<Longrightarrow> b64char (ucast (x::byte)) = Some (s64 x)"
proof -
  assume "unat x < 64"
  moreover have "unat (ucast x :: 32 word) = unat x"
    by (simp add: unsigned_ucast_eq take_bit_nat_eq_self_iff unat_byte_less [THEN less_trans])
  ultimately show ?thesis by (simp add: b64char_def s64_def rd_def)
qed

section \<open>The encoder is correct\<close>

lemma put_step: "put v (out @ r # rest, length out) = Some ((out @ [v]) @ rest, length (out @ [v]))"
  by (simp add: put_def wr_append)

lemma rdi_behind [simp]:
  "rdi (pre @ a # r) (int (length pre)) = Some a"
  "rdi (pre @ a # b # r) (int (length pre) + 1) = Some b"
  "rdi (pre @ a # b # c # r) (int (length pre) + 2) = Some c"
  by (simp_all add: rdi_def rd_def nth_append nat_add_distrib)

lemma encode_correct:
  assumes "length (enc64 xs) < length rest"
  shows "encode_loop (pre @ xs @ post) (int (length pre + length xs)) (int (length pre)) (out @ rest, length out)
           \<bind> (\<lambda>(p, i). encode_tail (pre @ xs @ post) (int (length pre + length xs)) p i)
         = Some (out @ enc64 xs @ 0 # drop (Suc (length (enc64 xs))) rest, length out + length (enc64 xs) + 1)"
  using assms
proof (induction xs arbitrary: pre out rest rule: enc64.induct)
  case (1 a b c r)
  obtain r1 r2 r3 r4 rest' where rest: "rest = r1 # r2 # r3 # r4 # rest'"
    using 1(2) by (auto simp: less_eq_Suc_le Suc_le_length_iff)
  let ?q = "[s64 (x1 a), s64 (x2 a b), s64 (x3 b c), s64 (x4 c)]"
  have "length (enc64 r) < length rest'" using 1(2) rest by simp
  note IH = 1(1) [OF this, of "pre @ [a, b, c]" "out @ ?q"]
  have "encode_loop (pre @ a # b # c # r @ post) (int (length pre) + int (length r) + 3) (int (length pre)) (out @ rest, length out)
      = encode_loop (pre @ a # b # c # r @ post) (int (length pre) + int (length r) + 3) (int (length pre) + 3)
          (((((out @ [s64 (x1 a)]) @ [s64 (x2 a b)]) @ [s64 (x3 b c)]) @ [s64 (x4 c)]) @ rest',
            length ((((out @ [s64 (x1 a)]) @ [s64 (x2 a b)]) @ [s64 (x3 b c)]) @ [s64 (x4 c)]))"
    unfolding rest
    by (subst encode_loop.simps)
      (simp add: b64_bits put_step del: append_assoc length_append rdi_int)
  then show ?case using IH rest by (simp add: algebra_simps)
next
  case (2 a b)
  obtain r1 r2 r3 r4 r5 rest' where rest: "rest = r1 # r2 # r3 # r4 # r5 # rest'"
    using 2 by (auto simp: less_eq_Suc_le Suc_le_length_iff)
  show ?case unfolding rest
    by (subst encode_loop.simps)
      (simp add: encode_tail_def b64_bits put_step del: append_assoc length_append rdi_int, simp)
next
  case (3 a)
  obtain r1 r2 r3 r4 r5 rest' where rest: "rest = r1 # r2 # r3 # r4 # r5 # rest'"
    using 3 by (auto simp: less_eq_Suc_le Suc_le_length_iff)
  show ?case unfolding rest
    by (subst encode_loop.simps)
      (simp add: encode_tail_def b64_bits put_step del: append_assoc length_append rdi_int, simp)
next
  case 4
  then show ?case
    by (cases rest; subst encode_loop.simps) (simp_all add: encode_tail_def put_def mem_simps)
qed

lemma base64_encode_correct:
  assumes "base64_encode_len (int (length xs)) \<le> int (length buf)" and "xs \<noteq> []"
  shows "base64_encode buf (xs @ post) (int (length xs))
    = Some (enc64 xs @ 0 # drop (Suc (length (enc64 xs))) buf, base64_encode_len (int (length xs)))"
proof -
  have l: "base64_encode_len (int (length xs)) = int (length (enc64 xs)) + 1"
    using assms(2) by (simp add: base64_encode_len_def length_enc64 c_div_nonneg zdiv_int add.commute)
  then have "length (enc64 xs) < length buf" using assms(1) by linarith
  from encode_correct [OF this, of "[]" post "[]"]
  obtain p i where p: "encode_loop (xs @ post) (int (length xs)) 0 (buf, 0) = Some (p, i)"
    and t: "encode_tail (xs @ post) (int (length xs)) p i
      = Some (enc64 xs @ 0 # drop (Suc (length (enc64 xs))) buf, length (enc64 xs) + 1)"
    by (auto simp: bind_Some_iff)
  show ?thesis unfolding base64_encode_def l p by (simp add: t)
qed

text \<open>For an empty string the length function asks for no byte, but one is written.\<close>

lemma base64_encode_empty: "base64_encode_len 0 = 0" "base64_encode [] src 0 = None"
  by (simp_all add: base64_encode_len_def base64_encode_def encode_loop.simps [of src 0 0] encode_tail_def
      put_def mem_simps)

section \<open>The decoder inverts it\<close>

lemma six_basis: "\<forall>n\<in>set [0..<64]. six (basis_64 ! n) = of_nat n"
  unfolding six_def basis_64_def lit_def pr2six_def by code_simp

lemma six_s64 [simp]: "unat x < 64 \<Longrightarrow> six (s64 x) = x"
  using six_basis by (simp add: s64_def)

lemma six_bound [simp]: "unat x < 64 \<Longrightarrow> x \<le> (63::byte)"
  by (simp add: word_le_nat_alt)

lemma six_stop [simp]: "six c_eq = 64" "six 0 = 64"
  by (simp_all add: six_def pr2six_def)

definition b64_body :: "bstr \<Rightarrow> bstr" where
  "b64_body xs = takeWhile (\<lambda>c. six c \<le> 63) (enc64 xs)"

lemma b64_body_simps [simp]:
  "b64_body (a # b # c # r) = s64 (x1 a) # s64 (x2 a b) # s64 (x3 b c) # s64 (x4 c) # b64_body r"
  "b64_body [a, b] = [s64 (x1 a), s64 (x2 a b), s64 (x3 b 0)]"
  "b64_body [a] = [s64 (x1 a), s64 (x2 a 0)]"
  "b64_body [] = []"
  by (simp_all add: b64_body_def)

lemma b64_body_long: "r \<noteq> [] \<Longrightarrow> 2 \<le> length (b64_body r)"
  by (cases r rule: enc64.cases) simp_all

text \<open>Bytes written by the decoder, from the number of significant characters.\<close>

lemma length_b64_body:
  "(int (length (b64_body xs)) + 3) div 4 * 3 - (- int (length (b64_body xs))) mod 4 = int (length xs)"
proof (induction xs rule: enc64.induct)
  case (1 a b c r)
  have d: "(4 + m + 3) div 4 = (m + 3) div 4 + 1" for m :: int
    by linarith
  have r: "(- (4 + m)) mod 4 = (- m) mod 4" for m :: int
    by (metis add.commute add_minus_cancel minus_add_distrib mod_add_self2 mod_minus_eq)
  have "(4 + m + 3) div 4 * 3 - (- (4 + m)) mod 4 = (m + 3) div 4 * 3 - (- m) mod 4 + 3" for m :: int
    unfolding d r by simp
  from this [of "int (length (b64_body r))"] 1 show ?case by simp
qed simp_all

lemma b64_span_stop:
  assumes "\<forall>c\<in>set ys. six c \<le> 63" and "\<not> six t \<le> 63"
  shows "b64_span (pre @ ys @ t # post) (length pre) = Some (length pre + length ys)"
  using assms(1)
proof (induction ys arbitrary: pre)
  case Nil
  then show ?case using assms(2) by (subst b64_span.simps) simp
next
  case (Cons y ys)
  from Cons.IH [of "pre @ [y]"] Cons.prems show ?case by (subst b64_span.simps) simp
qed

lemma b64_span_enc64: "b64_span (enc64 xs @ 0 # post) 0 = Some (length (b64_body xs))"
proof -
  obtain t q where q: "dropWhile (\<lambda>c. six c \<le> 63) (enc64 xs) @ 0 # post = t # q" "\<not> six t \<le> 63"
    by (cases "dropWhile (\<lambda>c. six c \<le> 63) (enc64 xs)") (auto dest: dropWhile_head)
  have "enc64 xs @ 0 # post = b64_body xs @ t # q"
    using q(1) unfolding b64_body_def by (metis append_assoc takeWhile_dropWhile_id)
  then show ?thesis
    using b64_span_stop [of "b64_body xs" t "[]" q] q(2)
    by (simp add: b64_body_def) (auto dest: set_takeWhileD)
qed

lemma rd_behind:
  "rd (pre @ a # r) (length pre) = Some a"
  "rd (pre @ a # b # r) (Suc (length pre)) = Some b"
  "rd (pre @ a # b # c # r) (Suc (Suc (length pre))) = Some c"
  "rd (pre @ a # b # c # d # r) (length pre + 3) = Some d"
  by (simp_all add: rd_def nth_append)

lemma dec_inverts [simp]:
  "dec1 (s64 (x1 a)) (s64 (x2 a b)) = a" "dec2 (s64 (x2 a b)) (s64 (x3 b c)) = b"
  "dec3 (s64 (x3 b c)) (s64 (x4 c)) = c"
  by (simp_all add: dec1_def dec2_def dec3_def triple1 triple2 triple3)

lemma decode_correct:
  assumes "length xs < length rest"
  shows "decode_loop (pre @ enc64 xs @ 0 # post) (length pre) (int (length (b64_body xs))) (out @ rest, length out)
           \<bind> (\<lambda>(p, i, n). decode_tail (pre @ enc64 xs @ 0 # post) p i n \<bind> (\<lambda>p. Some (p, n)))
         = Some ((out @ xs @ 0 # drop (Suc (length xs)) rest, length out + length xs + 1),
                 int (if xs = [] then 0 else 1 + (length (b64_body xs) - 1) mod 4))"
  using assms
proof (induction xs arbitrary: pre out rest rule: enc64.induct)
  case (1 a b c r)
  obtain r1 r2 r3 r4 rest' where rest: "rest = r1 # r2 # r3 # r4 # rest'"
    using 1(2) by (auto simp: less_eq_Suc_le Suc_le_length_iff)
  show ?case
  proof (cases "r = []")
    case True
    show ?thesis unfolding rest True
      by (subst decode_loop.simps)
        (simp add: decode_tail_def put_step rd_behind del: append_assoc length_append, simp)
  next
    case False
    have nb: "b64_body r \<noteq> []" using b64_body_long [OF False] by auto
    let ?q = "[s64 (x1 a), s64 (x2 a b), s64 (x3 b c), s64 (x4 c)]"
    let ?src = "(pre @ ?q) @ enc64 r @ 0 # post"
    have four: "length pre + 4 = Suc (Suc (Suc (Suc (length pre))))" by simp
    have src: "pre @ enc64 (a # b # c # r) @ 0 # post = ?src" by simp
    have m: "int (length (b64_body (a # b # c # r))) = 4 + int (length (b64_body r))" by simp
    have "length r < length (r4 # rest')" using 1(2) rest by simp
    note IH = 1(1) [OF this, of "pre @ ?q" "out @ [a, b, c]"]
    have "decode_loop (pre @ s64 (x1 a) # s64 (x2 a b) # s64 (x3 b c) # s64 (x4 c) # enc64 r @ 0 # post)
          (length pre) (4 + int (length (b64_body r))) (out @ rest, length out)
        = decode_loop (pre @ s64 (x1 a) # s64 (x2 a b) # s64 (x3 b c) # s64 (x4 c) # enc64 r @ 0 # post)
            (length pre + 4) (int (length (b64_body r)))
            ((((out @ [a]) @ [b]) @ [c]) @ r4 # rest', length (((out @ [a]) @ [b]) @ [c]))"
      unfolding rest using nb
      by (subst decode_loop.simps)
        (simp add: put_step rd_behind del: append_assoc length_append)
    then have step: "decode_loop ?src (length pre) (4 + int (length (b64_body r))) (out @ rest, length out)
        = decode_loop ?src (length (pre @ ?q)) (int (length (b64_body r)))
            ((out @ [a, b, c]) @ r4 # rest', length (out @ [a, b, c]))"
      using four by simp
    have "(4 + length (b64_body r) - 1) mod 4 = (length (b64_body r) - 1) mod 4"
    proof -
      have "4 + length (b64_body r) - 1 = (length (b64_body r) - 1) + 4"
        using b64_body_long [OF False] by linarith
      then show ?thesis by (simp only: mod_add_self2)
    qed
    then show ?thesis unfolding src m step IH using False rest by simp
  qed
next
  case (2 a b)
  obtain r1 r2 r3 rest' where rest: "rest = r1 # r2 # r3 # rest'"
    using 2 by (auto simp: less_eq_Suc_le Suc_le_length_iff)
  show ?case unfolding rest
    by (subst decode_loop.simps)
      (simp add: decode_tail_def put_step rd_behind del: append_assoc length_append, simp)
next
  case (3 a)
  obtain r1 r2 rest' where rest: "rest = r1 # r2 # rest'"
    using 3 by (auto simp: less_eq_Suc_le Suc_le_length_iff)
  show ?case unfolding rest
    by (subst decode_loop.simps)
      (simp add: decode_tail_def put_step rd_behind del: append_assoc length_append, simp)
next
  case 4
  then show ?case
    by (cases rest; subst decode_loop.simps) (simp_all add: decode_tail_def put_def mem_simps)
qed


text \<open>The round trip: what the encoder writes, the decoder reads back.\<close>

lemma base64_decode_enc64:
  assumes "length xs < length buf"
  shows "base64_decode buf (enc64 xs @ 0 # post)
    = Some (xs @ 0 # drop (Suc (length xs)) buf, int (length xs))"
proof -
  let ?m = "length (b64_body xs)"
  let ?n = "if xs = [] then 0 else 1 + (?m - 1) mod 4"
  from decode_correct [OF assms, of "[]" post "[]"]
  obtain p i where l: "decode_loop (enc64 xs @ 0 # post) 0 (int ?m) (buf, 0) = Some (p, i, int ?n)"
    and t: "decode_tail (enc64 xs @ 0 # post) p i (int ?n)
      = Some (xs @ 0 # drop (Suc (length xs)) buf, length xs + 1)"
    by (auto simp: bind_Some_iff)
  have a3: "x AND 3 = x mod 4" for x :: int
    using take_bit_eq_mask [of 2 x] by (simp add: take_bit_eq_mod mask_eq_exp_minus_1)
  have "(4 - int ?n) AND 3 = (- int ?m) mod 4"
  proof (cases "xs = []")
    case False
    then obtain k where k: "?m = Suc k" using b64_body_long [of xs] by (cases ?m) auto
    have "(4 - (1 + int k mod 4)) mod 4 = (3 - int k) mod 4"
      by (simp add: mod_diff_right_eq flip: diff_diff_eq)
    also have "\<dots> = (- 1 - int k + 4) mod 4" by simp
    also have "\<dots> = (- 1 - int k) mod 4" by (simp only: mod_add_self2)
    finally show ?thesis using False unfolding a3 k by (simp add: zmod_int)
  qed simp
  then show ?thesis
    using l t length_b64_body [of xs]
    by (simp add: base64_decode_def b64_span_enc64 c_div_nonneg)
qed

section \<open>Properties\<close>



end
