(* ===== verification/MemPool.thy ===== *)
theory MemPool
  imports LtsPrelude
begin

text \<open>
  \<open>src/mem_pool.c\<close>: the region allocator every request of the server draws from.

  A pool is a list of blocks in the order of the \<open>next\<close> chain; block 0 is the one embedded in
  \<open>lts_pool_t\<close> (\<open>pool->data\<close>).  \<open>pd_last\<close> and \<open>pd_end\<close> are offsets from the address that
  \<open>posix_memalign\<close> returned for the block, which is page aligned, so aligning an address is
  aligning its offset.  A pointer is a block number with an offset.  Sizes are \<open>size_t\<close>
  values, kept as integers; the one place where the width matters, the unsigned difference
  \<open>(size_t)(p->end - p->last)\<close>, is reduced modulo \<open>2 ^ 64\<close>.

  The results: within what a block really holds (16 bytes less than \<open>max_size\<close> for every block
  but the first) an allocation lies inside its block, behind every earlier allocation, and the
  invariant is kept; above it the allocation leaves the block.
\<close>

named_theorems pool_simps \<open>evaluation of pool operations\<close>

text \<open>\<open>sizeof(lts_pool_data_t)\<close>, \<open>sizeof(lts_pool_t)\<close>, \<open>LTS_WORD\<close>, \<open>MIN_POOL_SIZE\<close> on the
  64-bit target.\<close>

abbreviation sizeof_pool_data :: int where "sizeof_pool_data \<equiv> 32"
abbreviation sizeof_pool :: int where "sizeof_pool \<equiv> 48"
abbreviation MIN_POOL_SIZE :: int where "MIN_POOL_SIZE \<equiv> 4096"

definition lts_align :: "int \<Rightarrow> int" where
  "lts_align d = (d + 7) div 8 * 8"

record pool_data =
  pd_last :: int
  pd_end :: int
  pd_failed :: nat

record pool =
  max_size :: int
  current :: "nat option"
  blocks :: "pool_data list"

type_synonym ptr = "nat \<times> int"

section \<open>Operations\<close>

text \<open>\<open>mem\<close>: whether \<open>posix_memalign\<close> finds memory.\<close>

definition lts_create_pool :: "bool \<Rightarrow> int \<Rightarrow> pool option" where
  "lts_create_pool mem sz =
     (let sz = (if sz < MIN_POOL_SIZE then MIN_POOL_SIZE else sz)
      in if \<not> mem then None
         else let lst = lts_align sizeof_pool
              in Some \<lparr> max_size = sz - lst, current = Some 0,
                        blocks = [\<lparr> pd_last = lst, pd_end = sz, pd_failed = 0 \<rparr>] \<rparr>)"

text \<open>The loop that attaches a new block: every block from \<open>current\<close> on but the last counts
  a failure, and one that failed more than four times is not looked at again.\<close>

function attach_loop :: "pool \<Rightarrow> nat \<Rightarrow> pool" where
  "attach_loop pool i =
     (if i + 1 < length (blocks pool) then
        (let b = blocks pool ! i;
             b' = b\<lparr> pd_failed := pd_failed b + 1 \<rparr>;
             pool = pool\<lparr> blocks := (blocks pool)[i := b'] \<rparr>;
             pool = (if pd_failed b' > 4 then pool\<lparr> current := Some (i + 1) \<rparr> else pool)
         in attach_loop pool (i + 1))
      else pool)"
  by pat_completeness auto
termination by (relation "measure (\<lambda>(pool, i). length (blocks pool) - i)") (auto simp: Let_def)

declare attach_loop.simps [simp del]

text \<open>\<open>None\<close>: a failed ASSERT, or the dereference of a NULL \<open>current\<close>.  The result pairs the
  returned pointer (\<open>None\<close> for NULL) with the pool.\<close>

definition lts_palloc_block :: "nat \<Rightarrow> bool \<Rightarrow> pool \<Rightarrow> int \<Rightarrow> (ptr option \<times> pool) option" where
  "lts_palloc_block pagesize mem pool sz =
     (if pagesize = 0 then None
      else if \<not> mem then Some (None, pool)
      else let psize = lts_align (sizeof_pool_data + max_size pool);
               m = lts_align sizeof_pool;
               new_block = \<lparr> pd_last = lts_align (m + sz), pd_end = psize, pd_failed = 0 \<rparr>
           in case current pool of None \<Rightarrow> None
              | Some c \<Rightarrow>
                  let pool = attach_loop pool c;
                      n = length (blocks pool);
                      pool = pool\<lparr> blocks := blocks pool @ [new_block] \<rparr>;
                      pool = (if current pool = None then pool\<lparr> current := Some n \<rparr> else pool)
                  in Some (Some (n, m), pool))"

text \<open>\<open>while (p) ...\<close>: the first block with room.\<close>

function palloc_find :: "pool_data list \<Rightarrow> nat \<Rightarrow> int \<Rightarrow> nat option" where
  "palloc_find bs i sz =
     (if i < length bs then
        (if (pd_end (bs ! i) - pd_last (bs ! i)) mod 2 ^ 64 < sz then palloc_find bs (i + 1) sz
         else Some i)
      else None)"
  by pat_completeness auto
termination by (relation "measure (\<lambda>(bs, i, sz). length bs - i)") auto

declare palloc_find.simps [simp del]

definition lts_palloc :: "nat \<Rightarrow> bool \<Rightarrow> pool \<Rightarrow> int \<Rightarrow> (ptr option \<times> pool) option" where
  "lts_palloc pagesize mem pool sz =
     (if sz > max_size pool then Some (None, pool)
      else case (case current pool of None \<Rightarrow> None | Some c \<Rightarrow> palloc_find (blocks pool) c sz) of
             Some i \<Rightarrow>
               let b = blocks pool ! i;
                   m = pd_last b;
                   bs = (blocks pool)[i := b\<lparr> pd_last := m + sz \<rparr>];
                   bs = bs[0 := (bs ! 0)\<lparr> pd_last := lts_align (pd_last (bs ! 0)) \<rparr>]
               in Some (Some (i, m), pool\<lparr> blocks := bs \<rparr>)
           | None \<Rightarrow> lts_palloc_block pagesize mem pool sz)"

text \<open>The blocks \<open>lts_destroy_pool\<close> frees, in order.\<close>

function destroy_loop :: "pool_data list \<Rightarrow> nat \<Rightarrow> nat list" where
  "destroy_loop bs i = (if i + 1 < length bs then i # destroy_loop bs (i + 1) else [])"
  by pat_completeness auto
termination by (relation "measure (\<lambda>(bs, i). length bs - i)") auto

declare destroy_loop.simps [simp del]

definition lts_destroy_pool :: "pool \<Rightarrow> nat list" where
  "lts_destroy_pool pool = (if 1 < length (blocks pool) then destroy_loop (blocks pool) 1 else []) @ [0]"

section \<open>Alignment\<close>

lemma lts_align_ge [simp]: "d \<le> lts_align d"
  unfolding lts_align_def by presburger

lemma lts_align_dvd [simp]: "8 dvd lts_align d"
  unfolding lts_align_def by simp

lemma lts_align_least: "d \<le> e \<Longrightarrow> 8 dvd e \<Longrightarrow> lts_align d \<le> e"
  unfolding lts_align_def by presburger

lemma lts_align_id [simp]: "8 dvd d \<Longrightarrow> lts_align d = d"
  unfolding lts_align_def by presburger

lemma lts_align_48 [simp]: "lts_align 48 = 48"
  by (simp add: lts_align_def)

section \<open>The invariant\<close>

text \<open>Capacity of block \<open>i\<close>, the bytes behind its header.\<close>

definition block_ok :: "pool \<Rightarrow> nat \<Rightarrow> pool_data \<Rightarrow> bool" where
  "block_ok pool i b \<longleftrightarrow>
     sizeof_pool \<le> pd_last b \<and> pd_last b \<le> pd_end b \<and> 8 dvd pd_end b \<and> pd_end b < 2 ^ 63 \<and>
     pd_end b = sizeof_pool + max_size pool - (if i = 0 then 0 else 16) \<and>
     (i = 0 \<longrightarrow> 8 dvd pd_last b)"

definition pool_ok :: "pool \<Rightarrow> bool" where
  "pool_ok pool \<longleftrightarrow>
     (\<forall>i < length (blocks pool). block_ok pool i (blocks pool ! i)) \<and>
     blocks pool \<noteq> [] \<and> (\<exists>c < length (blocks pool). current pool = Some c) \<and>
     8 dvd max_size pool \<and> 16 \<le> max_size pool"

text \<open>The bytes handed out so far.\<close>

definition allocated :: "pool \<Rightarrow> ptr set" where
  "allocated pool = {(i, x). i < length (blocks pool) \<and> sizeof_pool \<le> x \<and> x < pd_last (blocks pool ! i)}"

definition region :: "ptr \<Rightarrow> int \<Rightarrow> ptr set" where
  "region p n = {(i, x). i = fst p \<and> snd p \<le> x \<and> x < snd p + n}"

text \<open>A region lies in the memory of its block, behind the header.\<close>

definition in_bounds :: "pool \<Rightarrow> ptr \<Rightarrow> int \<Rightarrow> bool" where
  "in_bounds pool p n \<longleftrightarrow> fst p < length (blocks pool) \<and> sizeof_pool \<le> snd p \<and>
     snd p + n \<le> pd_end (blocks pool ! fst p)"

lemma lts_create_pool_ok:
  assumes "8 dvd sz" and "sz < 2 ^ 63"
  obtains pool where "lts_create_pool True sz = Some pool" and "pool_ok pool" and "allocated pool = {}"
    and "max_size pool = max sz MIN_POOL_SIZE - 48"
  using assms
  by (auto simp: lts_create_pool_def pool_ok_def block_ok_def allocated_def Let_def max_def
      intro: dvd_diff)

lemma palloc_find_Some:
  assumes "palloc_find bs i sz = Some j"
  shows "i \<le> j \<and> j < length bs \<and> sz \<le> (pd_end (bs ! j) - pd_last (bs ! j)) mod 2 ^ 64"
  using assms
proof (induction bs i sz rule: palloc_find.induct)
  case (1 bs i sz)
  from "1.prems" show ?case
    by (subst (asm) palloc_find.simps) (use "1.IH" in \<open>auto split: if_splits\<close>)
qed

lemma attach_loop_blocks:
  "length (blocks (attach_loop pool i)) = length (blocks pool) \<and>
   (\<forall>k. pd_last (blocks (attach_loop pool i) ! k) = pd_last (blocks pool ! k) \<and>
        pd_end (blocks (attach_loop pool i) ! k) = pd_end (blocks pool ! k)) \<and>
   max_size (attach_loop pool i) = max_size pool"
proof (induction pool i rule: attach_loop.induct)
  case (1 pool i)
  show ?case
    by (subst (1 2 3 4) attach_loop.simps) (use 1 in \<open>auto simp: Let_def nth_list_update\<close>)
qed

lemma attach_loop_current:
  "\<exists>c < length (blocks pool). current pool = Some c \<Longrightarrow>
   \<exists>c < length (blocks pool). current (attach_loop pool i) = Some c"
proof (induction pool i rule: attach_loop.induct)
  case (1 pool i)
  show ?case
    by (subst attach_loop.simps) (use 1 in \<open>auto simp: Let_def\<close>)
qed

lemma block_ok_attach [simp]:
  "block_ok (attach_loop pool c) i (blocks (attach_loop pool c) ! i) \<longleftrightarrow> block_ok pool i (blocks pool ! i)"
  using attach_loop_blocks [of pool c] by (simp add: block_ok_def)

section \<open>Allocation\<close>

lemma allocated_update:
  assumes "i < length (blocks pool)" and "blocks pool' = (blocks pool)[i := x]"
  shows "(j, y) \<in> allocated pool' \<longleftrightarrow>
    (if j = i then sizeof_pool \<le> y \<and> y < pd_last x else (j, y) \<in> allocated pool)"
  using assms by (auto simp: allocated_def)

lemma palloc_in_block:
  assumes ok: "pool_ok pool" and f: "palloc_find (blocks pool) c sz = Some i" and sz: "0 \<le> sz"
  defines "b \<equiv> blocks pool ! i"
  defines "bs \<equiv> (blocks pool)[i := b\<lparr> pd_last := pd_last b + sz \<rparr>]"
  defines "pool' \<equiv> pool\<lparr> blocks := bs[0 := (bs ! 0)\<lparr> pd_last := lts_align (pd_last (bs ! 0)) \<rparr>] \<rparr>"
  shows "pool_ok pool' \<and> in_bounds pool' (i, pd_last b) sz \<and>
    region (i, pd_last b) sz \<inter> allocated pool = {} \<and>
    region (i, pd_last b) sz \<union> allocated pool \<subseteq> allocated pool'"
proof -
  have il: "i < length (blocks pool)" and fit: "sz \<le> (pd_end b - pd_last b) mod 2 ^ 64"
    using palloc_find_Some [OF f] by (simp_all add: b_def)
  have bk: "block_ok pool i b" using ok il by (simp add: pool_ok_def b_def)
  then have "(pd_end b - pd_last b) mod 2 ^ 64 = pd_end b - pd_last b"
    by (intro mod_pos_pos_trivial) (auto simp: block_ok_def)
  then have fit': "pd_last b + sz \<le> pd_end b" using fit by simp
  have len: "length bs = length (blocks pool)" by (simp add: bs_def)
  let ?b' = "b\<lparr> pd_last := (if i = 0 then lts_align (pd_last b + sz) else pd_last b + sz) \<rparr>"
  have "8 dvd pd_last (blocks pool ! 0)" using ok by (auto simp: pool_ok_def block_ok_def)
  then have same: "(blocks pool ! 0)\<lparr> pd_last := lts_align (pd_last (blocks pool ! 0)) \<rparr> = blocks pool ! 0"
    by simp
  have upd: "blocks pool' = (blocks pool)[i := ?b']"
    using il same by (cases "i = 0") (simp_all add: pool'_def bs_def nth_list_update list_update_swap)
  have le: "lts_align (pd_last b + sz) \<le> pd_end b"
    using fit' bk by (intro lts_align_least) (auto simp: block_ok_def)
  have bk': "block_ok pool' i ?b'"
    using bk sz fit' le lts_align_ge [of "pd_last b + sz"]
    by (auto simp: block_ok_def pool'_def simp del: lts_align_ge)
  have ok': "pool_ok pool'"
    using ok bk' il unfolding pool_ok_def upd
    by (auto simp: nth_list_update block_ok_def pool'_def)
  have "pd_last b + sz \<le> pd_last ?b'" by simp
  then have grow: "y < pd_last ?b'" if "y < pd_last b + sz" for y using that by linarith
  have lo: "48 \<le> pd_last b" using bk by (simp add: block_ok_def)
  have "region (i, pd_last b) sz \<union> allocated pool \<subseteq> allocated pool'"
  proof
    fix q assume q: "q \<in> region (i, pd_last b) sz \<union> allocated pool"
    obtain j y where jy: "q = (j, y)" by (cases q)
    have "(i, y) \<in> allocated pool \<Longrightarrow> 48 \<le> y \<and> y < pd_last b"
      by (simp add: allocated_def b_def)
    then have "j = i \<and> 48 \<le> y \<and> y < pd_last b + sz \<or> j \<noteq> i \<and> (j, y) \<in> allocated pool"
      using q jy lo sz by (auto simp: region_def)
    then show "q \<in> allocated pool'"
      unfolding jy allocated_update [OF il upd] using grow by metis
  qed
  moreover have "region (i, pd_last b) sz \<inter> allocated pool = {}"
    by (auto simp: region_def allocated_def b_def)
  moreover have "in_bounds pool' (i, pd_last b) sz"
    using bk fit' il by (auto simp: in_bounds_def upd block_ok_def)
  ultimately show ?thesis using ok' by (intro conjI)
qed

lemma palloc_new_block:
  assumes ok: "pool_ok pool" and pg: "0 < pagesize"
    and sz: "0 \<le> sz" "sz \<le> max_size pool - 16"
  shows "\<exists>p pool'. lts_palloc_block pagesize True pool sz = Some (Some p, pool') \<and> pool_ok pool' \<and>
    in_bounds pool' p sz \<and> region p sz \<inter> allocated pool = {} \<and>
    region p sz \<union> allocated pool \<subseteq> allocated pool'"
proof -
  obtain c where c: "current pool = Some c" "c < length (blocks pool)"
    using ok by (auto simp: pool_ok_def)
  let ?a = "attach_loop pool c" and ?n = "length (blocks pool)"
  let ?nb = "\<lparr> pd_last = lts_align (48 + sz), pd_end = lts_align (32 + max_size pool), pd_failed = 0 \<rparr>"
  have a: "length (blocks ?a) = ?n" "max_size ?a = max_size pool"
    "\<And>k. pd_last (blocks ?a ! k) = pd_last (blocks pool ! k)"
    "\<And>k. pd_end (blocks ?a ! k) = pd_end (blocks pool ! k)"
    using attach_loop_blocks [of pool c] by simp_all
  obtain c' where c': "current ?a = Some c'" "c' < ?n"
    using attach_loop_current [of pool c] c by auto
  let ?pool' = "?a\<lparr> blocks := blocks ?a @ [?nb] \<rparr>"
  have m8: "8 dvd max_size pool" "16 \<le> max_size pool" and ne: "0 < ?n"
    using ok by (auto simp: pool_ok_def)
  have "block_ok pool 0 (blocks pool ! 0)" using ok ne unfolding pool_ok_def by blast
  then have lt: "max_size pool + 48 < 2 ^ 63" by (simp add: block_ok_def)
  have "block_ok ?pool' ?n ?nb"
    using m8 sz lts_align_ge [of "48 + sz"] lts_align_least [of "48 + sz" "32 + max_size pool"] lt ne
    by (auto simp: block_ok_def a simp del: lts_align_ge)
  moreover have "block_ok ?pool' i (blocks pool ! i) = block_ok pool i (blocks pool ! i)" for i
    by (simp add: block_ok_def a)
  ultimately have "pool_ok ?pool'"
    using ok c' m8 unfolding pool_ok_def
    by (auto simp: a nth_append block_ok_def less_Suc_eq)
  moreover have "in_bounds ?pool' (?n, 48) sz"
    using sz m8 by (simp add: in_bounds_def a nth_append)
  moreover have "region (?n, 48) sz \<inter> allocated pool = {}"
    by (auto simp: region_def allocated_def)
  moreover have "region (?n, 48) sz \<union> allocated pool \<subseteq> allocated ?pool'"
    using lts_align_ge [of "48 + sz"]
    by (auto simp: region_def allocated_def a nth_append simp del: lts_align_ge)
  moreover have "lts_palloc_block pagesize True pool sz = Some (Some (?n, 48), ?pool')"
    using pg c c' a by (simp add: lts_palloc_block_def Let_def)
  ultimately show ?thesis by blast
qed

lemma lts_palloc_safe_lemma:
  assumes ok: "pool_ok pool" and "0 < pagesize" and "0 \<le> sz" "sz \<le> max_size pool - 16"
  shows "\<exists>p pool'. lts_palloc pagesize True pool sz = Some (Some p, pool') \<and> pool_ok pool' \<and>
    in_bounds pool' p sz \<and> region p sz \<inter> allocated pool = {} \<and>
    region p sz \<union> allocated pool \<subseteq> allocated pool'"
proof -
  obtain c where c: "current pool = Some c" using ok by (auto simp: pool_ok_def)
  show ?thesis
  proof (cases "palloc_find (blocks pool) c sz")
    case None
    then show ?thesis using palloc_new_block [OF assms] c assms(4) by (simp add: lts_palloc_def)
  next
    case (Some i)
    from palloc_in_block [OF ok Some assms(3)] show ?thesis
      using c assms(4) Some by (auto simp: lts_palloc_def Let_def)
  qed
qed

text \<open>Between \<open>max_size - 16\<close> and \<open>max_size\<close> the size check passes but a fresh block is too
  short.\<close>

lemma lts_palloc_overflow_lemma:
  assumes ok: "pool_ok pool" and pg: "0 < pagesize" and c: "current pool = Some c"
    and full: "palloc_find (blocks pool) c sz = None"
    and sz: "max_size pool - 16 < sz" "sz \<le> max_size pool"
  shows "\<exists>p pool'. lts_palloc pagesize True pool sz = Some (Some p, pool') \<and> \<not> in_bounds pool' p sz"
proof -
  obtain c' where c': "current (attach_loop pool c) = Some c'"
    using attach_loop_current [of pool c] ok by (auto simp: pool_ok_def)
  have "8 dvd max_size pool" using ok by (simp add: pool_ok_def)
  then show ?thesis
    using pg c c' full sz attach_loop_blocks [of pool c]
    by (simp add: lts_palloc_def lts_palloc_block_def Let_def in_bounds_def nth_append)
qed

text \<open>A request above \<open>max_size\<close> is refused and leaves the pool alone, as does one for which
  no memory is found.\<close>

lemma lts_palloc_refused: "max_size pool < sz \<Longrightarrow> lts_palloc pagesize mem pool sz = Some (None, pool)"
  by (simp add: lts_palloc_def)

lemma destroy_loop_eq: "destroy_loop bs i = [i..<length bs - 1]"
proof (induction bs i rule: destroy_loop.induct)
  case (1 bs i)
  then show ?case by (subst destroy_loop.simps) (auto simp: upt_conv_Cons)
qed

text \<open>Destroying frees every block but the last of the chain, which leaks when there is one.\<close>

lemma lts_destroy_pool_freed:
  "blocks pool \<noteq> [] \<Longrightarrow>
   set (lts_destroy_pool pool) = {..<length (blocks pool)} - (if 1 < length (blocks pool) then {length (blocks pool) - 1} else {})"
  by (auto simp: lts_destroy_pool_def destroy_loop_eq less_Suc_eq_0_disj split: if_splits)

section \<open>Several allocations\<close>

lemma lts_palloc_max_size:
  assumes "lts_palloc pagesize mem pool sz = Some (r, pool')"
  shows "max_size pool' = max_size pool"
  using assms attach_loop_blocks [of pool]
  by (auto simp: lts_palloc_def lts_palloc_block_def Let_def split: if_splits option.splits)

text \<open>What a client relies on: within a limit every request succeeds, with a region nobody
  holds, and the limit does not change.\<close>

primrec alloc_seq :: "('s \<Rightarrow> int \<Rightarrow> ('p \<times> 's) option) \<Rightarrow> 's \<Rightarrow> int list \<Rightarrow> ('p list \<times> 's) option" where
  "alloc_seq alloc s [] = Some ([], s)"
| "alloc_seq alloc s (n # ns) = do {
     (p, s) \<leftarrow> alloc s n;
     (ps, s) \<leftarrow> alloc_seq alloc s ns;
     Some (p # ps, s) }"

locale allocator =
  fixes inv :: "'s \<Rightarrow> bool" and alloc :: "'s \<Rightarrow> int \<Rightarrow> ('p \<times> 's) option"
    and used :: "'s \<Rightarrow> 'a set" and reg :: "'p \<Rightarrow> int \<Rightarrow> 'a set" and limit :: "'s \<Rightarrow> int"
  assumes alloc_ok: "inv s \<Longrightarrow> 0 \<le> n \<Longrightarrow> n \<le> limit s \<Longrightarrow>
    \<exists>p s'. alloc s n = Some (p, s') \<and> inv s' \<and> limit s' = limit s \<and>
      reg p n \<inter> used s = {} \<and> reg p n \<union> used s \<subseteq> used s'"
begin

lemma alloc_seq_disjoint:
  assumes "inv s" and "\<forall>n\<in>set ns. 0 \<le> n \<and> n \<le> limit s"
  shows "\<exists>ps s'. alloc_seq alloc s ns = Some (ps, s') \<and> inv s' \<and> length ps = length ns \<and>
    used s \<subseteq> used s' \<and>
    (\<forall>i < length ns. reg (ps ! i) (ns ! i) \<inter> used s = {} \<and> reg (ps ! i) (ns ! i) \<subseteq> used s') \<and>
    (\<forall>i < length ns. \<forall>j < i. reg (ps ! i) (ns ! i) \<inter> reg (ps ! j) (ns ! j) = {})"
  using assms
proof (induction ns arbitrary: s)
  case Nil
  then show ?case by auto
next
  case (Cons n ns)
  obtain p s1 where p: "alloc s n = Some (p, s1)" "inv s1" "limit s1 = limit s"
    "reg p n \<inter> used s = {}" "reg p n \<union> used s \<subseteq> used s1"
    using alloc_ok [of s n] Cons.prems by auto
  obtain ps s' where q: "alloc_seq alloc s1 ns = Some (ps, s')" "inv s'" "length ps = length ns"
    "used s1 \<subseteq> used s'"
    "\<And>i. i < length ns \<Longrightarrow> reg (ps ! i) (ns ! i) \<inter> used s1 = {} \<and> reg (ps ! i) (ns ! i) \<subseteq> used s'"
    "\<And>i j. i < length ns \<Longrightarrow> j < i \<Longrightarrow> reg (ps ! i) (ns ! i) \<inter> reg (ps ! j) (ns ! j) = {}"
    using Cons.IH [OF p(2)] Cons.prems p(3) by auto
  have a: "reg ((p # ps) ! i) ((n # ns) ! i) \<inter> used s = {} \<and> reg ((p # ps) ! i) ((n # ns) ! i) \<subseteq> used s'"
    if "i < length (n # ns)" for i
    using that p q(4) q(5) [of "i - 1"] by (cases i) auto
  have "reg ((p # ps) ! i) ((n # ns) ! i) \<inter> reg ((p # ps) ! j) ((n # ns) ! j) = {}"
    if "i < length (n # ns)" "j < i" for i j
  proof (cases j)
    case 0
    then show ?thesis using that q(5) [of "i - 1"] p(5) by (cases i) auto
  next
    case (Suc k)
    then show ?thesis using that q(6) [of "i - 1" k] by (cases i) auto
  qed
  then show ?case using p(1,5) q(1,2,3,4) a by auto
qed

end

definition pool_alloc :: "nat \<Rightarrow> pool \<Rightarrow> int \<Rightarrow> (ptr \<times> pool) option" where
  "pool_alloc pagesize pool n =
     (case lts_palloc pagesize True pool n of Some (Some p, pool') \<Rightarrow> Some (p, pool') | _ \<Rightarrow> None)"

interpretation pool_allocator: allocator pool_ok "pool_alloc (Suc pg)" allocated region "\<lambda>p. max_size p - 16"
proof unfold_locales
  fix s :: pool and n :: int
  assume a: "pool_ok s" "0 \<le> n" "n \<le> max_size s - 16"
  from lts_palloc_safe_lemma [OF a(1) _ a(2,3), of "Suc pg"]
  obtain p s' where "lts_palloc (Suc pg) True s n = Some (Some p, s')" "pool_ok s'"
    "region p n \<inter> allocated s = {}" "region p n \<union> allocated s \<subseteq> allocated s'" by auto
  then show "\<exists>p s'. pool_alloc (Suc pg) s n = Some (p, s') \<and> pool_ok s' \<and>
      max_size s' - 16 = max_size s - 16 \<and> region p n \<inter> allocated s = {} \<and>
      region p n \<union> allocated s \<subseteq> allocated s'"
    using lts_palloc_max_size by (auto simp: pool_alloc_def)
qed

section \<open>Properties\<close>

text \<open>C30. From a fresh pool, any sequence of requests of at most \<open>max_size - 16\<close> bytes succeeds; the
  regions returned are pairwise disjoint and lie inside the memory of their blocks, behind the
  pool header.\<close>

theorem pool_allocations_disjoint:
  assumes c: "lts_create_pool True sz = Some pool" and sz: "8 dvd sz" "sz < 2 ^ 63"
    and ns: "\<forall>n\<in>set ns. 0 \<le> n \<and> n \<le> max_size pool - 16"
  shows "\<exists>ps pool'. alloc_seq (pool_alloc (Suc pg)) pool ns = Some (ps, pool') \<and> length ps = length ns \<and>
    (\<forall>i < length ns. \<forall>(b, x)\<in>region (ps ! i) (ns ! i).
       b < length (blocks pool') \<and> sizeof_pool \<le> x \<and> x < pd_end (blocks pool' ! b)) \<and>
    (\<forall>i < length ns. \<forall>j < i. region (ps ! i) (ns ! i) \<inter> region (ps ! j) (ns ! j) = {})"
proof -
  have "pool_ok pool" using lts_create_pool_ok [OF sz] c by auto
  from pool_allocator.alloc_seq_disjoint [OF this ns, of pg]
  obtain ps pool' where r: "alloc_seq (pool_alloc (Suc pg)) pool ns = Some (ps, pool')" "pool_ok pool'"
      "length ps = length ns" "\<forall>i < length ns. region (ps ! i) (ns ! i) \<subseteq> allocated pool'"
      "\<forall>i < length ns. \<forall>j < i. region (ps ! i) (ns ! i) \<inter> region (ps ! j) (ns ! j) = {}"
    by blast
  have "b < length (blocks pool') \<and> sizeof_pool \<le> x \<and> x < pd_end (blocks pool' ! b)"
    if "i < length ns" "(b, x) \<in> region (ps ! i) (ns ! i)" for i b x
  proof -
    have "(b, x) \<in> allocated pool'" using r(4) that by blast
    then show ?thesis using r(2) by (fastforce simp: allocated_def pool_ok_def block_ok_def)
  qed
  then show ?thesis using r(1,3,5) by blast
qed

lemma pool_allocations_disjoint_witness:
  "\<exists>pool ps pool'. lts_create_pool True 4096 = Some pool \<and>
    alloc_seq (pool_alloc (Suc 4095)) pool [24, 4000, 64] = Some (ps, pool') \<and>
    region (ps ! 2) 64 \<inter> region (ps ! 0) 24 = {}"
proof -
  obtain pool where p: "lts_create_pool True 4096 = Some pool" "max_size pool = 4048"
    by (simp add: lts_create_pool_def)
  have "\<exists>ps pool'. alloc_seq (pool_alloc (Suc 4095)) pool [24, 4000, 64] = Some (ps, pool') \<and>
      (\<forall>i < length [24, 4000, 64 :: int]. \<forall>j < i.
        region (ps ! i) ([24, 4000, 64] ! i) \<inter> region (ps ! j) ([24, 4000, 64] ! j) = {})"
    using pool_allocations_disjoint [OF p(1), of "[24, 4000, 64]" 4095] p(2) by auto
  then obtain ps pool' where r: "alloc_seq (pool_alloc (Suc 4095)) pool [24, 4000, 64] = Some (ps, pool')"
    "\<forall>i < length [24, 4000, 64 :: int]. \<forall>j < i.
      region (ps ! i) ([24, 4000, 64] ! i) \<inter> region (ps ! j) ([24, 4000, 64] ! j) = {}" by blast
  have "region (ps ! 2) ([24, 4000, 64] ! 2) \<inter> region (ps ! 0) ([24, 4000, 64] ! 0) = {}"
    by (rule r(2) [rule_format]) simp_all
  then have "region (ps ! 2) 64 \<inter> region (ps ! 0) 24 = {}" by (simp add: numeral_2_eq_2)
  then show ?thesis using p(1) r(1) by blast
qed

text \<open>A request between \<open>max_size - 16\<close> and \<open>max_size\<close> that finds no room in the existing blocks
  is granted from a new block, and its region leaves that block: the code takes the header of a
  new block to be as large as the header of the first, but allots less for it.\<close>

theorem palloc_last_bytes_overflow:
  assumes "pool_ok pool" and "0 < pagesize" and "current pool = Some c"
    and "palloc_find (blocks pool) c sz = None" and "max_size pool - 16 < sz" and "sz \<le> max_size pool"
  shows "\<exists>p pool'. lts_palloc pagesize True pool sz = Some (Some p, pool') \<and> \<not> in_bounds pool' p sz"
  by (rule lts_palloc_overflow_lemma [OF assms])

lemma palloc_last_bytes_overflow_witness:
  "\<exists>p pool'. lts_palloc 4096 True
      \<lparr> max_size = 4048, current = Some 0, blocks = [\<lparr> pd_last = 56, pd_end = 4096, pd_failed = 0 \<rparr>] \<rparr> 4048
    = Some (Some p, pool') \<and> \<not> in_bounds pool' p 4048"
  by (rule palloc_last_bytes_overflow [where c = 0])
    (simp_all add: pool_ok_def block_ok_def palloc_find.simps)

end
