(* ===== verification/RbTree.thy ===== *)
theory RbTree
  imports LtsPrelude "HOL-Library.Multiset"
begin

text \<open>
  \<open>include/rbtree.h\<close>, \<open>src/rbtree.c\<close>: the intrusive red-black tree, at the level of its pointers.

  An address is a natural number, 0 is NULL, and the state \<open>rbs\<close> is the memory of the nodes with
  the \<open>rb_node\<close> field of the \<open>rb_root\<close>.  Each C statement that dereferences a pointer is an \<open>ld\<close>
  or a \<open>st\<close>, which fail (\<open>None\<close>) on NULL; loops are \<open>partial_function\<close>s, so \<open>None\<close> is also a loop
  that does not end.  The word \<open>rb_parent_color\<close> is kept as its two parts.

  Proofs: \<open>tree_in\<close> and \<open>path_in\<close> say that a subtree and the path above it lie in memory, all
  pointers (parents included) in place.  Every routine is shown to turn a represented tree into a
  represented tree with the expected in-order sequence, without dereferencing NULL, and to keep
  the red-black invariants.
\<close>

section \<open>The packed word\<close>

text \<open>\<open>rb_parent_color\<close> holds the parent's address and, in bit 0, the colour; nodes are word
  aligned.  The model's two fields are what the macros extract.\<close>

unbundle bit_operations_syntax

definition rb_pack :: "64 word \<Rightarrow> bool \<Rightarrow> 64 word" where
  "rb_pack p black = p OR (if black then 1 else 0)"

lemma rb_pack_parent: "p AND 7 = 0 \<Longrightarrow> rb_pack p c AND NOT 3 = p"
proof -
  assume a: "p AND 7 = 0"
  have m: "(7 :: 64 word) = mask 3" "(3 :: 64 word) = mask 2" by (simp_all add: mask_eq_exp_minus_1)
  have "\<not> bit p 0" "\<not> bit p 1"
    using arg_cong [OF a, of "\<lambda>w. bit w 0"] arg_cong [OF a, of "\<lambda>w. bit w 1"]
    unfolding m by (simp_all add: bit_simps)
  then show ?thesis
    unfolding rb_pack_def m
    by (intro bit_word_eqI) (auto simp: bit_simps less_Suc_eq numeral_2_eq_2 split: if_splits)
qed

lemma rb_pack_color: "p AND 7 = 0 \<Longrightarrow> rb_pack p c AND 1 = (if c then 1 else 0)"
proof -
  assume a: "p AND 7 = 0"
  have m: "(7 :: 64 word) = mask 3" by (simp_all add: mask_eq_exp_minus_1)
  have "\<not> bit p 0" using arg_cong [OF a, of "\<lambda>w. bit w 0"] unfolding m by (simp add: bit_simps)
  then show ?thesis
    unfolding rb_pack_def by (intro bit_word_eqI) (auto simp: bit_simps intro!: gr0I)
qed

section \<open>Memory\<close>

type_synonym addr = nat

datatype color = Red | Black

lemma color_neq [simp]: "c \<noteq> Red \<longleftrightarrow> c = Black" "c \<noteq> Black \<longleftrightarrow> c = Red"
  by (cases c; simp)+

record rb_node =
  rb_parent :: addr
  rb_color :: color
  rb_right :: addr
  rb_left :: addr

record rbs =
  rb_mem :: "addr \<Rightarrow> rb_node"
  rb_root :: addr

definition ld :: "rbs \<Rightarrow> addr \<Rightarrow> rb_node option" where
  "ld s p = (if p = 0 then None else Some (rb_mem s p))"

definition st :: "rbs \<Rightarrow> addr \<Rightarrow> (rb_node \<Rightarrow> rb_node) \<Rightarrow> rbs option" where
  "st s p f = (if p = 0 then None else Some (s\<lparr> rb_mem := (rb_mem s)(p := f (rb_mem s p)) \<rparr>))"

abbreviation set_parent :: "addr \<Rightarrow> addr \<Rightarrow> rbs \<Rightarrow> rbs option" where
  "set_parent p v s \<equiv> st s p (rb_parent_update (\<lambda>_. v))"

abbreviation set_color :: "addr \<Rightarrow> color \<Rightarrow> rbs \<Rightarrow> rbs option" where
  "set_color p c s \<equiv> st s p (rb_color_update (\<lambda>_. c))"

abbreviation set_left :: "addr \<Rightarrow> addr \<Rightarrow> rbs \<Rightarrow> rbs option" where
  "set_left p v s \<equiv> st s p (rb_left_update (\<lambda>_. v))"

abbreviation set_right :: "addr \<Rightarrow> addr \<Rightarrow> rbs \<Rightarrow> rbs option" where
  "set_right p v s \<equiv> st s p (rb_right_update (\<lambda>_. v))"

text \<open>\<open>RB_EMPTY_NODE\<close>, \<open>RB_CLEAR_NODE\<close>: a node outside every tree is its own parent.\<close>

definition RB_EMPTY_NODE :: "rbs \<Rightarrow> addr \<Rightarrow> bool option" where
  "RB_EMPTY_NODE s p = do { n \<leftarrow> ld s p; Some (rb_parent n = p) }"

definition RB_CLEAR_NODE :: "addr \<Rightarrow> rbs \<Rightarrow> rbs option" where
  "RB_CLEAR_NODE p s = set_parent p p s"

section \<open>Rotations\<close>

definition rb_rotate_left :: "addr \<Rightarrow> rbs \<Rightarrow> rbs option" where
  "rb_rotate_left node s = do {
     n \<leftarrow> ld s node;
     let right = rb_right n;
     let parent = rb_parent n;
     r \<leftarrow> ld s right;
     s \<leftarrow> set_right node (rb_left r) s;
     s \<leftarrow> (if rb_left r \<noteq> 0 then set_parent (rb_left r) node s else Some s);
     s \<leftarrow> set_left right node s;
     s \<leftarrow> set_parent right parent s;
     s \<leftarrow> (if parent \<noteq> 0 then do {
             p \<leftarrow> ld s parent;
             if node = rb_left p then set_left parent right s else set_right parent right s }
           else Some (s\<lparr> rb_root := right \<rparr>));
     set_parent node right s }"

definition rb_rotate_right :: "addr \<Rightarrow> rbs \<Rightarrow> rbs option" where
  "rb_rotate_right node s = do {
     n \<leftarrow> ld s node;
     let left = rb_left n;
     let parent = rb_parent n;
     l \<leftarrow> ld s left;
     s \<leftarrow> set_left node (rb_right l) s;
     s \<leftarrow> (if rb_right l \<noteq> 0 then set_parent (rb_right l) node s else Some s);
     s \<leftarrow> set_right left node s;
     s \<leftarrow> set_parent left parent s;
     s \<leftarrow> (if parent \<noteq> 0 then do {
             p \<leftarrow> ld s parent;
             if node = rb_right p then set_right parent left s else set_left parent left s }
           else Some (s\<lparr> rb_root := left \<rparr>));
     set_parent node left s }"

section \<open>Trees in memory\<close>

datatype tr = Lf | Nd tr addr color tr

datatype frame = FL addr color tr | FR tr addr color

fun raddr :: "tr \<Rightarrow> addr" where
  "raddr Lf = 0"
| "raddr (Nd l a c r) = a"

fun inord :: "tr \<Rightarrow> addr list" where
  "inord Lf = []"
| "inord (Nd l a c r) = inord l @ a # inord r"

fun top :: "frame list \<Rightarrow> addr" where
  "top [] = 0"
| "top (FL a c r # fs) = a"
| "top (FR l a c # fs) = a"

fun plist :: "frame list \<Rightarrow> addr list" where
  "plist [] = []"
| "plist (FL a c r # fs) = a # inord r @ plist fs"
| "plist (FR l a c # fs) = a # inord l @ plist fs"

fun plug :: "frame list \<Rightarrow> tr \<Rightarrow> tr" where
  "plug [] t = t"
| "plug (FL a c r # fs) t = plug fs (Nd t a c r)"
| "plug (FR l a c # fs) t = plug fs (Nd l a c t)"

fun tree_in :: "(addr \<Rightarrow> rb_node) \<Rightarrow> addr \<Rightarrow> tr \<Rightarrow> bool" where
  "tree_in h par Lf = True"
| "tree_in h par (Nd l a c r) \<longleftrightarrow> a \<noteq> 0 \<and>
     h a = \<lparr> rb_parent = par, rb_color = c, rb_right = raddr r, rb_left = raddr l \<rparr> \<and>
     tree_in h a l \<and> tree_in h a r"

fun path_in :: "(addr \<Rightarrow> rb_node) \<Rightarrow> addr \<Rightarrow> frame list \<Rightarrow> addr \<Rightarrow> bool" where
  "path_in h rt [] p \<longleftrightarrow> rt = p"
| "path_in h rt (FL a c r # fs) p \<longleftrightarrow> a \<noteq> 0 \<and>
     h a = \<lparr> rb_parent = top fs, rb_color = c, rb_right = raddr r, rb_left = p \<rparr> \<and>
     tree_in h a r \<and> path_in h rt fs a"
| "path_in h rt (FR l a c # fs) p \<longleftrightarrow> a \<noteq> 0 \<and>
     h a = \<lparr> rb_parent = top fs, rb_color = c, rb_right = p, rb_left = raddr l \<rparr> \<and>
     tree_in h a l \<and> path_in h rt fs a"

text \<open>The state holds the tree \<open>plug fs t\<close>, seen from its subtree \<open>t\<close>, and every
  address outside it is as in \<open>m\<close>.\<close>

definition zip_in :: "(addr \<Rightarrow> rb_node) \<Rightarrow> rbs \<Rightarrow> frame list \<Rightarrow> tr \<Rightarrow> bool" where
  "zip_in m s fs t \<longleftrightarrow> tree_in (rb_mem s) (top fs) t \<and> path_in (rb_mem s) (rb_root s) fs (raddr t) \<and>
     distinct (inord t @ plist fs) \<and> (\<forall>a. a \<notin> set (inord t @ plist fs) \<longrightarrow> rb_mem s a = m a)"

named_theorems rb_simps \<open>loads and stores, frames of a store\<close>

lemma ld_st [rb_simps]:
  "p \<noteq> 0 \<Longrightarrow> ld s p = Some (rb_mem s p)"
  "p \<noteq> 0 \<Longrightarrow> st s p f = Some (s\<lparr> rb_mem := (rb_mem s)(p := f (rb_mem s p)) \<rparr>)"
  by (simp_all add: ld_def st_def)

lemma tree_in_upd [simp]: "a \<notin> set (inord t) \<Longrightarrow> tree_in (h(a := v)) par t = tree_in h par t"
  by (induction t arbitrary: par) auto

lemma path_in_upd [simp]: "a \<notin> set (plist fs) \<Longrightarrow> path_in (h(a := v)) rt fs p = path_in h rt fs p"
  by (induction fs arbitrary: p rule: plist.induct) auto

lemma tree_in_nonzero: "tree_in h par t \<Longrightarrow> 0 \<notin> set (inord t)"
  by (induction t arbitrary: par) auto

lemma raddr_in: "t \<noteq> Lf \<Longrightarrow> raddr t \<in> set (inord t)"
  by (cases t) auto

lemma raddr_0 [simp]: "tree_in h par t \<Longrightarrow> raddr t = 0 \<longleftrightarrow> t = Lf"
  by (cases t) auto

lemma raddr_neq: "a \<notin> set (inord t) \<Longrightarrow> a \<noteq> 0 \<Longrightarrow> raddr t \<noteq> a"
  by (cases t) auto

lemma tree_in_reparent:
  "tree_in h par t \<Longrightarrow> distinct (inord t) \<Longrightarrow> t \<noteq> Lf \<Longrightarrow>
    tree_in (h(raddr t := (h (raddr t))\<lparr> rb_parent := q \<rparr>)) q t"
  by (cases t) auto

lemma rotate_left_correct:
  assumes "zip_in m s fs (Nd l x c (Nd rl y d rr))"
  shows "\<exists>s'. rb_rotate_left x s = Some s' \<and> zip_in m s' fs (Nd (Nd l x c rl) y d rr)"
proof (cases fs rule: top.cases)
  case 1
  then show ?thesis using assms
    by (cases rl) (auto simp: zip_in_def rb_rotate_left_def rb_simps)
next
  case (2 a e r gs)
  then show ?thesis using assms
    by (cases rl) (auto simp: zip_in_def rb_rotate_left_def rb_simps)
next
  case (3 l' a e gs)
  then have "x \<noteq> raddr l'" using assms by (auto simp: zip_in_def dest: raddr_neq)
  with 3 show ?thesis using assms
    by (cases rl) (auto simp: zip_in_def rb_rotate_left_def rb_simps)
qed

lemma rotate_right_correct:
  assumes "zip_in m s fs (Nd (Nd ll y d lr) x c r)"
  shows "\<exists>s'. rb_rotate_right x s = Some s' \<and> zip_in m s' fs (Nd ll y d (Nd lr x c r))"
proof (cases fs rule: top.cases)
  case 1
  then show ?thesis using assms
    by (cases lr) (auto simp: zip_in_def rb_rotate_right_def rb_simps)
next
  case (2 a e r' gs)
  then have "x \<noteq> raddr r'" using assms by (auto simp: zip_in_def dest: raddr_neq)
  with 2 show ?thesis using assms
    by (cases lr) (auto simp: zip_in_def rb_rotate_right_def rb_simps)
next
  case (3 l' a e gs)
  then show ?thesis using assms
    by (cases lr) (auto simp: zip_in_def rb_rotate_right_def rb_simps)
qed

section \<open>Insertion\<close>

definition is_red :: "rbs \<Rightarrow> addr \<Rightarrow> bool option" where
  "is_red s p = do { n \<leftarrow> ld s p; Some (rb_color n = Red) }"

text \<open>\<open>p && rb_is_red(p)\<close>\<close>

definition red_node :: "rbs \<Rightarrow> addr \<Rightarrow> bool option" where
  "red_node s p = (if p = 0 then Some False else is_red s p)"

partial_function (option) insert_color_loop :: "addr \<Rightarrow> rbs \<Rightarrow> rbs option" where
  "insert_color_loop node s = do {
     n \<leftarrow> ld s node;
     let parent = rb_parent n;
     go \<leftarrow> red_node s parent;
     if \<not> go then Some s
     else do {
       p \<leftarrow> ld s parent;
       let gparent = rb_parent p;
       g \<leftarrow> ld s gparent;
       if parent = rb_left g then do {
         let uncle = rb_right g;
         ured \<leftarrow> red_node s uncle;
         if ured then do {
           s \<leftarrow> set_color uncle Black s;
           s \<leftarrow> set_color parent Black s;
           s \<leftarrow> set_color gparent Red s;
           insert_color_loop gparent s }
         else do {
           (node, parent, s) \<leftarrow> (if rb_right p = node
              then do { s \<leftarrow> rb_rotate_left parent s; Some (parent, node, s) }
              else Some (node, parent, s));
           s \<leftarrow> set_color parent Black s;
           s \<leftarrow> set_color gparent Red s;
           s \<leftarrow> rb_rotate_right gparent s;
           insert_color_loop node s } }
       else do {
         let uncle = rb_left g;
         ured \<leftarrow> red_node s uncle;
         if ured then do {
           s \<leftarrow> set_color uncle Black s;
           s \<leftarrow> set_color parent Black s;
           s \<leftarrow> set_color gparent Red s;
           insert_color_loop gparent s }
         else do {
           (node, parent, s) \<leftarrow> (if rb_left p = node
              then do { s \<leftarrow> rb_rotate_right parent s; Some (parent, node, s) }
              else Some (node, parent, s));
           s \<leftarrow> set_color parent Black s;
           s \<leftarrow> set_color gparent Red s;
           s \<leftarrow> rb_rotate_left gparent s;
           insert_color_loop node s } } } }"

declare insert_color_loop.simps [code]

definition rb_insert_color :: "addr \<Rightarrow> rbs \<Rightarrow> rbs option" where
  "rb_insert_color node s = do {
     s \<leftarrow> insert_color_loop node s;
     set_color (rb_root s) Black s }"

section \<open>Red-black invariants\<close>

fun col :: "tr \<Rightarrow> color" where
  "col Lf = Black"
| "col (Nd l a c r) = c"

fun paint :: "color \<Rightarrow> tr \<Rightarrow> tr" where
  "paint c Lf = Lf"
| "paint c (Nd l a d r) = Nd l a c r"

fun bh :: "tr \<Rightarrow> nat" where
  "bh Lf = 0"
| "bh (Nd l a c r) = (if c = Black then 1 else 0) + bh l"

fun rb_ok :: "tr \<Rightarrow> bool" where
  "rb_ok Lf = True"
| "rb_ok (Nd l a c r) \<longleftrightarrow> rb_ok l \<and> rb_ok r \<and> bh l = bh r \<and> (c = Red \<longrightarrow> col l = Black \<and> col r = Black)"

text \<open>The same for the frames above a subtree of black height \<open>n\<close>: their siblings and their own
  colours.  \<open>top_col\<close> is the colour of the innermost frame, black above the root.\<close>

fun top_col :: "frame list \<Rightarrow> color" where
  "top_col [] = Black"
| "top_col (FL a c r # fs) = c"
| "top_col (FR l a c # fs) = c"

fun path_ok :: "frame list \<Rightarrow> nat \<Rightarrow> bool" where
  "path_ok [] n = True"
| "path_ok (FL a c r # fs) n \<longleftrightarrow> rb_ok r \<and> bh r = n \<and> (c = Red \<longrightarrow> col r = Black \<and> top_col fs = Black) \<and>
     path_ok fs ((if c = Black then 1 else 0) + n)"
| "path_ok (FR l a c # fs) n \<longleftrightarrow> rb_ok l \<and> bh l = n \<and> (c = Red \<longrightarrow> col l = Black \<and> top_col fs = Black) \<and>
     path_ok fs ((if c = Black then 1 else 0) + n)"

definition zip_ok :: "frame list \<Rightarrow> tr \<Rightarrow> bool" where
  "zip_ok fs t \<longleftrightarrow> rb_ok t \<and> path_ok fs (bh t)"

lemma plug_ok: "rb_ok t \<Longrightarrow> path_ok fs (bh t) \<Longrightarrow> (top_col fs = Red \<longrightarrow> col t = Black) \<Longrightarrow> rb_ok (plug fs t)"
  by (induction fs t rule: plug.induct) auto

text \<open>The nodes left and right of the focus.\<close>

fun pre :: "frame list \<Rightarrow> addr list" where
  "pre [] = []"
| "pre (FL a c r # fs) = pre fs"
| "pre (FR l a c # fs) = pre fs @ inord l @ [a]"

fun suf :: "frame list \<Rightarrow> addr list" where
  "suf [] = []"
| "suf (FL a c r # fs) = a # inord r @ suf fs"
| "suf (FR l a c # fs) = suf fs"

lemma inord_plug [simp]: "inord (plug fs t) = pre fs @ inord t @ suf fs"
  by (induction fs t rule: plug.induct) auto

lemma set_plist: "set (plist fs) = set (pre fs) \<union> set (suf fs)"
  by (induction fs rule: plist.induct) auto

lemma mset_plist: "mset (plist fs) = mset (pre fs @ suf fs)"
  by (induction fs rule: plist.induct) auto

lemma distinct_zip: "distinct (inord t @ plist fs) \<longleftrightarrow> distinct (pre fs @ inord t @ suf fs)"
proof -
  have "mset (inord t @ plist fs) = mset (pre fs @ inord t @ suf fs)" by (simp add: mset_plist)
  then show ?thesis by (rule mset_eq_imp_distinct_iff)
qed

lemma zip_in_up:
  "zip_in m s (FL a c r # fs) t = zip_in m s fs (Nd t a c r)"
  "zip_in m s (FR l a c # fs) t = zip_in m s fs (Nd l a c t)"
  by (auto simp: zip_in_def)

lemma zip_in_plug: "zip_in m s fs t = zip_in m s [] (plug fs t)"
  by (induction fs t rule: plug.induct) (simp_all add: zip_in_up)

section \<open>Recolouring a represented node\<close>

lemma color_root:
  "zip_in m s fs (Nd l a c r) \<Longrightarrow> \<exists>s'. set_color a c' s = Some s' \<and> zip_in m s' fs (Nd l a c' r)"
  by (auto simp: zip_in_def rb_simps)

lemma color_left:
  assumes "zip_in m s fs (Nd (Nd ll p c lr) g d r)"
  shows "\<exists>s'. set_color p c' s = Some s' \<and> zip_in m s' fs (Nd (Nd ll p c' lr) g d r)"
  using color_root [of m s "FL g d r # fs"] assms by (simp add: zip_in_up)

lemma color_right:
  assumes "zip_in m s fs (Nd l g d (Nd rl p c rr))"
  shows "\<exists>s'. set_color p c' s = Some s' \<and> zip_in m s' fs (Nd l g d (Nd rl p c' rr))"
  using color_root [of m s "FR l g d # fs"] assms by (simp add: zip_in_up)

section \<open>rb_insert_color\<close>

definition root_black :: "frame list \<Rightarrow> bool" where
  "root_black fs \<longleftrightarrow> (fs \<noteq> [] \<longrightarrow> top_col [last fs] = Black)"

lemma root_black_tl: "root_black (f # fs) \<Longrightarrow> root_black fs"
  by (auto simp: root_black_def)

lemma ld_root: "zip_in m s fs (Nd l a c r) \<Longrightarrow>
    ld s a = Some \<lparr> rb_parent = top fs, rb_color = c, rb_right = raddr r, rb_left = raddr l \<rparr>"
  by (simp add: zip_in_def rb_simps)

lemma red_node_root: "zip_in m s fs t \<Longrightarrow> red_node s (raddr t) = Some (col t = Red)"
  by (cases t) (auto simp: red_node_def is_red_def ld_root zip_in_def rb_simps)

lemma red_node_left: "zip_in m s fs (Nd l a c r) \<Longrightarrow> red_node s (raddr l) = Some (col l = Red)"
  using red_node_root [of m s "FL a c r # fs" l] by (simp add: zip_in_up)

lemma red_node_right: "zip_in m s fs (Nd l a c r) \<Longrightarrow> red_node s (raddr r) = Some (col r = Red)"
  using red_node_root [of m s "FR l a c # fs" r] by (simp add: zip_in_up)

lemma red_node_top: "zip_in m s fs t \<Longrightarrow> red_node s (top fs) = Some (top_col fs = Red)"
  by (cases fs rule: top.cases) (auto simp: red_node_def is_red_def zip_in_def rb_simps)

lemmas zip_reads = ld_root red_node_left red_node_right red_node_top

text \<open>The loop stops below a black parent, or at the root.\<close>

lemma insert_loop_stop:
  assumes "zip_in m s fs (Nd l n c r)" and "top_col fs = Black"
  shows "insert_color_loop n s = Some s"
  by (subst insert_color_loop.simps) (use assms in \<open>simp add: zip_reads\<close>)

text \<open>What the loop sees from a red node under a red parent: node, parent, grandparent and
  uncle, in the four shapes.\<close>

lemma insert_step_LL:
  assumes z: "zip_in m s fs (Nd (Nd (Nd l n c r) p Red pr) g d U)"
  shows "if col U = Red then \<exists>s'. insert_color_loop n s = insert_color_loop g s' \<and>
      zip_in m s' fs (Nd (Nd (Nd l n c r) p Black pr) g Red (paint Black U))
    else \<exists>s'. insert_color_loop n s = insert_color_loop n s' \<and>
      zip_in m s' fs (Nd (Nd l n c r) p Black (Nd pr g Red U))"
proof -
  have zn: "zip_in m s (FL p Red pr # FL g d U # fs) (Nd l n c r)"
    and zp: "zip_in m s (FL g d U # fs) (Nd (Nd l n c r) p Red pr)"
    using z by (simp_all add: zip_in_up)
  have ne: "raddr pr \<noteq> n" using z by (auto simp: zip_in_def dest: raddr_neq)
  have go: "insert_color_loop n s =
     (if col U = Red then do { s \<leftarrow> set_color (raddr U) Black s; s \<leftarrow> set_color p Black s;
         s \<leftarrow> set_color g Red s; insert_color_loop g s }
      else do { s \<leftarrow> set_color p Black s; s \<leftarrow> set_color g Red s; s \<leftarrow> rb_rotate_right g s; insert_color_loop n s })"
    by (subst insert_color_loop.simps)
      (simp add: ld_root [OF zn] ld_root [OF zp] ld_root [OF z] red_node_top [OF zn, simplified] red_node_right [OF z] ne)
  show ?thesis
  proof (cases "col U = Red")
    case True
    then obtain ul u ur where U: "U = Nd ul u Red ur" by (cases U) auto
    obtain s1 where 1: "set_color u Black s = Some s1" "zip_in m s1 fs (Nd (Nd (Nd l n c r) p Red pr) g d (Nd ul u Black ur))"
      using color_right z U by blast
    obtain s2 where 2: "set_color p Black s1 = Some s2" "zip_in m s2 fs (Nd (Nd (Nd l n c r) p Black pr) g d (Nd ul u Black ur))"
      using color_left 1 by blast
    obtain s3 where 3: "set_color g Red s2 = Some s3" "zip_in m s3 fs (Nd (Nd (Nd l n c r) p Black pr) g Red (Nd ul u Black ur))"
      using color_root 2 by blast
    show ?thesis using go 1 2 3 U by auto
  next
    case False
    obtain s2 where 2: "set_color p Black s = Some s2" "zip_in m s2 fs (Nd (Nd (Nd l n c r) p Black pr) g d U)"
      using color_left z by blast
    obtain s3 where 3: "set_color g Red s2 = Some s3" "zip_in m s3 fs (Nd (Nd (Nd l n c r) p Black pr) g Red U)"
      using color_root 2 by blast
    obtain s4 where 4: "rb_rotate_right g s3 = Some s4" "zip_in m s4 fs (Nd (Nd l n c r) p Black (Nd pr g Red U))"
      using rotate_right_correct [OF 3(2)] by blast
    show ?thesis using go False 2 3 4 by auto
  qed
qed

lemma insert_step_LR:
  assumes z: "zip_in m s fs (Nd (Nd pl p Red (Nd l n c r)) g d U)"
  shows "if col U = Red then \<exists>s'. insert_color_loop n s = insert_color_loop g s' \<and>
      zip_in m s' fs (Nd (Nd pl p Black (Nd l n c r)) g Red (paint Black U))
    else \<exists>s'. insert_color_loop n s = insert_color_loop p s' \<and>
      zip_in m s' fs (Nd (Nd pl p Red l) n Black (Nd r g Red U))"
proof -
  have zn: "zip_in m s (FR pl p Red # FL g d U # fs) (Nd l n c r)"
    and zp: "zip_in m s (FL g d U # fs) (Nd pl p Red (Nd l n c r))"
    using z by (simp_all add: zip_in_up)
  have go: "insert_color_loop n s =
     (if col U = Red then do { s \<leftarrow> set_color (raddr U) Black s; s \<leftarrow> set_color p Black s;
         s \<leftarrow> set_color g Red s; insert_color_loop g s }
      else do { s \<leftarrow> rb_rotate_left p s; s \<leftarrow> set_color n Black s; s \<leftarrow> set_color g Red s;
         s \<leftarrow> rb_rotate_right g s; insert_color_loop p s })"
    by (subst insert_color_loop.simps)
      (simp add: ld_root [OF zn] ld_root [OF zp] ld_root [OF z] red_node_top [OF zn, simplified] red_node_right [OF z])
  show ?thesis
  proof (cases "col U = Red")
    case True
    then obtain ul u ur where U: "U = Nd ul u Red ur" by (cases U) auto
    obtain s1 where 1: "set_color u Black s = Some s1" "zip_in m s1 fs (Nd (Nd pl p Red (Nd l n c r)) g d (Nd ul u Black ur))"
      using color_right z U by blast
    obtain s2 where 2: "set_color p Black s1 = Some s2" "zip_in m s2 fs (Nd (Nd pl p Black (Nd l n c r)) g d (Nd ul u Black ur))"
      using color_left 1 by blast
    obtain s3 where 3: "set_color g Red s2 = Some s3" "zip_in m s3 fs (Nd (Nd pl p Black (Nd l n c r)) g Red (Nd ul u Black ur))"
      using color_root 2 by blast
    show ?thesis using go 1 2 3 U by auto
  next
    case False
    obtain s1 where 1: "rb_rotate_left p s = Some s1" "zip_in m s1 fs (Nd (Nd (Nd pl p Red l) n c r) g d U)"
      using rotate_left_correct [OF zp] by (auto simp: zip_in_up)
    obtain s2 where 2: "set_color n Black s1 = Some s2" "zip_in m s2 fs (Nd (Nd (Nd pl p Red l) n Black r) g d U)"
      using color_left 1 by blast
    obtain s3 where 3: "set_color g Red s2 = Some s3" "zip_in m s3 fs (Nd (Nd (Nd pl p Red l) n Black r) g Red U)"
      using color_root 2 by blast
    obtain s4 where 4: "rb_rotate_right g s3 = Some s4" "zip_in m s4 fs (Nd (Nd pl p Red l) n Black (Nd r g Red U))"
      using rotate_right_correct [OF 3(2)] by blast
    show ?thesis using go False 1 2 3 4 by auto
  qed
qed

lemma insert_step_RR:
  assumes z: "zip_in m s fs (Nd U g d (Nd pl p Red (Nd l n c r)))"
  shows "if col U = Red then \<exists>s'. insert_color_loop n s = insert_color_loop g s' \<and>
      zip_in m s' fs (Nd (paint Black U) g Red (Nd pl p Black (Nd l n c r)))
    else \<exists>s'. insert_color_loop n s = insert_color_loop n s' \<and>
      zip_in m s' fs (Nd (Nd U g Red pl) p Black (Nd l n c r))"
proof -
  have zn: "zip_in m s (FR pl p Red # FR U g d # fs) (Nd l n c r)"
    and zp: "zip_in m s (FR U g d # fs) (Nd pl p Red (Nd l n c r))"
    using z by (simp_all add: zip_in_up)
  have ne: "raddr pl \<noteq> n" "p \<noteq> raddr U" using z by (auto simp: zip_in_def dest: raddr_neq)
  have go: "insert_color_loop n s =
     (if col U = Red then do { s \<leftarrow> set_color (raddr U) Black s; s \<leftarrow> set_color p Black s;
         s \<leftarrow> set_color g Red s; insert_color_loop g s }
      else do { s \<leftarrow> set_color p Black s; s \<leftarrow> set_color g Red s; s \<leftarrow> rb_rotate_left g s; insert_color_loop n s })"
    by (subst insert_color_loop.simps)
      (simp add: ld_root [OF zn] ld_root [OF zp] ld_root [OF z] red_node_top [OF zn, simplified] red_node_left [OF z] ne)
  show ?thesis
  proof (cases "col U = Red")
    case True
    then obtain ul u ur where U: "U = Nd ul u Red ur" by (cases U) auto
    obtain s1 where 1: "set_color u Black s = Some s1" "zip_in m s1 fs (Nd (Nd ul u Black ur) g d (Nd pl p Red (Nd l n c r)))"
      using color_left z U by blast
    obtain s2 where 2: "set_color p Black s1 = Some s2" "zip_in m s2 fs (Nd (Nd ul u Black ur) g d (Nd pl p Black (Nd l n c r)))"
      using color_right 1 by blast
    obtain s3 where 3: "set_color g Red s2 = Some s3" "zip_in m s3 fs (Nd (Nd ul u Black ur) g Red (Nd pl p Black (Nd l n c r)))"
      using color_root 2 by blast
    show ?thesis using go 1 2 3 U by auto
  next
    case False
    obtain s2 where 2: "set_color p Black s = Some s2" "zip_in m s2 fs (Nd U g d (Nd pl p Black (Nd l n c r)))"
      using color_right z by blast
    obtain s3 where 3: "set_color g Red s2 = Some s3" "zip_in m s3 fs (Nd U g Red (Nd pl p Black (Nd l n c r)))"
      using color_root 2 by blast
    obtain s4 where 4: "rb_rotate_left g s3 = Some s4" "zip_in m s4 fs (Nd (Nd U g Red pl) p Black (Nd l n c r))"
      using rotate_left_correct [OF 3(2)] by blast
    show ?thesis using go False 2 3 4 by auto
  qed
qed

lemma insert_step_RL:
  assumes z: "zip_in m s fs (Nd U g d (Nd (Nd l n c r) p Red pr))"
  shows "if col U = Red then \<exists>s'. insert_color_loop n s = insert_color_loop g s' \<and>
      zip_in m s' fs (Nd (paint Black U) g Red (Nd (Nd l n c r) p Black pr))
    else \<exists>s'. insert_color_loop n s = insert_color_loop p s' \<and>
      zip_in m s' fs (Nd (Nd U g Red l) n Black (Nd r p Red pr))"
proof -
  have zn: "zip_in m s (FL p Red pr # FR U g d # fs) (Nd l n c r)"
    and zp: "zip_in m s (FR U g d # fs) (Nd (Nd l n c r) p Red pr)"
    using z by (simp_all add: zip_in_up)
  have ne: "p \<noteq> raddr U" using z by (auto simp: zip_in_def dest: raddr_neq)
  have go: "insert_color_loop n s =
     (if col U = Red then do { s \<leftarrow> set_color (raddr U) Black s; s \<leftarrow> set_color p Black s;
         s \<leftarrow> set_color g Red s; insert_color_loop g s }
      else do { s \<leftarrow> rb_rotate_right p s; s \<leftarrow> set_color n Black s; s \<leftarrow> set_color g Red s;
         s \<leftarrow> rb_rotate_left g s; insert_color_loop p s })"
    by (subst insert_color_loop.simps)
      (simp add: ld_root [OF zn] ld_root [OF zp] ld_root [OF z] red_node_top [OF zn, simplified] red_node_left [OF z] ne)
  show ?thesis
  proof (cases "col U = Red")
    case True
    then obtain ul u ur where U: "U = Nd ul u Red ur" by (cases U) auto
    obtain s1 where 1: "set_color u Black s = Some s1" "zip_in m s1 fs (Nd (Nd ul u Black ur) g d (Nd (Nd l n c r) p Red pr))"
      using color_left z U by blast
    obtain s2 where 2: "set_color p Black s1 = Some s2" "zip_in m s2 fs (Nd (Nd ul u Black ur) g d (Nd (Nd l n c r) p Black pr))"
      using color_right 1 by blast
    obtain s3 where 3: "set_color g Red s2 = Some s3" "zip_in m s3 fs (Nd (Nd ul u Black ur) g Red (Nd (Nd l n c r) p Black pr))"
      using color_root 2 by blast
    show ?thesis using go 1 2 3 U by auto
  next
    case False
    obtain s1 where 1: "rb_rotate_right p s = Some s1" "zip_in m s1 fs (Nd U g d (Nd l n c (Nd r p Red pr)))"
      using rotate_right_correct [OF zp] by (auto simp: zip_in_up)
    obtain s2 where 2: "set_color n Black s1 = Some s2" "zip_in m s2 fs (Nd U g d (Nd l n Black (Nd r p Red pr)))"
      using color_right 1 by blast
    obtain s3 where 3: "set_color g Red s2 = Some s3" "zip_in m s3 fs (Nd U g Red (Nd l n Black (Nd r p Red pr)))"
      using color_root 2 by blast
    obtain s4 where 4: "rb_rotate_left g s3 = Some s4" "zip_in m s4 fs (Nd (Nd U g Red l) n Black (Nd r p Red pr))"
      using rotate_left_correct [OF 3(2)] by blast
    show ?thesis using go False 1 2 3 4 by auto
  qed
qed

lemma bh_paint: "rb_ok t \<Longrightarrow> bh (paint Black t) = (if col t = Red then Suc (bh t) else bh t)"
  by (cases t) auto

lemma rb_ok_paint [simp]: "rb_ok t \<Longrightarrow> rb_ok (paint Black t)" "inord (paint c t) = inord t"
    "col (paint Black t) = Black"
  by (cases t; auto)+

text \<open>What the loop leaves: the same sequence, and a tree that is red-black but for the colour
  of its root.\<close>

definition insert_done :: "(addr \<Rightarrow> rb_node) \<Rightarrow> rbs option \<Rightarrow> addr list \<Rightarrow> bool" where
  "insert_done m res xs \<longleftrightarrow> (\<exists>s' t'. res = Some s' \<and> zip_in m s' [] t' \<and> t' \<noteq> Lf \<and> inord t' = xs \<and> rb_ok t')"

lemma plug_nonempty: "t \<noteq> Lf \<Longrightarrow> plug fs t \<noteq> Lf"
  by (induction fs t rule: plug.induct) auto

lemma insert_done_stop:
  assumes z: "zip_in m s fs (Nd l n c r)" and "top_col fs = Black" and "rb_ok (Nd l n c r)"
    and "path_ok fs (bh (Nd l n c r))" and xs: "inord (plug fs (Nd l n c r)) = xs"
  shows "insert_done m (insert_color_loop n s) xs"
proof -
  have "rb_ok (plug fs (Nd l n c r))" using assms by (intro plug_ok) auto
  moreover have "plug fs (Nd l n c r) \<noteq> Lf" by (simp add: plug_nonempty)
  moreover have "zip_in m s [] (plug fs (Nd l n c r))" using z zip_in_plug by blast
  ultimately show ?thesis
    unfolding insert_done_def insert_loop_stop [OF assms(1,2)] using xs by blast
qed

lemma insert_loop_correct:
  assumes "zip_in m s fs (Nd l n Red r)" and "rb_ok (Nd l n Red r)" and "path_ok fs (bh (Nd l n Red r))"
    and "root_black fs"
  shows "insert_done m (insert_color_loop n s) (inord (plug fs (Nd l n Red r)))"
  using assms
proof (induction "length fs" arbitrary: s fs l n r rule: less_induct)
  case less
  note z = less.prems(1) and ok = less.prems(2) and pok = less.prems(3) and rbl = less.prems(4)
  show ?case
  proof (cases "top_col fs = Black")
    case True
    then show ?thesis using insert_done_stop z ok pok by blast
  next
    case False
    then obtain F gs where fs: "fs = F # gs" and Fc: "top_col [F] = Red"
      by (cases fs rule: top.cases) auto
    then obtain G hs where gs: "gs = G # hs" using rbl by (cases gs) (auto simp: root_black_def)
    have IH: "insert_done m (insert_color_loop g s') xs"
      if "zip_in m s' hs (Nd gl g Red gr)" "rb_ok (Nd gl g Red gr)" "path_ok hs (bh (Nd gl g Red gr))"
        "inord (plug hs (Nd gl g Red gr)) = xs" for s' gl g gr xs
      using less.hyps [OF _ that(1-3)] that(4) rbl fs gs by (auto dest: root_black_tl)
    show ?thesis
    proof (cases F)
      case F: (FL p c' pr)
      then have F: "F = FL p Red pr" using Fc by simp
      show ?thesis
      proof (cases G)
        case G: (FL g d U)
        have z0: "zip_in m s hs (Nd (Nd (Nd l n Red r) p Red pr) g d U)" using z by (simp add: fs gs F G zip_in_up)
        note step = insert_step_LL [OF z0]
        show ?thesis
        proof (cases "col U = Red")
          case True
          obtain s' where e: "insert_color_loop n s = insert_color_loop g s'"
            and z': "zip_in m s' hs (Nd (Nd (Nd l n Red r) p Black pr) g Red (paint Black U))"
            using step True by auto
          show ?thesis unfolding e
            by (rule IH [OF z']) (use ok pok Fc True bh_paint [of U] in \<open>auto simp: fs gs F G\<close>)
        next
          case False
          obtain s' where e: "insert_color_loop n s = insert_color_loop n s'"
            and z': "zip_in m s' (FL p Black (Nd pr g Red U) # hs) (Nd l n Red r)"
            using step False by (auto simp: zip_in_up)
          show ?thesis unfolding e
            by (rule insert_done_stop [OF z']) (use ok pok Fc False in \<open>auto simp: fs gs F G\<close>)
        qed
      next
        case G: (FR U g d)
        have z0: "zip_in m s hs (Nd U g d (Nd (Nd l n Red r) p Red pr))" using z by (simp add: fs gs F G zip_in_up)
        note step = insert_step_RL [OF z0]
        show ?thesis
        proof (cases "col U = Red")
          case True
          obtain s' where e: "insert_color_loop n s = insert_color_loop g s'"
            and z': "zip_in m s' hs (Nd (paint Black U) g Red (Nd (Nd l n Red r) p Black pr))"
            using step True by auto
          show ?thesis unfolding e
            by (rule IH [OF z']) (use ok pok Fc True bh_paint [of U] in \<open>auto simp: fs gs F G\<close>)
        next
          case False
          obtain s' where e: "insert_color_loop n s = insert_color_loop p s'"
            and z': "zip_in m s' (FR (Nd U g Red l) n Black # hs) (Nd r p Red pr)"
            using step False by (auto simp: zip_in_up)
          show ?thesis unfolding e
            by (rule insert_done_stop [OF z']) (use ok pok Fc False in \<open>auto simp: fs gs F G\<close>)
        qed
      qed
    next
      case F: (FR pl p c')
      then have F: "F = FR pl p Red" using Fc by simp
      show ?thesis
      proof (cases G)
        case G: (FL g d U)
        have z0: "zip_in m s hs (Nd (Nd pl p Red (Nd l n Red r)) g d U)" using z by (simp add: fs gs F G zip_in_up)
        note step = insert_step_LR [OF z0]
        show ?thesis
        proof (cases "col U = Red")
          case True
          obtain s' where e: "insert_color_loop n s = insert_color_loop g s'"
            and z': "zip_in m s' hs (Nd (Nd pl p Black (Nd l n Red r)) g Red (paint Black U))"
            using step True by auto
          show ?thesis unfolding e
            by (rule IH [OF z']) (use ok pok Fc True bh_paint [of U] in \<open>auto simp: fs gs F G\<close>)
        next
          case False
          obtain s' where e: "insert_color_loop n s = insert_color_loop p s'"
            and z': "zip_in m s' (FL n Black (Nd r g Red U) # hs) (Nd pl p Red l)"
            using step False by (auto simp: zip_in_up)
          show ?thesis unfolding e
            by (rule insert_done_stop [OF z']) (use ok pok Fc False in \<open>auto simp: fs gs F G\<close>)
        qed
      next
        case G: (FR U g d)
        have z0: "zip_in m s hs (Nd U g d (Nd pl p Red (Nd l n Red r)))" using z by (simp add: fs gs F G zip_in_up)
        note step = insert_step_RR [OF z0]
        show ?thesis
        proof (cases "col U = Red")
          case True
          obtain s' where e: "insert_color_loop n s = insert_color_loop g s'"
            and z': "zip_in m s' hs (Nd (paint Black U) g Red (Nd pl p Black (Nd l n Red r)))"
            using step True by auto
          show ?thesis unfolding e
            by (rule IH [OF z']) (use ok pok Fc True bh_paint [of U] in \<open>auto simp: fs gs F G\<close>)
        next
          case False
          obtain s' where e: "insert_color_loop n s = insert_color_loop n s'"
            and z': "zip_in m s' (FR (Nd U g Red pl) p Black # hs) (Nd l n Red r)"
            using step False by (auto simp: zip_in_up)
          show ?thesis unfolding e
            by (rule insert_done_stop [OF z']) (use ok pok Fc False in \<open>auto simp: fs gs F G\<close>)
        qed
      qed
    qed
  qed
qed

section \<open>Linking and inserting a node\<close>

text \<open>The slot \<open>struct rb_node **\<close> a new node is stored to.\<close>

datatype rb_slot = RootSlot | LeftSlot addr | RightSlot addr

definition load_slot :: "rb_slot \<Rightarrow> rbs \<Rightarrow> addr option" where
  "load_slot slot s = (case slot of
     RootSlot \<Rightarrow> Some (rb_root s)
   | LeftSlot p \<Rightarrow> map_option rb_left (ld s p)
   | RightSlot p \<Rightarrow> map_option rb_right (ld s p))"

definition store_slot :: "rb_slot \<Rightarrow> addr \<Rightarrow> rbs \<Rightarrow> rbs option" where
  "store_slot slot n s = (case slot of
     RootSlot \<Rightarrow> Some (s\<lparr> rb_root := n \<rparr>)
   | LeftSlot p \<Rightarrow> set_left p n s
   | RightSlot p \<Rightarrow> set_right p n s)"

text \<open>\<open>rb_parent_color = parent\<close> makes the node red.\<close>

definition rb_link_node :: "addr \<Rightarrow> addr \<Rightarrow> rb_slot \<Rightarrow> rbs \<Rightarrow> rbs option" where
  "rb_link_node node parent slot s = do {
     s \<leftarrow> st s node (\<lambda>n. n\<lparr> rb_parent := parent, rb_color := Red \<rparr>);
     s \<leftarrow> st s node (\<lambda>n. n\<lparr> rb_right := 0, rb_left := 0 \<rparr>);
     store_slot slot node s }"

fun slot_of :: "frame list \<Rightarrow> rb_slot" where
  "slot_of [] = RootSlot"
| "slot_of (FL a c r # fs) = LeftSlot a"
| "slot_of (FR l a c # fs) = RightSlot a"

lemma rb_link_node_correct:
  assumes "zip_in m s fs Lf" and "n \<noteq> 0" and "n \<notin> set (plist fs)"
  shows "\<exists>s'. rb_link_node n (top fs) (slot_of fs) s = Some s' \<and> zip_in m s' fs (Nd Lf n Red Lf)"
proof (cases fs rule: top.cases)
qed (use assms in \<open>auto simp: zip_in_def rb_link_node_def store_slot_def rb_simps\<close>)+

lemma root_black_pathD: "root_black fs \<Longrightarrow> fs \<noteq> [] \<Longrightarrow> col (plug fs t) = Black"
proof (induction fs arbitrary: t rule: plist.induct)
  case (2 a c r fs)
  then show ?case by (cases fs) (auto simp: root_black_def)
next
  case (3 a c r fs)
  then show ?case by (cases fs) (auto simp: root_black_def)
qed simp

text \<open>A node that is in no tree is linked below a leaf and the tree repaired: the sequence gains
  the node at that place, the tree is red-black with a black root.\<close>

lemma rb_insert_correct:
  assumes z: "zip_in m s fs Lf" and ok: "rb_ok (plug fs Lf)" and pok: "path_ok fs 0"
    and rbl: "root_black fs" and n: "n \<noteq> 0" "n \<notin> set (plist fs)"
  shows "\<exists>s' t'. do { s \<leftarrow> rb_link_node n (top fs) (slot_of fs) s; rb_insert_color n s } = Some s' \<and>
    zip_in m s' [] t' \<and> inord t' = pre fs @ n # suf fs \<and> rb_ok t' \<and> col t' = Black"
proof -
  obtain s1 where 1: "rb_link_node n (top fs) (slot_of fs) s = Some s1" "zip_in m s1 fs (Nd Lf n Red Lf)"
    using rb_link_node_correct [OF z n] by blast
  have "insert_done m (insert_color_loop n s1) (inord (plug fs (Nd Lf n Red Lf)))"
    using 1(2) pok rbl by (intro insert_loop_correct) auto
  then obtain s2 t2 where 2: "insert_color_loop n s1 = Some s2" "zip_in m s2 [] t2" "t2 \<noteq> Lf"
      "inord t2 = pre fs @ n # suf fs" "rb_ok t2"
    by (auto simp: insert_done_def)
  obtain l a c r where t2: "t2 = Nd l a c r" using 2(3) by (cases t2) auto
  obtain s3 where "set_color a Black s2 = Some s3" "zip_in m s3 [] (Nd l a Black r)"
    using color_root 2(2) t2 by blast
  moreover have "rb_root s2 = a" using 2(2) t2 by (simp add: zip_in_def)
  ultimately show ?thesis
    using 1(1) 2 t2 by (auto simp: rb_insert_color_def intro!: exI [of _ "Nd l a Black r"])
qed

section \<open>Erasing\<close>

text \<open>The body of the loop of \<open>__rb_erase_color\<close>, in two parts per side: making the sibling
  black, and the rest.  The rest answers whether the loop goes on, and its variables.\<close>

definition erase_red_left :: "addr \<Rightarrow> rbs \<Rightarrow> (addr \<times> rbs) option" where
  "erase_red_left parent s = do {
     p \<leftarrow> ld s parent;
     let other = rb_right p;
     ored \<leftarrow> is_red s other;
     if ored then do {
       s \<leftarrow> set_color other Black s;
       s \<leftarrow> set_color parent Red s;
       s \<leftarrow> rb_rotate_left parent s;
       p \<leftarrow> ld s parent;
       Some (rb_right p, s) }
     else Some (other, s) }"

definition erase_rest_left :: "addr \<Rightarrow> addr \<Rightarrow> rbs \<Rightarrow> (bool \<times> addr \<times> addr \<times> rbs) option" where
  "erase_rest_left other parent s = do {
     o' \<leftarrow> ld s other;
     lr \<leftarrow> red_node s (rb_left o');
     rr \<leftarrow> red_node s (rb_right o');
     if \<not> lr \<and> \<not> rr then do {
       s \<leftarrow> set_color other Red s;
       n \<leftarrow> ld s parent;
       Some (True, parent, rb_parent n, s) }
     else do {
       (other, s) \<leftarrow> (if \<not> rr then do {
            s \<leftarrow> set_color (rb_left o') Black s;
            s \<leftarrow> set_color other Red s;
            s \<leftarrow> rb_rotate_right other s;
            p \<leftarrow> ld s parent;
            Some (rb_right p, s) }
          else Some (other, s));
       p \<leftarrow> ld s parent;
       s \<leftarrow> set_color other (rb_color p) s;
       s \<leftarrow> set_color parent Black s;
       o' \<leftarrow> ld s other;
       s \<leftarrow> set_color (rb_right o') Black s;
       s \<leftarrow> rb_rotate_left parent s;
       Some (False, rb_root s, parent, s) } }"

definition erase_red_right :: "addr \<Rightarrow> rbs \<Rightarrow> (addr \<times> rbs) option" where
  "erase_red_right parent s = do {
     p \<leftarrow> ld s parent;
     let other = rb_left p;
     ored \<leftarrow> is_red s other;
     if ored then do {
       s \<leftarrow> set_color other Black s;
       s \<leftarrow> set_color parent Red s;
       s \<leftarrow> rb_rotate_right parent s;
       p \<leftarrow> ld s parent;
       Some (rb_left p, s) }
     else Some (other, s) }"

definition erase_rest_right :: "addr \<Rightarrow> addr \<Rightarrow> rbs \<Rightarrow> (bool \<times> addr \<times> addr \<times> rbs) option" where
  "erase_rest_right other parent s = do {
     o' \<leftarrow> ld s other;
     lr \<leftarrow> red_node s (rb_left o');
     rr \<leftarrow> red_node s (rb_right o');
     if \<not> lr \<and> \<not> rr then do {
       s \<leftarrow> set_color other Red s;
       n \<leftarrow> ld s parent;
       Some (True, parent, rb_parent n, s) }
     else do {
       (other, s) \<leftarrow> (if \<not> lr then do {
            s \<leftarrow> set_color (rb_right o') Black s;
            s \<leftarrow> set_color other Red s;
            s \<leftarrow> rb_rotate_left other s;
            p \<leftarrow> ld s parent;
            Some (rb_left p, s) }
          else Some (other, s));
       p \<leftarrow> ld s parent;
       s \<leftarrow> set_color other (rb_color p) s;
       s \<leftarrow> set_color parent Black s;
       o' \<leftarrow> ld s other;
       s \<leftarrow> set_color (rb_left o') Black s;
       s \<leftarrow> rb_rotate_right parent s;
       Some (False, rb_root s, parent, s) } }"

partial_function (option) erase_color_loop :: "addr \<Rightarrow> addr \<Rightarrow> rbs \<Rightarrow> (addr \<times> rbs) option" where
  "erase_color_loop node parent s = do {
     red \<leftarrow> red_node s node;
     if \<not> red \<and> node \<noteq> rb_root s then do {
       p \<leftarrow> ld s parent;
       (go, node, parent, s) \<leftarrow> (if rb_left p = node
          then do { (other, s) \<leftarrow> erase_red_left parent s; erase_rest_left other parent s }
          else do { (other, s) \<leftarrow> erase_red_right parent s; erase_rest_right other parent s });
       if go then erase_color_loop node parent s else Some (node, s) }
     else Some (node, s) }"

declare erase_color_loop.simps [code]

definition rb_erase_color :: "addr \<Rightarrow> addr \<Rightarrow> rbs \<Rightarrow> rbs option" where
  "rb_erase_color node parent s = do {
     (node, s) \<leftarrow> erase_color_loop node parent s;
     if node \<noteq> 0 then set_color node Black s else Some s }"

subsection \<open>One round of the loop\<close>

lemma red_left_step:
  assumes z: "zip_in m s fs (Nd t p c (Nd sl o' oc sr))"
  shows "if oc = Red then \<exists>s'. erase_red_left p s = Some (raddr sl, s') \<and>
      zip_in m s' fs (Nd (Nd t p Red sl) o' Black sr)
    else erase_red_left p s = Some (o', s)"
proof (cases oc)
  case Black
  then show ?thesis
    using ld_root [OF z] red_node_right [OF z] z
    by (auto simp: erase_red_left_def red_node_def zip_in_def)
next
  case Red
  obtain s1 where 1: "set_color o' Black s = Some s1" "zip_in m s1 fs (Nd t p c (Nd sl o' Black sr))"
    using color_right z Red by blast
  obtain s2 where 2: "set_color p Red s1 = Some s2" "zip_in m s2 fs (Nd t p Red (Nd sl o' Black sr))"
    using color_root 1 by blast
  obtain s3 where 3: "rb_rotate_left p s2 = Some s3" "zip_in m s3 fs (Nd (Nd t p Red sl) o' Black sr)"
    using rotate_left_correct 2 by blast
  have "ld s3 p = Some \<lparr> rb_parent = o', rb_color = Red, rb_right = raddr sl, rb_left = raddr t \<rparr>"
    using ld_root [of m s3 "FL o' Black sr # fs" t p Red sl] 3 by (simp add: zip_in_up)
  then show ?thesis
    using ld_root [OF z] red_node_right [OF z] z 1 2 3 Red
    by (auto simp: erase_red_left_def red_node_def zip_in_def)
qed

lemma rest_left_step:
  assumes z: "zip_in m s fs (Nd t p c (Nd sl o' Black sr))"
  defines "T \<equiv> (if col sr = Red then Nd (Nd t p Black sl) o' c (paint Black sr)
    else case sl of Lf \<Rightarrow> Lf | Nd sll q d slr \<Rightarrow> Nd (Nd t p Black sll) q c (Nd slr o' Black sr))"
  shows "if col sl = Black \<and> col sr = Black
    then \<exists>s'. erase_rest_left o' p s = Some (True, p, top fs, s') \<and> zip_in m s' fs (Nd t p c (Nd sl o' Red sr))
    else \<exists>s'. erase_rest_left o' p s = Some (False, rb_root s', p, s') \<and> zip_in m s' fs T"
proof -
  have zo: "zip_in m s (FR t p c # fs) (Nd sl o' Black sr)" using z by (simp add: zip_in_up)
  note rd = ld_root [OF zo] red_node_left [OF zo] red_node_right [OF zo]
  have last_step: "\<exists>s'. do { p' \<leftarrow> ld s p; s \<leftarrow> set_color q (rb_color p') s; s \<leftarrow> set_color p Black s;
        o' \<leftarrow> ld s q; s \<leftarrow> set_color (rb_right o') Black s; s \<leftarrow> rb_rotate_left p s;
        Some (False, rb_root s, p, s) } = Some (False, rb_root s', p, s') \<and>
      zip_in m s' fs (Nd (Nd t p Black ql) q c (Nd rl r Black rr))"
    if z: "zip_in m s fs (Nd t p c (Nd ql q Black (Nd rl r Red rr)))" for s q ql rl r rr
  proof -
    obtain s1 where 1: "set_color q c s = Some s1" "zip_in m s1 fs (Nd t p c (Nd ql q c (Nd rl r Red rr)))"
      using color_right z by blast
    obtain s2 where 2: "set_color p Black s1 = Some s2" "zip_in m s2 fs (Nd t p Black (Nd ql q c (Nd rl r Red rr)))"
      using color_root 1 by blast
    have z2: "zip_in m s2 (FR t p Black # fs) (Nd ql q c (Nd rl r Red rr))" using 2 by (simp add: zip_in_up)
    obtain s3 where 3: "set_color r Black s2 = Some s3" "zip_in m s3 fs (Nd t p Black (Nd ql q c (Nd rl r Black rr)))"
      using color_right z2 by (fastforce simp: zip_in_up)
    obtain s4 where 4: "rb_rotate_left p s3 = Some s4" "zip_in m s4 fs (Nd (Nd t p Black ql) q c (Nd rl r Black rr))"
      using rotate_left_correct 3 by blast
    show ?thesis using ld_root [OF z] 1 2 ld_root [OF z2] 3 4 by auto
  qed
  consider (black) "col sl = Black" "col sr = Black" | (far) "col sr = Red" | (near) "col sl = Red" "col sr = Black"
    by (cases "col sl"; cases "col sr") auto
  then show ?thesis
  proof cases
    case black
    obtain s1 where "set_color o' Red s = Some s1" "zip_in m s1 fs (Nd t p c (Nd sl o' Red sr))"
      using color_right z by blast
    then show ?thesis using black rd ld_root by (fastforce simp: erase_rest_left_def)
  next
    case far
    then obtain rl r rr where sr: "sr = Nd rl r Red rr" by (cases sr) auto
    show ?thesis using last_step [OF z [unfolded sr]] rd far sr by (simp add: erase_rest_left_def T_def)
  next
    case near
    then obtain sll q slr where sl: "sl = Nd sll q Red slr" by (cases sl) auto
    obtain s1 where 1: "set_color q Black s = Some s1" "zip_in m s1 fs (Nd t p c (Nd (Nd sll q Black slr) o' Black sr))"
      using color_left [OF zo [unfolded sl]] by (auto simp: zip_in_up)
    obtain s2 where 2: "set_color o' Red s1 = Some s2" "zip_in m s2 fs (Nd t p c (Nd (Nd sll q Black slr) o' Red sr))"
      using color_right 1 by blast
    obtain s3 where 3: "rb_rotate_right o' s2 = Some s3" "zip_in m s3 fs (Nd t p c (Nd sll q Black (Nd slr o' Red sr)))"
      using rotate_right_correct [of m s2 "FR t p c # fs"] 2 unfolding zip_in_up by blast
    show ?thesis using last_step [OF 3(2)] rd near sl 1 2 3 ld_root [OF 3(2)]
      by (simp add: erase_rest_left_def T_def)
  qed
qed

lemma red_right_step:
  assumes z: "zip_in m s fs (Nd (Nd sl o' oc sr) p c t)"
  shows "if oc = Red then \<exists>s'. erase_red_right p s = Some (raddr sr, s') \<and>
      zip_in m s' fs (Nd sl o' Black (Nd sr p Red t))
    else erase_red_right p s = Some (o', s)"
proof (cases oc)
  case Black
  then show ?thesis
    using ld_root [OF z] red_node_left [OF z] z
    by (auto simp: erase_red_right_def red_node_def zip_in_def)
next
  case Red
  obtain s1 where 1: "set_color o' Black s = Some s1" "zip_in m s1 fs (Nd (Nd sl o' Black sr) p c t)"
    using color_left z Red by blast
  obtain s2 where 2: "set_color p Red s1 = Some s2" "zip_in m s2 fs (Nd (Nd sl o' Black sr) p Red t)"
    using color_root 1 by blast
  obtain s3 where 3: "rb_rotate_right p s2 = Some s3" "zip_in m s3 fs (Nd sl o' Black (Nd sr p Red t))"
    using rotate_right_correct 2 by blast
  have "ld s3 p = Some \<lparr> rb_parent = o', rb_color = Red, rb_right = raddr t, rb_left = raddr sr \<rparr>"
    using ld_root [of m s3 "FR sl o' Black # fs" sr p Red t] 3 by (simp add: zip_in_up)
  then show ?thesis
    using ld_root [OF z] red_node_left [OF z] z 1 2 3 Red
    by (auto simp: erase_red_right_def red_node_def zip_in_def)
qed

lemma rest_right_step:
  assumes z: "zip_in m s fs (Nd (Nd sl o' Black sr) p c t)"
  defines "T \<equiv> (if col sl = Red then Nd (paint Black sl) o' c (Nd sr p Black t)
    else case sr of Lf \<Rightarrow> Lf | Nd srl q d srr \<Rightarrow> Nd (Nd sl o' Black srl) q c (Nd srr p Black t))"
  shows "if col sr = Black \<and> col sl = Black
    then \<exists>s'. erase_rest_right o' p s = Some (True, p, top fs, s') \<and> zip_in m s' fs (Nd (Nd sl o' Red sr) p c t)
    else \<exists>s'. erase_rest_right o' p s = Some (False, rb_root s', p, s') \<and> zip_in m s' fs T"
proof -
  have zo: "zip_in m s (FL p c t # fs) (Nd sl o' Black sr)" using z by (simp add: zip_in_up)
  note rd = ld_root [OF zo] red_node_right [OF zo] red_node_left [OF zo]
  have last_step: "\<exists>s'. do { p' \<leftarrow> ld s p; s \<leftarrow> set_color q (rb_color p') s; s \<leftarrow> set_color p Black s;
        o' \<leftarrow> ld s q; s \<leftarrow> set_color (rb_left o') Black s; s \<leftarrow> rb_rotate_right p s;
        Some (False, rb_root s, p, s) } = Some (False, rb_root s', p, s') \<and>
      zip_in m s' fs (Nd (Nd ll r Black lr) q c (Nd qr p Black t))"
    if z: "zip_in m s fs (Nd (Nd (Nd ll r Red lr) q Black qr) p c t)" for s q qr lr r ll
  proof -
    obtain s1 where 1: "set_color q c s = Some s1" "zip_in m s1 fs (Nd (Nd (Nd ll r Red lr) q c qr) p c t)"
      using color_left z by blast
    obtain s2 where 2: "set_color p Black s1 = Some s2" "zip_in m s2 fs (Nd (Nd (Nd ll r Red lr) q c qr) p Black t)"
      using color_root 1 by blast
    have z2: "zip_in m s2 (FL p Black t # fs) (Nd (Nd ll r Red lr) q c qr)" using 2 by (simp add: zip_in_up)
    obtain s3 where 3: "set_color r Black s2 = Some s3" "zip_in m s3 fs (Nd (Nd (Nd ll r Black lr) q c qr) p Black t)"
      using color_left z2 by (fastforce simp: zip_in_up)
    obtain s4 where 4: "rb_rotate_right p s3 = Some s4" "zip_in m s4 fs (Nd (Nd ll r Black lr) q c (Nd qr p Black t))"
      using rotate_right_correct 3 by blast
    show ?thesis using ld_root [OF z] 1 2 ld_root [OF z2] 3 4 by auto
  qed
  consider (black) "col sr = Black" "col sl = Black" | (far) "col sl = Red" | (near) "col sr = Red" "col sl = Black"
    by (cases "col sr"; cases "col sl") auto
  then show ?thesis
  proof cases
    case black
    obtain s1 where "set_color o' Red s = Some s1" "zip_in m s1 fs (Nd (Nd sl o' Red sr) p c t)"
      using color_left z by blast
    then show ?thesis using black rd ld_root by (fastforce simp: erase_rest_right_def)
  next
    case far
    then obtain lr r ll where sl: "sl = Nd ll r Red lr" by (cases sl) auto
    show ?thesis using last_step [OF z [unfolded sl]] rd far sl by (simp add: erase_rest_right_def T_def)
  next
    case near
    then obtain srr q srl where sr: "sr = Nd srl q Red srr" by (cases sr) auto
    obtain s1 where 1: "set_color q Black s = Some s1" "zip_in m s1 fs (Nd (Nd sl o' Black (Nd srl q Black srr)) p c t)"
      using color_right [OF zo [unfolded sr]] by (auto simp: zip_in_up)
    obtain s2 where 2: "set_color o' Red s1 = Some s2" "zip_in m s2 fs (Nd (Nd sl o' Red (Nd srl q Black srr)) p c t)"
      using color_left 1 by blast
    obtain s3 where 3: "rb_rotate_left o' s2 = Some s3" "zip_in m s3 fs (Nd (Nd (Nd sl o' Red srl) q Black srr) p c t)"
      using rotate_left_correct [of m s2 "FL p c t # fs"] 2 unfolding zip_in_up by blast
    show ?thesis using last_step [OF 3(2)] rd near sr 1 2 3 ld_root [OF 3(2)]
      by (simp add: erase_rest_right_def T_def)
  qed
qed

subsection \<open>The whole repair\<close>

definition erase_done :: "(addr \<Rightarrow> rb_node) \<Rightarrow> rbs option \<Rightarrow> addr list \<Rightarrow> bool" where
  "erase_done m res xs \<longleftrightarrow>
     (\<exists>s' t'. res = Some s' \<and> zip_in m s' [] t' \<and> inord t' = xs \<and> rb_ok t' \<and> col t' = Black)"

text \<open>The deficient subtree: one black node short, red-black once its root is black.\<close>

definition short_ok :: "frame list \<Rightarrow> tr \<Rightarrow> bool" where
  "short_ok fs t \<longleftrightarrow> rb_ok (paint Black t) \<and> path_ok fs (Suc (bh t)) \<and> root_black fs"

lemma root_in_path: "path_in h rt fs p \<Longrightarrow> fs \<noteq> [] \<Longrightarrow> rt \<in> set (plist fs) \<and> rt \<noteq> 0"
proof (induction fs arbitrary: p rule: plist.induct)
  case (2 a c r fs)
  then show ?case by (cases "fs = []") auto
next
  case (3 a c r fs)
  then show ?case by (cases "fs = []") auto
qed simp

lemma not_root: "zip_in m s fs t \<Longrightarrow> fs \<noteq> [] \<Longrightarrow> raddr t \<noteq> rb_root s"
  using root_in_path [of "rb_mem s" "rb_root s" fs "raddr t"] raddr_in [of t]
  by (cases "t = Lf") (auto simp: zip_in_def)

lemma col_plug: "root_black fs \<Longrightarrow> (fs = [] \<Longrightarrow> col t = Black) \<Longrightarrow> col (plug fs t) = Black"
  using root_black_pathD by (cases "fs = []") auto

lemma bh_paint_short: "rb_ok (paint Black t) \<Longrightarrow> col t = Red \<Longrightarrow> bh (paint Black t) = Suc (bh t)"
  by (cases t) auto

lemma paint_black_id: "col t = Black \<Longrightarrow> paint Black t = t"
  by (cases t) auto

lemma raddr_Lf: "zip_in m s fs t \<Longrightarrow> raddr t = 0 \<longleftrightarrow> t = Lf"
  by (auto simp: zip_in_def)

lemma erase_color_stop:
  assumes z: "zip_in m s fs t" and ok: "short_ok fs t" and stop: "col t = Red \<or> fs = []"
    and xs: "inord (plug fs t) = xs"
  shows "erase_done m (rb_erase_color (raddr t) par s) xs"
proof -
  have root: "raddr t = rb_root s" if "fs = []" using that z by (simp add: zip_in_def)
  have loop: "erase_color_loop (raddr t) par s = Some (raddr t, s)"
    using stop root by (subst erase_color_loop.simps) (auto simp: red_node_root [OF z])
  obtain s' where s': "(if raddr t \<noteq> 0 then set_color (raddr t) Black s else Some s) = Some s'"
    and z': "zip_in m s' fs (paint Black t)"
    using color_root z raddr_Lf [OF z] by (cases t) fastforce+
  have "rb_ok (plug fs (paint Black t))"
  proof (cases "col t = Red")
    case True
    then show ?thesis using ok bh_paint_short [of t] by (intro plug_ok) (auto simp: short_ok_def)
  next
    case False
    then show ?thesis using ok stop by (auto simp: short_ok_def)
  qed
  moreover have "col (plug fs (paint Black t)) = Black"
    using ok by (intro col_plug) (cases t; auto simp: short_ok_def)+
  moreover have "zip_in m s' [] (plug fs (paint Black t))" using z' zip_in_plug by blast
  moreover have "inord (plug fs (paint Black t)) = xs" using xs by simp
  ultimately show ?thesis
    unfolding erase_done_def rb_erase_color_def loop using s' by auto
qed

lemma paint_root_done:
  assumes z: "zip_in m s fs (Nd l a c r)" and ok: "rb_ok (plug fs (Nd l a c r))"
    and xs: "inord (plug fs (Nd l a c r)) = xs"
  shows "erase_done m (if rb_root s \<noteq> 0 then set_color (rb_root s) Black s else Some s) xs"
proof -
  have z0: "zip_in m s [] (plug fs (Nd l a c r))" using z zip_in_plug by blast
  obtain l' a' c' r' where t: "plug fs (Nd l a c r) = Nd l' a' c' r'"
    using plug_nonempty [of "Nd l a c r" fs] by (cases "plug fs (Nd l a c r)") auto
  obtain s' where "set_color a' Black s = Some s'" "zip_in m s' [] (Nd l' a' Black r')"
    using color_root z0 t by fastforce
  moreover have "rb_root s = a'" "a' \<noteq> 0" using z0 t by (simp_all add: zip_in_def)
  ultimately show ?thesis
    using ok xs t unfolding erase_done_def by (intro exI [of _ s'] exI [of _ "Nd l' a' Black r'"]) auto
qed

lemma rest_left_done:
  assumes z: "zip_in m s fs (Nd t p c (Nd sl o' Black sr))" and t: "rb_ok t" "col t = Black"
    and pok: "path_ok (FL p c (Nd sl o' Black sr) # fs) (Suc (bh t))"
    and xs: "inord (plug fs (Nd t p c (Nd sl o' Black sr))) = xs"
    and IH: "\<And>s'. zip_in m s' fs (Nd t p c (Nd sl o' Red sr)) \<Longrightarrow> col sl = Black \<Longrightarrow> col sr = Black \<Longrightarrow>
      erase_done m (rb_erase_color p (top fs) s') xs"
  shows "erase_done m (do { (go, node, parent, s) \<leftarrow> erase_rest_left o' p s;
      if go then rb_erase_color node parent s
      else (if node \<noteq> 0 then set_color node Black s else Some s) }) xs"
proof (cases "col sl = Black \<and> col sr = Black")
  case True
  then show ?thesis using rest_left_step [OF z] IH by auto
next
  case False
  note step = rest_left_step [OF z, unfolded if_not_P [OF False]]
  show ?thesis
  proof (cases "col sr = Red")
    case True
    obtain s' where e: "erase_rest_left o' p s = Some (False, rb_root s', p, s')"
      and z': "zip_in m s' fs (Nd (Nd t p Black sl) o' c (paint Black sr))"
      using step True by auto
    have "rb_ok (plug fs (Nd (Nd t p Black sl) o' c (paint Black sr)))"
      using pok t True bh_paint [of sr] by (intro plug_ok) (auto split: if_splits)
    from paint_root_done [OF z' this] show ?thesis using e xs by simp
  next
    case far: False
    then obtain sll q slr where sl: "sl = Nd sll q Red slr" using False by (cases sl) auto
    obtain s' where e: "erase_rest_left o' p s = Some (False, rb_root s', p, s')"
      and z': "zip_in m s' fs (Nd (Nd t p Black sll) q c (Nd slr o' Black sr))"
      using step far sl by auto
    have "rb_ok (plug fs (Nd (Nd t p Black sll) q c (Nd slr o' Black sr)))"
      using pok t far sl by (intro plug_ok) (auto split: if_splits)
    from paint_root_done [OF z' this] show ?thesis using e xs sl by simp
  qed
qed

lemma erase_color_unfold:
  assumes "zip_in m s fs t" and "col t = Black" and "fs \<noteq> []"
  shows "rb_erase_color (raddr t) (top fs) s = do {
      p \<leftarrow> ld s (top fs);
      (go, node, parent, s) \<leftarrow> (if rb_left p = raddr t
         then do { (other, s) \<leftarrow> erase_red_left (top fs) s; erase_rest_left other (top fs) s }
         else do { (other, s) \<leftarrow> erase_red_right (top fs) s; erase_rest_right other (top fs) s });
      if go then rb_erase_color node parent s
      else (if node \<noteq> 0 then set_color node Black s else Some s) }"
  unfolding rb_erase_color_def
  by (subst erase_color_loop.simps)
    (use assms not_root [OF assms(1,3)] in
      \<open>auto simp: red_node_root [OF assms(1)] split: Option.bind_split intro!: Option.bind_cong\<close>)

lemma rest_right_done:
  assumes z: "zip_in m s fs (Nd (Nd sl o' Black sr) p c t)" and t: "rb_ok t" "col t = Black"
    and pok: "path_ok (FR (Nd sl o' Black sr) p c # fs) (Suc (bh t))"
    and xs: "inord (plug fs (Nd (Nd sl o' Black sr) p c t)) = xs"
    and IH: "\<And>s'. zip_in m s' fs (Nd (Nd sl o' Red sr) p c t) \<Longrightarrow> col sl = Black \<Longrightarrow> col sr = Black \<Longrightarrow>
      erase_done m (rb_erase_color p (top fs) s') xs"
  shows "erase_done m (do { (go, node, parent, s) \<leftarrow> erase_rest_right o' p s;
      if go then rb_erase_color node parent s
      else (if node \<noteq> 0 then set_color node Black s else Some s) }) xs"
proof (cases "col sr = Black \<and> col sl = Black")
  case True
  then show ?thesis using rest_right_step [OF z] IH by auto
next
  case False
  note step = rest_right_step [OF z, unfolded if_not_P [OF False]]
  show ?thesis
  proof (cases "col sl = Red")
    case True
    obtain s' where e: "erase_rest_right o' p s = Some (False, rb_root s', p, s')"
      and z': "zip_in m s' fs (Nd (paint Black sl) o' c (Nd sr p Black t))"
      using step True by auto
    have "rb_ok (plug fs (Nd (paint Black sl) o' c (Nd sr p Black t)))"
      using pok t True bh_paint [of sl] by (intro plug_ok) (auto split: if_splits)
    from paint_root_done [OF z' this] show ?thesis using e xs by simp
  next
    case far: False
    then obtain srl q srr where sr: "sr = Nd srl q Red srr" using False by (cases sr) auto
    obtain s' where e: "erase_rest_right o' p s = Some (False, rb_root s', p, s')"
      and z': "zip_in m s' fs (Nd (Nd sl o' Black srl) q c (Nd srr p Black t))"
      using step far sr by auto
    have "rb_ok (plug fs (Nd (Nd sl o' Black srl) q c (Nd srr p Black t)))"
      using pok t far sr by (intro plug_ok) (auto split: if_splits)
    from paint_root_done [OF z' this] show ?thesis using e xs sr by simp
  qed
qed

text \<open>The sibling of a deficient subtree is never empty; the code relies on it when it
  recognises the left child by comparing pointers.\<close>

lemma erase_color_left:
  assumes z: "zip_in m s (FL p c sib # fs) t" and ok: "short_ok (FL p c sib # fs) t" and t: "col t = Black"
    and xs: "inord (plug (FL p c sib # fs) t) = xs"
    and IH: "\<And>s' t'. zip_in m s' fs t' \<Longrightarrow> short_ok fs t' \<Longrightarrow> inord (plug fs t') = xs \<Longrightarrow>
      erase_done m (rb_erase_color (raddr t') (top fs) s') xs"
  shows "erase_done m (rb_erase_color (raddr t) p s) xs"
proof -
  obtain sl o' oc sr where sib: "sib = Nd sl o' oc sr" using ok by (cases sib) (auto simp: short_ok_def)
  have zp: "zip_in m s fs (Nd t p c (Nd sl o' oc sr))" using z sib by (simp add: zip_in_up)
  have ok_t: "rb_ok t" using ok t by (simp add: short_ok_def paint_black_id)
  have rbl: "root_black (FL p c sib # fs)" "root_black fs" using ok by (auto simp: short_ok_def dest: root_black_tl)
  have unf: "rb_erase_color (raddr t) p s = do {
      (other, s) \<leftarrow> erase_red_left p s;
      (go, node, parent, s) \<leftarrow> erase_rest_left other p s;
      if go then rb_erase_color node parent s
      else (if node \<noteq> 0 then set_color node Black s else Some s) }"
    using erase_color_unfold [OF z t] ld_root [OF zp] by (simp split: Option.bind_split prod.split)
  show ?thesis
  proof (cases oc)
    case Black
    have "erase_done m (rb_erase_color p (top fs) s') xs" if "zip_in m s' fs (Nd t p c (Nd sl o' Red sr))" "col sl = Black" "col sr = Black" for s'
      using IH [OF that(1)] ok ok_t rbl Black xs sib that(2,3) by (simp add: short_ok_def)
    then show ?thesis
      using rest_left_done [OF zp [unfolded Black] ok_t t] ok xs sib Black red_left_step [OF zp]
      unfolding unf by (simp add: short_ok_def)
  next
    case Red
    then have c: "c = Black" using ok sib by (auto simp: short_ok_def)
    obtain s1 where 1: "erase_red_left p s = Some (raddr sl, s1)"
      and z1: "zip_in m s1 (FL o' Black sr # fs) (Nd t p Red sl)"
      using red_left_step [OF zp] Red by (auto simp: zip_in_up)
    obtain sll q slr where sl: "sl = Nd sll q Black slr"
      using ok sib Red by (cases sl) (auto simp: short_ok_def)
    have "erase_done m (rb_erase_color p (top (FL o' Black sr # fs)) s') xs"
      if z': "zip_in m s' (FL o' Black sr # fs) (Nd t p Red (Nd sll q Red slr))"
        "col sll = Black" "col slr = Black" for s'
      using erase_color_stop [OF z'(1), where par = "top (FL o' Black sr # fs)"] that(2,3) ok ok_t rbl Red xs sib sl c
      by (auto simp: short_ok_def root_black_def)
    then show ?thesis
      using rest_left_done [OF z1 [unfolded sl] ok_t t] ok xs sib Red 1 sl c
      unfolding unf by (simp add: short_ok_def)
  qed
qed

lemma erase_color_right:
  assumes z: "zip_in m s (FR sib p c # fs) t" and ok: "short_ok (FR sib p c # fs) t" and t: "col t = Black"
    and xs: "inord (plug (FR sib p c # fs) t) = xs"
    and IH: "\<And>s' t'. zip_in m s' fs t' \<Longrightarrow> short_ok fs t' \<Longrightarrow> inord (plug fs t') = xs \<Longrightarrow>
      erase_done m (rb_erase_color (raddr t') (top fs) s') xs"
  shows "erase_done m (rb_erase_color (raddr t) p s) xs"
proof -
  obtain sl o' oc sr where sib: "sib = Nd sl o' oc sr" using ok by (cases sib) (auto simp: short_ok_def)
  have zp: "zip_in m s fs (Nd (Nd sl o' oc sr) p c t)" using z sib by (simp add: zip_in_up)
  have ne: "o' \<noteq> raddr t" using zp by (auto simp: zip_in_def dest: raddr_neq)
  have ok_t: "rb_ok t" using ok t by (simp add: short_ok_def paint_black_id)
  have rbl: "root_black (FR sib p c # fs)" "root_black fs" using ok by (auto simp: short_ok_def dest: root_black_tl)
  have unf: "rb_erase_color (raddr t) p s = do {
      (other, s) \<leftarrow> erase_red_right p s;
      (go, node, parent, s) \<leftarrow> erase_rest_right other p s;
      if go then rb_erase_color node parent s
      else (if node \<noteq> 0 then set_color node Black s else Some s) }"
    using erase_color_unfold [OF z t] ld_root [OF zp] ne by (simp split: Option.bind_split prod.split)
  show ?thesis
  proof (cases oc)
    case Black
    have "erase_done m (rb_erase_color p (top fs) s') xs"
      if "zip_in m s' fs (Nd (Nd sl o' Red sr) p c t)" "col sl = Black" "col sr = Black" for s'
    proof -
      have "bh sr = bh t" using ok sib Black by (auto simp: short_ok_def)
      then show ?thesis
        using IH [OF that(1)] ok ok_t rbl Black xs sib that(2,3) by (simp add: short_ok_def)
    qed
    then show ?thesis
      using rest_right_done [OF zp [unfolded Black] ok_t t] ok xs sib Black red_right_step [OF zp]
      unfolding unf by (simp add: short_ok_def)
  next
    case Red
    then have c: "c = Black" using ok sib by (auto simp: short_ok_def)
    obtain s1 where 1: "erase_red_right p s = Some (raddr sr, s1)"
      and z1: "zip_in m s1 (FR sl o' Black # fs) (Nd sr p Red t)"
      using red_right_step [OF zp] Red by (auto simp: zip_in_up)
    obtain srl q srr where sr: "sr = Nd srl q Black srr"
      using ok sib Red by (cases sr) (auto simp: short_ok_def)
    have "erase_done m (rb_erase_color p (top (FR sl o' Black # fs)) s') xs"
      if z': "zip_in m s' (FR sl o' Black # fs) (Nd (Nd srl q Red srr) p Red t)"
        "col srl = Black" "col srr = Black" for s'
      using erase_color_stop [OF z'(1), where par = "top (FR sl o' Black # fs)"] that(2,3) ok ok_t rbl Red xs sib sr c
      by (auto simp: short_ok_def root_black_def)
    then show ?thesis
      using rest_right_done [OF z1 [unfolded sr] ok_t t] ok xs sib Red 1 sr c
      unfolding unf by (simp add: short_ok_def)
  qed
qed

lemma erase_color_correct:
  assumes "zip_in m s fs t" and "short_ok fs t" and "inord (plug fs t) = xs"
  shows "erase_done m (rb_erase_color (raddr t) (top fs) s) xs"
  using assms
proof (induction fs arbitrary: s t)
  case Nil
  then show ?case by (intro erase_color_stop) auto
next
  case (Cons F fs)
  show ?case
  proof (cases "col t = Red")
    case True
    then show ?thesis using Cons.prems by (intro erase_color_stop) auto
  next
    case False
    then have t: "col t = Black" by simp
    show ?thesis
    proof (cases F)
      case F: (FL p c sib)
      from erase_color_left [OF Cons.prems(1,2)[unfolded F] t Cons.prems(3)[unfolded F] Cons.IH]
      show ?thesis by (simp add: F)
    next
      case F: (FR sib p c)
      from erase_color_right [OF Cons.prems(1,2)[unfolded F] t Cons.prems(3)[unfolded F] Cons.IH]
      show ?thesis by (simp add: F)
    qed
  qed
qed

section \<open>rb_erase\<close>

partial_function (option) leftmost :: "addr \<Rightarrow> rbs \<Rightarrow> addr option" where
  "leftmost node s = do {
     n \<leftarrow> ld s node;
     if rb_left n \<noteq> 0 then leftmost (rb_left n) s else Some node }"

declare leftmost.simps [code]

text \<open>Storing a child pointer where \<open>parent\<close> has \<open>node\<close>, or in the root.\<close>

definition replace_child :: "addr \<Rightarrow> addr \<Rightarrow> addr \<Rightarrow> rbs \<Rightarrow> rbs option" where
  "replace_child parent node child s =
     (if parent \<noteq> 0 then do {
        p \<leftarrow> ld s parent;
        if rb_left p = node then set_left parent child s else set_right parent child s }
      else Some (s\<lparr> rb_root := child \<rparr>))"

text \<open>A node without one of its children is unlinked directly.\<close>

definition rb_unlink :: "addr \<Rightarrow> addr \<Rightarrow> rbs \<Rightarrow> (addr \<times> color \<times> rbs) option" where
  "rb_unlink node child s = do {
     n \<leftarrow> ld s node;
     let parent = rb_parent n;
     s \<leftarrow> (if child \<noteq> 0 then set_parent child parent s else Some s);
     s \<leftarrow> replace_child parent node child s;
     Some (parent, rb_color n, s) }"

text \<open>A node with two children is replaced by its successor: \<open>old\<close> is the node, the result
  names the successor's child, where that child now hangs, and the colour that was lost.\<close>

definition rb_unlink_succ :: "addr \<Rightarrow> rbs \<Rightarrow> (addr \<times> addr \<times> color \<times> rbs) option" where
  "rb_unlink_succ old s = do {
     on \<leftarrow> ld s old;
     node \<leftarrow> leftmost (rb_right on) s;
     s \<leftarrow> replace_child (rb_parent on) old node s;
     n \<leftarrow> ld s node;
     let child = rb_right n;
     let parent = rb_parent n;
     let color = rb_color n;
     (parent, s) \<leftarrow> (if parent = old then Some (node, s)
        else do {
          s \<leftarrow> (if child \<noteq> 0 then set_parent child parent s else Some s);
          s \<leftarrow> set_left parent child s;
          on \<leftarrow> ld s old;
          s \<leftarrow> set_right node (rb_right on) s;
          s \<leftarrow> set_parent (rb_right on) node s;
          Some (parent, s) });
     on \<leftarrow> ld s old;
     s \<leftarrow> st s node (\<lambda>n. n\<lparr> rb_parent := rb_parent on, rb_color := rb_color on \<rparr>);
     s \<leftarrow> set_left node (rb_left on) s;
     s \<leftarrow> set_parent (rb_left on) node s;
     Some (child, parent, color, s) }"

definition rb_erase :: "addr \<Rightarrow> rbs \<Rightarrow> rbs option" where
  "rb_erase node s = do {
     n \<leftarrow> ld s node;
     (child, parent, color, s) \<leftarrow>
       (if rb_left n = 0 then do {
          (parent, color, s) \<leftarrow> rb_unlink node (rb_right n) s;
          Some (rb_right n, parent, color, s) }
        else if rb_right n = 0 then do {
          (parent, color, s) \<leftarrow> rb_unlink node (rb_left n) s;
          Some (rb_left n, parent, color, s) }
        else rb_unlink_succ node s);
     if color = Black then rb_erase_color child parent s else Some s }"

subsection \<open>Unlinking\<close>

lemma replace_child_path:
  assumes "path_in (rb_mem s) (rb_root s) fs p" and "p \<noteq> 0" and "p \<notin> set (plist fs)" and "distinct (plist fs)"
  shows "\<exists>s'. replace_child (top fs) p q s = Some s' \<and> path_in (rb_mem s') (rb_root s') fs q \<and>
    (\<forall>a. a \<noteq> top fs \<or> fs = [] \<longrightarrow> rb_mem s' a = rb_mem s a)"
proof (cases fs rule: top.cases)
  case (3 l a c gs)
  then have "p \<noteq> raddr l" using assms by (cases l) auto
  with 3 show ?thesis using assms by (auto simp: replace_child_def rb_simps)
qed (use assms in \<open>auto simp: replace_child_def rb_simps\<close>)

lemma rb_unlink_right_correct:
  assumes "zip_in m s fs (Nd Lf n c r)"
  shows "\<exists>s'. rb_unlink n (raddr r) s = Some (top fs, c, s') \<and> zip_in (m(n := rb_mem s n)) s' fs r"
proof (cases fs rule: top.cases)
  case 1
  then show ?thesis using assms
    by (cases r) (auto simp: zip_in_def rb_unlink_def replace_child_def rb_simps)
next
  case (2 a e sib gs)
  then show ?thesis using assms
    by (cases r) (auto simp: zip_in_def rb_unlink_def replace_child_def rb_simps)
next
  case (3 l' a e gs)
  then have "n \<noteq> raddr l'" using assms by (auto simp: zip_in_def dest: raddr_neq)
  with 3 show ?thesis using assms
    by (cases r) (auto simp: zip_in_def rb_unlink_def replace_child_def rb_simps)
qed

lemma rb_unlink_left_correct:
  assumes "zip_in m s fs (Nd l n c Lf)"
  shows "\<exists>s'. rb_unlink n (raddr l) s = Some (top fs, c, s') \<and> zip_in (m(n := rb_mem s n)) s' fs l"
proof (cases fs rule: top.cases)
  case 1
  then show ?thesis using assms
    by (cases l) (auto simp: zip_in_def rb_unlink_def replace_child_def rb_simps)
next
  case (2 a e sib gs)
  then show ?thesis using assms
    by (cases l) (auto simp: zip_in_def rb_unlink_def replace_child_def rb_simps)
next
  case (3 l' a e gs)
  then have "n \<noteq> raddr l'" using assms by (auto simp: zip_in_def dest: raddr_neq)
  with 3 show ?thesis using assms
    by (cases l) (auto simp: zip_in_def rb_unlink_def replace_child_def rb_simps)
qed

text \<open>The leftmost node of a subtree, as a focus below left frames only.\<close>

fun lefts :: "frame list \<Rightarrow> bool" where
  "lefts [] = True"
| "lefts (FL a c r # fs) = lefts fs"
| "lefts (FR l a c # fs) = False"

lemma plug_append [simp]: "plug (gs @ hs) t = plug hs (plug gs t)"
  by (induction gs t rule: plug.induct) auto

lemma pre_suf_append [simp]: "pre (gs @ hs) = pre hs @ pre gs" "suf (gs @ hs) = suf gs @ suf hs"
  by (induction gs rule: pre.induct) auto

lemma lefts_append [simp]: "lefts (gs @ hs) \<longleftrightarrow> lefts gs \<and> lefts hs"
  by (induction gs rule: lefts.induct) auto

lemma lefts_pre [simp]: "lefts gs \<Longrightarrow> pre gs = []"
  by (induction gs rule: lefts.induct) auto

lemma zip_in_append: "zip_in m s (gs @ fs) t = zip_in m s fs (plug gs t)"
  by (induction gs t rule: plug.induct) (auto simp: zip_in_up)

lemma leftmost_correct:
  assumes "tree_in (rb_mem s) par t" and "t \<noteq> Lf"
  shows "\<exists>gs y d yr. t = plug gs (Nd Lf y d yr) \<and> lefts gs \<and> leftmost (raddr t) s = Some y"
  using assms
proof (induction t arbitrary: par)
  case (Nd l a c r)
  have lm: "leftmost a s = (if raddr l \<noteq> 0 then leftmost (raddr l) s else Some a)"
    using Nd.prems by (subst leftmost.simps) (simp add: rb_simps)
  show ?case
  proof (cases "l = Lf")
    case True
    then show ?thesis using lm by (intro exI [of _ "[]"]) auto
  next
    case False
    have "tree_in (rb_mem s) a l" using Nd.prems by simp
    from Nd.IH(1) [OF this False]
    obtain gs y d yr where "l = plug gs (Nd Lf y d yr)" "lefts gs" "leftmost (raddr l) s = Some y"
      by blast
    then show ?thesis using lm False Nd.prems
      by (intro exI [of _ "gs @ [FL a c r]"] exI [of _ y] exI [of _ d] exI [of _ yr]) auto
  qed
qed simp

definition top_or :: "addr \<Rightarrow> frame list \<Rightarrow> addr" where
  "top_or par gs = (if gs = [] then par else top gs)"

lemma tree_in_focus: "tree_in h par (plug gs t) \<Longrightarrow> tree_in h (top_or par gs) t"
proof (induction gs arbitrary: t rule: plist.induct)
  case (2 a c r fs t)
  show ?case using 2(1) [of "Nd t a c r"] 2(2) by (simp add: top_or_def)
next
  case (3 l a c fs t)
  show ?case using 3(1) [of "Nd l a c t"] 3(2) by (simp add: top_or_def)
qed (simp add: top_or_def)

lemma tree_in_cong: "(\<And>a. a \<in> set (inord t) \<Longrightarrow> h a = h' a) \<Longrightarrow> tree_in h par t = tree_in h' par t"
  by (induction t arbitrary: par) auto

lemma raddr_plug: "gs \<noteq> [] \<Longrightarrow> raddr (plug gs t) = raddr (plug gs t')"
proof (induction gs arbitrary: t t' rule: plist.induct)
  case (2 a c r fs)
  then show ?case by (cases "fs = []") auto
next
  case (3 l a c fs)
  then show ?case by (cases "fs = []") auto
qed simp

lemma path_in_cong: "(\<And>a. a \<in> set (plist fs) \<Longrightarrow> h a = h' a) \<Longrightarrow> path_in h rt fs p = path_in h' rt fs p"
proof (induction fs arbitrary: p rule: plist.induct)
  case (2 a c r fs p)
  then show ?case using tree_in_cong [of r h h' a] by auto
next
  case (3 l a c fs p)
  then show ?case using tree_in_cong [of l h h' a] by auto
qed simp

lemma tree_in_refocus:
  assumes "tree_in h par (plug gs t)" and "\<And>a. a \<in> set (plist gs) \<Longrightarrow> h' a = h a"
    and "tree_in h' (top_or par gs) t'" and "raddr t' = raddr t"
  shows "tree_in h' par (plug gs t')"
  using assms
proof (induction gs arbitrary: t t' rule: plist.induct)
  case (2 a c r fs t t')
  have f: "tree_in h (top_or par fs) (Nd t a c r)" using tree_in_focus [of h par fs "Nd t a c r"] 2(2) by (simp del: tree_in.simps)
  have "tree_in h' a r = tree_in h a r" using 2(3) by (intro tree_in_cong) auto
  then have "tree_in h' (top_or par fs) (Nd t' a c r)" using 2(3-5) f by (auto simp: top_or_def)
  with 2(2,3) show ?case using 2(1) [of "Nd t a c r" "Nd t' a c r"] by (simp del: tree_in.simps)
next
  case (3 l a c fs t t')
  have f: "tree_in h (top_or par fs) (Nd l a c t)" using tree_in_focus [of h par fs "Nd l a c t"] 3(2) by (simp del: tree_in.simps)
  have "tree_in h' a l = tree_in h a l" using 3(3) by (intro tree_in_cong) auto
  then have "tree_in h' (top_or par fs) (Nd l a c t')" using 3(3-5) f by (auto simp: top_or_def)
  with 3(2,3) show ?case using 3(1) [of "Nd l a c t" "Nd l a c t'"] by (simp del: tree_in.simps)
qed (simp add: top_or_def)

lemma distinct_plug: "distinct (inord l @ n # inord (plug gs t) @ xs) \<longleftrightarrow>
    distinct (inord t @ plist gs @ n # inord l @ xs)"
proof -
  have "mset (inord l @ n # inord (plug gs t) @ xs) = mset (inord t @ plist gs @ n # inord l @ xs)"
    by (simp add: mset_plist)
  then show ?thesis by (rule mset_eq_imp_distinct_iff)
qed

lemma set_inord_plug: "set (inord (plug gs t)) = set (inord t) \<union> set (plist gs)"
  by (auto simp: set_plist)

lemma top_in_plist: "fs \<noteq> [] \<Longrightarrow> top fs \<in> set (plist fs)"
  by (cases fs rule: top.cases) auto

lemma tree_in_other: "\<forall>x \<in> set (inord t). h' x = h x \<Longrightarrow> tree_in h par t \<Longrightarrow> tree_in h' par t"
  using tree_in_cong [of t h' h par] by auto

lemma unlink_succ_near:
  assumes z: "zip_in m s fs (Nd l n c (Nd Lf y d yr))" and l: "l \<noteq> Lf"
  shows "\<exists>s' v. rb_unlink_succ n s = Some (raddr yr, y, d, s') \<and> zip_in (m(n := v)) s' fs (Nd l y c yr)"
proof -
  have lm: "leftmost y s = Some y" using z by (subst leftmost.simps) (auto simp: zip_in_def rb_simps)
  obtain s1 where 1: "replace_child (top fs) n y s = Some s1" "path_in (rb_mem s1) (rb_root s1) fs y"
    "\<forall>a. a \<noteq> top fs \<or> fs = [] \<longrightarrow> rb_mem s1 a = rb_mem s a"
    using replace_child_path [of s fs n y] z by (auto simp: zip_in_def)
  then have same: "rb_mem s1 a = rb_mem s a" if "a \<notin> set (plist fs)" for a
    using that top_in_plist [of fs] by metis
  have t1: "tree_in (rb_mem s1) (top fs) (Nd l n c (Nd Lf y d yr))"
    by (rule tree_in_other [of _ "rb_mem s1" "rb_mem s"]) (use z same in \<open>auto simp: zip_in_def\<close>)
  obtain la where la: "raddr l = la" "la \<noteq> 0" "la \<in> set (inord l)" using l t1 by (cases l) auto
  have dist: "n \<noteq> la" "y \<noteq> la" "la \<notin> set (inord yr)" "la \<notin> set (plist fs)" using la z by (auto simp: zip_in_def)
  have tl: "tree_in ((rb_mem s1)(y := v, la := (rb_mem s1 la)\<lparr> rb_parent := y \<rparr>)) y l" for v
    using tree_in_reparent [of "(rb_mem s1)(y := v)" n l y] l t1 z la dist by (auto simp: zip_in_def)
  show ?thesis
    using z 1 t1 lm la l tl same dist
    by (auto simp: zip_in_def rb_unlink_succ_def rb_simps)
qed

lemma raddr_plug_in: "raddr (plug gs t) \<in> insert (raddr t) (set (plist gs))"
proof (induction gs arbitrary: t rule: plist.induct)
  case (2 a c r fs t)
  then show ?case using 2 [of "Nd t a c r"] by auto
next
  case (3 l a c fs t)
  then show ?case using 3 [of "Nd l a c t"] by auto
qed simp

lemma raddr_plug_eq: "raddr t = raddr t' \<Longrightarrow> raddr (plug gs t) = raddr (plug gs t')"
  using raddr_plug [of gs t t'] by (cases "gs = []") auto

lemma unlink_succ_far:
  assumes z: "zip_in m s fs (Nd l n c r)" and l: "l \<noteq> Lf"
    and r: "r = plug gs (Nd (Nd Lf y d yr) a e ar)" and lm: "leftmost (raddr r) s = Some y"
  shows "\<exists>s' v. rb_unlink_succ n s = Some (raddr yr, a, d, s') \<and>
    zip_in (m(n := v)) s' fs (Nd l y c (plug gs (Nd yr a e ar)))"
proof -
  let ?q = "Nd (Nd Lf y d yr) a e ar" and ?q' = "Nd yr a e ar"
  let ?r' = "plug gs ?q'"
  have "distinct (inord l @ n # inord (plug gs ?q) @ plist fs)" using z r by (simp add: zip_in_def)
  then have di: "distinct (inord ?q @ plist gs @ n # inord l @ plist fs)" unfolding distinct_plug .
  then have di': "distinct (inord ?q' @ plist gs @ y # inord l @ plist fs)" by auto
  obtain s1 where 1: "replace_child (top fs) n y s = Some s1" "path_in (rb_mem s1) (rb_root s1) fs y"
    "\<forall>a. a \<noteq> top fs \<or> fs = [] \<longrightarrow> rb_mem s1 a = rb_mem s a"
    using replace_child_path [of s fs n y] z by (auto simp: zip_in_def)
  then have same: "rb_mem s1 a = rb_mem s a" if "a \<notin> set (plist fs)" for a
    using that top_in_plist [of fs] by metis
  have fr_y: "y \<noteq> a" "y \<noteq> n" "y \<notin> set (inord yr)" "y \<notin> set (inord ar)" "y \<notin> set (plist gs)"
      "y \<notin> set (inord l)" "y \<notin> set (plist fs)"
    and fr_n: "n \<noteq> a" "n \<notin> set (inord yr)" "n \<notin> set (inord ar)" "n \<notin> set (plist gs)"
      "n \<notin> set (inord l)" "n \<notin> set (plist fs)"
    and fr_a: "a \<notin> set (inord yr)" "a \<notin> set (inord l)" "a \<notin> set (plist gs)" "a \<notin> set (plist fs)"
    using di by auto
  have fr_l: "x \<noteq> a" "x \<noteq> y" "x \<noteq> n" "x \<notin> set (inord yr)" "x \<notin> set (inord ar)" "x \<notin> set (plist gs)"
      "x \<notin> set (plist fs)" if "x \<in> set (inord l)" for x
    using di that by auto
  have fr_gs: "x \<noteq> a" "x \<notin> set (inord yr)" "x \<notin> set (plist fs)" if "x \<in> set (plist gs)" for x
    using di that by auto
  let ?h1 = "rb_mem s1"
  have t1: "tree_in ?h1 (top fs) (Nd l n c r)"
    by (rule tree_in_other [of _ "rb_mem s1" "rb_mem s"]) (use z same in \<open>auto simp: zip_in_def\<close>)
  then have tr: "tree_in ?h1 n r" by simp
  then have tq: "tree_in ?h1 (top_or n gs) ?q" using tree_in_focus [of ?h1 n gs ?q] r by simp
  obtain rr where rr: "raddr r = rr" "raddr ?r' = rr" "rr = a \<or> rr \<in> set (plist gs)" "rr \<noteq> 0"
    using raddr_plug_in [of gs ?q'] raddr_plug_eq [of ?q ?q' gs] raddr_0 [OF tr] r plug_nonempty [of ?q gs] by auto
  obtain la where la: "raddr l = la" "la \<noteq> 0" "la \<in> set (inord l)" using l t1 by (cases l) auto
  define h2 where "h2 = (let h = (if yr = Lf then ?h1 else ?h1(raddr yr := (?h1 (raddr yr))\<lparr> rb_parent := a \<rparr>))
     in h(a := (h a)\<lparr> rb_left := raddr yr \<rparr>))"
  have yr: "yr \<noteq> Lf \<Longrightarrow> raddr yr \<in> set (inord yr)" by (cases yr) auto
  have o2: "h2 x = ?h1 x" if "x \<noteq> a" "x \<notin> set (inord yr)" for x
    using that yr by (auto simp: h2_def Let_def)
  have t2: "tree_in h2 (top_or n gs) ?q'"
    using tq di tree_in_reparent [of ?h1 y yr a] yr by (cases "yr = Lf") (auto simp: h2_def Let_def)
  have t3: "tree_in h2 n ?r'"
  proof (rule tree_in_refocus [OF tr [unfolded r] _ t2])
    fix x assume "x \<in> set (plist gs)"
    then show "h2 x = ?h1 x" using fr_gs by (intro o2)
  qed simp
  define vy where "vy = \<lparr> rb_parent = top fs, rb_color = c, rb_right = rr, rb_left = la \<rparr>"
  define h4 where "h4 = h2(y := vy, rr := (h2 rr)\<lparr> rb_parent := y \<rparr>)"
  define h6 where "h6 = h4(la := (h4 la)\<lparr> rb_parent := y \<rparr>)"
  have ne: "y \<noteq> rr" "y \<noteq> la" "la \<noteq> rr" "n \<noteq> y" "n \<noteq> rr" "n \<noteq> la" "a \<noteq> y" "a \<noteq> n" "a \<noteq> la"
    using fr_y fr_n fr_l [of la] rr(3) la(3) by metis+
  have nr: "y \<notin> set (inord ?r')" "la \<notin> set (inord ?r')" "n \<notin> set (inord ?r')"
    using fr_y fr_n fr_l [of la] la(3) by (simp_all add: set_plist)
  have dr: "distinct (inord ?r')" 
  proof -
    have "distinct (inord ?q' @ plist gs)" using di' by auto
    then show ?thesis unfolding inord_plug distinct_zip .
  qed
  have t4: "tree_in h4 y ?r'"
    using tree_in_reparent [of "h2(y := vy)" n ?r' y] t3 nr dr rr ne plug_nonempty [of ?q' gs]
    by (simp add: h4_def)
  then have t6: "tree_in h6 y ?r'" using nr by (simp add: h6_def)
  have ol: "h4 x = ?h1 x" if "x \<in> set (inord l)" for x
    using fr_l [OF that] rr(3) o2 [of x] by (auto simp: h4_def)
  have "tree_in h4 n l"
    by (rule tree_in_other [of _ h4 ?h1]) (use t1 ol in auto)
  then have tl: "tree_in h6 y l"
    using tree_in_reparent [of h4 n l y] l la di by (simp add: h6_def)
  have hn: "?h1 n = \<lparr> rb_parent = top fs, rb_color = c, rb_right = rr, rb_left = la \<rparr>" "n \<noteq> 0"
    using t1 rr la by auto
  have hy: "?h1 y = \<lparr> rb_parent = a, rb_color = d, rb_right = raddr yr, rb_left = 0 \<rparr>" "y \<noteq> 0" "a \<noteq> 0"
    using tq by auto
  have sn: "ld s n = Some \<lparr> rb_parent = top fs, rb_color = c, rb_right = rr, rb_left = la \<rparr>"
    using z rr la by (auto simp: zip_in_def rb_simps)
  have y0: "raddr yr = 0 \<longleftrightarrow> yr = Lf" using tq raddr_0 [of ?h1 y yr] by simp
  have oh: "h2 y = ?h1 y" "h2 n = ?h1 n" using fr_y fr_n by (auto intro!: o2)
  have e: "rb_unlink_succ n s = Some (raddr yr, a, d, s1\<lparr> rb_mem := h6 \<rparr>)"
  proof -
    obtain s1a where a: "(if raddr yr \<noteq> 0 then set_parent (raddr yr) a s1 else Some s1) = Some s1a"
        "set_left a (raddr yr) s1a = Some (s1\<lparr> rb_mem := h2 \<rparr>)"
      using y0 hy(3) by (cases "yr = Lf") (auto simp: rb_simps h2_def Let_def)
    have n2: "ld (s1\<lparr> rb_mem := h2 \<rparr>) n = Some \<lparr> rb_parent = top fs, rb_color = c, rb_right = rr, rb_left = la \<rparr>"
      using hn oh by (simp add: rb_simps)
    have h6: "h6 = h2(rr := (h2 rr)\<lparr> rb_parent := y \<rparr>, y := vy, la := (h2 la)\<lparr> rb_parent := y \<rparr>)"
      using ne(2,3) unfolding h6_def h4_def fun_upd_twist [OF ne(1)] by simp
    show ?thesis
      unfolding rb_unlink_succ_def sn
      apply (simp only: Option.bind.simps rbs.simps rb_node.simps Let_def rr(1) [symmetric] lm 1(1))
      apply (simp only: ne a n2 ld_st(1) [OF hy(2)] hy(1) Option.bind.simps rbs.simps rb_node.simps Let_def if_False)
      apply (use ne oh hn hy(2) rr(4) la(2) in \<open>simp add: ld_st\<close>)
      by (simp add: h6 vy_def hy(1))
  qed
  have o6: "h6 x = rb_mem s x" if "x \<notin> set (inord (Nd l y c ?r'))" "x \<notin> set (plist fs)" for x
    using that same [of x] o2 [of x] ne rr(3) la(3) unfolding h6_def h4_def
    by (auto simp: set_plist)
  have "h6 x = ?h1 x" if "x \<in> set (plist fs)" for x
  proof -
    have "x \<noteq> la" "x \<noteq> rr" "x \<noteq> y" "x \<noteq> a" "x \<notin> set (inord yr)"
      using that fr_l(7) [OF la(3)] rr(3) fr_gs(3) fr_y(7) fr_a(4) di by auto
    then show ?thesis using o2 [of x] by (simp add: h6_def h4_def)
  qed
  then have py: "path_in h6 (rb_root s1) fs y"
    using 1(2) path_in_cong [of fs h6 ?h1] by simp
  have hy6: "h6 y = vy" using ne by (simp add: h6_def h4_def)
  have di6: "distinct (inord (Nd l y c ?r') @ plist fs)"
    using di' by (simp only: inord.simps append_assoc append_Cons distinct_plug)
  have out: "h6 x = (m(n := h6 n)) x" if "x \<notin> set (inord (Nd l y c ?r') @ plist fs)" for x
  proof (cases "x = n")
    case False
    then have "x \<notin> set (inord (Nd l n c r) @ plist fs)" using that r by (auto simp: set_plist)
    then have "rb_mem s x = m x" using z by (simp add: zip_in_def)
    then show ?thesis using False o6 that by simp
  qed simp
  have "zip_in (m(n := h6 n)) (s1\<lparr> rb_mem := h6 \<rparr>) fs (Nd l y c ?r')"
    unfolding zip_in_def using t6 tl hy6 hy py di6 out rr la by (auto simp: vy_def)
  with e show ?thesis by blast
qed

lemma rb_unlink_succ_correct:
  assumes z: "zip_in m s fs (Nd l n c r)" and l: "l \<noteq> Lf" and r: "r \<noteq> Lf"
  shows "\<exists>gs y d yr s' v. r = plug gs (Nd Lf y d yr) \<and> lefts gs \<and>
    rb_unlink_succ n s = Some (raddr yr, top (gs @ FR l y c # fs), d, s') \<and>
    zip_in (m(n := v)) s' (gs @ FR l y c # fs) yr"
proof -
  have "tree_in (rb_mem s) n r" using z by (simp add: zip_in_def)
  from leftmost_correct [OF this r]
  obtain gs y d yr where g: "r = plug gs (Nd Lf y d yr)" "lefts gs" "leftmost (raddr r) s = Some y"
    by blast
  show ?thesis
  proof (cases gs)
    case Nil
    have zr: "zip_in m s fs (Nd l n c (Nd Lf y d yr))" using z g(1) Nil by simp
    from unlink_succ_near [OF zr l]
    obtain s' v where "rb_unlink_succ n s = Some (raddr yr, y, d, s')" "zip_in (m(n := v)) s' fs (Nd l y c yr)"
      by blast
    then show ?thesis using g Nil by (intro exI [of _ gs] exI [of _ y] exI [of _ d] exI [of _ yr]) (auto simp: zip_in_up)
  next
    case (Cons G hs)
    then obtain a e ar where G: "G = FL a e ar" using g(2) by (cases G) auto
    have r': "r = plug hs (Nd (Nd Lf y d yr) a e ar)" using g(1) Cons G by simp
    from unlink_succ_far [OF z l r' g(3)]
    obtain s' v where "rb_unlink_succ n s = Some (raddr yr, a, d, s')"
        "zip_in (m(n := v)) s' fs (Nd l y c (plug hs (Nd yr a e ar)))"
      by blast
    then show ?thesis using g(1,2) Cons G
      by (intro exI [of _ gs] exI [of _ y] exI [of _ d] exI [of _ yr])
        (auto simp: zip_in_append zip_in_up)
  qed
qed

lemma rb_ok_plugD: "rb_ok (plug fs t) \<Longrightarrow>
    rb_ok t \<and> path_ok fs (bh t) \<and> (top_col fs = Red \<longrightarrow> col t = Black)"
proof (induction fs arbitrary: t rule: plist.induct)
  case (2 a c r fs t)
  then show ?case using 2(1) [of "Nd t a c r"] by auto
next
  case (3 l a c fs t)
  then show ?case using 3(1) [of "Nd l a c t"] by auto
qed simp

lemma root_blackI: "col (plug fs t) = Black \<Longrightarrow> root_black fs"
proof (induction fs arbitrary: t rule: plist.induct)
  case (2 a c r fs t)
  then show ?case using 2(1) [of "Nd t a c r"] by (cases fs) (auto simp: root_black_def)
next
  case (3 l a c fs t)
  then show ?case using 3(1) [of "Nd l a c t"] by (cases fs) (auto simp: root_black_def)
qed (simp add: root_black_def)

lemma focus_exists: "n \<in> set (inord t) \<Longrightarrow> \<exists>fs l c r. t = plug fs (Nd l n c r)"
proof (induction t)
  case (Nd l a c r)
  consider "n = a" | "n \<in> set (inord l)" | "n \<in> set (inord r)" using Nd.prems by auto
  then show ?case
  proof cases
    case 1
    then show ?thesis by (intro exI [of _ "[]"]) auto
  next
    case 2
    then obtain fs l' c' r' where "l = plug fs (Nd l' n c' r')" using Nd.IH by blast
    then show ?thesis by (intro exI [of _ "fs @ [FL a c r]"]) auto
  next
    case 3
    then obtain fs l' c' r' where "r = plug fs (Nd l' n c' r')" using Nd.IH by blast
    then show ?thesis by (intro exI [of _ "fs @ [FR l a c]"]) auto
  qed
qed simp

text \<open>Repairing after the unlink, whatever colour was lost.\<close>

lemma after_unlink:
  assumes z: "zip_in m s fs t" and rbl: "root_black fs"
    and red: "d = Red \<Longrightarrow> rb_ok (plug fs t) \<and> (fs = [] \<longrightarrow> col t = Black)"
    and black: "d = Black \<Longrightarrow> rb_ok (paint Black t) \<and> path_ok fs (Suc (bh t))"
    and xs: "inord (plug fs t) = xs"
  shows "erase_done m (if d = Black then rb_erase_color (raddr t) (top fs) s else Some s) xs"
proof (cases d)
  case Red
  have "zip_in m s [] (plug fs t)" using z zip_in_plug by blast
  then show ?thesis using Red red rbl xs col_plug [of fs t] by (auto simp: erase_done_def)
next
  case Black
  then show ?thesis using erase_color_correct [OF z _ xs] black rbl by (simp add: short_ok_def)
qed

lemma path_ok_readdr:
  "path_ok (gs @ FR l n c # fs) k = path_ok (gs @ FR l y c # fs) k"
  "top_col (gs @ FR l n c # fs) = top_col (gs @ FR l y c # fs)"
  "root_black (gs @ FR l n c # fs) = root_black (gs @ FR l y c # fs)"
proof -
  show t: "top_col (gs @ FR l n c # fs) = top_col (gs @ FR l y c # fs)" for gs
    by (cases gs rule: top_col.cases) auto
  show "path_ok (gs @ FR l n c # fs) k = path_ok (gs @ FR l y c # fs) k"
    by (induction gs arbitrary: k rule: plist.induct) (auto simp: t)
  show "root_black (gs @ FR l n c # fs) = root_black (gs @ FR l y c # fs)"
    by (auto simp: root_black_def)
qed

lemma rb_erase_done:
  assumes z: "zip_in m s fs (Nd l n c r)" and ok: "rb_ok (plug fs (Nd l n c r))"
    and cb: "col (plug fs (Nd l n c r)) = Black"
  shows "\<exists>v. erase_done (m(n := v)) (rb_erase n s) (pre fs @ inord l @ inord r @ suf fs)"
proof -
  have rbl: "root_black fs" using root_blackI cb by blast
  have o: "rb_ok (Nd l n c r)" "path_ok fs (bh (Nd l n c r))" "top_col fs = Red \<longrightarrow> c = Black"
    using rb_ok_plugD [OF ok] by auto
  have fb: "fs = [] \<longrightarrow> c = Black" using cb by auto
  note rd = ld_root [OF z]
  have l0: "raddr l = 0 \<longleftrightarrow> l = Lf" "raddr r = 0 \<longleftrightarrow> r = Lf" using z by (auto simp: zip_in_def)
  consider (right) "l = Lf" | (left) "l \<noteq> Lf" "r = Lf" | (both) "l \<noteq> Lf" "r \<noteq> Lf" by blast
  then show ?thesis
  proof cases
    case right
    obtain s' where u: "rb_unlink n (raddr r) s = Some (top fs, c, s')" and z': "zip_in (m(n := rb_mem s n)) s' fs r"
      using rb_unlink_right_correct z right by blast
    have "erase_done (m(n := rb_mem s n)) (if c = Black then rb_erase_color (raddr r) (top fs) s' else Some s')
        (pre fs @ inord l @ inord r @ suf fs)"
      by (rule after_unlink [OF z' rbl]) (use o fb right in \<open>auto intro!: plug_ok split: if_splits\<close>)
    then show ?thesis using rd u right by (auto simp: rb_erase_def)
  next
    case left
    obtain s' where u: "rb_unlink n (raddr l) s = Some (top fs, c, s')" and z': "zip_in (m(n := rb_mem s n)) s' fs l"
      using rb_unlink_left_correct z left by blast
    have "erase_done (m(n := rb_mem s n)) (if c = Black then rb_erase_color (raddr l) (top fs) s' else Some s')
        (pre fs @ inord l @ inord r @ suf fs)"
      by (rule after_unlink [OF z' rbl]) (use o fb left in \<open>auto intro!: plug_ok split: if_splits\<close>)
    then show ?thesis using rd u left l0 by (auto simp: rb_erase_def)
  next
    case both
    obtain gs y d yr s' v where g: "r = plug gs (Nd Lf y d yr)" "lefts gs"
      and u: "rb_unlink_succ n s = Some (raddr yr, top (gs @ FR l y c # fs), d, s')"
      and z': "zip_in (m(n := v)) s' (gs @ FR l y c # fs) yr"
      using rb_unlink_succ_correct [OF z both] by blast
    have ok': "rb_ok (plug (gs @ FR l n c # fs) (Nd Lf y d yr))" using ok g by simp
    have p: "rb_ok (Nd Lf y d yr) \<and> path_ok (gs @ FR l y c # fs) (bh (Nd Lf y d yr)) \<and>
        (top_col (gs @ FR l y c # fs) = Red \<longrightarrow> col (Nd Lf y d yr) = Black)"
      using rb_ok_plugD [OF ok'] path_ok_readdr(1) [where n = n and y = y]
        path_ok_readdr(2) [where n = n and y = y] by metis
    have rbl': "root_black (gs @ FR l y c # fs)"
      using root_blackI [of "gs @ FR l n c # fs" "Nd Lf y d yr"] cb g
        path_ok_readdr(3) [where n = n and y = y] by auto
    have "erase_done (m(n := v)) (if d = Black then rb_erase_color (raddr yr) (top (gs @ FR l y c # fs)) s' else Some s')
        (pre fs @ inord l @ inord r @ suf fs)"
      by (rule after_unlink [OF z' rbl'])
        (use p g in \<open>auto simp del: plug_append intro!: plug_ok split: if_splits\<close>)
    then show ?thesis using rd u both l0 by (auto simp: rb_erase_def)
  qed
qed

lemma rb_erase_correct:
  assumes z: "zip_in m s [] T" and ok: "rb_ok T" and cb: "col T = Black" and n: "n \<in> set (inord T)"
  shows "\<exists>s' T' v. rb_erase n s = Some s' \<and> zip_in (m(n := v)) s' [] T' \<and>
    inord T' = remove1 n (inord T) \<and> rb_ok T' \<and> col T' = Black"
proof -
  obtain fs l c r where T: "T = plug fs (Nd l n c r)" using focus_exists [OF n] by blast
  have d: "distinct (inord T)" using z by (simp add: zip_in_def)
  then have "remove1 n (inord T) = pre fs @ inord l @ inord r @ suf fs"
    unfolding T by (simp add: remove1_append)
  moreover have "zip_in m s fs (Nd l n c r)" using z T zip_in_plug by blast
  ultimately show ?thesis using rb_erase_done [of m s fs l n c r] ok cb T by (auto simp: erase_done_def)
qed

section \<open>Walking the tree\<close>

partial_function (option) rightmost :: "addr \<Rightarrow> rbs \<Rightarrow> addr option" where
  "rightmost node s = do {
     n \<leftarrow> ld s node;
     if rb_right n \<noteq> 0 then rightmost (rb_right n) s else Some node }"

declare rightmost.simps [code]

definition rb_first :: "rbs \<Rightarrow> addr option" where
  "rb_first s = (if rb_root s = 0 then Some 0 else leftmost (rb_root s) s)"

definition rb_last :: "rbs \<Rightarrow> addr option" where
  "rb_last s = (if rb_root s = 0 then Some 0 else rightmost (rb_root s) s)"

partial_function (option) climb_next :: "addr \<Rightarrow> rbs \<Rightarrow> addr option" where
  "climb_next node s = do {
     n \<leftarrow> ld s node;
     let parent = rb_parent n;
     if parent = 0 then Some parent
     else do {
       p \<leftarrow> ld s parent;
       if node = rb_right p then climb_next parent s else Some parent } }"

declare climb_next.simps [code]

partial_function (option) climb_prev :: "addr \<Rightarrow> rbs \<Rightarrow> addr option" where
  "climb_prev node s = do {
     n \<leftarrow> ld s node;
     let parent = rb_parent n;
     if parent = 0 then Some parent
     else do {
       p \<leftarrow> ld s parent;
       if node = rb_left p then climb_prev parent s else Some parent } }"

declare climb_prev.simps [code]

definition rb_next :: "addr \<Rightarrow> rbs \<Rightarrow> addr option" where
  "rb_next node s = do {
     n \<leftarrow> ld s node;
     if rb_parent n = node then Some 0
     else if rb_right n \<noteq> 0 then leftmost (rb_right n) s
     else climb_next node s }"

definition rb_prev :: "addr \<Rightarrow> rbs \<Rightarrow> addr option" where
  "rb_prev node s = do {
     n \<leftarrow> ld s node;
     if rb_parent n = node then Some 0
     else if rb_left n \<noteq> 0 then rightmost (rb_left n) s
     else climb_prev node s }"

definition rb_replace_node :: "addr \<Rightarrow> addr \<Rightarrow> rbs \<Rightarrow> rbs option" where
  "rb_replace_node victim new_node s = do {
     v \<leftarrow> ld s victim;
     s \<leftarrow> replace_child (rb_parent v) victim new_node s;
     v \<leftarrow> ld s victim;
     s \<leftarrow> (if rb_left v \<noteq> 0 then set_parent (rb_left v) new_node s else Some s);
     s \<leftarrow> (if rb_right v \<noteq> 0 then set_parent (rb_right v) new_node s else Some s);
     v \<leftarrow> ld s victim;
     st s new_node (\<lambda>_. v) }"

definition hd_or0 :: "addr list \<Rightarrow> addr" where
  "hd_or0 xs = (case xs of [] \<Rightarrow> 0 | x # _ \<Rightarrow> x)"

definition last_or0 :: "addr list \<Rightarrow> addr" where
  "last_or0 xs = hd_or0 (rev xs)"

lemma hd_or0_append: "hd_or0 (xs @ ys) = (if xs = [] then hd_or0 ys else hd_or0 xs)"
  by (cases xs) (auto simp: hd_or0_def)

lemma last_or0_append: "last_or0 (xs @ ys) = (if ys = [] then last_or0 xs else last_or0 ys)"
  by (simp add: last_or0_def hd_or0_append)

lemma inord_nil [simp]: "inord t = [] \<longleftrightarrow> t = Lf"
  by (cases t) auto

lemma leftmost_hd:
  "tree_in (rb_mem s) par t \<Longrightarrow> t \<noteq> Lf \<Longrightarrow> leftmost (raddr t) s = Some (hd_or0 (inord t))"
proof (induction t arbitrary: par)
  case (Nd l a c r)
  have "raddr l = 0 \<longleftrightarrow> l = Lf" using Nd.prems raddr_0 [of "rb_mem s" a l] by simp
  then have "leftmost a s = (if l = Lf then Some a else leftmost (raddr l) s)"
    using Nd.prems by (subst leftmost.simps) (simp add: rb_simps)
  then show ?case using Nd.IH(1) [of a] Nd.prems by (auto simp: hd_or0_append) (simp add: hd_or0_def)
qed simp

lemma rightmost_last:
  "tree_in (rb_mem s) par t \<Longrightarrow> t \<noteq> Lf \<Longrightarrow> rightmost (raddr t) s = Some (last_or0 (inord t))"
proof (induction t arbitrary: par)
  case (Nd l a c r)
  have "raddr r = 0 \<longleftrightarrow> r = Lf" using Nd.prems raddr_0 [of "rb_mem s" a r] by simp
  then have "rightmost a s = (if r = Lf then Some a else rightmost (raddr r) s)"
    using Nd.prems by (subst rightmost.simps) (simp add: rb_simps)
  then show ?case using Nd.IH(2) [of a] Nd.prems
    by (auto simp: last_or0_append last_or0_def hd_or0_append) (simp add: hd_or0_def)
qed simp

lemma rb_first_correct: "zip_in m s [] t \<Longrightarrow> rb_first s = Some (hd_or0 (inord t))"
  using leftmost_hd [of s 0 t] raddr_0 [of "rb_mem s" 0 t]
  by (cases "t = Lf") (auto simp: rb_first_def zip_in_def hd_or0_def)

lemma rb_last_correct: "zip_in m s [] t \<Longrightarrow> rb_last s = Some (last_or0 (inord t))"
  using rightmost_last [of s 0 t] raddr_0 [of "rb_mem s" 0 t]
  by (cases "t = Lf") (auto simp: rb_last_def zip_in_def last_or0_def hd_or0_def)

lemma climb_next_correct: "zip_in m s fs (Nd l n c r) \<Longrightarrow> climb_next n s = Some (hd_or0 (suf fs))"
proof (induction fs arbitrary: l n c r)
  case Nil
  then show ?case by (subst climb_next.simps) (simp add: ld_root hd_or0_def)
next
  case (Cons F fs)
  show ?case
  proof (cases F)
    case F: (FL a e sib)
    have z: "zip_in m s fs (Nd (Nd l n c r) a e sib)" using Cons.prems by (simp add: F zip_in_up)
    have "n \<noteq> raddr sib" "a \<noteq> 0" using z by (auto simp: zip_in_def dest: raddr_neq)
    then show ?thesis using ld_root [OF Cons.prems] ld_root [OF z]
      by (subst climb_next.simps) (simp add: F hd_or0_def)
  next
    case F: (FR sib a e)
    have z: "zip_in m s fs (Nd sib a e (Nd l n c r))" using Cons.prems by (simp add: F zip_in_up)
    then have "a \<noteq> 0" by (simp add: zip_in_def)
    then show ?thesis using ld_root [OF Cons.prems] ld_root [OF z] Cons.IH [OF z]
      by (subst climb_next.simps) (simp add: F)
  qed
qed

lemma climb_prev_correct: "zip_in m s fs (Nd l n c r) \<Longrightarrow> climb_prev n s = Some (last_or0 (pre fs))"
proof (induction fs arbitrary: l n c r)
  case Nil
  then show ?case by (subst climb_prev.simps) (simp add: ld_root hd_or0_def last_or0_def)
next
  case (Cons F fs)
  show ?case
  proof (cases F)
    case F: (FR sib a e)
    have z: "zip_in m s fs (Nd sib a e (Nd l n c r))" using Cons.prems by (simp add: F zip_in_up)
    have "n \<noteq> raddr sib" "a \<noteq> 0" using z by (auto simp: zip_in_def dest: raddr_neq)
    then show ?thesis using ld_root [OF Cons.prems] ld_root [OF z]
      by (subst climb_prev.simps) (simp add: F hd_or0_def last_or0_def)
  next
    case F: (FL a e sib)
    have z: "zip_in m s fs (Nd (Nd l n c r) a e sib)" using Cons.prems by (simp add: F zip_in_up)
    then have "a \<noteq> 0" by (simp add: zip_in_def)
    then show ?thesis using ld_root [OF Cons.prems] ld_root [OF z] Cons.IH [OF z]
      by (subst climb_prev.simps) (simp add: F)
  qed
qed

lemma top_neq: "zip_in m s fs (Nd l n c r) \<Longrightarrow> top fs \<noteq> n"
  using top_in_plist [of fs] by (cases "fs = []") (auto simp: zip_in_def)

text \<open>The node behind, and the one before, in the sequence.\<close>

lemma rb_next_correct:
  assumes z: "zip_in m s fs (Nd l n c r)"
  shows "rb_next n s = Some (hd_or0 (inord r @ suf fs))"
proof -
  have t: "tree_in (rb_mem s) n r" using z by (simp add: zip_in_def)
  show ?thesis
    using ld_root [OF z] top_neq [OF z] climb_next_correct [OF z] raddr_0 [OF t] leftmost_hd [OF t]
    by (cases "r = Lf") (auto simp: rb_next_def hd_or0_append)
qed

lemma rb_prev_correct:
  assumes z: "zip_in m s fs (Nd l n c r)"
  shows "rb_prev n s = Some (last_or0 (pre fs @ inord l))"
proof -
  have t: "tree_in (rb_mem s) n l" using z by (simp add: zip_in_def)
  show ?thesis
    using ld_root [OF z] top_neq [OF z] climb_prev_correct [OF z] raddr_0 [OF t] rightmost_last [OF t]
    by (cases "l = Lf") (auto simp: rb_prev_def last_or0_append)
qed

lemma rb_replace_node_correct:
  assumes z: "zip_in m s fs (Nd l v c r)" and n: "n \<noteq> 0" "n \<notin> set (inord (Nd l v c r) @ plist fs)"
  shows "\<exists>s'. rb_replace_node v n s = Some s' \<and> zip_in (m(v := rb_mem s v)) s' fs (Nd l n c r)"
proof -
  obtain s1 where 1: "replace_child (top fs) v n s = Some s1" "path_in (rb_mem s1) (rb_root s1) fs n"
    "\<forall>a. a \<noteq> top fs \<or> fs = [] \<longrightarrow> rb_mem s1 a = rb_mem s a"
    using replace_child_path [of s fs v n] z by (auto simp: zip_in_def)
  then have same: "rb_mem s1 a = rb_mem s a" if "a \<notin> set (plist fs)" for a
    using that top_in_plist [of fs] by metis
  have t1: "tree_in (rb_mem s1) (top fs) (Nd l v c r)"
    by (rule tree_in_other [of _ "rb_mem s1" "rb_mem s"]) (use z same in \<open>auto simp: zip_in_def\<close>)
  have sv: "rb_mem s1 v = rb_mem s v" using same z by (auto simp: zip_in_def)
  have out: "\<forall>a. a \<notin> set (inord (Nd l v c r) @ plist fs) \<longrightarrow> rb_mem s1 a = m a"
    using same z by (auto simp: zip_in_def)
  show ?thesis
    using ld_root [OF z] 1(1,2) t1 sv out z n
    by (cases l; cases r) (auto simp: rb_replace_node_def rb_simps zip_in_def)
qed

section \<open>Properties\<close>

text \<open>C18. Linking a node at a leaf and calling \<open>rb_insert_color\<close> terminates with a well-formed
  red-black tree with a black root: the in-order sequence gains the node at that place, every
  path has the same number of black nodes, no red node has a red child, and memory outside the
  tree is untouched.\<close>

theorem rb_insert_balances:
  assumes z: "zip_in m s fs Lf" and ok: "rb_ok (plug fs Lf)" and cb: "col (plug fs Lf) = Black"
    and n: "n \<noteq> 0" "n \<notin> set (plist fs)"
  shows "\<exists>s' t'. do { s \<leftarrow> rb_link_node n (top fs) (slot_of fs) s; rb_insert_color n s } = Some s' \<and>
    zip_in m s' [] t' \<and> inord t' = pre fs @ n # suf fs \<and> rb_ok t' \<and> col t' = Black"
proof -
  have "path_ok fs 0" using rb_ok_plugD [OF ok] by simp
  then show ?thesis using rb_insert_correct [OF z ok _ root_blackI [OF cb] n] by blast
qed

lemma rb_insert_balances_witness:
  "\<exists>s' t'. do { s \<leftarrow> rb_link_node 8 0 RootSlot \<lparr> rb_mem = (\<lambda>_. \<lparr> rb_parent = 0, rb_color = Red, rb_right = 0, rb_left = 0 \<rparr>), rb_root = 0 \<rparr>;
        rb_insert_color 8 s } = Some s' \<and> inord t' = [8] \<and> rb_ok t'"
  using rb_insert_balances [of "\<lambda>_. \<lparr> rb_parent = 0, rb_color = Red, rb_right = 0, rb_left = 0 \<rparr>"
      "\<lparr> rb_mem = (\<lambda>_. \<lparr> rb_parent = 0, rb_color = Red, rb_right = 0, rb_left = 0 \<rparr>), rb_root = 0 \<rparr>" "[]" 8]
  by (auto simp: zip_in_def)

text \<open>C19. \<open>rb_erase\<close> of any node of a red-black tree terminates with a well-formed red-black tree
  without that node and with the other nodes in the same order; only the memory of the removed
  node is left behind.\<close>

theorem rb_erase_balances:
  assumes "zip_in m s [] t" and "rb_ok t" and "col t = Black" and "n \<in> set (inord t)"
  shows "\<exists>s' t' v. rb_erase n s = Some s' \<and> zip_in (m(n := v)) s' [] t' \<and>
    inord t' = remove1 n (inord t) \<and> rb_ok t' \<and> col t' = Black"
  by (rule rb_erase_correct [OF assms])

lemma rb_erase_balances_witness:
  "\<exists>s' t'. rb_erase 8 \<lparr> rb_mem = (\<lambda>_. \<lparr> rb_parent = 0, rb_color = Black, rb_right = 0, rb_left = 0 \<rparr>), rb_root = 8 \<rparr> = Some s' \<and>
     inord t' = [] \<and> rb_ok t'"
  using rb_erase_balances [of "\<lambda>_. \<lparr> rb_parent = 0, rb_color = Black, rb_right = 0, rb_left = 0 \<rparr>"
      "\<lparr> rb_mem = (\<lambda>_. \<lparr> rb_parent = 0, rb_color = Black, rb_right = 0, rb_left = 0 \<rparr>), rb_root = 8 \<rparr>" "Nd Lf 8 Black Lf" 8]
  by (auto simp: zip_in_def)

text \<open>\<open>rb_first\<close>, \<open>rb_last\<close>, \<open>rb_next\<close> and \<open>rb_prev\<close> terminate and walk the tree in order: from every
  node to its in-order neighbours, and to NULL at the ends.\<close>

theorem rb_walk_in_order:
  assumes z: "zip_in m s [] t" and t: "inord t = xs @ n # ys"
  shows "rb_next n s = Some (hd_or0 ys) \<and> rb_prev n s = Some (last_or0 xs) \<and>
    rb_first s = Some (hd (inord t)) \<and> rb_last s = Some (last (inord t))"
proof -
  obtain fs l c r where f: "t = plug fs (Nd l n c r)" using focus_exists [of n t] t by auto
  have zf: "zip_in m s fs (Nd l n c r)" using z f zip_in_plug by blast
  have "distinct (inord t)" using z by (simp add: zip_in_def)
  then have "n \<notin> set xs" "n \<notin> set ys" unfolding t by auto
  moreover have "xs @ n # ys = (pre fs @ inord l) @ n # (inord r @ suf fs)" using t f by simp
  ultimately have "xs = pre fs @ inord l \<and> ys = inord r @ suf fs"
    using append_Cons_eq_iff [of n xs ys "pre fs @ inord l" "inord r @ suf fs"] by blast
  moreover have "zs \<noteq> [] \<Longrightarrow> hd_or0 zs = hd zs \<and> last_or0 zs = last zs" for zs
    by (cases zs rule: rev_cases) (auto simp: hd_or0_def last_or0_def split: list.split)
  then have "hd_or0 (inord t) = hd (inord t)" "last_or0 (inord t) = last (inord t)" using t by simp_all
  ultimately show ?thesis
    using rb_next_correct [OF zf] rb_prev_correct [OF zf] rb_first_correct [OF z] rb_last_correct [OF z] by simp
qed

lemma rb_walk_in_order_witness:
  "rb_next 8 \<lparr> rb_mem = (\<lambda>_. \<lparr> rb_parent = 0, rb_color = Black, rb_right = 0, rb_left = 0 \<rparr>), rb_root = 8 \<rparr> = Some 0"
  using rb_walk_in_order [of "\<lambda>_. \<lparr> rb_parent = 0, rb_color = Black, rb_right = 0, rb_left = 0 \<rparr>"
      "\<lparr> rb_mem = (\<lambda>_. \<lparr> rb_parent = 0, rb_color = Black, rb_right = 0, rb_left = 0 \<rparr>), rb_root = 8 \<rparr>" "Nd Lf 8 Black Lf" "[]" 8 "[]"]
  by (auto simp: zip_in_def hd_or0_def)

end
