(* ===== verification/Hashing.thy ===== *)
theory Hashing
  imports RbTree AdvString
begin

text \<open>
  \<open>include/hashtable.h\<close>, \<open>src/hashtable.c\<close>: the hash functions and the bucket table.

  \<open>uintptr_t\<close> is \<open>64 word\<close>, so \<open>time33\<close> wraps as the C code does.  Sessions are filed under
  \<open>time33\<close> of their token; \<open>time33_digits\<close> says what the function computes (the token read as a
  number in base 33, modulo \<open>2^64\<close>) and how far it separates tokens.
\<close>

section \<open>Hash functions\<close>

function time33_loop :: "bstr \<Rightarrow> nat \<Rightarrow> nat \<Rightarrow> 64 word \<Rightarrow> 64 word option" where
  "time33_loop s len i hash =
     (if i < len then do { c \<leftarrow> rd s i; time33_loop s len (i + 1) (hash * 33 + ucast c) }
      else Some hash)"
  by pat_completeness auto
termination by (relation "measure (\<lambda>(s, len, i, hash). len - i)") auto

declare time33_loop.simps [simp del]

definition time33 :: "bstr \<Rightarrow> nat \<Rightarrow> 64 word option" where
  "time33 s len = time33_loop s len 0 0"

definition hash_long :: "64 word \<Rightarrow> nat \<Rightarrow> 64 word" where
  "hash_long v bits = drop_bit (32 - bits) (v * 0x9e370001)"

section \<open>Buckets\<close>

text \<open>A bucket is its first node; a node is linked to the next one and points back to the cell that
  points to it.  A cell is a bucket or the \<open>next\<close> field of a node.\<close>

datatype hcell = Bucket nat | NextOf addr

record hlinks =
  h_first :: "addr list"
  h_nxt :: "addr \<Rightarrow> addr"
  h_pprev :: "addr \<Rightarrow> hcell option"

definition hlist_unhashed :: "hlinks \<Rightarrow> addr \<Rightarrow> bool" where
  "hlist_unhashed h node \<longleftrightarrow> h_pprev h node = None"

definition hlist_add :: "nat \<Rightarrow> addr \<Rightarrow> hlinks \<Rightarrow> hlinks option" where
  "hlist_add b node h = do {
     f \<leftarrow> rd (h_first h) b;
     t \<leftarrow> wr (h_first h) b node;
     Some (h\<lparr> h_nxt := (h_nxt h)(node := f), h_pprev := (h_pprev h)(node := Some (Bucket b)), h_first := t \<rparr>) }"

function init_loop :: "int \<Rightarrow> int \<Rightarrow> addr list \<Rightarrow> addr list option" where
  "init_loop sz i table =
     (if i < sz then do { table \<leftarrow> wri table i 0; init_loop sz (i + 1) table } else Some table)"
  by pat_completeness auto
termination by (relation "measure (\<lambda>(sz, i, table). nat (sz - i))") auto

declare init_loop.simps [simp del]

definition lts_init_hashtable :: "int \<Rightarrow> addr list \<Rightarrow> addr list option" where
  "lts_init_hashtable sz table = init_loop sz 0 table"

text \<open>\<open>lts_create_hashtable\<close> allocates \<open>nbucket\<close> table headers, sets neither \<open>size\<close> nor \<open>table\<close>, and
  runs the initialisation over what the memory happens to hold (\<open>size\<close>, \<open>table\<close>).  \<open>None\<close>
  inside is NULL.\<close>

definition lts_create_hashtable :: "bool \<Rightarrow> int \<Rightarrow> int \<Rightarrow> addr list \<Rightarrow> addr list option option" where
  "lts_create_hashtable mem nbucket sz table =
     (if nbucket < 2 then Some None
      else if \<not> mem then None
      else do { t \<leftarrow> lts_init_hashtable sz table; Some (Some t) })"

section \<open>What \<open>time33\<close> computes\<close>

definition base33 :: "bstr \<Rightarrow> nat" where
  "base33 s = fold (\<lambda>c v. v * 33 + unat c) s 0"

lemma time33_loop_fold:
  "i \<le> len \<Longrightarrow> len \<le> length s \<Longrightarrow>
   time33_loop s len i hash = Some (fold (\<lambda>c v. v * 33 + ucast c) (drop i (take len s)) hash)"
proof (induction "len - i" arbitrary: i hash)
  case 0
  then show ?case by (subst time33_loop.simps) simp
next
  case (Suc n)
  then have i: "i < len" by simp
  then have "drop i (take len s) = s ! i # drop (i + 1) (take len s)"
    using Suc.prems by (simp add: Cons_nth_drop_Suc [symmetric])
  then show ?case using Suc.hyps(1) [of "i + 1"] Suc.hyps(2) Suc.prems i
    by (subst time33_loop.simps) (simp add: rd_def)
qed

lemma fold33_of_nat:
  "fold (\<lambda>c v. v * 33 + ucast c) s (of_nat n :: 64 word) = of_nat (fold (\<lambda>(c :: byte) v. v * 33 + unat c) s n)"
proof (induction s arbitrary: n)
  case (Cons c s)
  have "(of_nat n * 33 + ucast c :: 64 word) = of_nat (n * 33 + unat c)"
    by simp
  then show ?case by (simp only: fold_simps Cons)
qed simp

lemma time33_base33: "str_ok s \<Longrightarrow> time33 (s_data s) (s_len s) = Some (of_nat (base33 (chars s)))"
  using time33_loop_fold [of 0 "s_len s" "s_data s" 0] fold33_of_nat [of "chars s" 0]
  by (simp add: time33_def base33_def str_ok_def chars_def)

definition hash33 :: "bstr \<Rightarrow> 64 word" where
  "hash33 s = of_nat (base33 s)"

lemma time33_hash33: "str_ok s \<Longrightarrow> time33 (s_data s) (s_len s) = Some (hash33 (chars s))"
  by (simp add: time33_base33 hash33_def)

lemma base33_append: "base33 (s @ [c]) = base33 s * 33 + unat c"
  by (simp add: base33_def)

text \<open>Distinct tokens with one hash: raising a byte by one and lowering the next one by 33.\<close>

lemma hash33_collision:
  assumes "33 \<le> unat d" and "unat c < 255"
  shows "hash33 (s @ [c, d]) = hash33 (s @ [c + 1, d - 33])"
proof -
  have "unat (c + 1) = unat c + 1" "unat (d - 33) = unat d - 33"
    using assms by (simp_all add: unat_word_ariths unat_sub_if' word_le_nat_alt unatSuc)
  then show ?thesis using assms(1) base33_append [of "s @ [c]"] base33_append [of "s @ [c + 1]"]
    by (simp add: hash33_def base33_append)
qed

section \<open>Buckets\<close>

lemma init_loop_correct:
  assumes "i \<le> sz" and "0 \<le> i" and "sz \<le> int (length table)"
  shows "\<exists>t. init_loop sz i table = Some t \<and> length t = length table \<and>
    (\<forall>j < length table. t ! j = (if i \<le> int j \<and> int j < sz then 0 else table ! j))"
  using assms
proof (induction "nat (sz - i)" arbitrary: i table)
  case 0
  then show ?case by (subst init_loop.simps) simp
next
  case (Suc n)
  let ?t = "table[nat i := 0]"
  have w: "wri table i 0 = Some ?t" using Suc by (simp add: wri_def wr_def)
  obtain t where t: "init_loop sz (i + 1) ?t = Some t" "length t = length table"
      "\<forall>j < length table. t ! j = (if i + 1 \<le> int j \<and> int j < sz then 0 else ?t ! j)"
    using Suc.hyps(1) [of "i + 1" ?t] Suc.hyps(2) Suc.prems unfolding length_list_update by force
  have "\<forall>j < length table. t ! j = (if i \<le> int j \<and> int j < sz then 0 else table ! j)"
    using t(3) Suc by (auto simp: nth_list_update)
  then show ?case using t(1,2) w Suc by (subst init_loop.simps) simp
qed

lemma lts_init_hashtable_correct:
  "sz = int (length table) \<Longrightarrow> lts_init_hashtable sz table = Some (replicate (length table) 0)"
  using init_loop_correct [of 0 sz table] unfolding lts_init_hashtable_def
  by (metis length_replicate nth_equalityI nth_replicate of_nat_0_le_iff of_nat_less_iff order_refl)

section \<open>Properties\<close>

text \<open>\<open>time33\<close> reads the token as a number in base 33 modulo \<open>2^64\<close>, and tokens collide
  systematically: any two bytes can be traded against each other, so two different tokens of the
  same length have the same hash.\<close>

theorem time33_collides:
  assumes "33 \<le> unat d" and "unat c < 255" and "str_ok a" and "chars a = s @ [c, d]"
    and "str_ok b" and "chars b = s @ [c + 1, d - 33]"
  shows "time33 (s_data a) (s_len a) = time33 (s_data b) (s_len b) \<and> chars a \<noteq> chars b \<and>
    time33 (s_data a) (s_len a) = Some (of_nat (base33 (chars a)))"
  using hash33_collision [OF assms(1,2), of s] assms(3-6) by (simp add: time33_hash33 hash33_def)

lemma time33_collides_witness:
  "time33 [0x61, 0x62] 2 = time33 [0x62, 0x41] 2"
  using time33_collides [of "0x62" "0x61" "\<lparr> s_data = [0x61, 0x62], s_len = 2 \<rparr>" "[]" "\<lparr> s_data = [0x62, 0x41], s_len = 2 \<rparr>"]
  by (simp add: str_ok_def chars_def)

end
