(* ===== verification/ListH.thy ===== *)
theory ListH
  imports RbTree
begin

text \<open>
  \<open>include/list.h\<close>: the intrusive singly linked lists and stacks, and the intrusive circular
  doubly linked lists.  A cell is an address, a link memory maps addresses to addresses, and 0 is
  NULL.  Dereferencing NULL is \<open>None\<close>.

  \<open>seg\<close> and \<open>dseg\<close> are the list segments of the proofs; \<open>list_in\<close> and \<open>dlist_in\<close> say that a
  memory holds a list with the given cells.
\<close>

named_theorems list_simps \<open>list operations on memories that hold a list\<close>

section \<open>Single lists\<close>

type_synonym links = "addr \<Rightarrow> addr"

text \<open>The head \<open>*pp\<close> is passed and returned as a value; the link of a cell is \<open>*node\<close>.\<close>

definition list_add_node :: "addr \<Rightarrow> addr \<Rightarrow> links \<Rightarrow> (addr \<times> links) option" where
  "list_add_node head node m = (if node = 0 then None else Some (node, m(node := head)))"

definition list_first :: "addr \<Rightarrow> addr" where
  "list_first head = head"

definition list_next :: "links \<Rightarrow> addr \<Rightarrow> addr option" where
  "list_next m node = (if node = 0 then None else Some (m node))"

definition list_is_empty :: "addr \<Rightarrow> bool" where
  "list_is_empty head \<longleftrightarrow> head = 0"

definition list_set_empty :: addr where
  "list_set_empty = 0"

text \<open>\<open>__list_do_remove\<close> gets the place that points to the cell: the head, or a cell before it.\<close>

datatype place = Head | Cell addr

fun place_get :: "place \<Rightarrow> addr \<times> links \<Rightarrow> addr" where
  "place_get Head (head, m) = head"
| "place_get (Cell a) (head, m) = m a"

fun place_set :: "place \<Rightarrow> addr \<Rightarrow> addr \<times> links \<Rightarrow> addr \<times> links" where
  "place_set Head v (head, m) = (v, m)"
| "place_set (Cell a) v (head, m) = (head, m(a := v))"

definition list_do_remove :: "place \<Rightarrow> addr \<times> links \<Rightarrow> (addr \<times> links) option" where
  "list_do_remove node s =
     (let p_del = place_get node s
      in if p_del = 0 then None
         else let s = place_set node (snd s p_del) s
              in Some (fst s, (snd s)(p_del := 0)))"

partial_function (option) rm_loop :: "place \<Rightarrow> addr \<Rightarrow> addr \<times> links \<Rightarrow> (addr \<times> links) option" where
  "rm_loop pp node s =
     (if place_get pp s \<noteq> 0 then
        if node = place_get pp s then list_do_remove pp s
        else rm_loop (Cell (place_get pp s)) node s
      else Some s)"

declare rm_loop.simps [code]

definition list_rm_node :: "addr \<Rightarrow> addr \<Rightarrow> links \<Rightarrow> (addr \<times> links) option" where
  "list_rm_node head node m = rm_loop Head node (head, m)"

section \<open>Stacks\<close>

definition lstack_top :: "addr \<Rightarrow> addr" where
  "lstack_top stack = list_first stack"

definition lstack_is_empty :: "addr \<Rightarrow> bool" where
  "lstack_is_empty stack \<longleftrightarrow> stack = 0"

definition lstack_push :: "addr \<Rightarrow> addr \<Rightarrow> links \<Rightarrow> (addr \<times> links) option" where
  "lstack_push stack node m = list_add_node stack node m"

definition lstack_pop :: "addr \<Rightarrow> links \<Rightarrow> (addr \<times> links) option" where
  "lstack_pop stack m = list_rm_node stack stack m"

section \<open>Single lists: correctness\<close>

fun list_in :: "links \<Rightarrow> addr \<Rightarrow> addr list \<Rightarrow> bool" where
  "list_in m p [] \<longleftrightarrow> p = 0"
| "list_in m p (a # as) \<longleftrightarrow> p = a \<and> a \<noteq> 0 \<and> list_in m (m a) as"

lemma list_in_upd [simp]: "a \<notin> set as \<Longrightarrow> list_in (m(a := v)) p as = list_in m p as"
  by (induction as arbitrary: p) auto

lemma list_in_cong: "\<forall>a\<in>set as. m' a = m a \<Longrightarrow> list_in m' p as = list_in m p as"
  by (induction as arbitrary: p) auto

lemma list_in_empty [list_simps]: "list_in m p as \<Longrightarrow> lstack_is_empty p \<longleftrightarrow> as = []"
  by (cases as) (auto simp: lstack_is_empty_def)

lemma list_add_node_correct [list_simps]:
  "list_in m p as \<Longrightarrow> a \<noteq> 0 \<Longrightarrow> a \<notin> set as \<Longrightarrow>
   list_add_node p a m = Some (a, m(a := p)) \<and> list_in (m(a := p)) a (a # as)"
  by (simp add: list_add_node_def)

lemma lstack_pop_correct [list_simps]:
  "list_in m p (a # as) \<Longrightarrow> distinct (a # as) \<Longrightarrow>
   lstack_pop p m = Some (m a, m(a := 0)) \<and> list_in (m(a := 0)) (m a) as"
  by (auto simp: lstack_pop_def list_rm_node_def rm_loop.simps list_do_remove_def)

text \<open>Removing a cell that is in the list, from any position.\<close>

lemma rm_loop_correct:
  assumes "list_in m (place_get pl (head, m)) (xs @ a # ys)" and "distinct (xs @ a # ys)"
    and "\<forall>b. pl = Cell b \<longrightarrow> b \<notin> set (xs @ a # ys)"
  shows "\<exists>head' m'. rm_loop pl a (head, m) = Some (head', m') \<and>
    list_in m' (place_get pl (head', m')) (xs @ ys) \<and> (pl \<noteq> Head \<longrightarrow> head' = head) \<and>
    (\<forall>b. b \<notin> set (xs @ [a]) \<and> pl \<noteq> Cell b \<longrightarrow> m' b = m b) \<and> m' a = 0"
  using assms
proof (induction xs arbitrary: pl)
  case Nil
  then have p: "place_get pl (head, m) = a" "a \<noteq> 0" "list_in m (m a) ys" "a \<notin> set ys" by auto
  show ?case
  proof (cases pl)
    case Head
    then show ?thesis using p by (auto simp: rm_loop.simps list_do_remove_def)
  next
    case (Cell b)
    then have "b \<noteq> a" "b \<notin> set ys" using Nil(3) by auto
    then show ?thesis using Cell p by (auto simp: rm_loop.simps list_do_remove_def)
  qed
next
  case (Cons x xs)
  then have x: "place_get pl (head, m) = x" "x \<noteq> 0" "x \<noteq> a" by auto
  have "\<exists>head' m'. rm_loop (Cell x) a (head, m) = Some (head', m') \<and>
      list_in m' (place_get (Cell x) (head', m')) (xs @ ys) \<and> (Cell x \<noteq> Head \<longrightarrow> head' = head) \<and>
      (\<forall>b. b \<notin> set (xs @ [a]) \<and> Cell x \<noteq> Cell b \<longrightarrow> m' b = m b) \<and> m' a = 0"
    by (rule Cons.IH) (use Cons.prems in auto)
  then obtain head' m' where h: "rm_loop (Cell x) a (head, m) = Some (head', m')" "list_in m' (m' x) (xs @ ys)"
      "head' = head" "\<forall>b. b \<notin> set (xs @ [a]) \<and> b \<noteq> x \<longrightarrow> m' b = m b" "m' a = 0" by auto
  have "rm_loop pl a (head, m) = rm_loop (Cell x) a (head, m)"
    using x by (subst rm_loop.simps) simp
  moreover have "place_get pl (head', m') = x"
    using h(3,4) x Cons.prems(2,3) by (cases pl) auto
  ultimately show ?case using h x by auto
qed

lemma list_rm_node_correct:
  assumes "list_in m p (xs @ a # ys)" and "distinct (xs @ a # ys)"
  shows "\<exists>p' m'. list_rm_node p a m = Some (p', m') \<and> list_in m' p' (xs @ ys)"
  using rm_loop_correct [of m Head p xs a ys] assms by (auto simp: list_rm_node_def)

section \<open>Double lists\<close>

record dlinks =
  mp_next :: "addr \<Rightarrow> addr"
  mp_prev :: "addr \<Rightarrow> addr"

definition set_next :: "addr \<Rightarrow> addr \<Rightarrow> dlinks \<Rightarrow> dlinks" where
  "set_next a v m = m\<lparr> mp_next := (mp_next m)(a := v) \<rparr>"

definition set_prev :: "addr \<Rightarrow> addr \<Rightarrow> dlinks \<Rightarrow> dlinks" where
  "set_prev a v m = m\<lparr> mp_prev := (mp_prev m)(a := v) \<rparr>"

definition dlist_init :: "addr \<Rightarrow> dlinks \<Rightarrow> dlinks" where
  "dlist_init l m = set_prev l l (set_next l l m)"

definition dlist_add_orig :: "addr \<Rightarrow> addr \<Rightarrow> addr \<Rightarrow> dlinks \<Rightarrow> dlinks" where
  "dlist_add_orig new prev nxt m =
     set_next prev new (set_prev new prev (set_next new nxt (set_prev nxt new m)))"

definition dlist_add_head :: "addr \<Rightarrow> addr \<Rightarrow> dlinks \<Rightarrow> dlinks" where
  "dlist_add_head l node m = dlist_add_orig node l (mp_next m l) m"

definition dlist_add_tail :: "addr \<Rightarrow> addr \<Rightarrow> dlinks \<Rightarrow> dlinks" where
  "dlist_add_tail l node m = dlist_add_orig node (mp_prev m l) l m"

definition dlist_empty :: "addr \<Rightarrow> dlinks \<Rightarrow> bool" where
  "dlist_empty l m \<longleftrightarrow> mp_prev m l = mp_next m l \<and> l = mp_prev m l"

definition dlist_get_head :: "addr \<Rightarrow> dlinks \<Rightarrow> addr" where
  "dlist_get_head l m = (if dlist_empty l m then 0 else mp_next m l)"

definition dlist_get_tail :: "addr \<Rightarrow> dlinks \<Rightarrow> addr" where
  "dlist_get_tail l m = (if dlist_empty l m then 0 else mp_prev m l)"

definition dlist_del_orig :: "addr \<Rightarrow> addr \<Rightarrow> dlinks \<Rightarrow> dlinks" where
  "dlist_del_orig prev nxt m = set_next prev nxt (set_prev nxt prev m)"

definition dlist_del :: "addr \<Rightarrow> dlinks \<Rightarrow> dlinks" where
  "dlist_del node m = dlist_del_orig (mp_prev m node) (mp_next m node) m"

definition dlist_merge :: "addr \<Rightarrow> addr \<Rightarrow> dlinks \<Rightarrow> dlinks" where
  "dlist_merge head body m =
     (if dlist_empty body m then m
      else let m = set_prev (mp_next m body) (mp_prev m head) m;
               m = set_next (mp_prev m body) head m;
               m = set_next (mp_prev m head) (mp_next m body) m;
               m = set_prev head (mp_prev m body) m
           in dlist_init body m)"

section \<open>Double lists: correctness\<close>

text \<open>From cell \<open>p\<close> through the cells of the list to cell \<open>q\<close>, linked both ways.\<close>

fun dseg :: "dlinks \<Rightarrow> addr \<Rightarrow> addr list \<Rightarrow> addr \<Rightarrow> bool" where
  "dseg m p [] q \<longleftrightarrow> mp_next m p = q \<and> mp_prev m q = p"
| "dseg m p (a # as) q \<longleftrightarrow> mp_next m p = a \<and> mp_prev m a = p \<and> dseg m a as q"

definition dlist_in :: "dlinks \<Rightarrow> addr \<Rightarrow> addr list \<Rightarrow> bool" where
  "dlist_in m l as \<longleftrightarrow> dseg m l as l \<and> distinct (l # as)"

lemma dseg_append [simp]: "dseg m p (as @ b # bs) q \<longleftrightarrow> dseg m p as b \<and> dseg m b bs q"
  by (induction as arbitrary: p) auto

lemma dseg_ends: "dseg m p as q \<Longrightarrow> mp_next m p = hd (as @ [q]) \<and> mp_prev m q = last (p # as)"
  by (induction as arbitrary: p) auto

lemma dlinks_set [simp]:
  "mp_next (set_next a v m) b = (if b = a then v else mp_next m b)"
  "mp_prev (set_prev a v m) b = (if b = a then v else mp_prev m b)"
  "mp_next (set_prev a v m) = mp_next m" "mp_prev (set_next a v m) = mp_prev m"
  by (simp_all add: set_next_def set_prev_def)

lemma dseg_set [simp]:
  "a \<notin> set (p # as) \<Longrightarrow> dseg (set_next a v m) p as q = dseg m p as q"
  "a \<notin> set (as @ [q]) \<Longrightarrow> dseg (set_prev a v m) p as q = dseg m p as q"
  by (induction as arbitrary: p) auto

lemma set_prev_next: "set_prev a v (set_next b w m) = set_next b w (set_prev a v m)"
  by (simp add: set_next_def set_prev_def)

lemma set_next_comm: "a \<noteq> b \<Longrightarrow> set_next a v (set_next b w m) = set_next b w (set_next a v m)"
  by (simp add: set_next_def fun_upd_twist)

lemma dlist_next: "dlist_in m l as \<Longrightarrow> mp_next m l = hd (as @ [l])"
  and dlist_prev: "dlist_in m l as \<Longrightarrow> mp_prev m l = last (l # as)"
  using dseg_ends [of m l as l] by (simp_all add: dlist_in_def)

lemma dlist_init_correct [list_simps]: "dlist_in (dlist_init l m) l []"
  by (simp add: dlist_in_def dlist_init_def)

lemma dlist_empty_correct [list_simps]:
  assumes "dlist_in m l as"
  shows "dlist_empty l m \<longleftrightarrow> as = []"
proof (cases as rule: rev_cases)
  case Nil
  then show ?thesis using dlist_next [OF assms] dlist_prev [OF assms] by (simp add: dlist_empty_def)
next
  case (snoc bs b)
  then have "l \<noteq> b" using assms by (auto simp: dlist_in_def)
  then show ?thesis using snoc dlist_prev [OF assms] by (simp add: dlist_empty_def)
qed

lemma dlist_get_correct [list_simps]:
  assumes "dlist_in m l as"
  shows "dlist_get_head l m = (if as = [] then 0 else hd as)"
    and "dlist_get_tail l m = (if as = [] then 0 else last as)"
  using dlist_next [OF assms] dlist_prev [OF assms] dlist_empty_correct [OF assms]
  by (simp_all add: dlist_get_head_def dlist_get_tail_def)

lemma dlist_add_head_correct [list_simps]:
  assumes l: "dlist_in m l as" and a: "a \<notin> set (l # as)"
  shows "dlist_in (dlist_add_head l a m) l (a # as)"
proof (cases as)
  case Nil
  then show ?thesis using dlist_next [OF l] a by (simp add: dlist_in_def dlist_add_head_def dlist_add_orig_def)
next
  case (Cons b bs)
  then have "dseg m b bs l" "distinct (l # a # b # bs)" using l a by (auto simp: dlist_in_def)
  then show ?thesis using Cons dlist_next [OF l] by (simp add: dlist_in_def dlist_add_head_def dlist_add_orig_def)
qed

lemma dlist_add_tail_correct [list_simps]:
  assumes l: "dlist_in m l as" and a: "a \<notin> set (l # as)"
  shows "dlist_in (dlist_add_tail l a m) l (as @ [a])"
proof (cases as rule: rev_cases)
  case Nil
  then show ?thesis using dlist_prev [OF l] a by (simp add: dlist_in_def dlist_add_tail_def dlist_add_orig_def)
next
  case (snoc bs b)
  then have "dseg m l bs b" "distinct (l # bs @ [b, a])" using l a by (auto simp: dlist_in_def)
  then show ?thesis using snoc dlist_prev [OF l] by (simp add: dlist_in_def dlist_add_tail_def dlist_add_orig_def)
qed

lemma dseg_redirect:
  assumes "dseg m p xs a" and "distinct (p # xs)" and "q \<notin> set xs"
  shows "dseg (set_next (last (p # xs)) q (set_prev q (last (p # xs)) m)) p xs q"
proof (cases xs rule: rev_cases)
  case (snoc us u)
  then show ?thesis using assms by simp
qed simp

lemma dlist_del_correct [list_simps]:
  assumes "dlist_in m l (xs @ a # ys)"
  shows "dlist_in (dlist_del a m) l (xs @ ys)"
proof -
  have d: "dseg m l xs a" "dseg m a ys l" "distinct (l # xs @ a # ys)" using assms by (auto simp: dlist_in_def)
  have e: "dlist_del a m = set_next (last (l # xs)) (hd (ys @ [l])) (set_prev (hd (ys @ [l])) (last (l # xs)) m)"
    using dseg_ends [OF d(1)] dseg_ends [OF d(2)] by (simp add: dlist_del_def dlist_del_orig_def)
  have n: "last (l # xs) \<in> set (l # xs)" by (rule last_in_set) simp
  have left: "dseg (dlist_del a m) l xs (hd (ys @ [l]))"
    unfolding e using d by (intro dseg_redirect) (cases ys; auto)+
  show ?thesis
  proof (cases ys)
    case Nil
    then show ?thesis using left d(3) by (simp add: dlist_in_def)
  next
    case (Cons v vs)
    then have "last (l # xs) \<notin> set (v # vs)" using n d(3) by auto
    then have "dseg (dlist_del a m) v vs l"
      unfolding e using Cons d(2,3) by simp
    then show ?thesis using left d(3) Cons by (simp add: dlist_in_def)
  qed
qed

text \<open>Moving all cells of one list behind those of another.\<close>

lemma dlist_merge_correct:
  assumes h: "dlist_in m h as" and b: "dlist_in m b bs" and d: "distinct (h # as @ b # bs)"
  shows "dlist_in (dlist_merge h b m) h (as @ bs) \<and> dlist_in (dlist_merge h b m) b []"
proof (cases bs rule: rev_cases)
  case Nil
  then show ?thesis using h b dlist_empty_correct [OF b] by (simp add: dlist_merge_def)
next
  case (snoc us z)
  obtain v vs where v: "bs = v # vs" using snoc by (metis Nil_is_append_conv list.exhaust not_Cons_self2)
  define p where "p = last (h # as)"
  have p: "p \<in> set (h # as)" unfolding p_def by (rule last_in_set) simp
  have e: "dlist_merge h b m = dlist_init b (set_prev h z (set_next p v (set_next z h (set_prev v p m))))"
  proof -
    have "mp_next m b = v" "mp_prev m b = z" "mp_prev m h = p" "\<not> dlist_empty b m"
      subgoal using dlist_next [OF b] v by simp
      subgoal using dlist_prev [OF b] snoc by simp
      subgoal using dlist_prev [OF h] by (simp add: p_def)
      subgoal using dlist_empty_correct [OF b] v by simp
      done
    moreover have "h \<noteq> v" "b \<noteq> z" "b \<noteq> p" "v \<noteq> h" "b \<noteq> v"
      using d p v arg_cong [OF snoc, of set] by auto
    ultimately show ?thesis by (simp add: dlist_merge_def Let_def)
  qed
  let ?m = "set_next p v (set_prev v p m)"
  let ?m' = "set_next z h (set_prev h z ?m)"
  have z: "last (v # vs) = z" "z \<in> set (v # vs)" using arg_cong [OF snoc, of set] arg_cong [OF snoc, of last] v by auto
  have 1: "dseg ?m h as v"
    unfolding p_def using h d v by (intro dseg_redirect [where a = h]) (auto simp: dlist_in_def)
  have "dseg m v vs b" using b v by (simp add: dlist_in_def)
  moreover have pn: "p \<notin> set (v # vs)" "v \<notin> set (vs @ [b])" using p d v by auto
  ultimately have "dseg ?m v vs b" by simp
  then have 2: "dseg ?m' v vs h"
    using dseg_redirect [of ?m v vs b h] d v z by auto
  have zn: "z \<notin> set (h # as)" "h \<notin> set (as @ [v])" "b \<notin> set (h # as)" "b \<notin> set (as @ [v])"
    "b \<notin> set (v # vs)" "b \<notin> set (vs @ [h])" using d v z(2) by auto
  have "dseg (dlist_init b ?m') h as v" unfolding dlist_init_def using 1 zn by simp
  moreover have "dseg (dlist_init b ?m') v vs h" unfolding dlist_init_def using 2 zn by simp
  moreover have "p \<noteq> z" using p zn(1) by blast
  then have "dlist_merge h b m = dlist_init b ?m'" unfolding e by (simp add: set_prev_next set_next_comm [of p z])
  ultimately show ?thesis using d v dlist_init_correct [of b] by (auto simp: dlist_in_def)
qed

end
