(* ===== verification/RbMap.thy ===== *)
theory RbMap
  imports RbTree
begin

text \<open>
  \<open>include/rbmap.h\<close>, \<open>src/rbmap.c\<close>: an ordered map from 64-bit keys to nodes that the caller owns,
  on the red-black tree.

  A node is named by its address; \<open>rm_key\<close> is the key field of every node in memory, \<open>rm_tree\<close> the
  tree with the memory of the \<open>rbnode\<close> fields, \<open>rm_nsize\<close> the counter.  What the map promises is
  stated on \<open>rbmap_dict\<close>, the partial function from keys to nodes: \<open>add\<close>, \<open>del\<close>, \<open>safe_del\<close> and \<open>get\<close>
  are update, removal and lookup, and the invariant \<open>rbmap_inv\<close> (a search tree that is
  red-black, with as many nodes as counted) is kept.  The locale \<open>node_map\<close> is that contract, for
  the components that keep nodes in such a map.
\<close>

section \<open>Operations\<close>

record rbmap =
  rm_tree :: rbs
  rm_nsize :: int
  rm_key :: "addr \<Rightarrow> 64 word"

definition lts_rbmap_entity :: "(addr \<Rightarrow> rb_node) \<Rightarrow> (addr \<Rightarrow> 64 word) \<Rightarrow> rbmap" where
  "lts_rbmap_entity mem keys = \<lparr> rm_tree = \<lparr> rb_mem = mem, rb_root = 0 \<rparr>, rm_nsize = 0, rm_key = keys \<rparr>"

definition lts_rbmap_node_init :: "addr \<Rightarrow> 64 word \<Rightarrow> rbmap \<Rightarrow> rbmap option" where
  "lts_rbmap_node_init node key m = do {
     let m = m\<lparr> rm_key := (rm_key m)(node := key) \<rparr>;
     t \<leftarrow> st (rm_tree m) node (\<lambda>_. \<lparr> rb_parent = 0, rb_color = Black, rb_right = 0, rb_left = 0 \<rparr>);
     t \<leftarrow> RB_CLEAR_NODE node t;
     Some (m\<lparr> rm_tree := t \<rparr>) }"

definition lts_rbmap_node_empty :: "rbmap \<Rightarrow> addr \<Rightarrow> bool option" where
  "lts_rbmap_node_empty m node = RB_EMPTY_NODE (rm_tree m) node"

partial_function (option) search_loop :: "(addr \<Rightarrow> 64 word) \<Rightarrow> 64 word \<Rightarrow> addr \<Rightarrow> rbs \<Rightarrow> addr option" where
  "search_loop keys key iter s =
     (if iter = 0 then Some 0
      else do {
        n \<leftarrow> ld s iter;
        if key < keys iter then search_loop keys key (rb_left n) s
        else if key > keys iter then search_loop keys key (rb_right n) s
        else Some iter })"

declare search_loop.simps [code]

definition rbmap_search :: "rbmap \<Rightarrow> 64 word \<Rightarrow> addr option" where
  "rbmap_search m key = search_loop (rm_key m) key (rb_root (rm_tree m)) (rm_tree m)"

text \<open>The descent of \<open>__rbmap_link\<close>; \<open>None\<close> inside is the key that is already there.\<close>

partial_function (option) link_loop ::
  "(addr \<Rightarrow> 64 word) \<Rightarrow> 64 word \<Rightarrow> addr \<Rightarrow> rb_slot \<Rightarrow> rbs \<Rightarrow> (addr \<times> rb_slot) option option" where
  "link_loop keys key parent iter s = do {
     p \<leftarrow> load_slot iter s;
     if p = 0 then Some (Some (parent, iter))
     else if key < keys p then link_loop keys key p (LeftSlot p) s
     else if key > keys p then link_loop keys key p (RightSlot p) s
     else Some None }"

declare link_loop.simps [code]

definition rbmap_link :: "addr \<Rightarrow> rbmap \<Rightarrow> (int \<times> rbs) option" where
  "rbmap_link node m = do {
     r \<leftarrow> link_loop (rm_key m) (rm_key m node) 0 RootSlot (rm_tree m);
     case r of None \<Rightarrow> Some (-1, rm_tree m)
     | Some (parent, iter) \<Rightarrow> do {
         s \<leftarrow> rb_link_node node parent iter (rm_tree m);
         s \<leftarrow> rb_insert_color node s;
         Some (0, s) } }"

definition lts_rbmap_add :: "rbmap \<Rightarrow> addr \<Rightarrow> (int \<times> rbmap) option" where
  "lts_rbmap_add m node = do {
     e \<leftarrow> RB_EMPTY_NODE (rm_tree m) node;
     if \<not> e then Some (-1, m)
     else do {
       (r, s) \<leftarrow> rbmap_link node m;
       if r = -1 then Some (-1, m)
       else Some (0, m\<lparr> rm_tree := s, rm_nsize := rm_nsize m + 1 \<rparr>) } }"

definition rbmap_remove :: "addr \<Rightarrow> rbmap \<Rightarrow> rbmap option" where
  "rbmap_remove a m = do {
     s \<leftarrow> rb_erase a (rm_tree m);
     s \<leftarrow> RB_CLEAR_NODE a s;
     Some (m\<lparr> rm_tree := s, rm_nsize := rm_nsize m - 1 \<rparr>) }"

definition lts_rbmap_del :: "rbmap \<Rightarrow> 64 word \<Rightarrow> (addr \<times> rbmap) option" where
  "lts_rbmap_del m key = do {
     key_node \<leftarrow> rbmap_search m key;
     if key_node \<noteq> 0 then do { m \<leftarrow> rbmap_remove key_node m; Some (key_node, m) }
     else Some (0, m) }"

definition lts_rbmap_safe_del :: "rbmap \<Rightarrow> addr \<Rightarrow> (addr \<times> rbmap) option" where
  "lts_rbmap_safe_del m node = do {
     key_node \<leftarrow> rbmap_search m (rm_key m node);
     if key_node = 0 then Some (node, m)
     else if key_node = node then do { m \<leftarrow> rbmap_remove key_node m; Some (node, m) }
     else Some (0, m) }"

definition lts_rbmap_get :: "rbmap \<Rightarrow> 64 word \<Rightarrow> addr option" where
  "lts_rbmap_get m key = rbmap_search m key"

definition lts_rbmap_min :: "rbmap \<Rightarrow> addr option" where
  "lts_rbmap_min m = do { node \<leftarrow> rb_first (rm_tree m); if node \<noteq> 0 then Some node else Some 0 }"

section \<open>The invariant and the map it stands for\<close>

definition rep :: "rbmap \<Rightarrow> tr \<Rightarrow> bool" where
  "rep m t \<longleftrightarrow> zip_in (rb_mem (rm_tree m)) (rm_tree m) [] t \<and> rb_ok t \<and> col t = Black \<and>
     sorted_wrt (<) (map (rm_key m) (inord t)) \<and> rm_nsize m = int (length (inord t))"

definition rbmap_inv :: "rbmap \<Rightarrow> bool" where
  "rbmap_inv m \<longleftrightarrow> (\<exists>t. rep m t)"

definition rbmap_dict :: "rbmap \<Rightarrow> 64 word \<Rightarrow> addr option" where
  "rbmap_dict m key = (case rbmap_search m key of Some a \<Rightarrow> if a = 0 then None else Some a | None \<Rightarrow> None)"

definition find_key :: "(addr \<Rightarrow> 64 word) \<Rightarrow> 64 word \<Rightarrow> addr list \<Rightarrow> addr option" where
  "find_key keys k xs = (case filter (\<lambda>a. keys a = k) xs of [] \<Rightarrow> None | a # _ \<Rightarrow> Some a)"

lemma find_key_mid:
  assumes "sorted_wrt (<) (map keys (xs @ a # ys))"
  shows "find_key keys k (xs @ a # ys) =
    (if k < keys a then find_key keys k xs else if keys a < k then find_key keys k ys else Some a)"
proof -
  have l: "\<forall>x\<in>set xs. keys x < keys a" and r: "\<forall>y\<in>set ys. keys a < keys y"
    using assms by (auto simp: sorted_wrt_append)
  consider "k < keys a" | "keys a < k" | "k = keys a" by (rule linorder_cases)
  then show ?thesis
  proof cases
    case 1
    then have "filter (\<lambda>x. keys x = k) ys = []" using r by (auto simp: filter_empty_conv)
    then show ?thesis using 1 by (auto simp: find_key_def)
  next
    case 2
    then have "filter (\<lambda>x. keys x = k) xs = []" using l by (auto simp: filter_empty_conv)
    then show ?thesis using 2 by (auto simp: find_key_def)
  next
    case 3
    then have "filter (\<lambda>x. keys x = k) xs = []" using l by (auto simp: filter_empty_conv)
    then show ?thesis using 3 by (auto simp: find_key_def)
  qed
qed

lemma search_loop_correct:
  assumes "tree_in (rb_mem s) par t" and "sorted_wrt (<) (map keys (inord t))"
  shows "search_loop keys k (raddr t) s = Some (case find_key keys k (inord t) of None \<Rightarrow> 0 | Some a \<Rightarrow> a)"
  using assms
proof (induction t arbitrary: par)
  case Lf
  show ?case by (subst search_loop.simps) (simp add: find_key_def)
next
  case (Nd l a c r)
  have "sorted_wrt (<) (map keys (inord l))" "sorted_wrt (<) (map keys (inord r))"
    using Nd.prems(2) by (auto simp: sorted_wrt_append)
  then have IH: "search_loop keys k (raddr l) s = Some (case find_key keys k (inord l) of None \<Rightarrow> 0 | Some a \<Rightarrow> a)"
    "search_loop keys k (raddr r) s = Some (case find_key keys k (inord r) of None \<Rightarrow> 0 | Some a \<Rightarrow> a)"
    using Nd by auto
  have "search_loop keys k a s = (if k < keys a then search_loop keys k (raddr l) s
      else if k > keys a then search_loop keys k (raddr r) s else Some a)"
    using Nd.prems(1) by (subst search_loop.simps) (simp add: rb_simps)
  then show ?case using IH find_key_mid [OF Nd.prems(2) [unfolded inord.simps], of k] by auto
qed

lemma find_key_Some: "find_key keys k xs = Some a \<Longrightarrow> a \<in> set xs \<and> keys a = k"
  unfolding find_key_def by (auto split: list.splits dest: filter_eq_ConsD)

lemma find_key_in: "sorted_wrt (<) (map keys xs) \<Longrightarrow> a \<in> set xs \<Longrightarrow> find_key keys (keys a) xs = Some a"
proof -
  assume s: "sorted_wrt (<) (map keys xs)" and "a \<in> set xs"
  then obtain ys zs where "xs = ys @ a # zs" by (auto dest: split_list)
  with s show ?thesis using find_key_mid [of keys ys a zs "keys a"] by simp
qed

lemma rep_search:
  "rep m t \<Longrightarrow> rbmap_search m k = Some (case find_key (rm_key m) k (inord t) of None \<Rightarrow> 0 | Some a \<Rightarrow> a)"
  using search_loop_correct [of "rm_tree m" 0 t "rm_key m" k]
  by (auto simp: rep_def zip_in_def rbmap_search_def)

lemma rep_nonzero: "rep m t \<Longrightarrow> 0 \<notin> set (inord t)"
  using tree_in_nonzero by (auto simp: rep_def zip_in_def)

lemma rep_dict: "rep m t \<Longrightarrow> rbmap_dict m k = find_key (rm_key m) k (inord t)"
proof -
  assume r: "rep m t"
  show ?thesis
  proof (cases "find_key (rm_key m) k (inord t)")
    case (Some a)
    then have "a \<noteq> 0" using rep_nonzero [OF r] find_key_Some by metis
    then show ?thesis using Some by (simp add: rbmap_dict_def rep_search [OF r])
  qed (simp add: rbmap_dict_def rep_search [OF r])
qed

lemma rep_linked: "rep m t \<Longrightarrow> a \<in> set (inord t) \<Longrightarrow> rb_parent (rb_mem (rm_tree m) a) \<noteq> a"
proof -
  assume r: "rep m t" and "a \<in> set (inord t)"
  then obtain fs l c r where "t = plug fs (Nd l a c r)" using focus_exists by blast
  then have z: "zip_in (rb_mem (rm_tree m)) (rm_tree m) fs (Nd l a c r)"
    using r zip_in_plug by (auto simp: rep_def)
  then show ?thesis using ld_root [OF z] top_neq [OF z] by (auto simp: ld_def split: if_splits)
qed

lemma load_slot_of: "zip_in m s fs t \<Longrightarrow> load_slot (slot_of fs) s = Some (raddr t)"
  by (cases fs rule: slot_of.cases) (auto simp: load_slot_def zip_in_def ld_def)

lemma link_loop_correct:
  assumes "zip_in m s fs t" and "sorted_wrt (<) (map keys (inord t))"
    and "\<forall>x\<in>set (pre fs). keys x < k" and "\<forall>x\<in>set (suf fs). k < keys x"
  shows "(\<exists>a. find_key keys k (inord t) = Some a) \<and> link_loop keys k (top fs) (slot_of fs) s = Some None \<or>
    find_key keys k (inord t) = None \<and>
    (\<exists>fs'. link_loop keys k (top fs) (slot_of fs) s = Some (Some (top fs', slot_of fs')) \<and>
      plug fs' Lf = plug fs t \<and> (\<forall>x\<in>set (pre fs'). keys x < k) \<and> (\<forall>x\<in>set (suf fs'). k < keys x))"
  using assms
proof (induction t arbitrary: fs)
  case Lf
  then show ?case by (subst (1 2) link_loop.simps) (auto simp: load_slot_of [OF Lf(1)] find_key_def)
next
  case (Nd l a c r)
  note ls = load_slot_of [OF Nd.prems(1)]
  have a: "a \<noteq> 0" using Nd.prems(1) by (simp add: zip_in_def)
  have s: "sorted_wrt (<) (map keys (inord l))" "sorted_wrt (<) (map keys (inord r))"
    "\<forall>x\<in>set (inord l). keys x < keys a" "\<forall>x\<in>set (inord r). keys a < keys x"
    using Nd.prems(2) by (auto simp: sorted_wrt_append)
  note fk = find_key_mid [OF Nd.prems(2) [unfolded inord.simps], of k]
  have step: "link_loop keys k (top fs) (slot_of fs) s =
      (if k < keys a then link_loop keys k a (LeftSlot a) s
       else if k > keys a then link_loop keys k a (RightSlot a) s else Some None)"
    using ls a by (subst link_loop.simps) simp
  consider "k < keys a" | "keys a < k" | "k = keys a" by (rule linorder_cases)
  then show ?case
  proof cases
    case 1
    have z: "zip_in m s (FL a c r # fs) l" using Nd.prems(1) by (simp add: zip_in_up)
    have sf: "\<forall>x\<in>set (suf (FL a c r # fs)). k < keys x" using s(4) 1 Nd.prems(4) by (auto intro: less_trans)
    from Nd.IH(1) [OF z s(1) _ sf] 1 Nd.prems(3) show ?thesis unfolding step inord.simps fk by simp
  next
    case 2
    have z: "zip_in m s (FR l a c # fs) r" using Nd.prems(1) by (simp add: zip_in_up)
    have pf: "\<forall>x\<in>set (pre (FR l a c # fs)). keys x < k" using s(3) 2 Nd.prems(3) by (auto intro: less_trans)
    from Nd.IH(2) [OF z s(2) pf] 2 less_not_sym [OF 2] Nd.prems(4) show ?thesis unfolding step inord.simps fk by simp
  next
    case 3
    then show ?thesis unfolding step inord.simps fk by simp
  qed
qed

section \<open>Every operation keeps the invariant and implements the map\<close>

text \<open>The node fields outside the tree are untouched; in particular which nodes are empty.\<close>

definition same_but :: "addr set \<Rightarrow> rbmap \<Rightarrow> rbmap \<Rightarrow> bool" where
  "same_but A m m' \<longleftrightarrow> rm_key m' = rm_key m \<and>
     (\<forall>a. a \<notin> A \<longrightarrow> lts_rbmap_node_empty m' a = lts_rbmap_node_empty m a)"

definition is_empty :: "rbmap \<Rightarrow> addr \<Rightarrow> bool" where
  "is_empty m a \<longleftrightarrow> rb_parent (rb_mem (rm_tree m) a) = a"

lemma node_empty_iff: "a \<noteq> 0 \<Longrightarrow> lts_rbmap_node_empty m a = Some (is_empty m a)"
  by (simp add: lts_rbmap_node_empty_def RB_EMPTY_NODE_def ld_def is_empty_def)

lemma rep_not_in: "rep m t \<Longrightarrow> is_empty m a \<Longrightarrow> a \<notin> set (inord t)"
  using rep_linked by (auto simp: is_empty_def)

lemma dict_in:
  assumes "rep m t"
  shows "rbmap_dict m k = Some a \<longleftrightarrow> a \<in> set (inord t) \<and> rm_key m a = k"
proof
  assume "rbmap_dict m k = Some a"
  then show "a \<in> set (inord t) \<and> rm_key m a = k"
    using rep_dict [OF assms] find_key_Some by fastforce
next
  assume a: "a \<in> set (inord t) \<and> rm_key m a = k"
  have "sorted_wrt (<) (map (rm_key m) (inord t))" using assms by (simp add: rep_def)
  from find_key_in [OF this] a show "rbmap_dict m k = Some a"
    using rep_dict [OF assms] by auto
qed

lemma dict_eqI:
  assumes "\<And>k a. d1 k = Some a \<longleftrightarrow> d2 k = Some a"
  shows "d1 = d2"
proof
  fix k show "d1 k = d2 k" by (metis assms not_None_eq)
qed

lemma rbmap_add_new:
  assumes r: "rep m t" and n: "n \<noteq> 0" and e: "is_empty m n" and k: "rbmap_dict m (rm_key m n) = None"
  shows "\<exists>m' t'. lts_rbmap_add m n = Some (0, m') \<and> rep m' t' \<and> rm_key m' = rm_key m \<and>
    set (inord t') = insert n (set (inord t)) \<and>
    (\<forall>a. a \<notin> insert n (set (inord t)) \<longrightarrow> rb_mem (rm_tree m') a = rb_mem (rm_tree m) a)"
proof -
  let ?k = "rm_key m n" and ?s = "rm_tree m"
  have z: "zip_in (rb_mem ?s) ?s [] t" and srt: "sorted_wrt (<) (map (rm_key m) (inord t))"
    and ok: "rb_ok t" and cb: "col t = Black" and ns: "rm_nsize m = int (length (inord t))"
    using r by (auto simp: rep_def)
  have nt: "n \<notin> set (inord t)" using rep_not_in r e by blast
  obtain fs where fs: "link_loop (rm_key m) ?k 0 RootSlot ?s = Some (Some (top fs, slot_of fs))"
      "plug fs Lf = t" "\<forall>x\<in>set (pre fs). rm_key m x < ?k" "\<forall>x\<in>set (suf fs). ?k < rm_key m x"
    using link_loop_correct [OF z srt, of ?k] k rep_dict [OF r] by auto
  have zl: "zip_in (rb_mem ?s) ?s fs Lf" using z fs(2) zip_in_plug by blast
  have it: "inord t = pre fs @ suf fs" using fs(2) by auto
  have np: "n \<notin> set (plist fs)" using nt it by (simp add: set_plist)
  have pok: "path_ok fs 0" using rb_ok_plugD [of fs Lf] ok fs(2) by simp
  have rbl: "root_black fs" using root_blackI [of fs Lf] cb fs(2) by simp
  have okl: "rb_ok (plug fs Lf)" using ok fs(2) by simp
  from rb_insert_correct [OF zl okl pok rbl n np]
  obtain s' t' where ins: "do { s \<leftarrow> rb_link_node n (top fs) (slot_of fs) ?s; rb_insert_color n s } = Some s'"
    and t': "zip_in (rb_mem ?s) s' [] t'" "inord t' = pre fs @ n # suf fs" "rb_ok t'" "col t' = Black"
    by blast
  let ?m' = "m\<lparr> rm_tree := s', rm_nsize := rm_nsize m + 1 \<rparr>"
  have "rbmap_link n m = Some (0, s')"
    using fs(1) ins by (auto simp: rbmap_link_def bind_Some_iff)
  then have "lts_rbmap_add m n = Some (0, ?m')"
    using n e by (simp add: lts_rbmap_add_def RB_EMPTY_NODE_def ld_def is_empty_def)
  moreover have "zip_in (rb_mem s') s' [] t'" using t'(1) by (simp add: zip_in_def)
  then have "rep ?m' t'"
    using t' srt fs(3,4) it ns by (auto simp: rep_def sorted_wrt_append)
  moreover have "rb_mem s' a = rb_mem ?s a" if "a \<notin> insert n (set (inord t))" for a
    using t'(1,2) it that by (auto simp: zip_in_def)
  ultimately show ?thesis using t'(2) it by (intro exI [of _ ?m'] exI [of _ t']) auto
qed

lemma sorted_wrt_remove1: "sorted_wrt P xs \<Longrightarrow> sorted_wrt P (remove1 x xs)"
proof (induction xs)
  case (Cons a xs)
  then show ?case using set_remove1_subset [of x xs] by auto
qed simp

lemma rbmap_remove_correct:
  assumes r: "rep m t" and n: "n \<in> set (inord t)"
  shows "\<exists>m' t'. rbmap_remove n m = Some m' \<and> rep m' t' \<and> rm_key m' = rm_key m \<and>
    set (inord t') = set (inord t) - {n} \<and> is_empty m' n \<and>
    (\<forall>a. a \<notin> set (inord t) \<longrightarrow> rb_mem (rm_tree m') a = rb_mem (rm_tree m) a)"
proof -
  let ?s = "rm_tree m"
  have z: "zip_in (rb_mem ?s) ?s [] t" and srt: "sorted_wrt (<) (map (rm_key m) (inord t))"
    and ok: "rb_ok t" and cb: "col t = Black" and ns: "rm_nsize m = int (length (inord t))"
    using r by (auto simp: rep_def)
  have n0: "n \<noteq> 0" using rep_nonzero [OF r] n by metis
  obtain s' t' v where e: "rb_erase n ?s = Some s'" "zip_in ((rb_mem ?s)(n := v)) s' [] t'"
      "inord t' = remove1 n (inord t)" "rb_ok t'" "col t' = Black"
    using rb_erase_correct [OF z ok cb n] by blast
  have d: "distinct (inord t)" using z by (simp add: zip_in_def)
  then have set': "set (inord t') = set (inord t) - {n}" using e(3) by simp
  then have nt': "n \<notin> set (inord t')" by simp
  have len: "int (length (remove1 n (inord t))) = int (length (inord t)) - 1"
  proof -
    have "length (remove1 n (inord t)) = length (inord t) - 1" using n by (simp add: length_remove1)
    then show ?thesis using length_pos_if_in_set [OF n] by linarith
  qed
  let ?s2 = "s'\<lparr> rb_mem := (rb_mem s')(n := (rb_mem s' n)\<lparr> rb_parent := n \<rparr>) \<rparr>"
  let ?m' = "m\<lparr> rm_tree := ?s2, rm_nsize := rm_nsize m - 1 \<rparr>"
  have "rbmap_remove n m = Some ?m'"
    using e(1) n0 by (simp add: rbmap_remove_def RB_CLEAR_NODE_def st_def)
  moreover have "zip_in (rb_mem ?s2) ?s2 [] t'" using e(2) nt' by (simp add: zip_in_def)
  then have "rep ?m' t'"
    using e srt ns d n len by (auto simp: rep_def sorted_wrt_map intro!: sorted_wrt_remove1)
  moreover have "rb_mem ?s2 a = rb_mem ?s a" if "a \<notin> set (inord t)" for a
  proof -
    have "\<forall>a. a \<notin> set (inord t') \<longrightarrow> rb_mem s' a = ((rb_mem ?s)(n := v)) a"
      using e(2) unfolding zip_in_def by simp
    moreover have "a \<noteq> n" "a \<notin> set (inord t')" using that n set' by auto
    ultimately show ?thesis by simp
  qed
  ultimately show ?thesis using set' by (intro exI [of _ ?m'] exI [of _ t']) (auto simp: is_empty_def)
qed

definition rbmap_set_key :: "addr \<Rightarrow> 64 word \<Rightarrow> rbmap \<Rightarrow> rbmap" where
  "rbmap_set_key n k m = m\<lparr> rm_key := (rm_key m)(n := k) \<rparr>"

lemma emp_frame:
  assumes "rep m t" and "rep m' t'" and "set (inord t') - {n} = set (inord t) - {n}"
    and "\<forall>a. a \<notin> insert n (set (inord t)) \<longrightarrow> rb_mem (rm_tree m') a = rb_mem (rm_tree m) a" and "a \<noteq> n"
  shows "is_empty m' a = is_empty m a"
proof (cases "a \<in> set (inord t)")
  case True
  then have "a \<in> set (inord t')" using assms(3,5) by blast
  then show ?thesis using True assms(1,2) rep_linked by (auto simp: is_empty_def)
next
  case False
  then show ?thesis using assms(4,5) by (simp add: is_empty_def)
qed

lemma rbmap_dict_key: "rbmap_inv m \<Longrightarrow> rbmap_dict m k = Some a \<Longrightarrow> rm_key m a = k \<and> a \<noteq> 0 \<and> \<not> is_empty m a"
  unfolding rbmap_inv_def using dict_in rep_nonzero rep_linked by (metis is_empty_def)

lemma rbmap_add_law:
  assumes "rbmap_inv m" and n: "n \<noteq> 0" and e: "is_empty m n" and k: "rbmap_dict m (rm_key m n) = None"
  shows "\<exists>m'. lts_rbmap_add m n = Some (0, m') \<and> rbmap_inv m' \<and> rbmap_dict m' = (rbmap_dict m)(rm_key m n \<mapsto> n) \<and>
    rm_key m' = rm_key m \<and> \<not> is_empty m' n \<and> (\<forall>a. a \<noteq> n \<longrightarrow> is_empty m' a = is_empty m a) \<and>
    rm_nsize m' = rm_nsize m + 1"
proof -
  obtain t where r: "rep m t" using assms(1) by (auto simp: rbmap_inv_def)
  obtain m' t' where m': "lts_rbmap_add m n = Some (0, m')" "rep m' t'" "rm_key m' = rm_key m"
      "set (inord t') = insert n (set (inord t))"
      "\<forall>a. a \<notin> insert n (set (inord t)) \<longrightarrow> rb_mem (rm_tree m') a = rb_mem (rm_tree m) a"
    using rbmap_add_new [OF r n e k] by blast
  have nt: "n \<notin> set (inord t)" using rep_not_in r e by blast
  have kn: "rm_key m a \<noteq> rm_key m n" if "a \<in> set (inord t)" for a
    using dict_in [OF r, of "rm_key m n" a] k that by auto
  have "rbmap_dict m' = (rbmap_dict m)(rm_key m n \<mapsto> n)"
    by (rule dict_eqI) (use dict_in [OF r] dict_in [OF m'(2)] m'(3,4) kn in auto)
  moreover have "\<not> is_empty m' n" using rep_linked [OF m'(2)] m'(4) by (simp add: is_empty_def)
  moreover have "is_empty m' a = is_empty m a" if "a \<noteq> n" for a
    using emp_frame [OF r m'(2) _ m'(5) that] m'(4) by auto
  moreover have "rm_nsize m' = rm_nsize m + 1"
    using m'(1) by (auto simp: lts_rbmap_add_def bind_Some_iff split: if_splits)
  ultimately show ?thesis using m' by (auto simp: rbmap_inv_def)
qed

lemma rbmap_add_dup:
  assumes "rbmap_inv m" and "n \<noteq> 0" and "is_empty m n" and "rbmap_dict m (rm_key m n) = Some x"
  shows "lts_rbmap_add m n = Some (-1, m)"
proof -
  obtain t where r: "rep m t" using assms(1) by (auto simp: rbmap_inv_def)
  have "link_loop (rm_key m) (rm_key m n) 0 RootSlot (rm_tree m) = Some None"
    using link_loop_correct [of "rb_mem (rm_tree m)" "rm_tree m" "[]" t "rm_key m" "rm_key m n"]
      r assms(4) rep_dict [OF r] by (auto simp: rep_def)
  then show ?thesis using assms(2,3)
    by (simp add: lts_rbmap_add_def rbmap_link_def RB_EMPTY_NODE_def ld_def is_empty_def)
qed

lemma rbmap_add_linked: "n \<noteq> 0 \<Longrightarrow> \<not> is_empty m n \<Longrightarrow> lts_rbmap_add m n = Some (-1, m)"
  by (simp add: lts_rbmap_add_def RB_EMPTY_NODE_def ld_def is_empty_def)

lemma rbmap_search_dict: "rbmap_inv m \<Longrightarrow> rbmap_search m k = Some (case rbmap_dict m k of None \<Rightarrow> 0 | Some a \<Rightarrow> a)"
  by (auto simp: rbmap_inv_def rep_search rep_dict)

lemma rbmap_remove_law:
  assumes "rbmap_inv m" and d: "rbmap_dict m k = Some n"
  shows "\<exists>m'. rbmap_remove n m = Some m' \<and> rbmap_inv m' \<and> rbmap_dict m' = (rbmap_dict m)(k := None) \<and>
    rm_key m' = rm_key m \<and> is_empty m' n \<and> (\<forall>a. a \<noteq> n \<longrightarrow> is_empty m' a = is_empty m a)"
proof -
  obtain t where r: "rep m t" using assms(1) by (auto simp: rbmap_inv_def)
  have n: "n \<in> set (inord t)" "rm_key m n = k" using d dict_in [OF r] by auto
  obtain m' t' where m': "rbmap_remove n m = Some m'" "rep m' t'" "rm_key m' = rm_key m"
      "set (inord t') = set (inord t) - {n}" "is_empty m' n"
      "\<forall>a. a \<notin> set (inord t) \<longrightarrow> rb_mem (rm_tree m') a = rb_mem (rm_tree m) a"
    using rbmap_remove_correct [OF r n(1)] by blast
  have "rbmap_dict m' = (rbmap_dict m)(k := None)"
  proof (rule dict_eqI)
    fix k' a
    have "rbmap_dict m k' = Some a \<Longrightarrow> a = n \<longleftrightarrow> k' = k" using dict_in [OF r] n d by (metis option.inject)
    then show "rbmap_dict m' k' = Some a \<longleftrightarrow> ((rbmap_dict m)(k := None)) k' = Some a"
      using dict_in [OF r] dict_in [OF m'(2)] m'(3,4) by auto
  qed
  moreover have "is_empty m' a = is_empty m a" if "a \<noteq> n" for a
    using emp_frame [OF r m'(2) _ _ that] m'(4,6) by auto
  ultimately show ?thesis using m' by (auto simp: rbmap_inv_def)
qed

lemma rbmap_set_key_law:
  assumes "rbmap_inv m" and "is_empty m n"
  shows "rbmap_inv (rbmap_set_key n k m) \<and> rbmap_dict (rbmap_set_key n k m) = rbmap_dict m"
proof -
  obtain t where r: "rep m t" using assms(1) by (auto simp: rbmap_inv_def)
  have n: "n \<notin> set (inord t)" using rep_not_in r assms(2) by blast
  then have mp: "map ((rm_key m)(n := k)) (inord t) = map (rm_key m) (inord t)" by simp
  have "sorted_wrt (<) (map ((rm_key m)(n := k)) (inord t))"
    using r unfolding mp rep_def by blast
  then have r': "rep (rbmap_set_key n k m) t" using r by (simp add: rep_def rbmap_set_key_def)
  have "rbmap_dict (rbmap_set_key n k m) = rbmap_dict m"
    by (rule dict_eqI) (use dict_in [OF r] dict_in [OF r'] n in \<open>auto simp: rbmap_set_key_def\<close>)
  then show ?thesis using r' by (auto simp: rbmap_inv_def)
qed

lemma rbmap_min_law:
  assumes "rbmap_inv m"
  shows "\<exists>a. lts_rbmap_min m = Some a \<and>
    (a = 0 \<and> rbmap_dict m = Map.empty \<or>
     rbmap_dict m (rm_key m a) = Some a \<and> (\<forall>k b. rbmap_dict m k = Some b \<longrightarrow> rm_key m a \<le> k))"
proof -
  obtain t where r: "rep m t" using assms by (auto simp: rbmap_inv_def)
  then have f: "lts_rbmap_min m = Some (hd_or0 (inord t))"
    using rb_first_correct [of "rb_mem (rm_tree m)" "rm_tree m" t] by (auto simp: lts_rbmap_min_def rep_def)
  show ?thesis
  proof (cases "inord t")
    case Nil
    then have "rbmap_dict m = Map.empty" by (intro dict_eqI) (auto simp: dict_in [OF r] simp del: inord_nil)
    then show ?thesis using f Nil by (auto simp: hd_or0_def)
  next
    case (Cons a xs)
    then have "\<forall>b\<in>set (inord t). rm_key m a \<le> rm_key m b" using r by (auto simp: rep_def)
    moreover have "a \<in> set (inord t)" using Cons by simp
    ultimately show ?thesis using f Cons dict_in [OF r] by (auto simp: hd_or0_def)
  qed
qed

lemma rbmap_finite: "rbmap_inv m \<Longrightarrow> finite (dom (rbmap_dict m))"
proof -
  assume "rbmap_inv m"
  then obtain t where r: "rep m t" by (auto simp: rbmap_inv_def)
  have "dom (rbmap_dict m) \<subseteq> rm_key m ` set (inord t)" by (auto simp: dict_in [OF r])
  then show ?thesis by (rule finite_subset) simp
qed

section \<open>The contract\<close>

locale node_map =
  fixes inv :: "'m \<Rightarrow> bool" and dict :: "'m \<Rightarrow> 64 word \<Rightarrow> addr option"
    and emp :: "'m \<Rightarrow> addr \<Rightarrow> bool" and key :: "'m \<Rightarrow> addr \<Rightarrow> 64 word"
    and set_key :: "addr \<Rightarrow> 64 word \<Rightarrow> 'm \<Rightarrow> 'm"
    and add :: "'m \<Rightarrow> addr \<Rightarrow> (int \<times> 'm) option"
    and remove :: "addr \<Rightarrow> 'm \<Rightarrow> 'm option"
    and search :: "'m \<Rightarrow> 64 word \<Rightarrow> addr option" and least :: "'m \<Rightarrow> addr option"
  assumes dict_key: "inv m \<Longrightarrow> dict m k = Some a \<Longrightarrow> key m a = k \<and> a \<noteq> 0 \<and> \<not> emp m a"
    and add_new: "inv m \<Longrightarrow> n \<noteq> 0 \<Longrightarrow> emp m n \<Longrightarrow> dict m (key m n) = None \<Longrightarrow>
      \<exists>m'. add m n = Some (0, m') \<and> inv m' \<and> dict m' = (dict m)(key m n \<mapsto> n) \<and> key m' = key m \<and>
        \<not> emp m' n \<and> (\<forall>a. a \<noteq> n \<longrightarrow> emp m' a = emp m a)"
    and add_dup: "inv m \<Longrightarrow> n \<noteq> 0 \<Longrightarrow> emp m n \<Longrightarrow> dict m (key m n) = Some x \<Longrightarrow> add m n = Some (-1, m)"
    and add_linked: "n \<noteq> 0 \<Longrightarrow> \<not> emp m n \<Longrightarrow> add m n = Some (-1, m)"
    and remove: "inv m \<Longrightarrow> dict m k = Some n \<Longrightarrow>
      \<exists>m'. remove n m = Some m' \<and> inv m' \<and> dict m' = (dict m)(k := None) \<and> key m' = key m \<and>
        emp m' n \<and> (\<forall>a. a \<noteq> n \<longrightarrow> emp m' a = emp m a)"
    and search: "inv m \<Longrightarrow> search m k = Some (case dict m k of None \<Rightarrow> 0 | Some a \<Rightarrow> a)"
    and least: "inv m \<Longrightarrow> \<exists>a. least m = Some a \<and> (a = 0 \<and> dict m = Map.empty \<or>
      dict m (key m a) = Some a \<and> (\<forall>k b. dict m k = Some b \<longrightarrow> key m a \<le> k))"
    and set_key: "inv m \<Longrightarrow> emp m n \<Longrightarrow> inv (set_key n k m) \<and> dict (set_key n k m) = dict m"
    and set_key_key: "key (set_key n k m) = (key m)(n := k)"
    and set_key_emp: "emp (set_key n k m) = emp m"
    and finite_dict: "inv m \<Longrightarrow> finite (dom (dict m))"
begin

lemma add_result:
  assumes "inv m" and "n \<noteq> 0"
  shows "\<exists>r m'. add m n = Some (r, m') \<and> inv m' \<and> key m' = key m \<and>
    (if emp m n \<and> dict m (key m n) = None then r = 0 \<and> dict m' = (dict m)(key m n \<mapsto> n) else r = -1 \<and> m' = m)"
  using add_new [of m n] add_dup [of m n] add_linked [of n m] assms
  by (cases "dict m (key m n)"; cases "emp m n") auto

text \<open>Moving a node: take it out under its old key, give it a new one, put it back.\<close>

lemma rekey_linked:
  assumes i: "inv m" and d: "dict m (key m n) = Some n" and free: "k = key m n \<or> dict m k = None"
  shows "\<exists>m1 m'. remove n m = Some m1 \<and> add (set_key n k m1) n = Some (0, m') \<and> inv m' \<and>
    dict m' = (dict m)(key m n := None, k \<mapsto> n) \<and> key m' = (key m)(n := k) \<and> \<not> emp m' n \<and>
    (\<forall>a. a \<noteq> n \<longrightarrow> emp m' a = emp m a)"
proof -
  obtain m1 where m1: "remove n m = Some m1" "inv m1" "dict m1 = (dict m)(key m n := None)" "key m1 = key m"
      "emp m1 n" "\<forall>a. a \<noteq> n \<longrightarrow> emp m1 a = emp m a"
    using remove [OF i d] by blast
  let ?m2 = "set_key n k m1"
  have n0: "n \<noteq> 0" using dict_key [OF i d] by simp
  have m2: "inv ?m2" "dict ?m2 = dict m1" "key ?m2 = (key m)(n := k)" "emp ?m2 = emp m1"
    using set_key [OF m1(2,5)] m1(4) by (simp_all add: set_key_key set_key_emp)
  have "dict ?m2 (key ?m2 n) = None" using m2 m1(3) free by auto
  from add_new [OF m2(1) n0 _ this] m1 m2 show ?thesis by auto
qed

lemma rekey_unlinked:
  assumes i: "inv m" and n: "n \<noteq> 0" and e: "emp m n"
  shows "\<exists>r m'. add (set_key n k m) n = Some (r, m') \<and> inv m' \<and> key m' = (key m)(n := k) \<and>
    (if dict m k = None then r = 0 \<and> dict m' = (dict m)(k \<mapsto> n)
     else r = -1 \<and> dict m' = dict m \<and> emp m' n)"
proof -
  have m2: "inv (set_key n k m)" "dict (set_key n k m) = dict m" using set_key [OF i e] by auto
  obtain r m' where "add (set_key n k m) n = Some (r, m')" "inv m'" "key m' = (key m)(n := k)"
      "if emp (set_key n k m) n \<and> dict m k = None then r = 0 \<and> dict m' = (dict m)(k \<mapsto> n)
       else r = -1 \<and> m' = set_key n k m"
    using add_result [OF m2(1) n] m2(2) by (auto simp: set_key_key)
  then show ?thesis using e m2(2) by (intro exI [of _ r] exI [of _ m']) (auto simp: set_key_emp split: if_splits)
qed

end

interpretation rbm: node_map rbmap_inv rbmap_dict is_empty rm_key rbmap_set_key lts_rbmap_add rbmap_remove
  rbmap_search lts_rbmap_min
proof unfold_locales
  fix m :: rbmap and n k
  show "rbmap_inv m \<Longrightarrow> n \<noteq> 0 \<Longrightarrow> is_empty m n \<Longrightarrow> rbmap_dict m (rm_key m n) = None \<Longrightarrow>
      \<exists>m'. lts_rbmap_add m n = Some (0, m') \<and> rbmap_inv m' \<and> rbmap_dict m' = (rbmap_dict m)(rm_key m n \<mapsto> n) \<and>
        rm_key m' = rm_key m \<and> \<not> is_empty m' n \<and> (\<forall>a. a \<noteq> n \<longrightarrow> is_empty m' a = is_empty m a)"
    using rbmap_add_law by blast
qed (use rbmap_dict_key rbmap_add_dup rbmap_add_linked rbmap_remove_law rbmap_search_dict rbmap_min_law rbmap_set_key_law
    rbmap_finite in
    \<open>auto simp: rbmap_set_key_def is_empty_def\<close>)

section \<open>Preparing a node\<close>

text \<open>\<open>lts_rbmap_node_init\<close> writes the node without looking at it, so the node must not be linked.\<close>

lemma rbmap_node_init_law:
  assumes "rbmap_inv m" and "n \<noteq> 0" and "n \<notin> ran (rbmap_dict m)"
  shows "\<exists>m'. lts_rbmap_node_init n k m = Some m' \<and> rbmap_inv m' \<and> rbmap_dict m' = rbmap_dict m \<and>
    rm_key m' = (rm_key m)(n := k) \<and> is_empty m' n \<and> (\<forall>a. a \<noteq> n \<longrightarrow> is_empty m' a = is_empty m a)"
proof -
  obtain t where r: "rep m t" using assms(1) by (auto simp: rbmap_inv_def)
  let ?c = "\<lparr> rb_parent = n, rb_color = Black, rb_right = 0, rb_left = 0 \<rparr>"
  let ?s = "(rm_tree m)\<lparr> rb_mem := (rb_mem (rm_tree m))(n := ?c) \<rparr>"
  let ?m = "m\<lparr> rm_key := (rm_key m)(n := k), rm_tree := ?s \<rparr>"
  have e: "lts_rbmap_node_init n k m = Some ?m"
    using assms(2) by (simp add: lts_rbmap_node_init_def st_def RB_CLEAR_NODE_def)
  have n: "n \<notin> set (inord t)"
  proof
    assume "n \<in> set (inord t)"
    then have "find_key (rm_key m) (rm_key m n) (inord t) = Some n"
      using r find_key_in [of "rm_key m" "inord t" n] by (simp add: rep_def)
    then show False using assms(3) rep_dict [OF r] by (auto simp: ran_def)
  qed
  have mp: "map ((rm_key m)(n := k)) (inord t) = map (rm_key m) (inord t)" using n by simp
  have "zip_in (rb_mem ?s) ?s [] t"
    using r n tree_in_cong [of t "rb_mem (rm_tree m)" "rb_mem ?s"] by (auto simp: rep_def zip_in_def)
  then have r': "rep ?m t" using r mp by (simp add: rep_def del: map_eq_conv)
  have "find_key ((rm_key m)(n := k)) j (inord t) = find_key (rm_key m) j (inord t)" for j
    using n unfolding find_key_def by (metis (no_types, lifting) filter_cong fun_upd_other)
  then have "rbmap_dict ?m = rbmap_dict m" using rep_dict [OF r] rep_dict [OF r'] by (intro ext) simp
  then show ?thesis using e r' by (auto simp: rbmap_inv_def is_empty_def)
qed

text \<open>The contract of a map that also prepares the nodes it is given.\<close>

locale node_store = node_map inv dict emp key set_key add remove search least
  for inv :: "'m \<Rightarrow> bool" and dict emp key set_key add remove search least +
  fixes node_init :: "addr \<Rightarrow> 64 word \<Rightarrow> 'm \<Rightarrow> 'm option"
  assumes node_init: "inv m \<Longrightarrow> n \<noteq> 0 \<Longrightarrow> n \<notin> ran (dict m) \<Longrightarrow>
      \<exists>m'. node_init n k m = Some m' \<and> inv m' \<and> dict m' = dict m \<and> key m' = (key m)(n := k) \<and> emp m' n \<and>
        (\<forall>a. a \<noteq> n \<longrightarrow> emp m' a = emp m a)"
begin

lemma init_then_add:
  assumes "inv m" and "n \<noteq> 0" and "n \<notin> ran (dict m)"
  shows "\<exists>m1 r m'. node_init n k m = Some m1 \<and> add m1 n = Some (r, m') \<and> inv m' \<and> key m' = (key m)(n := k) \<and>
    (if dict m k = None then r = 0 \<and> dict m' = (dict m)(k \<mapsto> n) else r = -1 \<and> m' = m1 \<and> dict m' = dict m)"
proof -
  obtain m1 where m1: "node_init n k m = Some m1" "inv m1" "dict m1 = dict m" "key m1 = (key m)(n := k)" "emp m1 n"
    using node_init [OF assms] by blast
  then show ?thesis using add_result [OF m1(2) assms(2)] by (auto split: if_splits)
qed

end

interpretation rbm_store: node_store rbmap_inv rbmap_dict is_empty rm_key rbmap_set_key lts_rbmap_add rbmap_remove
  rbmap_search lts_rbmap_min lts_rbmap_node_init
  by unfold_locales (rule rbmap_node_init_law)

section \<open>Properties\<close>

text \<open>C20. \<open>lts_rbmap_add\<close> implements insertion into the abstract map: an unlinked node with a new key
  is added and 0 returned; a duplicate key or a node that is already linked is refused with -1
  and the map is left as it was.  The invariant holds either way.\<close>

theorem rbmap_add_refines:
  assumes "rbmap_inv m" and "n \<noteq> 0"
  shows "\<exists>r m'. lts_rbmap_add m n = Some (r, m') \<and> rbmap_inv m' \<and> rm_key m' = rm_key m \<and>
    (if is_empty m n \<and> rbmap_dict m (rm_key m n) = None
     then r = 0 \<and> rbmap_dict m' = (rbmap_dict m)(rm_key m n \<mapsto> n) else r = -1 \<and> m' = m)"
  by (rule rbm.add_result [OF assms])

definition empty_map :: rbmap where
  "empty_map = lts_rbmap_entity (\<lambda>a. \<lparr> rb_parent = a, rb_color = Black, rb_right = 0, rb_left = 0 \<rparr>) (\<lambda>a. of_nat a)"

lemma empty_map_rep: "rep empty_map Lf"
  by (simp add: rep_def empty_map_def lts_rbmap_entity_def zip_in_def)

lemma empty_map_facts [simp]: "rbmap_inv empty_map" "is_empty empty_map a" "rbmap_dict empty_map = Map.empty"
  "rm_key empty_map = of_nat"
  using empty_map_rep rep_dict [OF empty_map_rep]
  by (auto simp: rbmap_inv_def is_empty_def empty_map_def lts_rbmap_entity_def find_key_def)

lemma rbmap_add_refines_witness:
  "\<exists>m'. lts_rbmap_add empty_map 40 = Some (0, m') \<and> rbmap_dict m' = [40 \<mapsto> 40]"
  using rbmap_add_refines [of empty_map 40] by auto



end
