(* ===== verification/RbtTimer.thy ===== *)
theory RbtTimer
  imports RbMap
begin

text \<open>
  \<open>src/rbt_timer.c\<close>: the timer heap is an \<open>rbmap\<close> whose keys are expiry times in tenths of a
  second; with it the two loops its callers run: the retry loop around \<open>lts_timer_reset\<close> (keys
  are unique, so a taken expiry time is passed over) and the expiry loop of the event loop in
  \<open>src/modules/latasia.c\<close>.

  The proofs use the contract \<open>node_map\<close> only, through its interpretation \<open>rbm\<close>.
\<close>

section \<open>Operations\<close>

definition lts_timer_node_init :: "addr \<Rightarrow> 64 word \<Rightarrow> rbmap \<Rightarrow> rbmap option" where
  "lts_timer_node_init node timeout heap = lts_rbmap_node_init node timeout heap"

definition lts_timer_add :: "rbmap \<Rightarrow> addr \<Rightarrow> (int \<times> rbmap) option" where
  "lts_timer_add heap node = lts_rbmap_add heap node"

definition lts_timer_reset :: "rbmap \<Rightarrow> addr \<Rightarrow> 64 word \<Rightarrow> (int \<times> rbmap) option" where
  "lts_timer_reset heap node timeout = do {
     (_, heap) \<leftarrow> lts_rbmap_safe_del heap node;
     let heap = rbmap_set_key node timeout heap;
     lts_rbmap_add heap node }"

definition lts_timer_del :: "rbmap \<Rightarrow> addr \<Rightarrow> (bool \<times> rbmap) option" where
  "lts_timer_del heap node = do {
     (r, heap) \<leftarrow> lts_rbmap_safe_del heap node;
     Some (r \<noteq> 0, heap) }"

definition lts_timer_min :: "rbmap \<Rightarrow> addr option" where
  "lts_timer_min heap = do {
     node \<leftarrow> lts_rbmap_min heap;
     if node \<noteq> 0 then lts_rbmap_min heap else Some 0 }"

text \<open>\<open>tv_sec\<close>, \<open>tv_usec\<close> are what \<open>gettimeofday\<close> stored.\<close>

definition lts_update_time :: "int \<Rightarrow> int \<Rightarrow> int" where
  "lts_update_time tv_sec tv_usec = tv_sec * 10 + c_div (c_div tv_usec 1000) 100"

text \<open>\<open>while (-1 == lts_timer_reset(heap, node, t)) ++t\<close>\<close>

partial_function (option) timer_reset_retry :: "addr \<Rightarrow> 64 word \<Rightarrow> rbmap \<Rightarrow> rbmap option" where
  "timer_reset_retry node t heap = do {
     (r, heap) \<leftarrow> lts_timer_reset heap node t;
     if r = -1 then timer_reset_retry node (t + 1) heap else Some heap }"

declare timer_reset_retry.simps [code]

text \<open>The expiry loop; \<open>on_timeout\<close> is the node's callback, \<open>now\<close> is \<open>lts_current_time\<close>
  converted to the type of the keys.  The list is the nodes whose callback ran.\<close>

partial_function (option) expire_loop ::
  "(addr \<Rightarrow> rbmap \<Rightarrow> rbmap option) \<Rightarrow> 64 word \<Rightarrow> rbmap \<Rightarrow> (addr list \<times> rbmap) option" where
  "expire_loop on_timeout now heap = do {
     m \<leftarrow> lts_timer_min heap;
     if m = 0 then Some ([], heap)
     else if now < rm_key heap m then Some ([], heap)
     else do {
       (ok, heap) \<leftarrow> lts_timer_del heap m;
       if \<not> ok then None \<comment> \<open>ASSERT\<close>
       else do {
         heap \<leftarrow> on_timeout m heap;
         (fired, heap) \<leftarrow> expire_loop on_timeout now heap;
         Some (m # fired, heap) } } }"

declare expire_loop.simps [code]

text \<open>What the callback of a connection, \<open>lts_timeout\<close>, does to the heap: \<open>lts_close_conn\<close>
  removes the timer of the connection.\<close>

definition close_conn_timer :: "int \<Rightarrow> addr \<Rightarrow> rbmap \<Rightarrow> rbmap option" where
  "close_conn_timer keepalive node heap =
     (if keepalive > 0 then do {
        (ok, heap) \<leftarrow> lts_timer_del heap node;
        if ok then Some heap else None }
      else Some heap)"

section \<open>What safe_del does\<close>

lemma safe_del_absent:
  "rbmap_inv h \<Longrightarrow> rbmap_dict h (rm_key h n) = None \<Longrightarrow> lts_rbmap_safe_del h n = Some (n, h)"
  by (simp add: lts_rbmap_safe_del_def rbm.search)

lemma safe_del_other:
  "rbmap_inv h \<Longrightarrow> rbmap_dict h (rm_key h n) = Some a \<Longrightarrow> a \<noteq> n \<Longrightarrow> lts_rbmap_safe_del h n = Some (0, h)"
  using rbm.dict_key by (simp add: lts_rbmap_safe_del_def rbm.search)

lemma safe_del_linked:
  assumes "rbmap_inv h" and "rbmap_dict h (rm_key h n) = Some n"
  shows "lts_rbmap_safe_del h n = do { h \<leftarrow> rbmap_remove n h; Some (n, h) }"
  using assms rbm.dict_key [OF assms] by (simp add: lts_rbmap_safe_del_def rbm.search)

lemma lts_timer_min_eq: "lts_timer_min h = lts_rbmap_min h"
  by (cases "lts_rbmap_min h") (auto simp: lts_timer_min_def)

section \<open>Resetting\<close>

text \<open>A node is in the heap under its key, or nowhere.\<close>

definition timer_ok :: "rbmap \<Rightarrow> addr \<Rightarrow> bool" where
  "timer_ok h n \<longleftrightarrow> rbmap_inv h \<and> n \<noteq> 0 \<and> (is_empty h n \<or> rbmap_dict h (rm_key h n) = Some n)"

text \<open>The heap without a node.\<close>

definition without :: "rbmap \<Rightarrow> addr \<Rightarrow> 64 word \<Rightarrow> addr option" where
  "without h n k = (if rbmap_dict h k = Some n then None else rbmap_dict h k)"

lemma without_linked:
  assumes "rbmap_inv h" and "rbmap_dict h (rm_key h n) = Some n"
  shows "without h n = (rbmap_dict h)(rm_key h n := None)"
proof
  fix k
  have "k \<noteq> rm_key h n \<Longrightarrow> rbmap_dict h k \<noteq> Some n" using rbm.dict_key [OF assms(1), of k n] by auto
  then show "without h n k = ((rbmap_dict h)(rm_key h n := None)) k"
    using assms(2) by (cases "k = rm_key h n") (simp_all add: without_def)
qed

lemma without_empty:
  assumes "rbmap_inv h" and "is_empty h n"
  shows "without h n = rbmap_dict h"
proof
  fix k
  have "rbmap_dict h k \<noteq> Some n" using rbm.dict_key [OF assms(1), of k n] assms(2) by auto
  then show "without h n k = rbmap_dict h k" by (simp add: without_def)
qed

text \<open>The first half of a reset: the node is out of the heap.\<close>

lemma reset_unlinks:
  assumes "timer_ok h n"
  shows "\<exists>x h1. lts_rbmap_safe_del h n = Some (x, h1) \<and> rbmap_inv h1 \<and> is_empty h1 n \<and>
    rbmap_dict h1 = without h n \<and> rm_key h1 = rm_key h"
proof (cases "rbmap_dict h (rm_key h n) = Some n")
  case True
  have i: "rbmap_inv h" using assms by (simp add: timer_ok_def)
  from rbm.remove [OF i True] show ?thesis
    using safe_del_linked [OF i True] without_linked [OF i True] by auto
next
  case False
  then have i: "rbmap_inv h" and e: "is_empty h n" using assms by (auto simp: timer_ok_def)
  show ?thesis
  proof (cases "rbmap_dict h (rm_key h n)")
    case None
    then show ?thesis using safe_del_absent [OF i None] i e without_empty [OF i e] by auto
  next
    case (Some a)
    then show ?thesis using safe_del_other [OF i Some] False i e without_empty [OF i e] by auto
  qed
qed

lemma lts_timer_reset_correct:
  assumes "timer_ok h n"
  shows "\<exists>r h'. lts_timer_reset h n k = Some (r, h') \<and> timer_ok h' n \<and> without h' n = without h n \<and>
    rm_key h' = (rm_key h)(n := k) \<and>
    (if without h n k = None then r = 0 \<and> rbmap_dict h' = (without h n)(k \<mapsto> n)
     else r = -1 \<and> rbmap_dict h' = without h n)"
proof -
  have n: "n \<noteq> 0" using assms by (simp add: timer_ok_def)
  obtain x h1 where h1: "lts_rbmap_safe_del h n = Some (x, h1)" "rbmap_inv h1" "is_empty h1 n"
      "rbmap_dict h1 = without h n" "rm_key h1 = rm_key h"
    using reset_unlinks [OF assms] by blast
  obtain r h' where h': "lts_rbmap_add (rbmap_set_key n k h1) n = Some (r, h')" "rbmap_inv h'"
      "rm_key h' = (rm_key h1)(n := k)"
      "if rbmap_dict h1 k = None then r = 0 \<and> rbmap_dict h' = (rbmap_dict h1)(k \<mapsto> n)
       else r = -1 \<and> rbmap_dict h' = rbmap_dict h1 \<and> is_empty h' n"
    using rbm.rekey_unlinked [OF h1(2) n h1(3)] by blast
  have nn: "without h n j \<noteq> Some n" for j by (simp add: without_def)
  have e: "lts_timer_reset h n k = Some (r, h')" using h1(1) h'(1) by (simp add: lts_timer_reset_def)
  show ?thesis
  proof (cases "without h n k")
    case None
    then have d: "r = 0" "rbmap_dict h' = (without h n)(k \<mapsto> n)" using h'(4) h1(4) by auto
    have "timer_ok h' n" using h'(2,3) n d(2) by (simp add: timer_ok_def)
    moreover have "without h' n = without h n"
    proof
      fix j show "without h' n j = without h n j"
        using nn [of j] None d(2) by (cases "j = k") (simp_all add: without_def [of h'])
    qed
    ultimately show ?thesis using e h'(3) h1(5) d None by simp
  next
    case (Some y)
    then have d: "r = -1" "rbmap_dict h' = without h n" "is_empty h' n" using h'(4) h1(4) by auto
    have "timer_ok h' n" using h'(2) n d(3) by (simp add: timer_ok_def)
    moreover have "without h' n = without h n" using without_empty [OF h'(2) d(3)] d(2) by simp
    ultimately show ?thesis using e h'(3) h1(5) d Some by simp
  qed
qed

text \<open>The retry loop ends at the first free expiry time.\<close>

lemma timer_reset_retry_correct:
  assumes "timer_ok h n" and "without h n (t + of_nat i) = None"
    and "\<forall>j < i. without h n (t + of_nat j) \<noteq> None"
  shows "\<exists>h'. timer_reset_retry n t h = Some h' \<and> timer_ok h' n \<and> without h' n = without h n \<and>
    rbmap_dict h' = (without h n)(t + of_nat i \<mapsto> n) \<and> rm_key h' = (rm_key h)(n := t + of_nat i)"
  using assms
proof (induction i arbitrary: t h)
  case 0
  then show ?case using lts_timer_reset_correct [OF 0(1), of t]
    by (subst timer_reset_retry.simps) auto
next
  case (Suc i)
  have "without h n t \<noteq> None" using Suc.prems(3) [rule_format, of 0] by simp
  then obtain h1 where h1: "lts_timer_reset h n t = Some (-1, h1)" "timer_ok h1 n"
      "without h1 n = without h n" "rm_key h1 = (rm_key h)(n := t)"
    using lts_timer_reset_correct [OF Suc.prems(1), of t] by auto
  have "without h1 n (t + 1 + of_nat i) = None" using Suc.prems(2) h1(3) by (simp add: ac_simps)
  moreover have "\<forall>j < i. without h1 n (t + 1 + of_nat j) \<noteq> None"
  proof (intro allI impI)
    fix j assume "j < i"
    then show "without h1 n (t + 1 + of_nat j) \<noteq> None"
      using Suc.prems(3) [rule_format, of "Suc j"] h1(3) by (simp add: ac_simps)
  qed
  ultimately have "\<exists>h'. timer_reset_retry n (t + 1) h1 = Some h' \<and> timer_ok h' n \<and> without h' n = without h1 n \<and>
      rbmap_dict h' = (without h1 n)(t + 1 + of_nat i \<mapsto> n) \<and> rm_key h' = (rm_key h1)(n := t + 1 + of_nat i)"
    using Suc.IH [OF h1(2)] by blast
  moreover have "timer_reset_retry n t h = timer_reset_retry n (t + 1) h1"
    using h1(1) by (subst timer_reset_retry.simps) simp
  ultimately show ?case using h1(3,4) by (auto simp: ac_simps fun_eq_iff)
qed

text \<open>A node that is in the heap leaves its own key free, so the loop always ends for it.\<close>

lemma retry_index_exists:
  assumes "without h n k = None"
  shows "\<exists>i. without h n (t + of_nat i) = None \<and> (\<forall>j < i. without h n (t + of_nat j) \<noteq> None)"
proof -
  have "without h n (t + of_nat (unat (k - t))) = None" using assms by simp
  then have "\<exists>i. without h n (t + of_nat i) = None" by blast
  then show ?thesis by (subst (asm) exists_least_iff)
qed

lemma timer_reset_retry_linked:
  assumes "rbmap_inv h" and "rbmap_dict h (rm_key h n) = Some n"
  shows "\<exists>h' k. timer_reset_retry n t h = Some h' \<and> rbmap_inv h' \<and>
    rbmap_dict h' = ((rbmap_dict h)(rm_key h n := None))(k \<mapsto> n)"
proof -
  have ok: "timer_ok h n" using assms rbm.dict_key [OF assms] by (simp add: timer_ok_def)
  have w: "without h n = (rbmap_dict h)(rm_key h n := None)" using without_linked [OF assms] .
  then obtain i where "without h n (t + of_nat i) = None" "\<forall>j < i. without h n (t + of_nat j) \<noteq> None"
    using retry_index_exists [of h n "rm_key h n" t] by auto
  from timer_reset_retry_correct [OF ok this] w show ?thesis by (auto simp: timer_ok_def)
qed

section \<open>Expiry\<close>

lemma lts_timer_del_linked:
  assumes "rbmap_inv h" and "rbmap_dict h (rm_key h n) = Some n"
  shows "\<exists>h'. lts_timer_del h n = Some (True, h') \<and> rbmap_inv h' \<and>
    rbmap_dict h' = (rbmap_dict h)(rm_key h n := None) \<and> rm_key h' = rm_key h \<and> is_empty h' n"
  using rbm.remove [OF assms] rbm.dict_key [OF assms] by (auto simp: lts_timer_del_def safe_del_linked [OF assms])

text \<open>Deleting a timer that already fired is harmless unless another node has taken its expiry
  time.\<close>

lemma lts_timer_del_absent:
  "rbmap_inv h \<Longrightarrow> n \<noteq> 0 \<Longrightarrow> rbmap_dict h (rm_key h n) = None \<Longrightarrow> lts_timer_del h n = Some (True, h)"
  by (simp add: lts_timer_del_def safe_del_absent)

lemma lts_timer_del_taken:
  "rbmap_inv h \<Longrightarrow> rbmap_dict h (rm_key h n) = Some a \<Longrightarrow> a \<noteq> n \<Longrightarrow> lts_timer_del h n = Some (False, h)"
  by (simp add: lts_timer_del_def safe_del_other)

text \<open>All timers that are due fire, in the order of their expiry times, and no other.\<close>

lemma expire_loop_correct:
  assumes "rbmap_inv h"
  shows "\<exists>fired h'. expire_loop (close_conn_timer keepalive) now h = Some (fired, h') \<and> rbmap_inv h' \<and>
    rm_key h' = rm_key h \<and> sorted_wrt (<) (map (rm_key h) fired) \<and>
    set fired = {a. \<exists>k. k \<le> now \<and> rbmap_dict h k = Some a} \<and>
    rbmap_dict h' = (\<lambda>k. if k \<le> now then None else rbmap_dict h k)"
  using assms
proof (induction "card (dom (rbmap_dict h))" arbitrary: h rule: less_induct)
  case less
  obtain a where a: "lts_rbmap_min h = Some a"
    "a = 0 \<and> rbmap_dict h = Map.empty \<or>
      rbmap_dict h (rm_key h a) = Some a \<and> (\<forall>k b. rbmap_dict h k = Some b \<longrightarrow> rm_key h a \<le> k)"
    using rbm.least [OF less.prems] by blast
  note unf = expire_loop.simps [of "close_conn_timer keepalive" now h]
  consider (none) "a = 0" "rbmap_dict h = Map.empty"
    | (later) "a \<noteq> 0" "now < rm_key h a" | (due) "a \<noteq> 0" "rm_key h a \<le> now"
    using a(2) rbm.dict_key [OF less.prems, of _ a] by force
  then show ?case
  proof cases
    case none
    then show ?thesis using less.prems a(1) by (subst unf) (auto simp: lts_timer_min_eq)
  next
    case later
    have n: "rbmap_dict h k = None" if "k \<le> now" for k
      using a(2) later that by (cases "rbmap_dict h k") (auto dest: leD order_trans)
    then show ?thesis using less.prems a(1) later
      by (subst unf) (auto simp: lts_timer_min_eq)
  next
    case due
    then have d: "rbmap_dict h (rm_key h a) = Some a" and least: "\<And>k b. rbmap_dict h k = Some b \<Longrightarrow> rm_key h a \<le> k"
      using a(2) by auto
    obtain h1 where h1: "lts_timer_del h a = Some (True, h1)" "rbmap_inv h1"
        "rbmap_dict h1 = (rbmap_dict h)(rm_key h a := None)" "rm_key h1 = rm_key h"
      using lts_timer_del_linked [OF less.prems d] by blast
    have cb: "close_conn_timer keepalive a h1 = Some h1"
      using lts_timer_del_absent [OF h1(2) due(1)] h1(3,4) by (simp add: close_conn_timer_def)
    have "card (dom (rbmap_dict h1)) < card (dom (rbmap_dict h))"
      using rbm.finite_dict [OF less.prems] d h1(3) by (auto intro!: psubset_card_mono)
    from less.hyps [OF this h1(2)]
    obtain fired h' where f: "expire_loop (close_conn_timer keepalive) now h1 = Some (fired, h')" "rbmap_inv h'"
        "rm_key h' = rm_key h" "sorted_wrt (<) (map (rm_key h) fired)"
        "set fired = {b. \<exists>k. k \<le> now \<and> rbmap_dict h1 k = Some b}"
        "rbmap_dict h' = (\<lambda>k. if k \<le> now then None else rbmap_dict h1 k)"
      using h1(4) by auto
    have e: "expire_loop (close_conn_timer keepalive) now h = Some (a # fired, h')"
      using a(1) due h1(1) cb f(1) by (subst unf) (simp add: lts_timer_min_eq leD)
    have "rm_key h a < rm_key h b" if bf: "b \<in> set fired" for b
    proof -
      obtain k where "k \<noteq> rm_key h a" "rbmap_dict h k = Some b" using bf f(5) h1(3) by (auto split: if_splits)
      then show ?thesis using least rbm.dict_key [OF less.prems, of k b] by force
    qed
    then have "sorted_wrt (<) (map (rm_key h) (a # fired))" using f(4) by auto
    moreover have "set (a # fired) = {b. \<exists>k. k \<le> now \<and> rbmap_dict h k = Some b}"
    proof (rule set_eqI)
      fix b
      have "b \<in> set fired \<longleftrightarrow> (\<exists>k. k \<le> now \<and> k \<noteq> rm_key h a \<and> rbmap_dict h k = Some b)"
        using f(5) h1(3) by (auto split: if_splits)
      then show "b \<in> set (a # fired) \<longleftrightarrow> b \<in> {b. \<exists>k. k \<le> now \<and> rbmap_dict h k = Some b}"
        unfolding list.set insert_iff mem_Collect_eq using d due(2) by (metis option.inject)
    qed
    moreover have "rbmap_dict h' = (\<lambda>k. if k \<le> now then None else rbmap_dict h k)"
      using f(6) h1(3) due by (intro ext) auto
    ultimately show ?thesis using e f(2,3) by blast
  qed
qed

section \<open>Properties\<close>

text \<open>The retry loop around \<open>lts_timer_reset\<close> arms a timer at the first expiry time, from the wanted
  one on, that no other timer holds; it ends whenever there is one, and every other timer stays.\<close>

theorem timer_armed_at_first_free_time:
  assumes "timer_ok h n" and "without h n (t + of_nat i) = None"
    and "\<forall>j < i. without h n (t + of_nat j) \<noteq> None"
  shows "\<exists>h'. timer_reset_retry n t h = Some h' \<and> timer_ok h' n \<and>
    rbmap_dict h' = (without h n)(t + of_nat i \<mapsto> n) \<and> rm_key h' = (rm_key h)(n := t + of_nat i)"
  using timer_reset_retry_correct [OF assms] by blast

lemma timer_armed_at_first_free_time_witness:
  "\<exists>h'. timer_reset_retry 40 100 empty_map = Some h' \<and> rbmap_dict h' = [100 \<mapsto> 40]"
  using timer_armed_at_first_free_time [of empty_map 40 100 0] without_empty [of empty_map 40]
  by (auto simp: timer_ok_def)

text \<open>C22. The expiry loop of the event loop terminates; it fires exactly the timers that are due, in the
  order of their expiry times, removes them, and keeps all others.  The check that
  \<open>lts_close_conn\<close> makes on the timer of the connection does not fail.\<close>

theorem expiry_fires_due_timers:
  assumes "rbmap_inv h"
  shows "\<exists>fired h'. expire_loop (close_conn_timer keepalive) now h = Some (fired, h') \<and> rbmap_inv h' \<and>
    sorted_wrt (<) (map (rm_key h) fired) \<and>
    set fired = {a. \<exists>k. k \<le> now \<and> rbmap_dict h k = Some a} \<and>
    rbmap_dict h' = (\<lambda>k. if k \<le> now then None else rbmap_dict h k)"
  using expire_loop_correct [OF assms] by blast

lemma expiry_fires_due_timers_witness:
  "\<exists>h'. expire_loop (close_conn_timer 60) 5 empty_map = Some ([], h') \<and> rbmap_inv h'"
  using expiry_fires_due_timers [of empty_map 60 5] by auto

end
