(* ===== verification/Buffer.thy ===== *)
theory Buffer
  imports MemPool
begin

text \<open>
  \<open>include/buffer.h\<close>, \<open>src/buffer.c\<close>: the receive and send buffers of a connection.

  The pointers \<open>start\<close>, \<open>seek\<close>, \<open>last\<close>, \<open>end\<close> are addresses; \<open>b_mem\<close> is the memory of the
  buffer's block, the bytes at \<open>start, start + 1, \<dots>\<close>.  Where a pool block lies in memory is a
  parameter (\<open>base\<close>), and so is what fresh memory holds (\<open>junk\<close>).  \<open>None\<close> is \<open>abort()\<close> or an
  access outside the block.
\<close>

record buffer =
  b_pool :: pool
  b_limit :: int
  b_start :: int
  b_seek :: int
  b_last :: int
  b_end :: int
  b_mem :: "byte list"

type_synonym layout = "nat \<Rightarrow> int"

definition addr :: "layout \<Rightarrow> ptr \<Rightarrow> int" where
  "addr base p = base (fst p) + snd p"

section \<open>Operations\<close>

definition lts_buffer_empty :: "buffer \<Rightarrow> bool" where
  "lts_buffer_empty b \<longleftrightarrow> b_start b = b_last b"

definition lts_buffer_full :: "buffer \<Rightarrow> bool" where
  "lts_buffer_full b \<longleftrightarrow> b_last b = b_end b"

definition lts_buffer_space :: "buffer \<Rightarrow> int" where
  "lts_buffer_space b = b_end b - b_last b"

definition lts_buffer_pending :: "buffer \<Rightarrow> int" where
  "lts_buffer_pending b = b_last b - b_seek b"

definition lts_buffer_clear :: "buffer \<Rightarrow> buffer" where
  "lts_buffer_clear b = b\<lparr> b_seek := b_start b, b_last := b_start b \<rparr>"

text \<open>\<open>sizeof(lts_buffer_t)\<close> is 48.  The result of \<open>lts_create_buffer\<close> is the buffer (\<open>None\<close> for
  NULL) and the pool it was cut from.\<close>

definition lts_create_buffer ::
  "layout \<Rightarrow> nat \<Rightarrow> bool \<Rightarrow> (nat \<Rightarrow> byte) \<Rightarrow> pool \<Rightarrow> int \<Rightarrow> int \<Rightarrow> (buffer option \<times> pool) option" where
  "lts_create_buffer base pagesize mem junk pool sz limit = do {
     (b, pool) \<leftarrow> lts_palloc pagesize mem pool 48;
     case b of None \<Rightarrow> Some (None, pool)
     | Some _ \<Rightarrow> do {
         (p, pool) \<leftarrow> lts_palloc pagesize mem pool sz;
         case p of None \<Rightarrow> Some (None, pool)
         | Some p \<Rightarrow> Some (Some \<lparr> b_pool = pool, b_limit = limit, b_start = addr base p, b_seek = addr base p,
              b_last = addr base p, b_end = addr base p + sz, b_mem = map junk [0..<nat sz] \<rparr>, pool) } }"

definition lts_buffer_append ::
  "layout \<Rightarrow> nat \<Rightarrow> bool \<Rightarrow> (nat \<Rightarrow> byte) \<Rightarrow> buffer \<Rightarrow> bstr \<Rightarrow> int \<Rightarrow> (int \<times> buffer) option" where
  "lts_buffer_append base pagesize mem junk b data n =
     (let store = (\<lambda>b. do {
            d \<leftarrow> rdn data 0 n;
            m \<leftarrow> wrn (b_mem b) (b_last b - b_start b) d;
            Some (0, b\<lparr> b_mem := m, b_last := b_last b + n \<rparr>) })
      in if b_end b - b_last b < n then
           let curr_size = 2 * max (b_end b - b_start b) n
           in if b_limit b > 0 \<and> curr_size > b_limit b then None \<comment> \<open>abort()\<close>
              else if b_limit b > 0 \<and> b_limit b - curr_size < n then Some (-1, b)
              else let curr_size = (if b_limit b > 0 \<and> curr_size > b_limit b then b_limit b else curr_size)
                   in do {
                     (tmp, pool) \<leftarrow> lts_palloc pagesize mem (b_pool b) curr_size;
                     case tmp of None \<Rightarrow> Some (-1, b\<lparr> b_pool := pool \<rparr>)
                     | Some p \<Rightarrow>
                         let tmp = addr base p;
                             ctx_size = b_last b - b_start b
                         in do {
                           d \<leftarrow> rdn (b_mem b) 0 ctx_size;
                           m \<leftarrow> wrn (map junk [0..<nat curr_size]) 0 d;
                           let b = b\<lparr> b_pool := pool, b_mem := m, b_start := tmp \<rparr>;
                           let b = b\<lparr> b_seek := tmp + (b_seek b - b_start b) \<rparr>;
                           let b = b\<lparr> b_last := tmp + ctx_size, b_end := tmp + curr_size \<rparr>;
                           store b } }
         else store b)"

definition lts_buffer_drop_accessed :: "buffer \<Rightarrow> buffer option" where
  "lts_buffer_drop_accessed b = do {
     let drop_len = b_seek b - b_start b;
     d \<leftarrow> rdn (b_mem b) (b_seek b - b_start b) drop_len;
     m \<leftarrow> wrn (b_mem b) 0 d;
     Some (b\<lparr> b_mem := m, b_seek := b_start b, b_last := b_last b - drop_len \<rparr>) }"

section \<open>Invariant and contents\<close>

definition buffer_ok :: "buffer \<Rightarrow> bool" where
  "buffer_ok b \<longleftrightarrow> b_start b \<le> b_seek b \<and> b_seek b \<le> b_last b \<and> b_last b \<le> b_end b \<and>
     length (b_mem b) = nat (b_end b - b_start b)"

text \<open>Everything received and not overwritten, and the part nobody has read.\<close>

definition contents :: "buffer \<Rightarrow> bstr" where
  "contents b = take (nat (b_last b - b_start b)) (b_mem b)"

definition pending :: "buffer \<Rightarrow> bstr" where
  "pending b = drop (nat (b_seek b - b_start b)) (contents b)"

lemma length_contents: "buffer_ok b \<Longrightarrow> int (length (contents b)) = b_last b - b_start b"
  by (auto simp: buffer_ok_def contents_def)

lemma length_pending: "buffer_ok b \<Longrightarrow> int (length (pending b)) = lts_buffer_pending b"
  by (auto simp: buffer_ok_def contents_def pending_def lts_buffer_pending_def)

lemma lts_buffer_clear_correct:
  "buffer_ok b \<Longrightarrow> buffer_ok (lts_buffer_clear b) \<and> lts_buffer_empty (lts_buffer_clear b) \<and>
    pending (lts_buffer_clear b) = []"
  by (auto simp: buffer_ok_def lts_buffer_clear_def lts_buffer_empty_def pending_def contents_def)

lemma lts_create_buffer_correct:
  assumes "lts_create_buffer base pagesize mem junk pool sz limit = Some (Some b, pool')" and "0 \<le> sz"
  shows "buffer_ok b \<and> lts_buffer_empty b \<and> lts_buffer_space b = sz \<and> b_limit b = limit \<and> b_pool b = pool'"
  using assms
  by (auto simp: lts_create_buffer_def bind_Some_iff buffer_ok_def lts_buffer_empty_def lts_buffer_space_def
      split: option.splits)

text \<open>With room, data is appended behind the pending bytes.\<close>

lemma lts_buffer_append_room:
  assumes ok: "buffer_ok b" and n: "int (length data) \<le> lts_buffer_space b"
  shows "\<exists>b'. lts_buffer_append base pagesize mem junk b data (int (length data)) = Some (0, b') \<and> buffer_ok b' \<and>
    contents b' = contents b @ data \<and> pending b' = pending b @ data \<and> b_end b' = b_end b \<and>
    b_start b' = b_start b \<and> b_seek b' = b_seek b \<and> b_last b' = b_last b + int (length data)"
proof -
  let ?l = "b_last b - b_start b"
  let ?m = "take (nat ?l) (b_mem b) @ data @ drop (nat ?l + length data) (b_mem b)"
  let ?b = "b\<lparr> b_mem := ?m, b_last := b_last b + int (length data) \<rparr>"
  have l: "b_start b \<le> b_seek b" "b_seek b \<le> b_last b" "b_last b \<le> b_end b"
    "length (b_mem b) = nat (b_end b - b_start b)"
    using ok by (auto simp: buffer_ok_def)
  then have room: "nat ?l + length data \<le> length (b_mem b)"
    using n by (simp add: lts_buffer_space_def)
  then have "wrn (b_mem b) ?l data = Some ?m" using l by (simp add: wrn_def)
  moreover have "rdn data 0 (int (length data)) = Some data" by (simp add: rdn_def)
  ultimately have "lts_buffer_append base pagesize mem junk b data (int (length data)) = Some (0, ?b)"
    using n by (simp add: lts_buffer_append_def lts_buffer_space_def)
  moreover have "nat (b_last b + int (length data) - b_start b) = nat ?l + length data"
    using l by linarith
  then have "contents ?b = contents b @ data" using room by (simp add: contents_def)
  moreover from this have "pending ?b = pending b @ data"
    using l room by (simp add: pending_def contents_def)
  moreover have "buffer_ok ?b"
    using l room n by (auto simp: buffer_ok_def lts_buffer_space_def)
  ultimately show ?thesis by auto
qed

text \<open>The connection buffers are created with their size as limit; a full one is not grown:
  \<open>abort()\<close>.\<close>

lemma lts_buffer_append_limit_aborts:
  assumes "0 < b_limit b" and "b_limit b < 2 * max (b_end b - b_start b) n" and "lts_buffer_space b < n"
  shows "lts_buffer_append base pagesize mem junk b data n = None"
  using assms by (simp add: lts_buffer_append_def lts_buffer_space_def)

text \<open>Without a limit the buffer grows and keeps its contents, but \<open>seek\<close> is computed from the
  new \<open>start\<close> and keeps pointing into the old block.\<close>

lemma lts_buffer_append_grow:
  assumes ok: "buffer_ok b" and lim: "b_limit b = 0" and n: "lts_buffer_space b < int (length data)"
    and p: "lts_palloc pagesize mem (b_pool b) (2 * max (b_end b - b_start b) (int (length data))) = Some (Some p, pool')"
  shows "\<exists>b'. lts_buffer_append base pagesize mem junk b data (int (length data)) = Some (0, b') \<and>
    contents b' = contents b @ data \<and> b_start b' = addr base p \<and> b_seek b' = b_seek b"
proof -
  let ?n = "length data" and ?l = "b_last b - b_start b"
  let ?cs = "2 * max (b_end b - b_start b) (int ?n)"
  let ?j = "map junk [0..<nat ?cs]"
  let ?m = "contents b @ drop (length (contents b)) ?j"
  have l: "b_start b \<le> b_seek b" "b_seek b \<le> b_last b" "b_last b \<le> b_end b"
    "length (b_mem b) = nat (b_end b - b_start b)"
    using ok by (auto simp: buffer_ok_def)
  have lc: "length (contents b) = nat ?l" using length_contents [OF ok] by linarith
  have "int (nat ?l + ?n) \<le> ?cs" using l(1-3) by (simp add: max_def)
  then have room: "nat ?l + ?n \<le> nat ?cs" by linarith
  have "rdn (b_mem b) 0 ?l = Some (contents b)" using l by (simp add: rdn_def contents_def)
  moreover have "wrn ?j 0 (contents b) = Some ?m" using room lc by (simp add: wrn_def)
  moreover have "wrn ?m ?l data = Some (contents b @ data @ drop (nat ?l + ?n) ?m)"
    using room lc l by (simp add: wrn_def)
  moreover have "rdn data 0 (int ?n) = Some data" by (simp add: rdn_def)
  moreover have "nat (?l + int ?n) = nat ?l + ?n" using l by linarith
  ultimately show ?thesis
    using p lim n lc by (auto simp: lts_buffer_append_def lts_buffer_space_def Let_def contents_def)
qed

text \<open>Dropping the read prefix moves \<open>drop_len\<close> bytes.  That is the pending data when at most
  \<open>drop_len\<close> bytes are pending; of more, only the first \<open>drop_len\<close> survive.\<close>

lemma lts_buffer_drop_accessed_lemma:
  assumes ok: "buffer_ok b" and fit: "2 * (b_seek b - b_start b) \<le> b_end b - b_start b"
  shows "\<exists>b'. lts_buffer_drop_accessed b = Some b' \<and> buffer_ok b' \<and>
    lts_buffer_pending b' = lts_buffer_pending b \<and>
    lts_buffer_space b' = lts_buffer_space b + (b_seek b - b_start b) \<and>
    pending b' = take (nat (b_seek b - b_start b)) (pending b)
      @ drop (nat (b_seek b - b_start b)) (take (nat (lts_buffer_pending b)) (contents b))"
proof -
  let ?d = "b_seek b - b_start b"
  let ?k = "nat ?d"
  have l: "b_start b \<le> b_seek b" "b_seek b \<le> b_last b" "b_last b \<le> b_end b"
    "length (b_mem b) = nat (b_end b - b_start b)"
    using ok by (auto simp: buffer_ok_def)
  have k2: "?k + ?k \<le> length (b_mem b)"
    unfolding l(4) using l(1-3) fit by (simp flip: nat_add_distrib)
  let ?m = "take ?k (drop ?k (b_mem b)) @ drop ?k (b_mem b)"
  let ?b = "b\<lparr> b_mem := ?m, b_seek := b_start b, b_last := b_last b - ?d \<rparr>"
  have e: "lts_buffer_drop_accessed b = Some ?b"
  proof -
    have "rdn (b_mem b) ?d ?d = Some (take ?k (drop ?k (b_mem b)))" using l k2 by (simp add: rdn_def)
    moreover have "wrn (b_mem b) 0 (take ?k (drop ?k (b_mem b))) = Some ?m"
      using k2 by (simp add: wrn_def min_absorb2)
    ultimately show ?thesis by (simp add: lts_buffer_drop_accessed_def Let_def)
  qed
  have lm: "length ?m = length (b_mem b)" using k2 by simp
  have ok': "buffer_ok ?b" using l lm by (simp add: buffer_ok_def del: length_append length_take length_drop)
  have p: "pending ?b = take (nat (b_last b - b_seek b)) ?m"
    by (simp add: pending_def contents_def)
  have q: "pending b = take (nat (b_last b - b_seek b)) (drop ?k (b_mem b))"
  proof -
    have "nat (b_last b - b_start b) - ?k = nat (b_last b - b_seek b)" using l(1,2) by linarith
    then show ?thesis by (simp add: pending_def contents_def drop_take)
  qed
  have d: "length (take ?k (drop ?k (b_mem b))) = ?k" using k2 by simp
  have c: "take (nat (b_last b - b_seek b)) (contents b) = take (nat (b_last b - b_seek b)) (b_mem b)"
    using l by (simp add: contents_def)
  have "pending ?b = take ?k (pending b) @ drop ?k (take (nat (b_last b - b_seek b)) (contents b))"
    unfolding p q c take_append d by (simp add: drop_take take_take min.commute)
  then show ?thesis using e ok' by (simp add: lts_buffer_pending_def lts_buffer_space_def)
qed

lemma lts_buffer_drop_accessed_overrun:
  assumes "buffer_ok b" and "b_end b - b_start b < 2 * (b_seek b - b_start b)"
  shows "lts_buffer_drop_accessed b = None"
proof -
  have "rdn (b_mem b) (b_seek b - b_start b) (b_seek b - b_start b) = None"
    using assms by (auto simp: rdn_def buffer_ok_def)
  then show ?thesis by (simp add: lts_buffer_drop_accessed_def Let_def)
qed

section \<open>Properties\<close>

text \<open>With room, \<open>lts_buffer_append\<close> puts the data behind the pending bytes, keeps what was there
  and the buffer well formed, and moves only \<open>last\<close>.\<close>

theorem append_extends_pending:
  assumes "buffer_ok b" and "int (length data) \<le> lts_buffer_space b"
  shows "\<exists>b'. lts_buffer_append base pagesize mem junk b data (int (length data)) = Some (0, b') \<and> buffer_ok b' \<and>
    contents b' = contents b @ data \<and> pending b' = pending b @ data \<and>
    b_start b' = b_start b \<and> b_seek b' = b_seek b \<and> b_end b' = b_end b \<and>
    b_last b' = b_last b + int (length data)"
  using lts_buffer_append_room [OF assms] by blast

text \<open>A buffer of four bytes, the first of which is read.\<close>

definition example_buffer :: buffer where
  "example_buffer = \<lparr> b_pool = \<lparr> max_size = 4048, current = Some 0, blocks = [] \<rparr>, b_limit = 0,
     b_start = 100, b_seek = 101, b_last = 103, b_end = 104, b_mem = [1, 2, 3, 4] \<rparr>"

lemma append_extends_pending_witness:
  "\<exists>b'. lts_buffer_append (\<lambda>_. 0) 4096 True (\<lambda>_. 0) example_buffer [9] 1 = Some (0, b') \<and> pending b' = [2, 3, 9]"
  using append_extends_pending [of example_buffer "[9]" "\<lambda>_. 0" 4096 True "\<lambda>_. 0"]
  by (auto simp: example_buffer_def buffer_ok_def lts_buffer_space_def pending_def contents_def)

text \<open>\<open>lts_buffer_drop_accessed\<close> frees the bytes before \<open>seek\<close>.  It moves as many bytes as it drops
  instead of the pending ones: pending bytes behind the first \<open>seek - start\<close> are replaced by old
  contents, and when more than half of the buffer is dropped the move leaves the buffer.\<close>

theorem drop_accessed_moves_dropped_length:
  assumes "buffer_ok b"
  shows "if 2 * (b_seek b - b_start b) \<le> b_end b - b_start b
    then \<exists>b'. lts_buffer_drop_accessed b = Some b' \<and> buffer_ok b' \<and>
      lts_buffer_space b' = lts_buffer_space b + (b_seek b - b_start b) \<and>
      pending b' = take (nat (b_seek b - b_start b)) (pending b)
        @ drop (nat (b_seek b - b_start b)) (take (nat (lts_buffer_pending b)) (contents b))
    else lts_buffer_drop_accessed b = None"
  using lts_buffer_drop_accessed_lemma [OF assms] lts_buffer_drop_accessed_overrun [OF assms] by (auto simp: not_le)

lemma drop_accessed_moves_dropped_length_witness:
  "\<exists>b'. lts_buffer_drop_accessed example_buffer = Some b' \<and> pending example_buffer = [2, 3] \<and> pending b' = [2, 2]"
  using drop_accessed_moves_dropped_length [of example_buffer]
  by (auto simp: example_buffer_def buffer_ok_def lts_buffer_pending_def pending_def contents_def)

end
