(* ===== verification/Socket.thy ===== *)
theory Socket
  imports ListH RbtTimer Buffer
begin

text \<open>
  \<open>include/socket.h\<close>: sockets, the lists they move between, and the soft event.

  \<open>net\<close> is the state the event modules share: the socket memory, the memory of the embedded list
  nodes (\<open>dlnode\<close> of a socket is named by the address of the socket), the timer heap and the
  counters.  Other components extend the record, so every operation is stated for any extension.
  The heads of the three lists are globals at fixed addresses.
\<close>

section \<open>Several lists in one memory\<close>

text \<open>\<open>lists_in m H F\<close>: the heads \<open>H\<close> lead the disjoint lists \<open>F\<close>.\<close>

definition lists_in :: "dlinks \<Rightarrow> addr set \<Rightarrow> (addr \<Rightarrow> addr list) \<Rightarrow> bool" where
  "lists_in m H F \<longleftrightarrow> (\<forall>l\<in>H. dlist_in m l (F l)) \<and>
     (\<forall>l\<in>H. \<forall>k\<in>H. l \<noteq> k \<longrightarrow> set (l # F l) \<inter> set (k # F k) = {})"

definition cells :: "addr set \<Rightarrow> (addr \<Rightarrow> addr list) \<Rightarrow> addr set" where
  "cells H F = (\<Union>l\<in>H. set (l # F l))"

lemma dseg_cong:
  "dseg m p as q \<Longrightarrow> \<forall>x\<in>set (p # as). mp_next m' x = mp_next m x \<Longrightarrow> \<forall>x\<in>set (as @ [q]). mp_prev m' x = mp_prev m x \<Longrightarrow>
   dseg m' p as q"
  by (induction as arbitrary: p) auto

lemma dlist_in_frame:
  "dlist_in m l as \<Longrightarrow> \<forall>x\<in>set (l # as). mp_next m' x = mp_next m x \<and> mp_prev m' x = mp_prev m x \<Longrightarrow> dlist_in m' l as"
  using dseg_cong [of m l as l m'] by (auto simp: dlist_in_def)

text \<open>Changing one list only.\<close>

lemma lists_in_change:
  assumes L: "lists_in m H F" and l: "l \<in> H" and n: "dlist_in m' l as" and s: "set as \<inter> (cells H F - set (F l)) = {}"
    and f: "\<forall>x\<in>cells H F - set (l # F l). mp_next m' x = mp_next m x \<and> mp_prev m' x = mp_prev m x"
  shows "lists_in m' H (F(l := as))"
  unfolding lists_in_def
proof (intro conjI ballI impI)
  have c: "set (k # F k) \<subseteq> cells H F - set (l # F l)" if "k \<in> H" "k \<noteq> l" for k
    using L l that unfolding lists_in_def cells_def by blast
  fix k assume k: "k \<in> H"
  show "dlist_in m' k ((F(l := as)) k)"
  proof (cases "k = l")
    case False
    then have "\<forall>x\<in>set (k # F k). mp_next m' x = mp_next m x \<and> mp_prev m' x = mp_prev m x" using f c [OF k] by blast
    then show ?thesis using False L k dlist_in_frame [of m k "F k" m'] by (simp add: lists_in_def)
  qed (simp add: n)
  fix j assume j: "j \<in> H" "k \<noteq> j"
  show "set (k # (F(l := as)) k) \<inter> set (j # (F(l := as)) j) = {}"
  proof (cases "k = l \<or> j = l")
    case True
    then obtain i where i: "i \<in> H" "i \<noteq> l" "{k, j} = {l, i}" using k j by auto
    have "l \<notin> set (i # F i)" using c [OF i(1,2)] by auto
    moreover have "set as \<inter> set (i # F i) = {}" using s c [OF i(1,2)] by auto
    ultimately have "set (l # as) \<inter> set (i # F i) = {}" by auto
    then show ?thesis using i(2,3) by (auto simp: doubleton_eq_iff)
  next
    case False
    then show ?thesis using L k j by (auto simp: lists_in_def)
  qed
qed

lemma lists_in_del:
  assumes L: "lists_in m H F" and l: "l \<in> H" "F l = xs @ a # ys"
  shows "lists_in (dlist_del a m) H (F(l := xs @ ys))"
proof (rule lists_in_change [OF L l(1)])
  have d: "dlist_in m l (xs @ a # ys)" using L l by (auto simp: lists_in_def)
  then show "dlist_in (dlist_del a m) l (xs @ ys)" by (rule dlist_del_correct)
  show "set (xs @ ys) \<inter> (cells H F - set (F l)) = {}" using l by auto
  have "dseg m l xs a" "dseg m a ys l" using d by (simp_all add: dlist_in_def)
  then have "mp_prev m a \<in> set (l # xs)" "mp_next m a \<in> set (ys @ [l])"
    using dseg_ends [of m l xs a] dseg_ends [of m a ys l] by (auto simp: hd_append)
  then show "\<forall>x\<in>cells H F - set (l # F l).
      mp_next (dlist_del a m) x = mp_next m x \<and> mp_prev (dlist_del a m) x = mp_prev m x"
    using l(2) by (auto simp: dlist_del_def dlist_del_orig_def)
qed

lemma lists_in_add_tail:
  assumes L: "lists_in m H F" and l: "l \<in> H" and a: "a \<notin> cells H F"
  shows "lists_in (dlist_add_tail l a m) H (F(l := F l @ [a]))"
proof (rule lists_in_change [OF L l])
  have d: "dlist_in m l (F l)" using L l by (auto simp: lists_in_def)
  have al: "a \<notin> set (l # F l)" using a l by (auto simp: cells_def)
  show "dlist_in (dlist_add_tail l a m) l (F l @ [a])" by (rule dlist_add_tail_correct [OF d al])
  show "set (F l @ [a]) \<inter> (cells H F - set (F l)) = {}" using a by auto
  have "mp_prev m l \<in> set (l # F l)" using dlist_prev [OF d] by simp
  then show "\<forall>x\<in>cells H F - set (l # F l).
      mp_next (dlist_add_tail l a m) x = mp_next m x \<and> mp_prev (dlist_add_tail l a m) x = mp_prev m x"
    using a by (auto simp: dlist_add_tail_def dlist_add_orig_def)
qed

lemma lists_in_init:
  assumes L: "lists_in m H F" and a: "a \<notin> cells H F"
  shows "lists_in (dlist_init a m) H F"
  unfolding lists_in_def
proof (intro conjI ballI impI)
  fix l assume l: "l \<in> H"
  then have "dlist_in m l (F l)" "a \<notin> set (l # F l)" using L a by (auto simp: lists_in_def cells_def)
  then show "dlist_in (dlist_init a m) l (F l)" by (auto simp: dlist_init_def elim!: dlist_in_frame)
  fix k assume "k \<in> H" "l \<noteq> k"
  then show "set (l # F l) \<inter> set (k # F k) = {}" using L l unfolding lists_in_def by blast
qed

text \<open>A loop that puts an array of \<open>n\<close> structs, \<open>sz\<close> bytes apart, on a list.\<close>

fun cache_loop :: "addr \<Rightarrow> nat \<Rightarrow> addr \<Rightarrow> nat \<Rightarrow> dlinks \<Rightarrow> dlinks" where
  "cache_loop l 0 a sz m = m"
| "cache_loop l (Suc n) a sz m = cache_loop l n (a + sz) sz (dlist_add_tail l a m)"

lemma cache_loop_correct:
  assumes "lists_in m H G" and "l \<in> H" and "\<forall>i < n. ats + i * sz \<notin> cells H G" and "0 < sz"
  shows "lists_in (cache_loop l n ats sz m) H (G(l := G l @ map (\<lambda>i. ats + i * sz) [0..<n]))"
  using assms
proof (induction n arbitrary: ats m G)
  case (Suc n)
  let ?G = "G(l := G l @ [ats])"
  have "ats \<notin> cells H G" using Suc.prems(3) [rule_format, of 0] by simp
  then have L: "lists_in (dlist_add_tail l ats m) H ?G" using lists_in_add_tail [OF Suc.prems(1,2)] by simp
  have "ats + sz + i * sz \<notin> cells H ?G" if "i < n" for i
  proof -
    have "ats + Suc i * sz \<notin> cells H G" using Suc.prems(3) [rule_format, of "Suc i"] that by simp
    then show ?thesis using Suc.prems(2,4) by (auto simp: cells_def add.assoc split: if_splits)
  qed
  then have 1: "lists_in (cache_loop l n (ats + sz) sz (dlist_add_tail l ats m)) H
      (?G(l := ?G l @ map (\<lambda>i. ats + sz + i * sz) [0..<n]))"
    using Suc.IH [OF L Suc.prems(2)] Suc.prems(4) by blast
  have "map (\<lambda>i. ats + i * sz) [0..<Suc n] = ats # map (\<lambda>i. ats + sz + i * sz) [0..<n]"
    by (simp only: map_upt_Suc) (simp add: add.assoc)
  moreover have "?G(l := ?G l @ xs) = G(l := G l @ ats # xs)" for xs
    by (rule ext) simp
  ultimately show ?case using 1 by (simp only: cache_loop.simps)
qed simp

lemma lists_in_insert:
  assumes L: "lists_in m H F" and l: "l \<notin> cells H F"
  shows "lists_in (dlist_init l m) (insert l H) (F(l := []))"
proof -
  have lH: "l \<notin> H" using l by (auto simp: cells_def)
  have 1: "lists_in (dlist_init l m) H F" by (rule lists_in_init [OF L l])
  have "set (k # F k) \<subseteq> cells H F" if "k \<in> H" for k using that by (auto simp: cells_def)
  then have 2: "l \<notin> set (k # F k)" if "k \<in> H" for k using that l by blast
  show ?thesis unfolding lists_in_def
  proof (intro conjI ballI impI)
    fix k assume k: "k \<in> insert l H"
    show "dlist_in (dlist_init l m) k ((F(l := [])) k)"
      using k 1 lH by (cases "k = l") (auto simp: lists_in_def dlist_init_correct)
    fix j assume j: "j \<in> insert l H" "k \<noteq> j"
    show "set (k # (F(l := [])) k) \<inter> set (j # (F(l := [])) j) = {}"
    proof (cases "k = l \<or> j = l")
      case True
      then show ?thesis using 2 k j by auto
    next
      case False
      then have "k \<in> H" "j \<in> H" using k j by auto
      then show ?thesis using False 1 j(2) unfolding lists_in_def by simp
    qed
  qed
qed

text \<open>A node that is linked to itself, as \<open>dlist_init\<close> leaves it.\<close>

definition self_linked :: "dlinks \<Rightarrow> addr \<Rightarrow> bool" where
  "self_linked m a \<longleftrightarrow> mp_next m a = a \<and> mp_prev m a = a"

lemma dlist_del_self: "self_linked m a \<Longrightarrow> dlist_del a m = m"
  by (simp add: self_linked_def dlist_del_def dlist_del_orig_def set_next_def set_prev_def fun_upd_idem)

lemma self_linked_init [simp]: "self_linked (dlist_init a m) a"
  by (simp add: self_linked_def dlist_init_def)

section \<open>State\<close>

abbreviation lts_sock_list :: addr where "lts_sock_list \<equiv> 16"
abbreviation lts_watch_list :: addr where "lts_watch_list \<equiv> 17"
abbreviation lts_post_list :: addr where "lts_post_list \<equiv> 18"

datatype handler = NoHandler | Do_accept | Do_recv | Do_send | Do_channel | Do_sub | Do_udp

record conn =
  c_pool :: bool
  rbuf :: buffer
  sbuf :: buffer

record skt =
  fd :: int
  family :: int
  peer_addr :: bstr
  ev_mask :: "32 word"
  readable :: bool
  writable :: bool
  instance_bit :: bool
  born_time :: int
  conn_of :: "conn option"
  on_timeout :: bool
  do_read :: handler
  do_write :: handler
  app_ctx :: addr

record net =
  skts :: "addr \<Rightarrow> skt"
  links :: dlinks
  sock_cache_n :: "64 word"
  sock_inuse_n :: "64 word"
  timer_heap :: rbmap
  current_time :: int
  current_conns :: int
  interest :: "int \<Rightarrow> (32 word \<times> addr \<times> bool) option"
  channel_signal :: "32 word"

definition upd_skt :: "addr \<Rightarrow> (skt \<Rightarrow> skt) \<Rightarrow> 'a net_scheme \<Rightarrow> 'a net_scheme" where
  "upd_skt s f w = w\<lparr> skts := (skts w)(s := f (skts w s)) \<rparr>"

definition upd_links :: "(dlinks \<Rightarrow> dlinks) \<Rightarrow> 'a net_scheme \<Rightarrow> 'a net_scheme" where
  "upd_links f w = w\<lparr> links := f (links w) \<rparr>"

text \<open>The list macros: \<open>dlist_del\<close>, then \<open>dlist_add_tail\<close>.\<close>

definition list_move :: "addr \<Rightarrow> addr \<Rightarrow> 'a net_scheme \<Rightarrow> 'a net_scheme" where
  "list_move l s w = upd_links (\<lambda>m. dlist_add_tail l s (dlist_del s m)) w"

definition lts_sock_list_add :: "addr \<Rightarrow> 'a net_scheme \<Rightarrow> 'a net_scheme" where
  "lts_sock_list_add s w = list_move lts_sock_list s w"

definition lts_watch_list_add :: "addr \<Rightarrow> 'a net_scheme \<Rightarrow> 'a net_scheme" where
  "lts_watch_list_add s w = list_move lts_watch_list s w"

definition lts_post_list_add :: "addr \<Rightarrow> 'a net_scheme \<Rightarrow> 'a net_scheme" where
  "lts_post_list_add s w = list_move lts_post_list s w"

section \<open>Operations\<close>

definition skt_timer_init :: "addr \<Rightarrow> 64 word \<Rightarrow> bool \<Rightarrow> 'a net_scheme \<Rightarrow> 'a net_scheme option" where
  "skt_timer_init s t cb w = do {
     h \<leftarrow> lts_timer_node_init s t (timer_heap w);
     Some (upd_skt s (\<lambda>k. k\<lparr> on_timeout := cb \<rparr>) (w\<lparr> timer_heap := h \<rparr>)) }"

text \<open>\<open>app_ctx\<close> and \<open>peer_addr\<close> keep what the previous user of the socket left there.\<close>

definition lts_init_socket :: "addr \<Rightarrow> 'a net_scheme \<Rightarrow> 'a net_scheme option" where
  "lts_init_socket s w = do {
     let w = upd_skt s (\<lambda>k. k\<lparr> fd := -1, family := -1, ev_mask := 0, readable := False, writable := False,
       instance_bit := \<not> instance_bit k, born_time := current_time w, conn_of := None \<rparr>) w;
     let w = upd_links (dlist_init s) w;
     w \<leftarrow> skt_timer_init s 0 False w;
     Some (upd_skt s (\<lambda>k. k\<lparr> do_read := NoHandler, do_write := NoHandler \<rparr>) w) }"

definition lts_alloc_socket :: "'a net_scheme \<Rightarrow> (addr \<times> 'a net_scheme) option" where
  "lts_alloc_socket w =
     (if dlist_empty lts_sock_list (links w) then (if sock_cache_n w = 0 then Some (0, w) else None)
      else let s = mp_next (links w) lts_sock_list;
               w = upd_links (dlist_del s) w;
               w = w\<lparr> sock_cache_n := sock_cache_n w - 1 \<rparr>;
               w = w\<lparr> sock_inuse_n := sock_inuse_n w + 1 \<rparr>
           in do { w \<leftarrow> lts_init_socket s w; Some (s, w) })"

definition lts_free_socket :: "addr \<Rightarrow> 'a net_scheme \<Rightarrow> 'a net_scheme" where
  "lts_free_socket s w =
     (let w = lts_sock_list_add s w;
          w = w\<lparr> sock_cache_n := sock_cache_n w + 1 \<rparr>
      in w\<lparr> sock_inuse_n := sock_inuse_n w - 1 \<rparr>)"

definition lts_soft_event :: "addr \<Rightarrow> bool \<Rightarrow> 'a net_scheme \<Rightarrow> int \<times> 'a net_scheme" where
  "lts_soft_event other on w =
     (if conn_of (skts w other) = None then (-1, w)
      else (0, lts_post_list_add other (upd_skt other (\<lambda>k. k\<lparr> writable := on \<rparr>) w)))"

section \<open>Facts\<close>

lemma upd_skt_simps [simp]:
  "skts (upd_skt s f w) = (skts w)(s := f (skts w s))" "links (upd_skt s f w) = links w"
  "timer_heap (upd_skt s f w) = timer_heap w" "sock_cache_n (upd_skt s f w) = sock_cache_n w"
  "sock_inuse_n (upd_skt s f w) = sock_inuse_n w" "current_time (upd_skt s f w) = current_time w"
  "current_conns (upd_skt s f w) = current_conns w" "interest (upd_skt s f w) = interest w"
  "channel_signal (upd_skt s f w) = channel_signal w"
  "net.more (upd_skt s f w) = net.more w"
  by (simp_all add: upd_skt_def)

lemma upd_links_simps [simp]:
  "links (upd_links g w) = g (links w)" "skts (upd_links g w) = skts w"
  "timer_heap (upd_links g w) = timer_heap w" "sock_cache_n (upd_links g w) = sock_cache_n w"
  "sock_inuse_n (upd_links g w) = sock_inuse_n w" "current_time (upd_links g w) = current_time w"
  "current_conns (upd_links g w) = current_conns w" "interest (upd_links g w) = interest w"
  "channel_signal (upd_links g w) = channel_signal w"
  "net.more (upd_links g w) = net.more w"
  by (simp_all add: upd_links_def)

lemma list_move_simps [simp]:
  "skts (list_move l s w) = skts w" "timer_heap (list_move l s w) = timer_heap w"
  "sock_cache_n (list_move l s w) = sock_cache_n w" "sock_inuse_n (list_move l s w) = sock_inuse_n w"
  "current_time (list_move l s w) = current_time w" "current_conns (list_move l s w) = current_conns w"
  "interest (list_move l s w) = interest w" "channel_signal (list_move l s w) = channel_signal w" "net.more (list_move l s w) = net.more w"
  by (simp_all add: list_move_def)

lemmas list_adds = lts_sock_list_add_def lts_watch_list_add_def lts_post_list_add_def

section \<open>Lists\<close>

abbreviation heads :: "addr set" where "heads \<equiv> {lts_sock_list, lts_watch_list, lts_post_list}"

definition moved :: "addr \<Rightarrow> addr \<Rightarrow> (addr \<Rightarrow> addr list) \<Rightarrow> addr \<Rightarrow> addr list" where
  "moved l s F = (\<lambda>k. removeAll s (F k) @ (if k = l then [s] else []))"

text \<open>A node the macros may be applied to: in one of the lists, or linked to itself.\<close>

definition movable :: "dlinks \<Rightarrow> addr set \<Rightarrow> (addr \<Rightarrow> addr list) \<Rightarrow> addr \<Rightarrow> bool" where
  "movable m H F s \<longleftrightarrow> s \<notin> H \<and> ((\<exists>l\<in>H. s \<in> set (F l)) \<or> self_linked m s)"

lemma lists_in_dist: "lists_in m H F \<Longrightarrow> l \<in> H \<Longrightarrow> distinct (F l)"
  by (auto simp: lists_in_def dlist_in_def)

lemma lists_in_eq: "lists_in m H F \<Longrightarrow> (\<And>l. l \<in> H \<Longrightarrow> G l = F l) \<Longrightarrow> lists_in m H G"
  by (simp add: lists_in_def)

lemma lists_in_remove:
  assumes L: "lists_in m H F" and s: "movable m H F s"
  shows "lists_in (dlist_del s m) H (\<lambda>k. removeAll s (F k))"
proof (cases "\<exists>l\<in>H. s \<in> set (F l)")
  case True
  then obtain l xs ys where l: "l \<in> H" "F l = xs @ s # ys" by (auto dest: split_list)
  have "removeAll s (F l) = xs @ ys" using lists_in_dist [OF L l(1)] l(2) by simp
  moreover have "removeAll s (F k) = F k" if "k \<in> H" "k \<noteq> l" for k
    using L l that by (auto simp: lists_in_def)
  ultimately have "\<And>k. k \<in> H \<Longrightarrow> removeAll s (F k) = (F(l := xs @ ys)) k" by auto
  then show ?thesis by (rule lists_in_eq [OF lists_in_del [OF L l]])
next
  case False
  then have "removeAll s (F k) = F k" if "k \<in> H" for k using that by simp
  then show ?thesis using lists_in_eq [OF L] s False dlist_del_self by (simp add: movable_def)
qed

lemma lists_in_move:
  assumes L: "lists_in m H F" and l: "l \<in> H" and s: "movable m H F s"
  shows "lists_in (dlist_add_tail l s (dlist_del s m)) H (moved l s F)"
proof -
  have "s \<notin> cells H (\<lambda>k. removeAll s (F k))" using s by (auto simp: cells_def movable_def)
  from lists_in_add_tail [OF lists_in_remove [OF L s] l this]
  show ?thesis by (rule lists_in_eq) (simp add: moved_def)
qed

lemma cells_moved: "l \<in> H \<Longrightarrow> cells H (moved l s F) = insert s (cells H F)"
  by (auto simp: cells_def moved_def)

text \<open>The macros do not touch nodes that are in no list.\<close>

lemma del_unlinked:
  assumes L: "lists_in m H F" and s: "movable m H F s" and x: "x \<notin> cells H F"
  shows "self_linked m x \<Longrightarrow> self_linked (dlist_del s m) x"
proof (cases "\<exists>l\<in>H. s \<in> set (F l)")
  case True
  then obtain l xs ys where l: "l \<in> H" "F l = xs @ s # ys" by (auto dest: split_list)
  then have "dlist_in m l (xs @ s # ys)" using L by (auto simp: lists_in_def)
  then have "dseg m l xs s" "dseg m s ys l" by (simp_all add: dlist_in_def)
  then have "mp_prev m s \<in> set (l # xs)" "mp_next m s \<in> set (ys @ [l])"
    using dseg_ends [of m l xs s] dseg_ends [of m s ys l] by (auto simp: hd_append)
  moreover have "set (l # F l) \<subseteq> cells H F" using l(1) by (auto simp: cells_def)
  ultimately have "mp_prev m s \<in> cells H F" "mp_next m s \<in> cells H F" using l(2) by auto
  then have "mp_prev m s \<noteq> x" "mp_next m s \<noteq> x" using x by auto
  then show "self_linked m x \<Longrightarrow> self_linked (dlist_del s m) x"
    by (simp add: self_linked_def dlist_del_def dlist_del_orig_def set_next_def set_prev_def)
next
  case False
  then show "self_linked m x \<Longrightarrow> self_linked (dlist_del s m) x" using s dlist_del_self by (simp add: movable_def)
qed

lemma add_tail_unlinked:
  assumes L: "lists_in m H F" and l: "l \<in> H" and x: "x \<notin> cells H F" "x \<noteq> s"
  shows "self_linked m x \<Longrightarrow> self_linked (dlist_add_tail l s m) x"
proof -
  have d: "dlist_in m l (F l)" using L l by (auto simp: lists_in_def)
  have "mp_prev m l \<in> set (l # F l)" using dlist_prev [OF d] by simp
  then have "mp_prev m l \<noteq> x" "x \<noteq> l" using x l by (auto simp: cells_def)
  then show "self_linked m x \<Longrightarrow> self_linked (dlist_add_tail l s m) x"
    using x(2) by (simp add: self_linked_def dlist_add_tail_def dlist_add_orig_def set_next_def set_prev_def)
qed

lemma movable_move:
  assumes L: "lists_in m H F" and l: "l \<in> H" and s: "movable m H F s" and x: "movable m H F x"
  shows "movable (dlist_add_tail l s (dlist_del s m)) H (moved l s F) x"
proof (cases "x = s \<or> (\<exists>k\<in>H. x \<in> set (F k))")
  case True
  then show ?thesis using x l by (auto simp: movable_def moved_def)
next
  case False
  then have xs: "x \<noteq> s" "x \<notin> H" "self_linked m x" "x \<notin> cells H F" using x by (auto simp: movable_def cells_def)
  have "x \<notin> cells H (\<lambda>k. removeAll s (F k))" using xs(4) by (auto simp: cells_def)
  from add_tail_unlinked [OF lists_in_remove [OF L s] l this xs(1) del_unlinked [OF L s xs(4,3)]]
  show ?thesis using xs(2) by (simp add: movable_def)
qed

section \<open>The socket cache\<close>

definition sock_lists :: "'a net_scheme \<Rightarrow> (addr \<Rightarrow> addr list) \<Rightarrow> bool" where
  "sock_lists w F \<longleftrightarrow> lists_in (links w) heads F \<and> 0 \<notin> cells heads F \<and> sock_cache_n w = of_nat (length (F lts_sock_list))"

lemma sock_lists_move:
  assumes "sock_lists w F" and "l \<in> {lts_watch_list, lts_post_list}" and "movable (links w) heads F s" and "s \<noteq> 0"
    and "s \<notin> set (F lts_sock_list)"
  shows "sock_lists (list_move l s w) (moved l s F)"
proof -
  have "l \<in> heads" using assms(2) by auto
  then have "lists_in (links (list_move l s w)) heads (moved l s F)" "cells heads (moved l s F) = insert s (cells heads F)"
    using lists_in_move [OF _ _ assms(3)] assms(1) cells_moved [of l heads] by (auto simp: sock_lists_def list_move_def)
  moreover have "moved l s F lts_sock_list = F lts_sock_list" using assms(2,5) by (auto simp: moved_def)
  ultimately show ?thesis using assms(1,4) by (simp add: sock_lists_def)
qed

definition fresh_skt :: "int \<Rightarrow> skt \<Rightarrow> skt" where
  "fresh_skt now k = k\<lparr> fd := -1, family := -1, ev_mask := 0, readable := False, writable := False,
     instance_bit := \<not> instance_bit k, born_time := now, conn_of := None, on_timeout := False,
     do_read := NoHandler, do_write := NoHandler \<rparr>"

lemma lts_init_socket_correct:
  assumes L: "lists_in (links w) heads F" and s: "s \<notin> cells heads F" "s \<noteq> 0"
    and t: "rbmap_inv (timer_heap w)" "s \<notin> ran (rbmap_dict (timer_heap w))"
  shows "\<exists>w' h. lts_init_socket s w = Some w' \<and>
    w' = w\<lparr> skts := (skts w)(s := fresh_skt (current_time w) (skts w s)), links := dlist_init s (links w), timer_heap := h \<rparr> \<and>
    lists_in (links w') heads F \<and> rbmap_inv h \<and> rbmap_dict h = rbmap_dict (timer_heap w) \<and> is_empty h s"
proof -
  obtain h where h: "lts_rbmap_node_init s 0 (timer_heap w) = Some h" "rbmap_inv h" "rbmap_dict h = rbmap_dict (timer_heap w)"
      "is_empty h s"
    using rbmap_node_init_law [OF t(1) s(2) t(2)] by blast
  let ?w' = "w\<lparr> skts := (skts w)(s := fresh_skt (current_time w) (skts w s)), links := dlist_init s (links w), timer_heap := h \<rparr>"
  have "lts_init_socket s w = Some ?w'" using h(1)
    by (simp add: lts_init_socket_def skt_timer_init_def lts_timer_node_init_def upd_skt_def upd_links_def fresh_skt_def)
  then show ?thesis using lists_in_init [OF L s(1)] h(2-4) by (intro exI [of _ ?w'] exI [of _ h]) simp
qed

lemma alloc_socket_none:
  assumes "sock_lists w F" and "F lts_sock_list = []"
  shows "lts_alloc_socket w = Some (0, w)"
proof -
  have "dlist_in (links w) lts_sock_list []" using assms by (auto simp: sock_lists_def lists_in_def)
  then show ?thesis using assms by (simp add: dlist_empty_correct lts_alloc_socket_def sock_lists_def)
qed

lemma alloc_socket_some:
  assumes L: "sock_lists w F" and f: "F lts_sock_list = s # fs"
    and t: "rbmap_inv (timer_heap w)" "s \<notin> ran (rbmap_dict (timer_heap w))"
  shows "\<exists>w'. lts_alloc_socket w = Some (s, w') \<and> sock_lists w' (F(lts_sock_list := fs)) \<and>
    s \<notin> cells heads (F(lts_sock_list := fs)) \<and> s \<noteq> 0 \<and> self_linked (links w') s \<and> sock_inuse_n w' = sock_inuse_n w + 1 \<and>
    skts w' = (skts w)(s := fresh_skt (current_time w) (skts w s)) \<and>
    rbmap_inv (timer_heap w') \<and> rbmap_dict (timer_heap w') = rbmap_dict (timer_heap w) \<and> is_empty (timer_heap w') s \<and>
    (\<forall>x. x \<noteq> s \<longrightarrow> movable (links w) heads F x \<longrightarrow> movable (links w') heads (F(lts_sock_list := fs)) x) \<and>
    current_time w' = current_time w \<and> current_conns w' = current_conns w \<and> interest w' = interest w \<and> channel_signal w' = channel_signal w \<and> net.more w' = net.more w"
proof -
  have l: "lists_in (links w) heads F" and z: "0 \<notin> cells heads F" and n: "sock_cache_n w = of_nat (Suc (length fs))"
    using L f by (auto simp: sock_lists_def)
  have d: "dlist_in (links w) lts_sock_list (s # fs)" using l f by (metis insertI1 lists_in_def)
  have s0: "s \<noteq> 0" using z f by (auto simp: cells_def)
  have hd: "\<not> dlist_empty lts_sock_list (links w)" "mp_next (links w) lts_sock_list = s"
    using dlist_empty_correct [OF d] dlist_next [OF d] by auto
  let ?F = "F(lts_sock_list := fs)"
  have L1: "lists_in (dlist_del s (links w)) heads ?F" using lists_in_del [OF l, of lts_sock_list "[]" s fs] f by simp
  have sn: "s \<notin> cells heads ?F"
    using l f by (auto simp: cells_def lists_in_def dlist_in_def)
  have z': "0 \<notin> cells heads ?F" using z f by (auto simp: cells_def split: if_splits)
  let ?w = "w\<lparr> links := dlist_del s (links w), sock_cache_n := sock_cache_n w - 1, sock_inuse_n := sock_inuse_n w + 1 \<rparr>"
  obtain w' h where w': "lts_init_socket s ?w = Some w'"
      "w' = ?w\<lparr> skts := (skts w)(s := fresh_skt (current_time w) (skts w s)), links := dlist_init s (dlist_del s (links w)), timer_heap := h \<rparr>"
      "lists_in (links w') heads ?F" "rbmap_inv h" "rbmap_dict h = rbmap_dict (timer_heap w)" "is_empty h s"
    using lts_init_socket_correct [of ?w ?F s] L1 sn s0 t by auto
  have "lts_alloc_socket w = Some (s, w')" using hd w'(1) by (simp add: lts_alloc_socket_def upd_links_def Let_def)
  moreover have "sock_lists w' ?F" using w'(2,3) n z' by (simp add: sock_lists_def)
  moreover have "movable (links w') heads ?F x" if x: "x \<noteq> s" "movable (links w) heads F x" for x
  proof (cases "\<exists>k\<in>heads. x \<in> set (F k)")
    case True
    then show ?thesis using x f by (auto simp: movable_def)
  next
    case False
    then have xc: "x \<notin> cells heads F" "self_linked (links w) x" "x \<notin> heads" using x by (auto simp: movable_def cells_def)
    have "s \<notin> heads" using l f d by (auto simp: lists_in_def dlist_in_def)
    then have "movable (links w) heads F s" using f by (auto simp: movable_def)
    from del_unlinked [OF l this xc(1,2)] have "self_linked (links w') x"
      using x(1) w'(2) by (simp add: self_linked_def dlist_init_def set_next_def set_prev_def)
    then show ?thesis using xc(3) by (simp add: movable_def)
  qed
  ultimately show ?thesis using w' sn s0 by simp
qed

lemma free_socket_correct:
  assumes L: "sock_lists w F" and s: "movable (links w) heads F s" "s \<notin> set (F lts_sock_list)" "s \<noteq> 0"
  shows "sock_lists (lts_free_socket s w) (moved lts_sock_list s F)"
proof -
  have "lists_in (links (list_move lts_sock_list s w)) heads (moved lts_sock_list s F)"
    "cells heads (moved lts_sock_list s F) = insert s (cells heads F)"
    using lists_in_move [OF _ _ s(1)] L cells_moved [of lts_sock_list heads] by (auto simp: sock_lists_def list_move_def)
  moreover have "length (moved lts_sock_list s F lts_sock_list) = Suc (length (F lts_sock_list))"
    using s(2) by (simp add: moved_def)
  ultimately show ?thesis using L s(3) by (simp add: sock_lists_def lts_free_socket_def lts_sock_list_add_def Let_def)
qed

lemma free_socket_simps [simp]:
  "skts (lts_free_socket s w) = skts w" "timer_heap (lts_free_socket s w) = timer_heap w"
  "current_time (lts_free_socket s w) = current_time w" "current_conns (lts_free_socket s w) = current_conns w"
  "interest (lts_free_socket s w) = interest w" "net.more (lts_free_socket s w) = net.more w"
  "sock_inuse_n (lts_free_socket s w) = sock_inuse_n w - 1"
  by (simp_all add: lts_free_socket_def lts_sock_list_add_def Let_def)

end
