(* ===== verification/EventCore.thy ===== *)
theory EventCore
  imports Socket
begin

text \<open>
  \<open>src/modules/mod_event_core.c\<close> and \<open>src/modules/mod_event_epoll.c\<close>: accepting, receiving, sending and
  closing connections, and the epoll round.

  What the operating system answers is an argument of the step that asks: the result of
  \<open>accept\<close>, \<open>recv\<close>, \<open>send\<close> and of \<open>epoll_wait\<close>.  The application module is \<open>app_itfc\<close>, the record of
  its callbacks, as in \<open>include/latasia.h\<close>.  Log output and the result of \<open>close\<close> leave no trace.
  \<open>None\<close> is \<open>abort()\<close>, a failed ASSERT or a NULL pointer that is followed.
\<close>

section \<open>Interfaces\<close>

datatype errno = E_AGAIN | E_WOULDBLOCK | E_CONNABORTED | E_CONNRESET | E_INTR | E_OTHER

record 'w app_itfc =
  on_connected :: "(addr \<Rightarrow> 'w \<Rightarrow> 'w option) option"
  service :: "addr \<Rightarrow> 'w \<Rightarrow> 'w option"
  send_more :: "addr \<Rightarrow> 'w \<Rightarrow> 'w option"
  on_closing :: "(addr \<Rightarrow> 'w \<Rightarrow> 'w option) option"

definition callback :: "(addr \<Rightarrow> 'w \<Rightarrow> 'w option) option \<Rightarrow> addr \<Rightarrow> 'w \<Rightarrow> 'w option" where
  "callback f s w = (case f of None \<Rightarrow> Some w | Some f \<Rightarrow> f s w)"

abbreviation EPOLLIN :: "32 word" where "EPOLLIN \<equiv> 0x1"
abbreviation EPOLLOUT :: "32 word" where "EPOLLOUT \<equiv> 0x4"
abbreviation EPOLLERR :: "32 word" where "EPOLLERR \<equiv> 0x8"
abbreviation EPOLLHUP :: "32 word" where "EPOLLHUP \<equiv> 0x10"
abbreviation EPOLLET :: "32 word" where "EPOLLET \<equiv> 0x80000000"

definition has :: "32 word \<Rightarrow> 32 word \<Rightarrow> bool" where
  "has m b \<longleftrightarrow> and m b \<noteq> 0"

section \<open>The event interface\<close>

text \<open>\<open>epoll_ctl\<close> refuses to add a descriptor twice and to change one that is absent; the callers
  only log that.\<close>

definition epoll_event_add :: "addr \<Rightarrow> 'a net_scheme \<Rightarrow> 'a net_scheme" where
  "epoll_event_add s w = (let k = skts w s in
     if interest w (fd k) = None
     then w\<lparr> interest := (interest w)(fd k := Some (ev_mask k, s, instance_bit k)) \<rparr> else w)"

definition epoll_event_mod :: "addr \<Rightarrow> 'a net_scheme \<Rightarrow> 'a net_scheme" where
  "epoll_event_mod s w = (let k = skts w s in
     if interest w (fd k) \<noteq> None
     then w\<lparr> interest := (interest w)(fd k := Some (ev_mask k, s, instance_bit k)) \<rparr> else w)"

definition epoll_event_del :: "addr \<Rightarrow> 'a net_scheme \<Rightarrow> 'a net_scheme" where
  "epoll_event_del s w = w\<lparr> interest := (interest w)(fd (skts w s) := None) \<rparr>"

section \<open>Closing\<close>

definition lts_close_conn :: "'a net_scheme app_itfc \<Rightarrow> int \<Rightarrow> addr \<Rightarrow> 'a net_scheme \<Rightarrow> 'a net_scheme option" where
  "lts_close_conn app keepalive cs w = do {
     w \<leftarrow> callback (on_closing app) cs w;
     let w = epoll_event_del cs w;
     w \<leftarrow> (if keepalive > 0 then do {
             (ok, h) \<leftarrow> lts_timer_del (timer_heap w) cs;
             if ok then Some (w\<lparr> timer_heap := h \<rparr>) else None }
           else Some w);
     c \<leftarrow> conn_of (skts w cs);
     let w = (if c_pool c then upd_skt cs (\<lambda>k. k\<lparr> conn_of := None \<rparr>) w else w);
     let w = lts_free_socket cs w;
     Some (if current_conns w > 0 then w\<lparr> current_conns := current_conns w - 1 \<rparr> else w) }"

definition lts_timeout :: "'a net_scheme app_itfc \<Rightarrow> int \<Rightarrow> addr \<Rightarrow> 'a net_scheme \<Rightarrow> 'a net_scheme option" where
  "lts_timeout app keepalive cs w = lts_close_conn app keepalive cs w"

section \<open>Accepting\<close>

text \<open>What \<open>accept4\<close> and the allocations of a new connection yield.\<close>

record accept_env =
  acc_result :: "errno + int"
  acc_clt :: bstr
  acc_pool :: bool
  acc_pagesize :: nat
  acc_mem :: bool
  acc_base :: layout
  acc_junk :: "nat \<Rightarrow> byte"

abbreviation CONN_POOL_SIZE :: int where "CONN_POOL_SIZE \<equiv> 8192"
abbreviation CONN_BUFFER_SIZE :: int where "CONN_BUFFER_SIZE \<equiv> 4096"

text \<open>\<open>sizeof(lts_conn_t)\<close> is 24, \<open>LTS_SOCKADDRLEN\<close> 16.  The first component is \<open>None\<close> when there is
  no memory for the connection; a buffer that cannot be created stays NULL and is followed by
  the first receive or send.\<close>

definition new_conn :: "accept_env \<Rightarrow> ((conn \<times> pool) option) option" where
  "new_conn e = (case lts_create_pool (acc_pool e) CONN_POOL_SIZE of
     None \<Rightarrow> Some None
   | Some cpool \<Rightarrow> do {
       (c, cpool) \<leftarrow> lts_palloc (acc_pagesize e) (acc_mem e) cpool 24;
       case c of None \<Rightarrow> Some None
       | Some _ \<Rightarrow> do {
           (rb, cpool) \<leftarrow> lts_create_buffer (acc_base e) (acc_pagesize e) (acc_mem e) (acc_junk e) cpool
             CONN_BUFFER_SIZE CONN_BUFFER_SIZE;
           (sb, cpool) \<leftarrow> lts_create_buffer (acc_base e) (acc_pagesize e) (acc_mem e) (acc_junk e) cpool
             CONN_BUFFER_SIZE CONN_BUFFER_SIZE;
           rb \<leftarrow> rb;
           sb \<leftarrow> sb;
           Some (Some (\<lparr> c_pool = True, rbuf = rb, sbuf = sb \<rparr>, cpool)) } })"

definition lts_accept ::
  "'a net_scheme app_itfc \<Rightarrow> int \<Rightarrow> int \<Rightarrow> accept_env \<Rightarrow> addr \<Rightarrow> 'a net_scheme \<Rightarrow> 'a net_scheme option" where
  "lts_accept app keepalive max_connections e ls w =
     (if current_conns w \<ge> max_connections then Some (upd_skt ls (\<lambda>k. k\<lparr> readable := False \<rparr>) w)
      else if sock_cache_n w = 0 then None
      else case acc_result e of
        Inl err \<Rightarrow> if err = E_CONNABORTED then Some w else Some (upd_skt ls (\<lambda>k. k\<lparr> readable := False \<rparr>) w)
      | Inr cmnct_fd \<Rightarrow> do {
          c \<leftarrow> new_conn e;
          case c of None \<Rightarrow> Some w
          | Some (c, cpool) \<Rightarrow> do {
              (cs, w) \<leftarrow> lts_alloc_socket w;
              (pa, cpool) \<leftarrow> lts_palloc (acc_pagesize e) (acc_mem e) cpool 16;
              if cs = 0 \<or> pa = None then None
              else do {
                let w = upd_skt cs (\<lambda>k. k\<lparr> fd := cmnct_fd, peer_addr := acc_clt e, ev_mask := or EPOLLET EPOLLIN,
                  conn_of := Some c, do_read := Do_recv, do_write := Do_send, app_ctx := 0 \<rparr>) w;
                let w = epoll_event_add cs w;
                w \<leftarrow> skt_timer_init cs 0 True w;
                w \<leftarrow> (if keepalive > 0 then do {
                        h \<leftarrow> timer_reset_retry cs (of_int (current_time w + keepalive * 10)) (timer_heap w);
                        Some (w\<lparr> timer_heap := h \<rparr>) }
                      else Some w);
                let w = lts_watch_list_add cs w;
                let w = w\<lparr> current_conns := current_conns w + 1 \<rparr>;
                callback (on_connected app) cs w } } })"

section \<open>Receiving and sending\<close>

text \<open>Writing one of the buffers of a connection.\<close>

definition set_rbuf :: "addr \<Rightarrow> buffer \<Rightarrow> 'a net_scheme \<Rightarrow> 'a net_scheme" where
  "set_rbuf cs b = upd_skt cs (\<lambda>k. k\<lparr> conn_of := map_option (\<lambda>c. c\<lparr> rbuf := b \<rparr>) (conn_of k) \<rparr>)"

definition set_sbuf :: "addr \<Rightarrow> buffer \<Rightarrow> 'a net_scheme \<Rightarrow> 'a net_scheme" where
  "set_sbuf cs b = upd_skt cs (\<lambda>k. k\<lparr> conn_of := map_option (\<lambda>c. c\<lparr> sbuf := b \<rparr>) (conn_of k) \<rparr>)"

text \<open>\<open>recv\<close> fails, or stores bytes; none is the end of the stream.\<close>

definition recv_result ::
  "'a net_scheme app_itfc \<Rightarrow> int \<Rightarrow> errno + bstr \<Rightarrow> addr \<Rightarrow> buffer \<Rightarrow> 'a net_scheme \<Rightarrow> 'a net_scheme option" where
  "recv_result app keepalive rx cs buf w = (case rx of
       Inl err \<Rightarrow>
         if err = E_AGAIN \<or> err = E_WOULDBLOCK then do {
           let w = upd_skt cs (\<lambda>k. k\<lparr> readable := False \<rparr>) w;
           w \<leftarrow> service app cs w;
           c \<leftarrow> conn_of (skts w cs);
           Some (if \<not> lts_buffer_empty (sbuf c) \<and> \<not> has (ev_mask (skts w cs)) EPOLLOUT
                 then epoll_event_mod cs (upd_skt cs (\<lambda>k. k\<lparr> ev_mask := or (ev_mask k) EPOLLOUT \<rparr>) w)
                 else w) }
         else lts_close_conn app keepalive cs w
     | Inr data \<Rightarrow>
         if data = [] then lts_close_conn app keepalive cs w
         else do {
           m \<leftarrow> wrn (b_mem buf) (b_last buf - b_start buf) data;
           Some (set_rbuf cs (buf\<lparr> b_mem := m, b_last := b_last buf + int (length data) \<rparr>) w) })"

definition lts_recv :: "'a net_scheme app_itfc \<Rightarrow> int \<Rightarrow> errno + bstr \<Rightarrow> addr \<Rightarrow> 'a net_scheme \<Rightarrow> 'a net_scheme option" where
  "lts_recv app keepalive rx cs w = do {
     c \<leftarrow> conn_of (skts w cs);
     buf \<leftarrow> (if lts_buffer_full (rbuf c) then lts_buffer_drop_accessed (rbuf c) else Some (rbuf c));
     let w = set_rbuf cs buf w;
     if lts_buffer_full buf then None else recv_result app keepalive rx cs buf w }"

text \<open>All data is sent: the buffer is cleared, and write events are switched off unless the application
  has produced more.\<close>

definition send_done :: "'a net_scheme app_itfc \<Rightarrow> addr \<Rightarrow> buffer \<Rightarrow> 'a net_scheme \<Rightarrow> 'a net_scheme option" where
  "send_done app cs buf w = do {
     let w = set_sbuf cs (lts_buffer_clear buf) w;
     w \<leftarrow> send_more app cs w;
     c \<leftarrow> conn_of (skts w cs);
     Some (if lts_buffer_empty (sbuf c)
           then epoll_event_mod cs (upd_skt cs (\<lambda>k. k\<lparr> writable := False, ev_mask := and (ev_mask k) (not EPOLLOUT) \<rparr>) w)
           else w) }"

definition lts_send :: "'a net_scheme app_itfc \<Rightarrow> int \<Rightarrow> errno + nat \<Rightarrow> addr \<Rightarrow> 'a net_scheme \<Rightarrow> 'a net_scheme option" where
  "lts_send app keepalive tx cs w = do {
     c \<leftarrow> conn_of (skts w cs);
     let buf = sbuf c;
     if lts_buffer_empty buf then Some (upd_skt cs (\<lambda>k. k\<lparr> writable := False \<rparr>) w)
     else if b_seek buf \<ge> b_last buf then None
     else case tx of
       Inl err \<Rightarrow> if err = E_AGAIN \<or> err = E_WOULDBLOCK then Some w else lts_close_conn app keepalive cs w
     | Inr sent \<Rightarrow> do {
         let buf = buf\<lparr> b_seek := b_seek buf + int sent \<rparr>;
         let w = set_sbuf cs buf w;
         if b_seek buf = b_last buf then send_done app cs buf w else Some w } }"

section \<open>The epoll round\<close>

text \<open>The timeout: \<open>key\<close> is \<open>uintptr_t\<close>, so the difference is taken modulo \<open>2^64\<close> and truncated to
  \<open>int\<close>.\<close>

definition epoll_timeout :: "'a net_scheme \<Rightarrow> int option" where
  "epoll_timeout w = do {
     m \<leftarrow> lts_timer_min (timer_heap w);
     Some (if \<not> dlist_empty lts_post_list (links w) then 0
           else if m \<noteq> 0
             then let t = sint (ucast ((rm_key (timer_heap w) m - of_int (current_time w)) * 100) :: 32 word)
                  in if t \<le> 0 then 0 else t
           else -1) }"

definition epoll_event :: "(32 word \<times> addr \<times> bool) \<Rightarrow> 'a net_scheme \<Rightarrow> 'a net_scheme" where
  "epoll_event ev w = (case ev of (revents, cs, inst) \<Rightarrow>
     if inst \<noteq> instance_bit (skts w cs) then w
     else let revents = (if has revents (or EPOLLERR EPOLLHUP) \<and> \<not> has revents (or EPOLLIN EPOLLOUT)
                         then or revents (or EPOLLIN EPOLLOUT) else revents);
              w = (if has revents EPOLLIN then lts_post_list_add cs (upd_skt cs (\<lambda>k. k\<lparr> readable := True \<rparr>) w) else w)
          in if has revents EPOLLOUT then lts_post_list_add cs (upd_skt cs (\<lambda>k. k\<lparr> writable := True \<rparr>) w) else w)"

text \<open>\<open>tick\<close> is the time of day when the clock signal arrived in the meantime; the result is 0 or -1.\<close>

definition epoll_process_events ::
  "(int \<times> int) option \<Rightarrow> errno + (32 word \<times> addr \<times> bool) list \<Rightarrow> 'a net_scheme \<Rightarrow> (int \<times> 'a net_scheme) option" where
  "epoll_process_events tick evs w = do {
     _ \<leftarrow> epoll_timeout w;
     let w = (case tick of None \<Rightarrow> w | Some (sec, usec) \<Rightarrow> w\<lparr> current_time := lts_update_time sec usec \<rparr>);
     Some (case evs of
         Inl err \<Rightarrow> if err = E_INTR then (0, w) else (-1, w)
       | Inr evs \<Rightarrow> (0, fold epoll_event evs w)) }"

section \<open>The post list\<close>

text \<open>\<open>process_post_list\<close> (\<open>src/modules/latasia.c\<close>).  \<open>dispatch k\<close> runs a handler in the \<open>k\<close>th step; the
  loops read the successor before the body.\<close>

partial_function (option) post_loop ::
  "(nat \<Rightarrow> handler \<Rightarrow> addr \<Rightarrow> 'a net_scheme \<Rightarrow> 'a net_scheme option) \<Rightarrow> nat \<Rightarrow> addr \<Rightarrow> addr \<Rightarrow> 'a net_scheme \<Rightarrow> 'a net_scheme option" where
  "post_loop dispatch k pos cur_next w =
     (if pos = lts_post_list then Some w
      else do {
        w \<leftarrow> (if readable (skts w pos) \<and> do_read (skts w pos) \<noteq> NoHandler
              then dispatch k (do_read (skts w pos)) pos w else Some w);
        w \<leftarrow> (if writable (skts w pos) \<and> do_write (skts w pos) \<noteq> NoHandler
              then dispatch k (do_write (skts w pos)) pos w else Some w);
        post_loop dispatch (k + 1) cur_next (mp_next (links w) cur_next) w })"

declare post_loop.simps [code]

partial_function (option) post_clean :: "addr \<Rightarrow> addr \<Rightarrow> 'a net_scheme \<Rightarrow> 'a net_scheme option" where
  "post_clean pos cur_next w =
     (if pos = lts_post_list then Some w
      else let w = (if \<not> readable (skts w pos) \<and> \<not> writable (skts w pos) then lts_watch_list_add pos w else w)
           in post_clean cur_next (mp_next (links w) cur_next) w)"

declare post_clean.simps [code]

definition process_post_list ::
  "(nat \<Rightarrow> handler \<Rightarrow> addr \<Rightarrow> 'a net_scheme \<Rightarrow> 'a net_scheme option) \<Rightarrow> 'a net_scheme \<Rightarrow> 'a net_scheme option" where
  "process_post_list dispatch w = do {
     let first = mp_next (links w) lts_post_list;
     w \<leftarrow> post_loop dispatch 0 first (mp_next (links w) first) w;
     let first = mp_next (links w) lts_post_list;
     post_clean first (mp_next (links w) first) w }"

text \<open>The expiry loop of the event loops, with the callback of the sockets.\<close>

partial_function (option) expire_timers :: "'a net_scheme app_itfc \<Rightarrow> int \<Rightarrow> 'a net_scheme \<Rightarrow> 'a net_scheme option" where
  "expire_timers app keepalive w = do {
     m \<leftarrow> lts_timer_min (timer_heap w);
     if m = 0 then Some w
     else if of_int (current_time w) < rm_key (timer_heap w) m then Some w
     else do {
       (ok, h) \<leftarrow> lts_timer_del (timer_heap w) m;
       if \<not> ok then None
       else do {
         let w = w\<lparr> timer_heap := h \<rparr>;
         w \<leftarrow> (if on_timeout (skts w m) then lts_timeout app keepalive m w else Some w);
         expire_timers app keepalive w } } }"

declare expire_timers.simps [code]

end
