(* ===== verification/EventInv.thy ===== *)
theory EventInv
  imports EventCore
begin

text \<open>
  The invariant of the event modules and what their operations do to it, for every application
  that keeps the contract \<open>net_app\<close>.

  \<open>net_inv w F X\<close>: the three lists are intact, every connected socket is on the watch or the post
  list, the connection counter counts the connected sockets, and (with keep-alive on) exactly
  the connected sockets outside \<open>X\<close> have a timer, each filed under its own key.  \<open>X\<close> is the socket
  whose timer has just fired.
\<close>

section \<open>The invariant\<close>

definition live :: "'a net_scheme \<Rightarrow> addr set" where
  "live w = {s. conn_of (skts w s) \<noteq> None}"

definition timers_ok :: "'a net_scheme \<Rightarrow> addr set \<Rightarrow> bool" where
  "timers_ok w X \<longleftrightarrow> rbmap_inv (timer_heap w) \<and> ran (rbmap_dict (timer_heap w)) \<subseteq> live w - X \<and>
     (\<forall>s\<in>live w - X. rbmap_dict (timer_heap w) (rm_key (timer_heap w) s) = Some s)"

text \<open>The listening sockets and the channels have no connection; their list nodes stay usable.\<close>

definition special :: "'a net_scheme \<Rightarrow> addr set" where
  "special w = {s. do_read (skts w s) \<in> {Do_accept, Do_channel, Do_sub, Do_udp}}"

definition special_ok :: "'a net_scheme \<Rightarrow> (addr \<Rightarrow> addr list) \<Rightarrow> bool" where
  "special_ok w F \<longleftrightarrow> (\<forall>s\<in>special w. s \<noteq> 0 \<and> s \<notin> set (F lts_sock_list) \<and> movable (links w) heads F s)"

definition net_inv :: "'a net_scheme \<Rightarrow> (addr \<Rightarrow> addr list) \<Rightarrow> addr set \<Rightarrow> bool" where
  "net_inv w F X \<longleftrightarrow> sock_lists w F \<and> special_ok w F \<and> live w \<subseteq> set (F lts_watch_list) \<union> set (F lts_post_list) \<and>
     (\<forall>s\<in>live w. c_pool (the (conn_of (skts w s))) \<and> on_timeout (skts w s) \<and> do_read (skts w s) = Do_recv) \<and> timers_ok w X \<and>
     current_conns w = int (card (live w))"

text \<open>What an application leaves alone when it is told of a closing socket: everything but its own
  state and its pointers in the sockets.\<close>

definition app_only :: "'a net_scheme \<Rightarrow> 'a net_scheme \<Rightarrow> bool" where
  "app_only w w' \<longleftrightarrow> (\<forall>s. skts w' s = (skts w s)\<lparr> app_ctx := app_ctx (skts w' s) \<rparr>) \<and> links w' = links w \<and>
     sock_cache_n w' = sock_cache_n w \<and> sock_inuse_n w' = sock_inuse_n w \<and> timer_heap w' = timer_heap w \<and>
     current_time w' = current_time w \<and> current_conns w' = current_conns w \<and> interest w' = interest w"

lemma app_only_refl [simp]: "app_only w w"
  by (simp add: app_only_def)

lemma app_only_skt:
  assumes "app_only w w'"
  shows "conn_of (skts w' s) = conn_of (skts w s)" "on_timeout (skts w' s) = on_timeout (skts w s)"
    "readable (skts w' s) = readable (skts w s)" "writable (skts w' s) = writable (skts w s)"
    "do_write (skts w' s) = do_write (skts w s)" "do_read (skts w' s) = do_read (skts w s)"
  using assms unfolding app_only_def by (metis skt.select_convs skt.surjective skt.update_convs(13))+

lemma live_cong: "(\<And>s. conn_of (skts w' s) = None \<longleftrightarrow> conn_of (skts w s) = None) \<Longrightarrow> live w' = live w"
  by (simp add: live_def)

lemma special_cong: "(\<And>s. do_read (skts w' s) = do_read (skts w s)) \<Longrightarrow> special w' = special w"
  by (simp add: special_def)

lemma conns_simps [simp]:
  "live (w\<lparr> current_conns := n \<rparr>) = live w" "timers_ok (w\<lparr> current_conns := n \<rparr>) X = timers_ok w X"
  "sock_lists (w\<lparr> current_conns := n \<rparr>) F = sock_lists w F" "special_ok (w\<lparr> current_conns := n \<rparr>) F = special_ok w F"
  by (simp_all add: live_def timers_ok_def sock_lists_def special_ok_def special_def)

lemma net_inv_cong:
  assumes "net_inv w F X" and "\<And>s. conn_of (skts w' s) = None \<longleftrightarrow> conn_of (skts w s) = None"
    and "\<And>s. s \<in> live w \<Longrightarrow> c_pool (the (conn_of (skts w' s))) = c_pool (the (conn_of (skts w s)))"
    and "\<And>s. s \<in> live w \<Longrightarrow> on_timeout (skts w' s) = on_timeout (skts w s)" and "\<And>s. do_read (skts w' s) = do_read (skts w s)"
    and "links w' = links w" "sock_cache_n w' = sock_cache_n w" "timer_heap w' = timer_heap w" "current_conns w' = current_conns w"
  shows "net_inv w' F X"
proof -
  have "live w' = live w" by (rule live_cong) (rule assms(2))
  moreover have "special w' = special w" by (rule special_cong) (rule assms(5))
  ultimately show ?thesis using assms by (simp add: net_inv_def sock_lists_def timers_ok_def special_ok_def)
qed

lemma net_inv_app_only: "net_inv w F X \<Longrightarrow> app_only w w' \<Longrightarrow> net_inv w' F X"
  using app_only_skt [of w w'] by (elim net_inv_cong) (auto simp: app_only_def)

lemma net_inv_live:
  assumes "net_inv w F X" and "s \<in> live w"
  shows "s \<noteq> 0" "s \<notin> set (F lts_sock_list)" "movable (links w) heads F s" "c_pool (the (conn_of (skts w s)))"
    "finite (live w)"
proof -
  have L: "sock_lists w F" "live w \<subseteq> set (F lts_watch_list) \<union> set (F lts_post_list)"
    using assms by (auto simp: net_inv_def)
  then have s: "s \<in> set (F lts_watch_list) \<union> set (F lts_post_list)" using assms(2) by blast
  then have "s \<in> cells heads F" by (auto simp: cells_def)
  then show "s \<noteq> 0" using L(1) unfolding sock_lists_def by metis
  show "s \<notin> set (F lts_sock_list)" "movable (links w) heads F s"
    using s L(1) by (auto simp: sock_lists_def movable_def lists_in_def dlist_in_def)
  show "c_pool (the (conn_of (skts w s)))" using assms by (simp add: net_inv_def)
  show "finite (live w)" using L(2) finite_subset by blast
qed

lemma epoll_mod_simps [simp]:
  "skts (epoll_event_mod s w) = skts w" "links (epoll_event_mod s w) = links w" "timer_heap (epoll_event_mod s w) = timer_heap w"
  "sock_cache_n (epoll_event_mod s w) = sock_cache_n w" "current_conns (epoll_event_mod s w) = current_conns w"
  "current_time (epoll_event_mod s w) = current_time w" "net.more (epoll_event_mod s w) = net.more w"
  by (simp_all add: epoll_event_mod_def Let_def)

lemma net_inv_epoll_mod: "net_inv w F X \<Longrightarrow> net_inv (epoll_event_mod s w) F X"
  by (elim net_inv_cong) simp_all

text \<open>Reading flags and buffers of a socket changes nothing of this.\<close>

lemma live_upd:
  "(\<And>k. conn_of (f k) = None \<longleftrightarrow> conn_of k = None) \<Longrightarrow> live (upd_skt s f w) = live w"
  by (rule live_cong) simp

lemma net_inv_upd:
  assumes "net_inv w F X" and "\<And>k. conn_of (f k) = None \<longleftrightarrow> conn_of k = None"
    and "\<And>k. conn_of k \<noteq> None \<Longrightarrow> c_pool (the (conn_of (f k))) = c_pool (the (conn_of k))" and "\<And>k. on_timeout (f k) = on_timeout k"
    and "\<And>k. do_read (f k) = do_read k"
  shows "net_inv (upd_skt s f w) F X"
  using assms by (intro net_inv_cong [OF assms(1)]) (auto simp: live_def)

lemma net_inv_move:
  assumes i: "net_inv w F X" and s: "movable (links w) heads F s" "s \<noteq> 0" "s \<notin> set (F lts_sock_list)"
    and l: "l \<in> {lts_watch_list, lts_post_list}"
  shows "net_inv (list_move l s w) (moved l s F) X"
proof -
  have L: "sock_lists w F" using i by (simp add: net_inv_def)
  have "sock_lists (list_move l s w) (moved l s F)" by (rule sock_lists_move [OF L l s])
  moreover have "live (list_move l s w) = live w" "special (list_move l s w) = special w" by (simp_all add: live_def special_def)
  moreover have "special_ok (list_move l s w) (moved l s F)"
    using i l movable_move [of "links w" heads F l s] s(1) L
    by (auto simp: net_inv_def special_ok_def special_def list_move_def moved_def sock_lists_def)
  ultimately show ?thesis using i l by (auto simp: net_inv_def moved_def timers_ok_def)
qed

text \<open>Nothing that concerns an application: its own state, the sockets that are connected and their
  pointers to it.\<close>

definition unrelated :: "'a net_scheme \<Rightarrow> 'a net_scheme \<Rightarrow> bool" where
  "unrelated w w' \<longleftrightarrow> net.more w' = net.more w \<and> live w \<subseteq> live w' \<and> (\<forall>x\<in>live w. app_ctx (skts w' x) = app_ctx (skts w x))"

definition dropped :: "addr \<Rightarrow> 'a net_scheme \<Rightarrow> 'a net_scheme \<Rightarrow> bool" where
  "dropped s w w' \<longleftrightarrow> net.more w' = net.more w \<and> live w' = live w - {s} \<and> (\<forall>x. app_ctx (skts w' x) = app_ctx (skts w x))"

lemma unrelated_refl [simp]: "unrelated w w"
  by (simp add: unrelated_def)

lemma unrelated_trans: "unrelated w w1 \<Longrightarrow> unrelated w1 w2 \<Longrightarrow> unrelated w w2"
  by (auto simp: unrelated_def subset_eq)

lemma unrelatedI:
  assumes "net.more w' = net.more w" and "\<And>x. app_ctx (skts w' x) = app_ctx (skts w x)"
    and "\<And>x. conn_of (skts w' x) = None \<longleftrightarrow> conn_of (skts w x) = None"
  shows "unrelated w w'"
  using assms live_cong [of w' w] by (simp add: unrelated_def)

lemma unrelated_steps [simp]:
  "unrelated w (list_move l s w)" "unrelated w (epoll_event_mod s w)" "unrelated w (w\<lparr> timer_heap := h \<rparr>)"
  "unrelated w (w\<lparr> current_time := t \<rparr>)" "unrelated w (w\<lparr> interest := i \<rparr>)" "unrelated w (w\<lparr> channel_signal := x \<rparr>)"
  by (auto intro!: unrelatedI)

lemma unrelated_upd:
  "(\<And>k. app_ctx (f k) = app_ctx k) \<Longrightarrow> (\<And>k. conn_of (f k) = None \<longleftrightarrow> conn_of k = None) \<Longrightarrow> unrelated w (upd_skt s f w)"
  by (rule unrelatedI) simp_all

lemma unrelated_bufs [simp]: "unrelated w (set_rbuf s b w)" "unrelated w (set_sbuf s b w)"
  by (simp_all add: set_rbuf_def set_sbuf_def unrelated_upd)

section \<open>Closing a connection\<close>

lemma timer_del_when_closing:
  assumes t: "timers_ok w X" and X: "X \<subseteq> {cs}" and c: "cs \<in> live w" "cs \<noteq> 0"
    and k: "cs \<in> X \<longrightarrow> rbmap_dict (timer_heap w) (rm_key (timer_heap w) cs) = None"
  shows "\<exists>h. lts_timer_del (timer_heap w) cs = Some (True, h) \<and> rbmap_inv h \<and> rm_key h = rm_key (timer_heap w) \<and>
    rbmap_dict h = (rbmap_dict (timer_heap w))(rm_key (timer_heap w) cs := None)"
proof (cases "cs \<in> X")
  case True
  then show ?thesis using lts_timer_del_absent [of "timer_heap w" cs] t k c(2) by (auto simp: timers_ok_def fun_upd_idem)
next
  case False
  then show ?thesis using lts_timer_del_linked [of "timer_heap w" cs] t c(1) by (auto simp: timers_ok_def)
qed

lemma lts_close_conn_correct:
  assumes i: "net_inv w F X" and ka: "0 < ka" and c: "cs \<in> live w" and X: "X \<subseteq> {cs}"
    and k: "cs \<in> X \<longrightarrow> rbmap_dict (timer_heap w) (rm_key (timer_heap w) cs) = None"
    and app: "callback (on_closing app) cs w = Some w1" "app_only w w1"
  shows "\<exists>w'. lts_close_conn app ka cs w = Some w' \<and> net_inv w' (moved lts_sock_list cs F) {} \<and> live w' = live w - {cs} \<and>
    current_time w' = current_time w \<and>
    (\<forall>s. s \<noteq> cs \<longrightarrow> skts w' s = skts w1 s) \<and> skts w' cs = (skts w1 cs)\<lparr> conn_of := None \<rparr> \<and>
    rbmap_dict (timer_heap w') = (rbmap_dict (timer_heap w))(rm_key (timer_heap w) cs := None) \<and> net.more w' = net.more w1 \<and>
    rm_key (timer_heap w') = rm_key (timer_heap w)"
proof -
  have i1: "net_inv w1 F X" using net_inv_app_only [OF i app(2)] .
  have eq: "timer_heap w1 = timer_heap w" "live w1 = live w" "current_time w1 = current_time w"
    using app(2) app_only_skt(1) [OF app(2)] by (auto simp: app_only_def live_def)
  note l1 = net_inv_live [OF i1, unfolded eq(2), OF c]
  let ?d = "rbmap_dict (timer_heap w)" and ?key = "rm_key (timer_heap w)"
  have t: "timers_ok w1 X" using i1 by (simp add: net_inv_def)
  obtain h where h: "lts_timer_del (timer_heap w) cs = Some (True, h)" "rbmap_inv h" "rm_key h = ?key" "rbmap_dict h = ?d(?key cs := None)"
    using timer_del_when_closing [OF t X _ l1(1)] c k unfolding eq by blast
  obtain cn where cn: "conn_of (skts w1 cs) = Some cn" "c_pool cn" using c l1(4) unfolding eq(2) [symmetric] by (auto simp: live_def)
  let ?w2 = "(epoll_event_del cs w1)\<lparr> timer_heap := h \<rparr>"
  let ?w3 = "upd_skt cs (\<lambda>k. k\<lparr> conn_of := None \<rparr>) ?w2"
  let ?w4 = "lts_free_socket cs ?w3"
  let ?w5 = "?w4\<lparr> current_conns := current_conns w1 - 1 \<rparr>"
  have cc: "current_conns w1 = int (card (live w))" using i1 eq by (simp add: net_inv_def)
  then have pos: "0 < current_conns w1" using c l1(5) card_gt_0_iff by fastforce
  have e: "lts_close_conn app ka cs w = Some ?w5"
    using app(1) ka h(1) cn pos eq(1) by (simp add: lts_close_conn_def epoll_event_del_def)
  have "sock_lists w1 F" using i1 by (simp add: net_inv_def)
  then have "sock_lists ?w3 F" by (simp add: sock_lists_def epoll_event_del_def)
  moreover have "movable (links ?w3) heads F cs" using l1(3) by (simp add: epoll_event_del_def)
  ultimately have L: "sock_lists ?w4 (moved lts_sock_list cs F)" using free_socket_correct l1(1,2) by blast
  have lv: "live ?w5 = live w - {cs}" using eq(2) by (auto simp: live_def epoll_event_del_def)
  have own: "?key s \<noteq> ?key cs" if "s \<in> live w" "s \<noteq> cs" "cs \<notin> X" for s
    using t that X eq c unfolding timers_ok_def by (metis DiffI option.inject singletonD subsetD)
  have d: "rbmap_dict h (?key s) = Some s" if "s \<in> live w - {cs}" for s
  proof (cases "cs \<in> X")
    case True
    then show ?thesis using that t X eq k h(4) by (auto simp: timers_ok_def fun_upd_idem)
  next
    case False
    then have "?d (?key s) = Some s" using that t X eq by (auto simp: timers_ok_def)
    then show ?thesis using own [of s] that False h(4) by simp
  qed
  have r: "ran (rbmap_dict h) \<subseteq> live w - {cs}"
  proof
    fix a assume "a \<in> ran (rbmap_dict h)"
    then obtain j where j: "?d j = Some a" "j \<noteq> ?key cs" using h(4) by (auto simp: ran_def split: if_splits)
    then have "?key a = j" using rbm.dict_key [of "timer_heap w" j a] t eq(1) by (simp add: timers_ok_def)
    moreover have "a \<in> live w" using j t eq by (auto simp: timers_ok_def ran_def)
    ultimately show "a \<in> live w - {cs}" using j(2) by auto
  qed
  have "timers_ok ?w5 {}" using h(2,3) r d lv by (simp add: timers_ok_def)
  moreover have "current_conns ?w5 = int (card (live ?w5))" using cc c l1(5) lv pos by (simp add: card_Diff_singleton)
  moreover have "live w \<subseteq> set (F lts_watch_list) \<union> set (F lts_post_list)" using i by (simp add: net_inv_def)
  then have "live ?w5 \<subseteq> set (moved lts_sock_list cs F lts_watch_list) \<union> set (moved lts_sock_list cs F lts_post_list)"
    unfolding lv by (auto simp: moved_def)
  moreover have "\<forall>s\<in>live w1. c_pool (the (conn_of (skts w1 s))) \<and> on_timeout (skts w1 s) \<and> do_read (skts w1 s) = Do_recv" using i1 by (simp add: net_inv_def)
  then have "\<forall>s\<in>live ?w5. c_pool (the (conn_of (skts ?w5 s))) \<and> on_timeout (skts ?w5 s) \<and> do_read (skts ?w5 s) = Do_recv"
    unfolding lv using eq(2) by (auto simp: epoll_event_del_def)
  moreover have "special_ok ?w5 (moved lts_sock_list cs F)"
  proof -
    have sp: "special ?w5 = special w1" by (rule special_cong) (simp add: epoll_event_del_def)
    have "do_read (skts w1 cs) = Do_recv" using i1 c eq(2) by (simp add: net_inv_def)
    then have "x \<noteq> cs" if "x \<in> special w1" for x using that by (auto simp: special_def)
    moreover have "links ?w5 = dlist_add_tail lts_sock_list cs (dlist_del cs (links w1))"
      by (simp add: lts_free_socket_def lts_sock_list_add_def list_move_def epoll_event_del_def Let_def)
    moreover have "lists_in (links w1) heads F" "special_ok w1 F" using i1 by (auto simp: net_inv_def sock_lists_def)
    ultimately show ?thesis unfolding special_ok_def sp
      using movable_move [of "links w1" heads F lts_sock_list cs] l1(3) by (auto simp: moved_def)
  qed
  ultimately have "net_inv ?w5 (moved lts_sock_list cs F) {}" using L by (simp add: net_inv_def sock_lists_def)
  then show ?thesis using e lv h(3,4) eq by (simp add: epoll_event_del_def)
qed

section \<open>Arming a timer\<close>

lemma card_dict:
  assumes "rbmap_inv h" and "ran (rbmap_dict h) \<subseteq> A" and "finite A"
  shows "card (dom (rbmap_dict h)) \<le> card A"
proof (rule card_inj_on_le [where f = "\<lambda>k. the (rbmap_dict h k)"])
  show "inj_on (\<lambda>k. the (rbmap_dict h k)) (dom (rbmap_dict h))"
  proof (rule inj_onI)
    fix j k assume "j \<in> dom (rbmap_dict h)" "k \<in> dom (rbmap_dict h)" "the (rbmap_dict h j) = the (rbmap_dict h k)"
    then show "j = k" using rbm.dict_key [OF assms(1), of j] rbm.dict_key [OF assms(1), of k] by auto
  qed
qed (use assms in \<open>auto simp: ran_def\<close>)

lemma timer_reset_retry_total:
  assumes t: "timer_ok h n" and c: "card (dom (rbmap_dict h)) < 2 ^ 64"
  shows "\<exists>h' k. timer_reset_retry n t h = Some h' \<and> rbmap_inv h' \<and> without h n k = None \<and>
    rbmap_dict h' = (without h n)(k \<mapsto> n) \<and> rm_key h' = (rm_key h)(n := k)"
proof -
  have "card (dom (rbmap_dict h)) < card (UNIV :: 64 word set)" using c by (simp add: card_word)
  then have "dom (rbmap_dict h) \<noteq> UNIV" by (intro notI) simp
  then obtain k where "rbmap_dict h k = None" by auto
  then have "without h n k = None" by (simp add: without_def)
  then obtain i where i: "without h n (t + of_nat i) = None" "\<forall>j < i. without h n (t + of_nat j) \<noteq> None"
    using retry_index_exists by blast
  from timer_reset_retry_correct [OF t this] i(1) show ?thesis by (auto simp: timer_ok_def)
qed

section \<open>Accepting a connection\<close>

lemma new_conn_pool: "new_conn e = Some (Some (c, p)) \<Longrightarrow> c_pool c"
  by (auto simp: new_conn_def bind_eq_Some_conv split: option.splits)

text \<open>A socket from the cache becomes a connection with an armed timer on the watch list.\<close>

lemma open_conn:
  assumes i: "net_inv w F {}" and a: "lts_alloc_socket w = Some (cs, w1)" "cs \<noteq> 0" and c: "c_pool c"
    and lim: "current_conns w < 2 ^ 63"
    and w2: "w2 = epoll_event_add cs (upd_skt cs (\<lambda>k. k\<lparr> fd := fd', peer_addr := pa, ev_mask := m,
      conn_of := Some c, do_read := Do_recv, do_write := Do_send, app_ctx := 0 \<rparr>) w1)"
  shows "\<exists>w3 h. skt_timer_init cs 0 True w2 = Some w3 \<and> timer_reset_retry cs t (timer_heap w3) = Some h \<and>
    net_inv ((lts_watch_list_add cs (w3\<lparr> timer_heap := h \<rparr>))\<lparr> current_conns := current_conns w3 + 1 \<rparr>)
      (moved lts_watch_list cs (F(lts_sock_list := tl (F lts_sock_list)))) {} \<and>
    cs \<notin> live w \<and> live (lts_watch_list_add cs (w3\<lparr> timer_heap := h \<rparr>)) = insert cs (live w) \<and>
    unrelated w ((lts_watch_list_add cs (w3\<lparr> timer_heap := h \<rparr>))\<lparr> current_conns := current_conns w3 + 1 \<rparr>)"
proof -
  have L: "sock_lists w F" and t: "timers_ok w {}" using i by (auto simp: net_inv_def)
  let ?d = "rbmap_dict (timer_heap w)" and ?F = "F(lts_sock_list := tl (F lts_sock_list))"
  have ne: "F lts_sock_list \<noteq> []" using alloc_socket_none [OF L] a by auto
  define s where "s = hd (F lts_sock_list)"
  have s: "F lts_sock_list = s # tl (F lts_sock_list)" using ne by (simp add: s_def)
  have sl: "s \<notin> live w"
  proof
    assume "s \<in> live w"
    from net_inv_live(2) [OF i this] show False using s by (metis list.set_intros(1))
  qed
  then have sr: "s \<notin> ran ?d" using t by (auto simp: timers_ok_def)
  have ti: "rbmap_inv (timer_heap w)" using t by (simp add: timers_ok_def)
  obtain w1' where "lts_alloc_socket w = Some (s, w1')" and al: "sock_lists w1' ?F" "s \<notin> cells heads ?F" "s \<noteq> 0"
      "self_linked (links w1') s" "skts w1' = (skts w)(s := fresh_skt (current_time w) (skts w s))" "rbmap_inv (timer_heap w1')"
      "rbmap_dict (timer_heap w1') = ?d" "current_conns w1' = current_conns w"
      "\<And>x. x \<noteq> s \<Longrightarrow> movable (links w) heads F x \<Longrightarrow> movable (links w1') heads ?F x" "net.more w1' = net.more w"
    using alloc_socket_some [OF L s ti sr] by auto
  then have cs: "cs = s" "w1' = w1" using a(1) by simp_all
  have w2s: "timer_heap w2 = timer_heap w1" "links w2 = links w1" "sock_cache_n w2 = sock_cache_n w1"
    "current_conns w2 = current_conns w" "\<And>x. x \<noteq> cs \<Longrightarrow> skts w2 x = skts w x" "conn_of (skts w2 cs) = Some c" "do_read (skts w2 cs) = Do_recv"
    using al(5,8) unfolding w2 cs by (auto simp: epoll_event_add_def Let_def)
  have more: "net.more w2 = net.more w" using al(10) cs(2) unfolding w2 by (simp add: epoll_event_add_def Let_def)
  obtain h0 where h0: "lts_rbmap_node_init cs 0 (timer_heap w2) = Some h0" "rbmap_inv h0" "rbmap_dict h0 = ?d" "is_empty h0 cs"
    using rbmap_node_init_law [of "timer_heap w1" cs 0] al(3,6,7) sr unfolding w2s cs by auto
  let ?w3 = "upd_skt cs (\<lambda>k. k\<lparr> on_timeout := True \<rparr>) (w2\<lparr> timer_heap := h0 \<rparr>)"
  have w3: "skt_timer_init cs 0 True w2 = Some ?w3" using h0(1) by (simp add: skt_timer_init_def lts_timer_node_init_def)
  have fin: "finite (live w)" using i unfolding net_inv_def by (meson finite_UnI finite_set finite_subset)
  have "card (dom (rbmap_dict h0)) \<le> card (live w)"
    by (rule card_dict [OF h0(2) _ fin]) (use t h0(3) in \<open>auto simp: timers_ok_def\<close>)
  moreover have "int (card (live w)) < 2 ^ 63" using i lim by (simp add: net_inv_def)
  then have "card (live w) < 2 ^ 63" by simp
  ultimately have "card (dom (rbmap_dict h0)) < 2 ^ 64" by simp
  moreover have "timer_ok h0 cs" using h0 al(3) cs by (simp add: timer_ok_def)
  moreover have wo: "without h0 cs = ?d" using without_empty [OF h0(2,4)] h0(3) by simp
  ultimately obtain h k where h: "timer_reset_retry cs t h0 = Some h" "rbmap_inv h" "?d k = None" "rbmap_dict h = ?d(k \<mapsto> cs)"
      "rm_key h = (rm_key h0)(cs := k)"
    using timer_reset_retry_total [of h0 cs t] by metis
  let ?w4 = "?w3\<lparr> timer_heap := h \<rparr>"
  let ?w5 = "lts_watch_list_add cs ?w4"
  have lv: "live ?w5 = insert cs (live w)"
  proof -
    have "(conn_of (skts ?w5 x) \<noteq> None) = (x = cs \<or> conn_of (skts w x) \<noteq> None)" for x
      using w2s(5,6) by (cases "x = cs") (auto simp: list_adds)
    then show ?thesis by (auto simp: live_def)
  qed
  have key: "rm_key h0 x = rm_key (timer_heap w) x" if "?d j = Some x" for x j
    using rbm.dict_key [OF ti that] rbm.dict_key [OF h0(2), of j x] h0(3) that by simp
  have "timers_ok ?w5 {}"
  proof -
    have "rbmap_dict h (rm_key h x) = Some x" if "x \<in> insert cs (live w)" for x
    proof (cases "x = cs")
      case False
      then have "?d (rm_key (timer_heap w) x) = Some x" using t that by (auto simp: timers_ok_def)
      then show ?thesis using key [of _ x] h(3-5) False by auto
    qed (simp add: h(4,5))
    moreover have "ran (rbmap_dict h) \<subseteq> insert cs (live w)" using t h(3,4) by (auto simp: timers_ok_def ran_def split: if_splits)
    ultimately show ?thesis using h(2) lv by (simp add: timers_ok_def list_adds)
  qed
  moreover have "sock_lists ?w5 (moved lts_watch_list cs ?F)"
    unfolding lts_watch_list_add_def
  proof (rule sock_lists_move)
    show "sock_lists ?w4 ?F" using al(1) w2s cs by (simp add: sock_lists_def)
    show "movable (links ?w4) heads ?F cs" using al(2,4) w2s cs by (auto simp: movable_def cells_def)
  qed (use al(2,3) cs in \<open>auto simp: cells_def\<close>)
  moreover have "live w \<subseteq> set (F lts_watch_list) \<union> set (F lts_post_list)" using i by (simp add: net_inv_def)
  then have "insert cs (live w) \<subseteq> set (moved lts_watch_list cs ?F lts_watch_list) \<union> set (moved lts_watch_list cs ?F lts_post_list)"
    by (auto simp: moved_def)
  moreover have "\<forall>x\<in>insert cs (live w). c_pool (the (conn_of (skts ?w5 x))) \<and> on_timeout (skts ?w5 x) \<and> do_read (skts ?w5 x) = Do_recv"
    using i w2s(5,6,7) c by (auto simp: net_inv_def list_adds)
  moreover have "special_ok ?w5 (moved lts_watch_list cs ?F)"
  proof -
    have so: "special_ok w F" using i by (simp add: net_inv_def)
    have nsp: "cs \<notin> special w" using so s cs by (metis list.set_intros(1) special_ok_def)
    have "do_read (skts ?w5 x) = (if x = cs then Do_recv else do_read (skts w x))" for x
      using w2s(5,7) by (simp add: list_adds)
    then have sp: "special ?w5 = special w" using nsp by (auto simp: special_def)
    have "movable (links w1) heads ?F x" "x \<noteq> cs" "x \<noteq> 0" "x \<notin> set (F lts_sock_list)" if "x \<in> special w" for x
    proof -
      show ne': "x \<noteq> cs" using that nsp by auto
      have "movable (links w) heads F x" using that so by (simp add: special_ok_def)
      from al(9) [OF _ this] ne' cs show "movable (links w1) heads ?F x" by simp
    qed (use that so in \<open>simp_all add: special_ok_def\<close>)
    moreover have "set (tl (F lts_sock_list)) \<subseteq> set (F lts_sock_list)" by (metis list.set_sel(2) ne subsetI)
    moreover have "movable (links w1) heads ?F cs" using al(2,4) cs by (auto simp: movable_def cells_def)
    moreover have "lists_in (links w1) heads ?F" using al(1) cs by (simp add: sock_lists_def)
    moreover have "links ?w5 = dlist_add_tail lts_watch_list cs (dlist_del cs (links w1))"
      using w2s(2) by (simp add: list_adds list_move_def)
    ultimately show ?thesis unfolding special_ok_def sp
      using movable_move [of "links w1" heads ?F lts_watch_list cs] by (auto simp: moved_def)
  qed
  moreover have "card (insert cs (live w)) = Suc (card (live w))" using sl fin cs by simp
  ultimately have "net_inv (?w5\<lparr> current_conns := current_conns ?w3 + 1 \<rparr>) (moved lts_watch_list cs ?F) {}"
    using lv i w2s(4) by (simp add: net_inv_def)
  moreover have "unrelated w (?w5\<lparr> current_conns := current_conns ?w3 + 1 \<rparr>)"
    unfolding unrelated_def using more lv sl cs w2s(5) by (auto simp: list_adds)
  ultimately show ?thesis using w3 h(1) lv sl cs by (intro exI [of _ ?w3] exI [of _ h]) simp
qed

section \<open>Expiry\<close>

text \<open>The contract of an application module with the invariant \<open>keep\<close>: what does not concern the module
  leaves \<open>keep\<close> true; told of a closing socket it changes only its own state and its pointers, and when
  the socket is gone \<open>keep\<close> holds; its other callbacks may also move sockets to the post list, fill buffers
  and set timers, but open and close no connection.\<close>

locale net_app =
  fixes app :: "'a net_scheme app_itfc" and keep :: "'a net_scheme \<Rightarrow> bool"
  assumes framing: "keep w \<Longrightarrow> unrelated w w' \<Longrightarrow> keep w'"
    and closing: "net_inv w F X \<Longrightarrow> s \<in> live w \<Longrightarrow> keep w \<Longrightarrow>
      \<exists>w'. callback (on_closing app) s w = Some w' \<and> app_only w w' \<and> (\<forall>w''. dropped s w' w'' \<longrightarrow> keep w'')"
    and serving: "service app s w = Some w' \<Longrightarrow> net_inv w F {} \<Longrightarrow> s \<in> live w \<Longrightarrow> keep w \<Longrightarrow> current_conns w < 2 ^ 63 \<Longrightarrow>
      (\<exists>F'. net_inv w' F' {}) \<and> live w' = live w \<and> keep w'"
    and sending: "send_more app s w = Some w' \<Longrightarrow> net_inv w F {} \<Longrightarrow> s \<in> live w \<Longrightarrow> keep w \<Longrightarrow> current_conns w < 2 ^ 63 \<Longrightarrow>
      (\<exists>F'. net_inv w' F' {}) \<and> live w' = live w \<and> keep w'"
    and connecting: "callback (on_connected app) s w = Some w' \<Longrightarrow> net_inv w F {} \<Longrightarrow> s \<in> live w \<Longrightarrow> keep w \<Longrightarrow>
      (\<exists>F'. net_inv w' F' {}) \<and> live w' = live w \<and> keep w'"
begin

text \<open>Closing, also by the timer: then the timer is not in the heap any more.\<close>

lemma close_keeps:
  assumes i: "net_inv w F X" and X: "X \<subseteq> {cs}" and c: "cs \<in> live w" and keepalive: "0 < keepalive" and k: "keep w"
    and x: "cs \<in> X \<longrightarrow> rbmap_dict (timer_heap w) (rm_key (timer_heap w) cs) = None"
  shows "\<exists>w'. lts_close_conn app keepalive cs w = Some w' \<and> net_inv w' (moved lts_sock_list cs F) {} \<and> live w' = live w - {cs} \<and>
    keep w' \<and> current_time w' = current_time w \<and> rm_key (timer_heap w') = rm_key (timer_heap w)"
proof -
  obtain w1 where w1: "callback (on_closing app) cs w = Some w1" "app_only w w1" "\<And>w''. dropped cs w1 w'' \<Longrightarrow> keep w''"
    using closing [OF i c k] by blast
  have lv: "live w1 = live w" using app_only_skt(1) [OF w1(2)] by (simp add: live_def)
  obtain w' where w': "lts_close_conn app keepalive cs w = Some w'" "net_inv w' (moved lts_sock_list cs F) {}" "live w' = live w - {cs}"
      "\<forall>s. s \<noteq> cs \<longrightarrow> skts w' s = skts w1 s" "skts w' cs = (skts w1 cs)\<lparr> conn_of := None \<rparr>" "net.more w' = net.more w1"
      "current_time w' = current_time w" "rm_key (timer_heap w') = rm_key (timer_heap w)"
    using lts_close_conn_correct [OF i keepalive c X x w1(1,2)] by blast
  have "app_ctx (skts w' y) = app_ctx (skts w1 y)" for y using w'(4,5) by (cases "y = cs") simp_all
  then have "dropped cs w1 w'" using w'(3,6) lv by (simp add: dropped_def)
  from w1(3) [OF this] w' show ?thesis by blast
qed

lemma close_live:
  assumes "net_inv w F {}" and "cs \<in> live w" and "0 < keepalive" and "keep w"
  shows "\<exists>w'. lts_close_conn app keepalive cs w = Some w' \<and> net_inv w' (moved lts_sock_list cs F) {} \<and> live w' = live w - {cs} \<and> keep w'"
  using close_keeps [OF assms(1) empty_subsetI assms(2-4)] by blast

text \<open>One turn of the expiry loop: the timer that fired is no longer in the heap when the connection
  is closed.\<close>

lemma timeout_closes:
  assumes i: "net_inv w F {}" and keepalive: "0 < keepalive" and k: "keep w"
    and d: "rbmap_dict (timer_heap w) (rm_key (timer_heap w) a) = Some a"
  shows "\<exists>h w'. lts_timer_del (timer_heap w) a = Some (True, h) \<and> on_timeout (skts w a) \<and>
    lts_timeout app keepalive a (w\<lparr> timer_heap := h \<rparr>) = Some w' \<and> net_inv w' (moved lts_sock_list a F) {} \<and>
    live w' = live w - {a} \<and> a \<in> live w \<and> current_time w' = current_time w \<and> rm_key (timer_heap w') = rm_key (timer_heap w) \<and> keep w'"
proof -
  let ?d = "rbmap_dict (timer_heap w)" and ?key = "rm_key (timer_heap w)"
  have t: "timers_ok w {}" using i by (simp add: net_inv_def)
  have a: "a \<in> live w" using t d by (auto simp: timers_ok_def ran_def)
  obtain h where h: "lts_timer_del (timer_heap w) a = Some (True, h)" "rbmap_inv h" "rm_key h = ?key" "rbmap_dict h = ?d(?key a := None)"
    using timer_del_when_closing [OF t empty_subsetI a net_inv_live(1) [OF i a]] by auto
  let ?w = "w\<lparr> timer_heap := h \<rparr>"
  have lv: "live ?w = live w" by (simp add: live_def)
  have "ran (rbmap_dict h) \<subseteq> live w - {a}"
  proof
    fix b assume "b \<in> ran (rbmap_dict h)"
    then obtain j where j: "?d j = Some b" "j \<noteq> ?key a" using h(4) by (auto simp: ran_def split: if_splits)
    then have "?key b = j" using rbm.dict_key [of "timer_heap w" j b] t by (simp add: timers_ok_def)
    moreover have "b \<in> live w" using j t by (auto simp: timers_ok_def ran_def)
    ultimately show "b \<in> live w - {a}" using j(2) by auto
  qed
  moreover have "rbmap_dict h (?key s) = Some s" if "s \<in> live w - {a}" for s
  proof -
    have s: "?d (?key s) = Some s" using t that by (auto simp: timers_ok_def)
    then have "?key s \<noteq> ?key a" using d that by auto
    then show ?thesis using s h(4) by simp
  qed
  ultimately have "timers_ok ?w {a}" using h(2,3) lv by (simp add: timers_ok_def)
  then have i': "net_inv ?w F {a}" using i lv by (simp add: net_inv_def sock_lists_def special_ok_def special_def)
  have "keep ?w" by (rule framing [OF k]) simp
  moreover have "rbmap_dict (timer_heap ?w) (rm_key (timer_heap ?w) a) = None" using h(3,4) by simp
  ultimately obtain w' where w': "lts_close_conn app keepalive a ?w = Some w'" "net_inv w' (moved lts_sock_list a F) {}"
      "live w' = live w - {a}" "current_time w' = current_time w" "rm_key (timer_heap w') = ?key" "keep w'"
    using close_keeps [OF i' subset_refl _ keepalive] a lv h(3) by auto
  have "on_timeout (skts w a)" using i a unfolding net_inv_def by blast
  then show ?thesis unfolding lts_timeout_def using h(1) w' a by blast
qed

text \<open>All connections that are due are closed, and no other; no ASSERT fails.\<close>

lemma expire_closes_due:
  assumes "net_inv w F {}" and "keep w" and keepalive: "0 < keepalive"
  shows "\<exists>w' F'. expire_timers app keepalive w = Some w' \<and> net_inv w' F' {} \<and> keep w' \<and>
    live w' = {s \<in> live w. of_int (current_time w) < rm_key (timer_heap w) s} \<and>
    current_time w' = current_time w \<and> rm_key (timer_heap w') = rm_key (timer_heap w)"
  using assms(1,2)
proof (induction "card (live w)" arbitrary: w F rule: less_induct)
  case less
  let ?h = "timer_heap w" let ?d = "rbmap_dict ?h" and ?key = "rm_key ?h"
  have t: "rbmap_inv ?h" "\<forall>s\<in>live w. ?d (?key s) = Some s" using less.prems by (auto simp: net_inv_def timers_ok_def)
  obtain a where a: "lts_timer_min ?h = Some a"
    "a = 0 \<and> ?d = Map.empty \<or> ?d (?key a) = Some a \<and> (\<forall>k b. ?d k = Some b \<longrightarrow> ?key a \<le> k)"
    using rbm.least [OF t(1)] lts_timer_min_eq by metis
  note unf = expire_timers.simps [of app keepalive w]
  consider (none) "a = 0" "?d = Map.empty" | (later) "a \<noteq> 0" "of_int (current_time w) < ?key a" "\<forall>k b. ?d k = Some b \<longrightarrow> ?key a \<le> k"
    | (due) "a \<noteq> 0" "?key a \<le> of_int (current_time w)" "?d (?key a) = Some a"
  proof -
    have "a = 0 \<longrightarrow> ?d = Map.empty" using a(2) rbm.dict_key [OF t(1), of "?key a" a] by blast
    moreover have "a \<noteq> 0 \<longrightarrow> ?d (?key a) = Some a \<and> (\<forall>k b. ?d k = Some b \<longrightarrow> ?key a \<le> k)" using a(2) by blast
    ultimately show thesis using that not_le by blast
  qed
  then show ?case
  proof cases
    case none
    then have "live w = {}" using t(2) by auto
    moreover have "expire_timers app keepalive w = Some w" using none a(1) by (subst unf) simp
    ultimately show ?thesis using less.prems by auto
  next
    case later
    have "of_int (current_time w) < ?key s" if "s \<in> live w" for s
      using later(2,3) t(2) that by (meson order_less_le_trans)
    moreover have "expire_timers app keepalive w = Some w" using later a(1) by (subst unf) simp
    ultimately show ?thesis using less.prems by auto
  next
    case due
    obtain h w1 where w1: "lts_timer_del ?h a = Some (True, h)" "on_timeout (skts w a)"
        "lts_timeout app keepalive a (w\<lparr> timer_heap := h \<rparr>) = Some w1" "net_inv w1 (moved lts_sock_list a F) {}"
        "live w1 = live w - {a}" "a \<in> live w" "current_time w1 = current_time w" "rm_key (timer_heap w1) = ?key" "keep w1"
      using timeout_closes [OF less.prems(1) keepalive less.prems(2) due(3)] by blast
    have "card (live w1) < card (live w)"
      unfolding w1(5) by (rule card_Diff1_less [OF net_inv_live(5) [OF less.prems(1) w1(6)] w1(6)])
    from less.hyps [OF this w1(4,9)] obtain w' F' where w': "expire_timers app keepalive w1 = Some w'" "net_inv w' F' {}"
        "live w' = {s \<in> live w1. of_int (current_time w) < ?key s}" "current_time w' = current_time w" "rm_key (timer_heap w') = ?key" "keep w'"
      using w1(7,8) by auto
    have "expire_timers app keepalive w = Some w'"
      using a(1) due w1(1-3) w'(1) by (subst unf) (simp add: leD)
    moreover have "live w' = {s \<in> live w. of_int (current_time w) < ?key s}"
      unfolding w'(3) w1(5) using due(2) by auto
    ultimately show ?thesis using w'(2,4,5,6) by blast
  qed
qed

end

section \<open>Every step keeps the invariant\<close>

context net_app
begin

lemma accept_keeps:
  assumes a: "lts_accept app keepalive maxc e ls w = Some w'" and i: "net_inv w F {}" and keepalive: "0 < keepalive" and m: "maxc < 2 ^ 31" and k: "keep w"
  shows "keep w' \<and> (\<exists>F'. net_inv w' F' {} \<and> (live w' = live w \<or> (\<exists>cs. cs \<notin> live w \<and> live w' = insert cs (live w)) \<and> current_conns w < maxc))"
proof -
  have rd: "net_inv (upd_skt ls (\<lambda>k. k\<lparr> readable := False \<rparr>) w) F {}" "live (upd_skt ls (\<lambda>k. k\<lparr> readable := False \<rparr>) w) = live w"
    using i by (simp_all add: live_upd net_inv_upd)
  have kr: "keep (upd_skt ls (\<lambda>k. k\<lparr> readable := False \<rparr>) w)" by (rule framing [OF k]) (simp add: unrelated_upd)
  show ?thesis
  proof (cases "current_conns w \<ge> maxc \<or> (\<exists>err. acc_result e = Inl err)")
    case True
    then have "w' = w \<or> w' = upd_skt ls (\<lambda>k. k\<lparr> readable := False \<rparr>) w"
      using a by (auto simp: lts_accept_def split: if_splits)
    then show ?thesis using i rd k kr by auto
  next
    case False
    then obtain fd' where f: "current_conns w < maxc" "acc_result e = Inr fd'" by (cases "acc_result e") auto
    then obtain nc where nc: "new_conn e = Some nc" using a by (auto simp: lts_accept_def bind_eq_Some_conv split: if_splits)
    show ?thesis
    proof (cases nc)
      case None
      then show ?thesis using a f nc i k by (auto simp: lts_accept_def split: if_splits)
    next
      case (Some p)
      then obtain c cpool where p: "new_conn e = Some (Some (c, cpool))" using nc by (cases p) auto
      obtain cs w1 pa cp where al: "lts_alloc_socket w = Some (cs, w1)" "cs \<noteq> 0"
          "lts_palloc (acc_pagesize e) (acc_mem e) cpool 16 = Some (pa, cp)" "pa \<noteq> None"
        using a f p by (auto simp: lts_accept_def bind_eq_Some_conv split: if_splits)
      let ?w2 = "epoll_event_add cs (upd_skt cs (\<lambda>k. k\<lparr> fd := fd', peer_addr := acc_clt e, ev_mask := or EPOLLET EPOLLIN,
        conn_of := Some c, do_read := Do_recv, do_write := Do_send, app_ctx := 0 \<rparr>) w1)"
      have "(2 :: int) ^ 31 < 2 ^ 63" by simp
      then have lim: "current_conns w < 2 ^ 63" using f(1) m by linarith
      obtain w3 h where w3: "skt_timer_init cs 0 True ?w2 = Some w3"
          "timer_reset_retry cs (of_int (current_time w3 + keepalive * 10)) (timer_heap w3) = Some h"
          "net_inv ((lts_watch_list_add cs (w3\<lparr> timer_heap := h \<rparr>))\<lparr> current_conns := current_conns w3 + 1 \<rparr>)
            (moved lts_watch_list cs (F(lts_sock_list := tl (F lts_sock_list)))) {}"
          "cs \<notin> live w" "live (lts_watch_list_add cs (w3\<lparr> timer_heap := h \<rparr>)) = insert cs (live w)"
          "unrelated w ((lts_watch_list_add cs (w3\<lparr> timer_heap := h \<rparr>))\<lparr> current_conns := current_conns w3 + 1 \<rparr>)"
      proof -
        have ex: "\<exists>w3 h. skt_timer_init cs 0 True ?w2 = Some w3 \<and> timer_reset_retry cs t (timer_heap w3) = Some h \<and>
          net_inv ((lts_watch_list_add cs (w3\<lparr> timer_heap := h \<rparr>))\<lparr> current_conns := current_conns w3 + 1 \<rparr>)
            (moved lts_watch_list cs (F(lts_sock_list := tl (F lts_sock_list)))) {} \<and>
          cs \<notin> live w \<and> live (lts_watch_list_add cs (w3\<lparr> timer_heap := h \<rparr>)) = insert cs (live w) \<and>
          unrelated w ((lts_watch_list_add cs (w3\<lparr> timer_heap := h \<rparr>))\<lparr> current_conns := current_conns w3 + 1 \<rparr>)" for t
          by (rule open_conn [OF i al(1,2) new_conn_pool [OF p] lim refl])
        obtain w3 where A: "skt_timer_init cs 0 True ?w2 = Some w3" using ex [of 0] by blast
        obtain w3' h where B: "skt_timer_init cs 0 True ?w2 = Some w3'"
            "timer_reset_retry cs (of_int (current_time w3 + keepalive * 10)) (timer_heap w3') = Some h"
          "net_inv ((lts_watch_list_add cs (w3'\<lparr> timer_heap := h \<rparr>))\<lparr> current_conns := current_conns w3' + 1 \<rparr>)
            (moved lts_watch_list cs (F(lts_sock_list := tl (F lts_sock_list)))) {}"
          "cs \<notin> live w" "live (lts_watch_list_add cs (w3'\<lparr> timer_heap := h \<rparr>)) = insert cs (live w)"
          "unrelated w ((lts_watch_list_add cs (w3'\<lparr> timer_heap := h \<rparr>))\<lparr> current_conns := current_conns w3' + 1 \<rparr>)"
          using ex [of "of_int (current_time w3 + keepalive * 10)"] by blast
        then have "w3' = w3" using A by simp
        then show thesis using that B by blast
      qed
      let ?w6 = "(lts_watch_list_add cs (w3\<lparr> timer_heap := h \<rparr>))\<lparr> current_conns := current_conns w3 + 1 \<rparr>"
      have "sock_cache_n w \<noteq> 0" using a f by (auto simp: lts_accept_def)
      then have "callback (on_connected app) cs ?w6 = Some w'"
        using a f p al w3(1,2) keepalive by (simp add: lts_accept_def list_adds)
      from connecting [OF this w3(3) _ framing [OF k w3(6)]] w3(4,5) f(1) show ?thesis by auto
    qed
  qed
qed

lemma recv_keeps:
  assumes a: "lts_recv app keepalive rx cs w = Some w'" and i: "net_inv w F {}" and keepalive: "0 < keepalive" and c: "cs \<in> live w"
    and k: "keep w" and b: "current_conns w < 2 ^ 63"
  shows "keep w' \<and> (\<exists>F'. net_inv w' F' {} \<and> (live w' = live w \<or> live w' = live w - {cs}))"
proof -
  have set: "net_inv (set_rbuf cs b w) F {}" "live (set_rbuf cs b w) = live w" if "net_inv w F {}" for b and w :: "'a net_scheme" and F
    unfolding set_rbuf_def using that by (auto intro!: net_inv_upd simp: live_upd option.map_sel)
  obtain buf where unf: "recv_result app keepalive rx cs buf (set_rbuf cs buf w) = Some w'"
    using a by (auto simp: lts_recv_def Let_def bind_eq_Some_conv split: if_splits)
  let ?w1 = "set_rbuf cs buf w"
  have k1: "keep ?w1" by (rule framing [OF k]) simp
  have b1: "current_conns ?w1 = current_conns w" by (simp add: set_rbuf_def)
  obtain wc Fc where cl: "lts_close_conn app keepalive cs ?w1 = Some wc" "net_inv wc Fc {}" "live wc = live w - {cs}" "keep wc"
    using close_live [OF set(1) [OF i] _ keepalive k1, of cs] c unfolding set(2) [OF i] by blast
  show ?thesis
  proof (cases rx)
    case (Inl err)
    show ?thesis
    proof (cases "err = E_AGAIN \<or> err = E_WOULDBLOCK")
      case True
      let ?w2 = "upd_skt cs (\<lambda>k. k\<lparr> readable := False \<rparr>) ?w1"
      have w2: "net_inv ?w2 F {}" "live ?w2 = live w" using set [OF i] by (auto intro: net_inv_upd simp: live_upd)
      have k2: "keep ?w2" by (rule framing [OF k1]) (simp add: unrelated_upd)
      obtain w3 where w3: "service app cs ?w2 = Some w3"
          "w' = epoll_event_mod cs (upd_skt cs (\<lambda>k. k\<lparr> ev_mask := or (ev_mask k) EPOLLOUT \<rparr>) w3) \<or> w' = w3"
        using unf Inl True by (auto simp: recv_result_def Let_def bind_eq_Some_conv split: if_splits)
      obtain F' where F': "net_inv w3 F' {}" "live w3 = live w" "keep w3" using serving [OF w3(1) w2(1) _ k2] w2(2) c b b1 by auto
      let ?g = "\<lambda>k. k\<lparr> ev_mask := or (ev_mask k) EPOLLOUT \<rparr>"
      have "unrelated w3 (epoll_event_mod cs (upd_skt cs ?g w3))"
        by (rule unrelated_trans [OF unrelated_upd unrelated_steps(2)]) simp_all
      from framing [OF F'(3) this] have kg: "keep (epoll_event_mod cs (upd_skt cs ?g w3))" .
      have "net_inv (upd_skt cs ?g w3) F' {}" by (rule net_inv_upd [OF F'(1)]) simp_all
      then have m: "net_inv (epoll_event_mod cs (upd_skt cs ?g w3)) F' {}" by (rule net_inv_epoll_mod)
      have "live (epoll_event_mod cs (upd_skt cs ?g w3)) = live w3" by (rule live_cong) simp
      then show ?thesis using w3(2) F' m kg by blast
    next
      case False
      then have "lts_close_conn app keepalive cs ?w1 = Some w'" using unf Inl by (simp add: recv_result_def)
      then show ?thesis using cl by auto
    qed
  next
    case (Inr data)
    show ?thesis
    proof (cases "data = []")
      case True
      then have "lts_close_conn app keepalive cs ?w1 = Some w'" using unf Inr by (simp add: recv_result_def)
      then show ?thesis using cl by auto
    next
      case False
      then obtain b' where "w' = set_rbuf cs b' ?w1" using unf Inr by (auto simp: recv_result_def bind_eq_Some_conv)
      moreover have "keep (set_rbuf cs b' ?w1)" by (rule framing [OF k1]) simp
      ultimately show ?thesis using set [OF set(1) [OF i]] set(2) [OF i] by auto
    qed
  qed
qed

lemma send_keeps:
  assumes a: "lts_send app keepalive tx cs w = Some w'" and i: "net_inv w F {}" and keepalive: "0 < keepalive" and c: "cs \<in> live w"
    and k: "keep w" and b: "current_conns w < 2 ^ 63"
  shows "keep w' \<and> (\<exists>F'. net_inv w' F' {} \<and> (live w' = live w \<or> live w' = live w - {cs}))"
proof -
  have set: "net_inv (set_sbuf cs b w) F {}" "live (set_sbuf cs b w) = live w" if "net_inv w F {}" for b and w :: "'a net_scheme" and F
    unfolding set_sbuf_def using that by (auto intro!: net_inv_upd simp: live_upd option.map_sel)
  have off: "net_inv (upd_skt cs (\<lambda>k. k\<lparr> writable := False \<rparr>) w) F {}" "live (upd_skt cs (\<lambda>k. k\<lparr> writable := False \<rparr>) w) = live w"
    using i by (simp_all add: live_upd net_inv_upd)
  obtain c0 where c0: "conn_of (skts w cs) = Some c0" using c by (auto simp: live_def)
  have koff: "keep (upd_skt cs (\<lambda>k. k\<lparr> writable := False \<rparr>) w)" by (rule framing [OF k]) (simp add: unrelated_upd)
  have ks: "keep (set_sbuf cs b w)" if "keep w" for b w by (rule framing [OF that]) simp
  obtain wc Fc where cl: "lts_close_conn app keepalive cs w = Some wc" "net_inv wc Fc {}" "live wc = live w - {cs}" "keep wc"
    using close_live [OF i c keepalive k] by blast
  show ?thesis
  proof (cases tx)
    case (Inl err)
    then have "w' = upd_skt cs (\<lambda>k. k\<lparr> writable := False \<rparr>) w \<or> w' = w \<or> w' = wc"
      using a c0 cl(1) by (simp add: lts_send_def Let_def split: if_splits)
    then show ?thesis using off i cl k koff by blast
  next
    case (Inr sent)
    let ?b = "(sbuf c0)\<lparr> b_seek := b_seek (sbuf c0) + int sent \<rparr>"
    let ?w1 = "set_sbuf cs ?b w" and ?g = "\<lambda>k. k\<lparr> writable := False, ev_mask := and (ev_mask k) (not EPOLLOUT) \<rparr>"
    let ?w2 = "set_sbuf cs (lts_buffer_clear ?b) ?w1"
    have "lts_send app keepalive tx cs w = (if lts_buffer_empty (sbuf c0) then Some (upd_skt cs (\<lambda>k. k\<lparr> writable := False \<rparr>) w)
      else if b_seek (sbuf c0) \<ge> b_last (sbuf c0) then None
      else if b_seek ?b = b_last ?b then send_done app cs ?b ?w1 else Some ?w1)"
      unfolding lts_send_def c0 Inr Let_def by simp
    then consider (idle) "w' = upd_skt cs (\<lambda>k. k\<lparr> writable := False \<rparr>) w" | (part) "w' = ?w1" | (all) "send_done app cs ?b ?w1 = Some w'"
      using a by (metis option.distinct(1) option.inject)
    then show ?thesis
    proof cases
      case idle
      then show ?thesis using off koff by blast
    next
      case part
      then show ?thesis using set [OF i] ks [OF k] by blast
    next
      case all
      then obtain w3 where w3: "send_more app cs ?w2 = Some w3" "w' = w3 \<or> w' = epoll_event_mod cs (upd_skt cs ?g w3)"
        by (auto simp: send_done_def Let_def bind_eq_Some_conv split: if_splits)
      have w2: "net_inv ?w2 F {}" "live ?w2 = live w" using set [OF set(1) [OF i]] set(2) [OF i] by auto
      have b2: "current_conns ?w2 < 2 ^ 63" using b by (simp add: set_sbuf_def)
      obtain F' where F': "net_inv w3 F' {}" "live w3 = live w" "keep w3"
        using sending [OF w3(1) w2(1) _ ks [OF ks [OF k]] b2] w2(2) c by auto
      have "unrelated w3 (epoll_event_mod cs (upd_skt cs ?g w3))"
        by (rule unrelated_trans [OF unrelated_upd unrelated_steps(2)]) simp_all
      from framing [OF F'(3) this] have kg: "keep (epoll_event_mod cs (upd_skt cs ?g w3))" .
      have "net_inv (upd_skt cs ?g w3) F' {}" by (rule net_inv_upd [OF F'(1)]) simp_all
      then have m: "net_inv (epoll_event_mod cs (upd_skt cs ?g w3)) F' {}" by (rule net_inv_epoll_mod)
      have "live (epoll_event_mod cs (upd_skt cs ?g w3)) = live w3" by (rule live_cong) simp
      then show ?thesis using w3(2) F' m kg by blast
    qed
  qed
qed

text \<open>A connection whose receive fails is closed, but the post loop still runs its write handler when
  the event was a write event too: the handler follows the NULL connection.\<close>

lemma recv_failure_then_write:
  assumes i: "net_inv w F {}" and kp: "keep w" and keepalive: "0 < keepalive" and c: "conn_of (skts w cs) = Some c" and f: "\<not> lts_buffer_full (rbuf c)"
    and h: "readable (skts w cs)" "writable (skts w cs)" "do_read (skts w cs) = Do_recv" "do_write (skts w cs) = Do_send"
    and d: "\<And>w. dispatch 0 Do_recv cs w = lts_recv app keepalive (Inl err) cs w" "\<And>w. dispatch 0 Do_send cs w = lts_send app keepalive tx cs w"
    and err: "err \<noteq> E_AGAIN" "err \<noteq> E_WOULDBLOCK"
  shows "post_loop dispatch 0 cs nx w = None"
proof -
  have set: "net_inv (set_rbuf cs (rbuf c) w) F {}" "live (set_rbuf cs (rbuf c) w) = live w"
    unfolding set_rbuf_def using i by (auto intro!: net_inv_upd simp: live_upd option.map_sel)
  have cl: "cs \<in> live w" using c by (simp add: live_def)
  have "keep (set_rbuf cs (rbuf c) w)" by (rule framing [OF kp]) simp
  then obtain w1 where w1: "callback (on_closing app) cs (set_rbuf cs (rbuf c) w) = Some w1" "app_only (set_rbuf cs (rbuf c) w) w1"
    using closing [OF set(1)] cl set(2) by blast
  obtain w' where w': "lts_close_conn app keepalive cs (set_rbuf cs (rbuf c) w) = Some w'"
      "skts w' cs = (skts w1 cs)\<lparr> conn_of := None \<rparr>"
    using lts_close_conn_correct [OF set(1) keepalive _ empty_subsetI _ w1] cl set(2) by auto
  have "lts_recv app keepalive (Inl err) cs w = Some w'"
    using c f err w'(1) by (simp add: lts_recv_def recv_result_def)
  moreover have "writable (skts w' cs)" "do_write (skts w' cs) = Do_send" "lts_send app keepalive tx cs w' = None"
    using w'(2) app_only_skt [OF w1(2)] h by (simp_all add: set_rbuf_def lts_send_def)
  moreover have "cs \<noteq> lts_post_list" using net_inv_live(3) [OF i cl] by (auto simp: movable_def)
  ultimately show ?thesis using h d by (subst post_loop.simps) simp
qed

end

section \<open>The epoll timeout\<close>

text \<open>For a timer within 248 days the timeout is exact: tenths of seconds as milliseconds.\<close>

lemma epoll_timeout_exact:
  assumes "dlist_in (links w) lts_post_list []" and "rbmap_inv (timer_heap w)" and "rbmap_dict (timer_heap w) k = Some a"
    and "\<forall>j b. rbmap_dict (timer_heap w) j = Some b \<longrightarrow> k \<le> j"
    and "k = of_int (current_time w + d)" and "d * 100 < 2 ^ 31" and "- (2 ^ 31) \<le> d * 100"
  shows "epoll_timeout w = Some (max 0 (d * 100))"
proof -
  let ?h = "timer_heap w"
  obtain m where m: "lts_rbmap_min ?h = Some m"
    "m = 0 \<and> rbmap_dict ?h = Map.empty \<or> rbmap_dict ?h (rm_key ?h m) = Some m \<and>
      (\<forall>j b. rbmap_dict ?h j = Some b \<longrightarrow> rm_key ?h m \<le> j)"
    using rbm.least [OF assms(2)] by blast
  then have "rbmap_dict ?h (rm_key ?h m) = Some m" "rm_key ?h m \<le> k" using assms(3) by auto
  then have km: "rm_key ?h m = k" "m \<noteq> 0" using assms(4) rbm.dict_key [OF assms(2), of "rm_key ?h m" m] by auto
  have "(k - of_int (current_time w)) * 100 = (of_int (d * 100) :: 64 word)" using assms(5) by simp
  moreover have "(ucast (word_of_int n :: 64 word) :: 32 word) = word_of_int n" for n by transfer simp
  ultimately have "sint (ucast ((k - of_int (current_time w)) * 100) :: 32 word) = sint (of_int (d * 100) :: 32 word)"
    by (simp only:)
  also have "\<dots> = signed_take_bit 31 (d * 100)" by transfer simp
  also have "\<dots> = d * 100" by (rule signed_take_bit_int_eq_self) (use assms(6,7) in simp_all)
  finally show ?thesis using m(1) km dlist_empty_correct [OF assms(1)] by (simp add: epoll_timeout_def lts_timer_min_eq Let_def)
qed

end
