(* ===== verification/EventLoop.thy ===== *)
theory EventLoop
  imports EventInv
begin

text \<open>
  The event loops of \<open>src/modules/latasia.c\<close>.

  A round of a loop waits for events, runs the handlers of the sockets on the post list and then
  the expired timers.  With several workers a round may hold the accept lock, and only then are
  the listening sockets watched.  The answers of the operating system in a round are a \<open>round_env\<close>.
\<close>

section \<open>Handlers\<close>

text \<open>What the system calls of the handlers answer in the \<open>k\<close>th step of a pass over the post list.\<close>

record handler_env =
  he_accept :: "nat \<Rightarrow> accept_env"
  he_recv :: "nat \<Rightarrow> errno + bstr"
  he_send :: "nat \<Rightarrow> errno + nat"
  he_chan :: "nat \<Rightarrow> 32 word option"

abbreviation LTS_CHANNEL_SIGEXIT :: "32 word" where "LTS_CHANNEL_SIGEXIT \<equiv> 1001"

definition channel_do_read :: "32 word option \<Rightarrow> addr \<Rightarrow> 'a net_scheme \<Rightarrow> 'a net_scheme" where
  "channel_do_read rx s w = (case rx of None \<Rightarrow> w | Some sig \<Rightarrow> w\<lparr> channel_signal := sig \<rparr>)"

text \<open>\<open>other\<close> runs the handlers an application module registers for its own channels.\<close>

type_synonym 'w runner = "nat \<Rightarrow> handler \<Rightarrow> addr \<Rightarrow> 'w \<Rightarrow> 'w option"

definition run_handler :: "'a net_scheme app_itfc \<Rightarrow> int \<Rightarrow> int \<Rightarrow> 'a net_scheme runner \<Rightarrow> handler_env \<Rightarrow> 'a net_scheme runner" where
  "run_handler app keepalive maxc other he k h s w = (case h of
     NoHandler \<Rightarrow> Some w
   | Do_accept \<Rightarrow> lts_accept app keepalive maxc (he_accept he k) s w
   | Do_recv \<Rightarrow> lts_recv app keepalive (he_recv he k) s w
   | Do_send \<Rightarrow> lts_send app keepalive (he_send he k) s w
   | Do_channel \<Rightarrow> Some (channel_do_read (he_chan he k) s w)
   | Do_sub \<Rightarrow> other k h s w
   | Do_udp \<Rightarrow> other k h s w)"

section \<open>The accept lock of a worker\<close>

record worker =
  lock_hold :: bool
  accept_disabled :: "32 word"
  listen_array :: "addr list"
  rslt :: "int option"

definition enable_accept_events :: "worker \<Rightarrow> 'a net_scheme \<Rightarrow> worker \<times> 'a net_scheme" where
  "enable_accept_events lp w =
     (if lock_hold lp then (lp, w) else (lp\<lparr> lock_hold := True \<rparr>, fold epoll_event_add (listen_array lp) w))"

definition disable_accept_events :: "worker \<Rightarrow> 'a net_scheme \<Rightarrow> worker \<times> 'a net_scheme" where
  "disable_accept_events lp w =
     (if \<not> lock_hold lp then (lp, w) else (lp\<lparr> lock_hold := False \<rparr>, fold epoll_event_del (listen_array lp) w))"

section \<open>Rounds\<close>

record round_env =
  re_parent :: bool
  re_lock :: bool
  re_tick :: "(int \<times> int) option"
  re_events :: "errno + (32 word \<times> addr \<times> bool) list"
  re_handlers :: handler_env

text \<open>\<open>lts_main_conf.max_connections / 8 - lts_sock_cache_n\<close>, a \<open>size_t\<close>, stored in an \<open>int\<close>.\<close>

definition accept_load :: "int \<Rightarrow> 'a net_scheme \<Rightarrow> 32 word" where
  "accept_load maxc w = ucast (of_int (c_div maxc 8) - sock_cache_n w)"

definition try_accept :: "int \<Rightarrow> bool \<Rightarrow> worker \<Rightarrow> 'a net_scheme \<Rightarrow> worker \<times> 'a net_scheme" where
  "try_accept maxc lock lp w =
     (let d = accept_load maxc w
      in if sint d < 0 then let lp = lp\<lparr> accept_disabled := d \<rparr> in if lock then enable_accept_events lp w else (lp, w)
         else (lp\<lparr> accept_disabled := d - 1 \<rparr>, w))"

text \<open>One round of \<open>event_loop_multi\<close>; the flag tells whether the loop goes on.\<close>

definition multi_round :: "'a net_scheme app_itfc \<Rightarrow> int \<Rightarrow> int \<Rightarrow> 'a net_scheme runner \<Rightarrow> round_env \<Rightarrow>
    worker \<times> 'a net_scheme \<Rightarrow> (bool \<times> worker \<times> 'a net_scheme) option" where
  "multi_round app keepalive maxc other e lw = (let (lp, w) = lw in
     if channel_signal w = LTS_CHANNEL_SIGEXIT \<or> \<not> re_parent e then Some (False, lp, w)
     else let (lp, w) = try_accept maxc (re_lock e) lp w in do {
       (r, w) \<leftarrow> epoll_process_events (re_tick e) (re_events e) w;
       let lp = lp\<lparr> rslt := Some r \<rparr>;
       let (lp, w) = (if lock_hold lp then disable_accept_events lp w else (lp, w));
       if r \<noteq> 0 then Some (False, lp, w)
       else do {
         w \<leftarrow> process_post_list (run_handler app keepalive maxc other (re_handlers e)) w;
         w \<leftarrow> expire_timers app keepalive w;
         Some (True, lp, w) } })"

text \<open>The single worker ignores whether the timer could be deleted.\<close>

partial_function (option) expire_timers_single :: "'a net_scheme app_itfc \<Rightarrow> int \<Rightarrow> 'a net_scheme \<Rightarrow> 'a net_scheme option" where
  "expire_timers_single app keepalive w = do {
     m \<leftarrow> lts_timer_min (timer_heap w);
     if m = 0 then Some w
     else if of_int (current_time w) < rm_key (timer_heap w) m then Some w
     else do {
       (ok, h) \<leftarrow> lts_timer_del (timer_heap w) m;
       let w = w\<lparr> timer_heap := h \<rparr>;
       w \<leftarrow> (if on_timeout (skts w m) then lts_timeout app keepalive m w else Some w);
       expire_timers_single app keepalive w } }"

declare expire_timers_single.simps [code]

definition single_round :: "'a net_scheme app_itfc \<Rightarrow> int \<Rightarrow> int \<Rightarrow> 'a net_scheme runner \<Rightarrow> round_env \<Rightarrow>
    worker \<times> 'a net_scheme \<Rightarrow> (bool \<times> worker \<times> 'a net_scheme) option" where
  "single_round app keepalive maxc other e lw = (let (lp, w) = lw in
     if channel_signal w = LTS_CHANNEL_SIGEXIT \<or> \<not> re_parent e then Some (False, lp, w)
     else do {
       (r, w) \<leftarrow> epoll_process_events (re_tick e) (re_events e) w;
       let lp = lp\<lparr> rslt := Some r \<rparr>;
       if r \<noteq> 0 then Some (False, lp, w)
       else do {
         w \<leftarrow> process_post_list (run_handler app keepalive maxc other (re_handlers e)) w;
         w \<leftarrow> expire_timers_single app keepalive w;
         Some (True, lp, w) } })"

text \<open>Which loop a worker runs (\<open>worker_main\<close>).\<close>

definition event_round :: "bool \<Rightarrow> 'a net_scheme app_itfc \<Rightarrow> int \<Rightarrow> int \<Rightarrow> 'a net_scheme runner \<Rightarrow> round_env \<Rightarrow>
    worker \<times> 'a net_scheme \<Rightarrow> (bool \<times> worker \<times> 'a net_scheme) option" where
  "event_round lts_use_accept_lock = (if lts_use_accept_lock then multi_round else single_round)"

text \<open>A run of rounds; \<open>rslt\<close> is \<open>None\<close> when no round has set it, and is read all the same.\<close>

fun run_rounds :: "(round_env \<Rightarrow> worker \<times> 'w \<Rightarrow> (bool \<times> worker \<times> 'w) option) \<Rightarrow> round_env list \<Rightarrow>
    worker \<times> 'w \<Rightarrow> (bool \<times> worker \<times> 'w) option" where
  "run_rounds step [] lw = Some (True, lw)"
| "run_rounds step (e # es) lw = do { (go, lw) \<leftarrow> step e lw; if go then run_rounds step es lw else Some (False, lw) }"

definition loop_result :: "worker \<Rightarrow> int option" where
  "loop_result lp = map_option (\<lambda>r. if r \<noteq> 0 then -1 else 0) (rslt lp)"

definition event_loop_multi :: "'a net_scheme app_itfc \<Rightarrow> int \<Rightarrow> int \<Rightarrow> 'a net_scheme runner \<Rightarrow> round_env list \<Rightarrow>
    worker \<times> 'a net_scheme \<Rightarrow> (bool \<times> worker \<times> 'a net_scheme) option" where
  "event_loop_multi app keepalive maxc other es lw = run_rounds (multi_round app keepalive maxc other) es lw"

definition event_loop_single :: "'a net_scheme app_itfc \<Rightarrow> int \<Rightarrow> int \<Rightarrow> 'a net_scheme runner \<Rightarrow> round_env list \<Rightarrow>
    worker \<times> 'a net_scheme \<Rightarrow> (bool \<times> worker \<times> 'a net_scheme) option" where
  "event_loop_single app keepalive maxc other es lw =
     (let (lp, w) = lw in run_rounds (single_round app keepalive maxc other) es (lp, fold epoll_event_add (listen_array lp) w))"

section \<open>Events\<close>

definition usable :: "'a net_scheme \<Rightarrow> (addr \<Rightarrow> addr list) \<Rightarrow> addr \<Rightarrow> bool" where
  "usable w F s \<longleftrightarrow> s \<noteq> 0 \<and> s \<notin> set (F lts_sock_list) \<and> movable (links w) heads F s"

lemma live_special_usable: "net_inv w F X \<Longrightarrow> s \<in> live w \<union> special w \<Longrightarrow> usable w F s"
proof (cases "s \<in> live w")
  case True
  assume "net_inv w F X"
  from net_inv_live(1-3) [OF this True] show ?thesis by (simp add: usable_def)
next
  case False
  assume "net_inv w F X" "s \<in> live w \<union> special w"
  then show ?thesis using False by (simp add: usable_def net_inv_def special_ok_def)
qed

text \<open>What the steps of a round leave alone.\<close>

definition same_conns :: "'a net_scheme \<Rightarrow> 'a net_scheme \<Rightarrow> bool" where
  "same_conns w w' \<longleftrightarrow> live w' = live w \<and> special w' = special w \<and> unrelated w w'"

lemma same_conns_refl [simp]: "same_conns w w"
  by (simp add: same_conns_def)

lemma same_conns_trans: "same_conns w w1 \<Longrightarrow> same_conns w1 w2 \<Longrightarrow> same_conns w w2"
  by (auto simp: same_conns_def intro: unrelated_trans)

lemma post_add_keeps:
  assumes i: "net_inv w F {}" and s: "s \<in> live w \<union> special w"
    and f: "\<And>k. conn_of (f k) = conn_of k" "\<And>k. on_timeout (f k) = on_timeout k" "\<And>k. do_read (f k) = do_read k"
      "\<And>k. app_ctx (f k) = app_ctx k"
  shows "net_inv (lts_post_list_add s (upd_skt s f w)) (moved lts_post_list s F) {}"
    "same_conns w (lts_post_list_add s (upd_skt s f w))"
proof -
  have n: "net_inv (upd_skt s f w) F {}" by (rule net_inv_upd [OF i]) (simp_all add: f)
  have u: "usable w F s" by (rule live_special_usable [OF i s])
  then show "net_inv (lts_post_list_add s (upd_skt s f w)) (moved lts_post_list s F) {}"
    unfolding lts_post_list_add_def by (intro net_inv_move [OF n]) (simp_all add: usable_def)
  have "live (lts_post_list_add s (upd_skt s f w)) = live w" by (rule live_cong) (simp add: list_adds f)
  moreover have "special (lts_post_list_add s (upd_skt s f w)) = special w" by (rule special_cong) (simp add: list_adds f)
  moreover have "unrelated w (lts_post_list_add s (upd_skt s f w))" by (rule unrelatedI) (simp_all add: list_adds f)
  ultimately show "same_conns w (lts_post_list_add s (upd_skt s f w))" by (simp add: same_conns_def)
qed

lemma epoll_event_keeps:
  assumes i: "net_inv w F {}" and s: "fst (snd ev) \<in> live w \<union> special w"
  shows "\<exists>F'. net_inv (epoll_event ev w) F' {} \<and> same_conns w (epoll_event ev w)"
proof -
  obtain m c b where ev: "ev = (m, c, b)" by (cases ev) auto
  have c: "c \<in> live w \<union> special w" using s ev by simp
  let ?in = "\<lambda>w. lts_post_list_add c (upd_skt c (\<lambda>k. k\<lparr> readable := True \<rparr>) w)"
  let ?out = "\<lambda>w. lts_post_list_add c (upd_skt c (\<lambda>k. k\<lparr> writable := True \<rparr>) w)"
  note A = post_add_keeps [OF i c, of "\<lambda>k. k\<lparr> readable := True \<rparr>"] post_add_keeps [OF i c, of "\<lambda>k. k\<lparr> writable := True \<rparr>"]
  have c1: "c \<in> live (?in w) \<union> special (?in w)" using c A(2) by (simp add: same_conns_def)
  note B = post_add_keeps [OF A(1) c1, of "\<lambda>k. k\<lparr> writable := True \<rparr>"]
  have "epoll_event ev w \<in> {w, ?in w, ?out w, ?out (?in w)}" unfolding ev epoll_event_def Let_def by simp
  then consider "epoll_event ev w = w" | "epoll_event ev w = ?in w" | "epoll_event ev w = ?out w" | "epoll_event ev w = ?out (?in w)"
    by blast
  then show ?thesis
  proof cases
    case 1
    then show ?thesis using i by auto
  next
    case 2
    then show ?thesis using A(1,2) by auto
  next
    case 3
    then show ?thesis using A(3,4) by auto
  next
    case 4
    have "same_conns w (?out (?in w))" using A(2) B(2) by (auto intro: same_conns_trans)
    then show ?thesis using B(1) 4 by auto
  qed
qed

lemma epoll_events_keep:
  assumes "net_inv w F {}" and "\<forall>ev\<in>set evs. fst (snd ev) \<in> live w \<union> special w"
  shows "\<exists>F'. net_inv (fold epoll_event evs w) F' {} \<and> same_conns w (fold epoll_event evs w)"
  using assms
proof (induction evs arbitrary: w F)
  case (Cons ev evs)
  obtain F1 where F1: "net_inv (epoll_event ev w) F1 {}" "same_conns w (epoll_event ev w)"
    using epoll_event_keeps [OF Cons.prems(1), of ev] Cons.prems(2) by auto
  have "\<forall>e\<in>set evs. fst (snd e) \<in> live (epoll_event ev w) \<union> special (epoll_event ev w)"
    using F1(2) Cons.prems(2) by (simp add: same_conns_def)
  from Cons.IH [OF F1(1) this] F1(2) show ?case by (auto intro: same_conns_trans)
qed auto

lemma net_inv_time: "net_inv (w\<lparr> current_time := t \<rparr>) F X = net_inv w F X" "same_conns w (w\<lparr> current_time := t \<rparr>)"
  by (simp_all add: net_inv_def live_def special_def sock_lists_def special_ok_def timers_ok_def same_conns_def)

text \<open>Epoll reports only sockets it watches.\<close>

definition events_ok :: "round_env \<Rightarrow> 'a net_scheme \<Rightarrow> bool" where
  "events_ok e w \<longleftrightarrow> (\<forall>evs. re_events e = Inr evs \<longrightarrow> (\<forall>ev\<in>set evs. fst (snd ev) \<in> live w \<union> special w))"

lemma process_events_keeps:
  assumes p: "epoll_process_events (re_tick e) (re_events e) w = Some (r, w')" and i: "net_inv w F {}" and ev: "events_ok e w"
  shows "\<exists>F'. net_inv w' F' {} \<and> same_conns w w'"
proof -
  define w1 where "w1 = (case re_tick e of None \<Rightarrow> w | Some (sec, usec) \<Rightarrow> w\<lparr> current_time := lts_update_time sec usec \<rparr>)"
  have w1: "net_inv w1 F {}" "same_conns w w1" using i by (auto simp: w1_def net_inv_time split: option.split)
  have w': "w' = (case re_events e of Inl err \<Rightarrow> w1 | Inr evs \<Rightarrow> fold epoll_event evs w1)"
    using p unfolding epoll_process_events_def Let_def w1_def [symmetric]
    by (auto simp: bind_eq_Some_conv split: sum.splits if_splits)
  show ?thesis
  proof (cases "re_events e")
    case (Inl err)
    then show ?thesis using w' w1 by auto
  next
    case (Inr evs)
    then have "\<forall>ev\<in>set evs. fst (snd ev) \<in> live w1 \<union> special w1" using ev w1(2) by (simp add: events_ok_def same_conns_def)
    from epoll_events_keep [OF w1(1) this] show ?thesis using w' Inr w1(2) by (auto intro: same_conns_trans)
  qed
qed

section \<open>Listening\<close>

text \<open>Two states that differ only in what epoll watches.\<close>

lemma interest_only:
  "skts (w\<lparr> interest := x \<rparr>) = skts w" "net_inv (w\<lparr> interest := x \<rparr>) F X = net_inv w F X" "same_conns w (w\<lparr> interest := x \<rparr>)"
  by (simp_all add: net_inv_def live_def special_def sock_lists_def special_ok_def timers_ok_def same_conns_def)

lemma fold_epoll_interest:
  "\<exists>x. fold epoll_event_add ls w = w\<lparr> interest := x \<rparr>" "\<exists>x. fold epoll_event_del ls w = w\<lparr> interest := x \<rparr>"
proof -
  show "\<exists>x. fold epoll_event_add ls w = w\<lparr> interest := x \<rparr>"
  proof (induction ls arbitrary: w)
    case Nil
    show ?case by (rule exI [of _ "interest w"]) simp
  next
    case (Cons l ls)
    have "\<exists>y. epoll_event_add l w = w\<lparr> interest := y \<rparr>"
      by (cases "interest w (fd (skts w l)) = None") (auto simp: epoll_event_add_def Let_def intro: exI [of _ "interest w"])
    then obtain y where "epoll_event_add l w = w\<lparr> interest := y \<rparr>" by blast
    then show ?case using Cons.IH [of "w\<lparr> interest := y \<rparr>"] by auto
  qed
  show "\<exists>x. fold epoll_event_del ls w = w\<lparr> interest := x \<rparr>"
  proof (induction ls arbitrary: w)
    case Nil
    show ?case by (rule exI [of _ "interest w"]) simp
  next
    case (Cons l ls)
    then show ?case using Cons.IH [of "epoll_event_del l w"] by (auto simp: epoll_event_del_def)
  qed
qed

lemma accept_events_keep:
  assumes "net_inv w F {}"
  shows "net_inv (snd (enable_accept_events lp w)) F {}" "same_conns w (snd (enable_accept_events lp w))"
    "net_inv (snd (disable_accept_events lp w)) F {}" "same_conns w (snd (disable_accept_events lp w))"
proof -
  obtain x y where xy: "fold epoll_event_add (listen_array lp) w = w\<lparr> interest := x \<rparr>"
      "fold epoll_event_del (listen_array lp) w = w\<lparr> interest := y \<rparr>"
    using fold_epoll_interest by metis
  show "net_inv (snd (enable_accept_events lp w)) F {}" "same_conns w (snd (enable_accept_events lp w))"
    "net_inv (snd (disable_accept_events lp w)) F {}" "same_conns w (snd (disable_accept_events lp w))"
    using assms by (simp_all add: enable_accept_events_def disable_accept_events_def xy interest_only)
qed

lemma try_accept_keeps:
  assumes "net_inv w F {}" and "try_accept maxc lock lp w = (lp', w')"
  shows "net_inv w' F {}" "same_conns w w'"
proof -
  let ?lp = "lp\<lparr> accept_disabled := accept_load maxc w \<rparr>"
  have "w' = w \<or> w' = snd (enable_accept_events ?lp w)"
    using assms(2) by (auto simp: try_accept_def Let_def split: if_splits)
  then show "net_inv w' F {}" "same_conns w w'" using accept_events_keep [OF assms(1), of ?lp] assms(1) by auto
qed

section \<open>Cleaning the post list\<close>

lemma dlist_after: "dlist_in m l (ds @ x # r) \<Longrightarrow> mp_next m x = hd (r @ [l])"
  using dseg_ends [of m x r l] by (simp add: dlist_in_def)

text \<open>The pass moves exactly the sockets without pending events to the watch list.\<close>

lemma post_clean_correct:
  assumes "net_inv w F {}" and "F lts_post_list = ds @ rest" and "pos = hd (rest @ [lts_post_list])"
    and "rest \<noteq> [] \<Longrightarrow> nx = hd (tl rest @ [lts_post_list])"
  shows "\<exists>w' F'. post_clean pos nx w = Some w' \<and> net_inv w' F' {} \<and> same_conns w w' \<and> skts w' = skts w \<and>
    F' lts_post_list = ds @ filter (\<lambda>s. readable (skts w s) \<or> writable (skts w s)) rest"
  using assms
proof (induction rest arbitrary: w F ds pos nx)
  case Nil
  then show ?case by (subst post_clean.simps) auto
next
  case (Cons s r)
  have L: "sock_lists w F" using Cons.prems(1) by (simp add: net_inv_def)
  then have d: "dlist_in (links w) lts_post_list (ds @ s # r)" using Cons.prems(2) unfolding sock_lists_def lists_in_def by simp
  have p: "pos = s" "nx = hd (r @ [lts_post_list])" using Cons.prems(3,4) by auto
  have sp: "s \<noteq> lts_post_list" using d by (auto simp: dlist_in_def)
  have dis: "distinct (ds @ s # r)" using d by (simp add: dlist_in_def)
  have step: "post_clean pos nx w = (let w1 = (if \<not> readable (skts w s) \<and> \<not> writable (skts w s) then lts_watch_list_add s w else w)
      in post_clean nx (mp_next (links w1) nx) w1)"
    using sp p(1) by (subst post_clean.simps) simp
  show ?case
  proof (cases "readable (skts w s) \<or> writable (skts w s)")
    case True
    have F: "F lts_post_list = (ds @ [s]) @ r" using Cons.prems(2) by simp
    have nn: "mp_next (links w) nx = hd (tl r @ [lts_post_list])" if "r \<noteq> []"
      using that p(2) dlist_after [of "links w" lts_post_list "ds @ [s]" "hd r" "tl r"] d by simp
    have "post_clean pos nx w = post_clean nx (mp_next (links w) nx) w" unfolding step using True by auto
    with Cons.IH [OF Cons.prems(1) F p(2) nn] True show ?thesis by simp
  next
    case False
    let ?w = "lts_watch_list_add s w" and ?F = "moved lts_watch_list s F"
    have u: "s \<in> cells heads F" using Cons.prems(2) by (auto simp: cells_def)
    then have s0: "s \<noteq> 0" using L unfolding sock_lists_def by metis
    have ns: "s \<notin> set (F lts_sock_list)" "movable (links w) heads F s"
      using L Cons.prems(2) d by (auto simp: sock_lists_def lists_in_def movable_def dlist_in_def)
    have i: "net_inv ?w ?F {}" unfolding lts_watch_list_add_def
      by (rule net_inv_move [OF Cons.prems(1) ns(2) s0 ns(1)]) simp
    have F: "?F lts_post_list = ds @ r" using Cons.prems(2) dis by (simp add: moved_def)
    have d1: "dlist_in (links ?w) lts_post_list (ds @ r)" using i F unfolding net_inv_def sock_lists_def lists_in_def by auto
    have nn: "mp_next (links ?w) nx = hd (tl r @ [lts_post_list])" if "r \<noteq> []"
      using that p(2) dlist_after [of "links ?w" lts_post_list ds "hd r" "tl r"] d1 by simp
    have sc: "same_conns w ?w" "skts ?w = skts w" by (simp_all add: same_conns_def live_def special_def list_adds)
    from Cons.IH [OF i F p(2) nn] show ?thesis unfolding step using False sc(2) same_conns_trans [OF sc(1)] by auto
  qed
qed

section \<open>The handlers of a round\<close>

text \<open>What a round keeps: the invariant of the event modules, that of the application and the limit on the
  connections.\<close>

definition loop_inv :: "('a net_scheme \<Rightarrow> bool) \<Rightarrow> int \<Rightarrow> 'a net_scheme \<Rightarrow> bool" where
  "loop_inv K n w \<longleftrightarrow> (\<exists>F. net_inv w F {}) \<and> current_conns w \<le> n \<and> K w"

lemma loop_inv_live: "loop_inv K n w \<Longrightarrow> net_inv w' F {} \<Longrightarrow> live w' \<subseteq> live w \<Longrightarrow> K w' \<Longrightarrow> loop_inv K n w'"
proof -
  assume a: "loop_inv K n w" "net_inv w' F {}" "live w' \<subseteq> live w" "K w'"
  then obtain F0 where F0: "net_inv w F0 {}" by (auto simp: loop_inv_def)
  then have "finite (live w)" unfolding net_inv_def by (meson finite_UnI finite_set finite_subset)
  then have "card (live w') \<le> card (live w)" using a(3) by (rule card_mono)
  then show ?thesis using a F0 by (auto simp: loop_inv_def net_inv_def)
qed

text \<open>An application invariant that depends on the state of the application and its pointers only.\<close>

definition framed :: "('a net_scheme \<Rightarrow> bool) \<Rightarrow> bool" where
  "framed K \<longleftrightarrow> (\<forall>w w'. K w \<longrightarrow> unrelated w w' \<longrightarrow> K w')"

lemma loop_inv_same: "framed K \<Longrightarrow> loop_inv K n w \<Longrightarrow> net_inv w' F {} \<Longrightarrow> same_conns w w' \<Longrightarrow> loop_inv K n w'"
  by (rule loop_inv_live) (auto simp: same_conns_def framed_def loop_inv_def)

lemma post_loop_keeps:
  assumes h: "\<And>k h s w w'. dispatch k h s w = Some w' \<Longrightarrow> Q w \<Longrightarrow> Q w'"
    and p: "post_loop dispatch k pos nx w = Some w'" and i: "Q w"
  shows "Q w'"
proof -
  have "(\<forall>k h s w w'. dispatch k h s w = Some w' \<longrightarrow> Q w \<longrightarrow> Q w') \<longrightarrow> Q w \<longrightarrow> Q w'"
    using p
  proof (induction rule: post_loop.raw_induct [rotated, where P = "\<lambda>dispatch k pos nx w w'.
      (\<forall>k h s w w'. dispatch k h s w = Some w' \<longrightarrow> Q w \<longrightarrow> Q w') \<longrightarrow> Q w \<longrightarrow> Q w'", consumes 1, case_names step])
    case (step pl dispatch k pos nx w w')
    show ?case
    proof (intro impI)
      assume d: "\<forall>k h s w w'. dispatch k h s w = Some w' \<longrightarrow> Q w \<longrightarrow> Q w'" and q: "Q w"
      show "Q w'"
      proof (cases "pos = lts_post_list")
        case False
        with step.hyps obtain w1 w2 where
          1: "(if readable (skts w pos) \<and> do_read (skts w pos) \<noteq> NoHandler then dispatch k (do_read (skts w pos)) pos w else Some w) = Some w1"
          and 2: "(if writable (skts w1 pos) \<and> do_write (skts w1 pos) \<noteq> NoHandler then dispatch k (do_write (skts w1 pos)) pos w1 else Some w1) = Some w2"
          and 3: "pl dispatch (k + 1) nx (mp_next (links w2) nx) w2 = Some w'"
          by (auto simp: bind_eq_Some_conv)
        have "Q w1" using 1 d q by (auto split: if_splits)
        then have "Q w2" using 2 d by (auto split: if_splits)
        then show "Q w'" using step.IH [OF 3] d by blast
      qed (use step.hyps q in simp)
    qed
  qed
  then show ?thesis using h i by blast
qed

lemma process_post_list_keeps:
  assumes h: "\<And>k h s w w'. dispatch k h s w = Some w' \<Longrightarrow> loop_inv K n w \<Longrightarrow> loop_inv K n w'"
    and p: "process_post_list dispatch w = Some w'" and i: "loop_inv K n w" and fr: "framed K"
  shows "loop_inv K n w'"
proof -
  obtain w1 where w1: "post_loop dispatch 0 (mp_next (links w) lts_post_list) (mp_next (links w) (mp_next (links w) lts_post_list)) w = Some w1"
      "post_clean (mp_next (links w1) lts_post_list) (mp_next (links w1) (mp_next (links w1) lts_post_list)) w1 = Some w'"
    using p by (auto simp: process_post_list_def Let_def bind_eq_Some_conv)
  have i1: "loop_inv K n w1" by (rule post_loop_keeps [where Q = "loop_inv K n", OF h w1(1) i])
  then obtain F where F: "net_inv w1 F {}" by (auto simp: loop_inv_def)
  have d: "dlist_in (links w1) lts_post_list (F lts_post_list)" using F unfolding net_inv_def sock_lists_def lists_in_def by simp
  have nn: "mp_next (links w1) (mp_next (links w1) lts_post_list) = hd (tl (F lts_post_list) @ [lts_post_list])"
    if "F lts_post_list \<noteq> []"
    using that dlist_next [OF d] dlist_after [of "links w1" lts_post_list "[]" "hd (F lts_post_list)" "tl (F lts_post_list)"] d by simp
  obtain w2 F' where "post_clean (mp_next (links w1) lts_post_list) (mp_next (links w1) (mp_next (links w1) lts_post_list)) w1 = Some w2"
      "net_inv w2 F' {}" "same_conns w1 w2"
    using post_clean_correct [OF F _ dlist_next [OF d] nn, of "[]"] by auto
  then show ?thesis using w1(2) loop_inv_same [OF fr i1] by simp
qed

text \<open>No connection has outlived its keep-alive time.\<close>

definition none_overdue :: "'a net_scheme \<Rightarrow> bool" where
  "none_overdue w \<longleftrightarrow> (\<forall>s\<in>live w. of_int (current_time w) < rm_key (timer_heap w) s)"

text \<open>Where no deletion of a timer fails, the two expiry loops agree.\<close>

lemma expire_single:
  assumes "expire_timers app ka w = Some w'"
  shows "expire_timers_single app ka w = Some w'"
  using assms
proof (induction rule: expire_timers.raw_induct [rotated, where P = "\<lambda>app ka w w'. expire_timers_single app ka w = Some w'",
      consumes 1, case_names step])
  case (step et app ka w w')
  obtain m where m: "lts_timer_min (timer_heap w) = Some m" using step(2) by (auto simp: bind_eq_Some_conv)
  show ?case
  proof (cases "m = 0 \<or> of_int (current_time w) < rm_key (timer_heap w) m")
    case True
    then show ?thesis using step(2) m by (subst expire_timers_single.simps) auto
  next
    case False
    obtain ok h where d: "lts_timer_del (timer_heap w) m = Some (ok, h)"
      using step(2) m False by (cases "lts_timer_del (timer_heap w) m") auto
    then have ok: "ok" using step(2) m False by (cases ok) simp_all
    let ?t = "if on_timeout (skts w m) then lts_timeout app ka m (w\<lparr> timer_heap := h \<rparr>) else Some (w\<lparr> timer_heap := h \<rparr>)"
    have "?t \<bind> et app ka = Some w'" using step(2) m False d ok by (simp add: Let_def split del: if_split)
    from this [unfolded bind_eq_Some_conv] obtain w1 where w1: "?t = Some w1" "et app ka w1 = Some w'" by blast
    show ?thesis using False m d ok w1(1) step(1) [OF w1(2)] by (subst expire_timers_single.simps) simp
  qed
qed

text \<open>The handlers an application registers itself keep the invariant too.\<close>

definition other_ok :: "('a net_scheme \<Rightarrow> bool) \<Rightarrow> int \<Rightarrow> 'a net_scheme runner \<Rightarrow> bool" where
  "other_ok K n other \<longleftrightarrow> (\<forall>k h s w w'. other k h s w = Some w' \<longrightarrow> loop_inv K n w \<longrightarrow> loop_inv K n w')"

context net_app
begin

lemma keep_framed: "framed keep"
  unfolding framed_def using framing by blast

lemma handler_keeps:
  assumes r: "run_handler app keepalive maxc other he k h s w = Some w'" and i: "loop_inv keep n w" and ka: "0 < keepalive"
    and m: "maxc < 2 ^ 31" "maxc \<le> n" "n < 2 ^ 63" and o: "other_ok keep n other"
  shows "loop_inv keep n w'"
proof -
  obtain F where F: "net_inv w F {}" using i by (auto simp: loop_inv_def)
  have k: "keep w" and b: "current_conns w < 2 ^ 63" using i m(3) by (auto simp: loop_inv_def)
  show ?thesis
  proof (cases h)
    case Do_accept
    then have "lts_accept app keepalive maxc (he_accept he k) s w = Some w'" using r by (simp add: run_handler_def)
    from accept_keeps [OF this F ka m(1) k] obtain F' where kw: "keep w'" and F': "net_inv w' F' {}"
      "live w' = live w \<or> (\<exists>cs. cs \<notin> live w \<and> live w' = insert cs (live w)) \<and> current_conns w < maxc" by blast
    then show ?thesis
    proof (elim disjE conjE exE)
      fix cs assume cs: "cs \<notin> live w" "live w' = insert cs (live w)" "current_conns w < maxc"
      have "finite (live w)" using F unfolding net_inv_def by (meson finite_UnI finite_set finite_subset)
      then have "current_conns w' = current_conns w + 1" using cs F F'(1) by (simp add: net_inv_def)
      then show ?thesis using F'(1) cs(3) m(2) kw by (auto simp: loop_inv_def)
    qed (use loop_inv_live [OF i F'(1)] kw in simp)
  next
    case Do_recv
    then have a: "lts_recv app keepalive (he_recv he k) s w = Some w'" using r by (simp add: run_handler_def)
    then have "s \<in> live w" by (auto simp: lts_recv_def live_def bind_eq_Some_conv)
    from recv_keeps [OF a F ka this k b] show ?thesis using loop_inv_live [OF i] by blast
  next
    case Do_send
    then have a: "lts_send app keepalive (he_send he k) s w = Some w'" using r by (simp add: run_handler_def)
    then have "s \<in> live w" by (auto simp: lts_send_def live_def bind_eq_Some_conv)
    from send_keeps [OF a F ka this k b] show ?thesis using loop_inv_live [OF i] by blast
  next
    case Do_channel
    then have "w' = w \<or> (\<exists>x. w' = w\<lparr> channel_signal := x \<rparr>)" using r by (auto simp: run_handler_def channel_do_read_def split: option.splits)
    moreover have "net_inv (w\<lparr> channel_signal := x \<rparr>) F {}" for x
      by (rule net_inv_cong [OF F]) simp_all
    moreover have "keep (w\<lparr> channel_signal := x \<rparr>)" for x by (rule framing [OF k]) simp
    ultimately show ?thesis using i by (auto simp: loop_inv_def)
  qed (use r i o in \<open>auto simp: run_handler_def other_ok_def\<close>)
qed

text \<open>The second half of a round.\<close>

lemma handlers_and_timers_keep:
  assumes p: "process_post_list (run_handler app keepalive maxc other he) w = Some w1" and i: "loop_inv keep n w"
    and ka: "0 < keepalive" and m: "maxc < 2 ^ 31" "maxc \<le> n" "n < 2 ^ 63" and o: "other_ok keep n other"
  shows "\<exists>w2. expire_timers app keepalive w1 = Some w2 \<and> loop_inv keep n w2 \<and> none_overdue w2"
proof -
  have i1: "loop_inv keep n w1"
    by (rule process_post_list_keeps [OF _ p i keep_framed]) (rule handler_keeps [OF _ _ ka m o])
  then obtain F where "net_inv w1 F {}" "keep w1" by (auto simp: loop_inv_def)
  from expire_closes_due [OF this ka] obtain w2 F' where
    "expire_timers app keepalive w1 = Some w2" "net_inv w2 F' {}" "live w2 \<subseteq> live w1" "none_overdue w2" "keep w2"
    by (auto simp: none_overdue_def)
  then show ?thesis using loop_inv_live [OF i1] by blast
qed

text \<open>A round keeps the invariant, gives the accept lock back, and leaves no overdue connection.\<close>

lemma multi_round_keeps:
  assumes r: "multi_round app keepalive maxc other e (lp, w) = Some (go, lp', w')" and i: "loop_inv keep n w" and ev: "events_ok e w"
    and ka: "0 < keepalive" and m: "maxc < 2 ^ 31" "maxc \<le> n" "n < 2 ^ 63" and o: "other_ok keep n other" and l: "\<not> lock_hold lp"
  shows "loop_inv keep n w'" "\<not> lock_hold lp'" "go \<Longrightarrow> none_overdue w'"
proof -
  have "loop_inv keep n w' \<and> \<not> lock_hold lp' \<and> (go \<longrightarrow> none_overdue w')"
  proof (cases "channel_signal w = LTS_CHANNEL_SIGEXIT \<or> \<not> re_parent e")
    case True
    then show ?thesis using r i l by (simp add: multi_round_def)
  next
    case False
    obtain F where F: "net_inv w F {}" using i by (auto simp: loop_inv_def)
    obtain lp1 w1 where t: "try_accept maxc (re_lock e) lp w = (lp1, w1)" by (cases "try_accept maxc (re_lock e) lp w") auto
    note w1 = try_accept_keeps [OF F t]
    obtain q w2 where p: "epoll_process_events (re_tick e) (re_events e) w1 = Some (q, w2)"
      using r False t by (auto simp: multi_round_def Let_def bind_eq_Some_conv)
    have "events_ok e w1" using ev w1(2) by (simp add: events_ok_def same_conns_def)
    from process_events_keeps [OF p w1(1) this] obtain F2 where w2: "net_inv w2 F2 {}" "same_conns w w2"
      using same_conns_trans [OF w1(2)] by blast
    let ?lp = "lp1\<lparr> rslt := Some q \<rparr>"
    obtain lp3 w3 where d: "(if lock_hold ?lp then disable_accept_events ?lp w2 else (?lp, w2)) = (lp3, w3)"
      by (cases "if lock_hold ?lp then disable_accept_events ?lp w2 else (?lp, w2)") auto
    have w3: "net_inv w3 F2 {}" "same_conns w w3" "\<not> lock_hold lp3"
      using d accept_events_keep [OF w2(1), of ?lp] w2 same_conns_trans [OF w2(2)]
      by (auto simp: disable_accept_events_def split: if_splits)
    have i3: "loop_inv keep n w3" by (rule loop_inv_same [OF keep_framed i w3(1,2)])
    have rest: "(if q \<noteq> 0 then Some (False, lp3, w3)
        else do { w \<leftarrow> process_post_list (run_handler app keepalive maxc other (re_handlers e)) w3;
                  w \<leftarrow> expire_timers app keepalive w; Some (True, lp3, w) }) = Some (go, lp', w')"
      using r False t p d by (simp add: multi_round_def Let_def)
    show ?thesis
    proof (cases "q = 0")
      case True
      then obtain w4 where w4: "process_post_list (run_handler app keepalive maxc other (re_handlers e)) w3 = Some w4"
          "expire_timers app keepalive w4 = Some w'" "lp' = lp3" using rest by (auto simp: bind_eq_Some_conv)
      from handlers_and_timers_keep [OF w4(1) i3 ka m o] w4(2,3) w3(3) show ?thesis by auto
    qed (use rest i3 w3(3) in simp)
  qed
  then show "loop_inv keep n w'" "\<not> lock_hold lp'" "go \<Longrightarrow> none_overdue w'" by auto
qed

lemma single_round_keeps:
  assumes r: "single_round app keepalive maxc other e (lp, w) = Some (go, lp', w')" and i: "loop_inv keep n w" and ev: "events_ok e w"
    and ka: "0 < keepalive" and m: "maxc < 2 ^ 31" "maxc \<le> n" "n < 2 ^ 63" and o: "other_ok keep n other"
  shows "loop_inv keep n w' \<and> lock_hold lp' = lock_hold lp \<and> (go \<longrightarrow> none_overdue w')"
proof (cases "channel_signal w = LTS_CHANNEL_SIGEXIT \<or> \<not> re_parent e")
  case True
  then show ?thesis using r i by (simp add: single_round_def)
next
  case False
  obtain F where F: "net_inv w F {}" using i by (auto simp: loop_inv_def)
  obtain q w2 where p: "epoll_process_events (re_tick e) (re_events e) w = Some (q, w2)"
    using r False by (auto simp: single_round_def Let_def bind_eq_Some_conv)
  from process_events_keeps [OF p F ev] obtain F2 where w2: "net_inv w2 F2 {}" "same_conns w w2" by blast
  have i2: "loop_inv keep n w2" by (rule loop_inv_same [OF keep_framed i w2])
  have rest: "(if q \<noteq> 0 then Some (False, lp\<lparr> rslt := Some q \<rparr>, w2)
      else do { w \<leftarrow> process_post_list (run_handler app keepalive maxc other (re_handlers e)) w2;
                w \<leftarrow> expire_timers_single app keepalive w; Some (True, lp\<lparr> rslt := Some q \<rparr>, w) }) = Some (go, lp', w')"
    using r False p by (simp add: single_round_def Let_def)
  show ?thesis
  proof (cases "q = 0")
    case True
    then obtain w4 where w4: "process_post_list (run_handler app keepalive maxc other (re_handlers e)) w2 = Some w4"
        "expire_timers_single app keepalive w4 = Some w'" "lock_hold lp' = lock_hold lp" using rest by (auto simp: bind_eq_Some_conv)
    from handlers_and_timers_keep [OF w4(1) i2 ka m o] obtain w5 where
      w5: "expire_timers app keepalive w4 = Some w5" "loop_inv keep n w5" "none_overdue w5" by blast
    then show ?thesis using expire_single [OF w5(1)] w4(2,3) by simp
  qed (use rest i2 in auto)
qed

lemma event_round_keeps:
  assumes "event_round lock app keepalive maxc other e (lp, w) = Some (go, lp', w')" and "loop_inv keep n w" and "events_ok e w"
    and "0 < keepalive" and "maxc < 2 ^ 31" "maxc \<le> n" "n < 2 ^ 63" and "other_ok keep n other" and "\<not> lock_hold lp"
  shows "loop_inv keep n w'" "\<not> lock_hold lp'" "go \<Longrightarrow> none_overdue w'"
proof -
  have "loop_inv keep n w' \<and> \<not> lock_hold lp' \<and> (go \<longrightarrow> none_overdue w')"
  proof (cases lock)
    case True
    then have "multi_round app keepalive maxc other e (lp, w) = Some (go, lp', w')" using assms(1) by (simp add: event_round_def)
    from multi_round_keeps [OF this assms(2-9)] show ?thesis by blast
  next
    case False
    then have "single_round app keepalive maxc other e (lp, w) = Some (go, lp', w')" using assms(1) by (simp add: event_round_def)
    from single_round_keeps [OF this assms(2-8)] assms(9) show ?thesis by blast
  qed
  then show "loop_inv keep n w'" "\<not> lock_hold lp'" "go \<Longrightarrow> none_overdue w'" by auto
qed

end

section \<open>Runs\<close>

text \<open>The states a worker reaches while its loop goes on; epoll reports only what it watches.\<close>

inductive worker_reach :: "(round_env \<Rightarrow> worker \<times> 'a net_scheme \<Rightarrow> (bool \<times> worker \<times> 'a net_scheme) option) \<Rightarrow>
    worker \<times> 'a net_scheme \<Rightarrow> worker \<times> 'a net_scheme \<Rightarrow> bool" for step lw where
  start: "worker_reach step lw lw"
| round: "worker_reach step lw lw1 \<Longrightarrow> events_ok e (snd lw1) \<Longrightarrow> step e lw1 = Some (go, lw2) \<Longrightarrow> worker_reach step lw lw2"

inductive_cases worker_reachE: "worker_reach step lw lw'"

context net_app
begin

lemma event_run_keeps:
  assumes "worker_reach (event_round lock app keepalive maxc other) lw0 lw" and "loop_inv keep n (snd lw0)" and "\<not> lock_hold (fst lw0)"
    and "0 < keepalive" and "maxc < 2 ^ 31" "maxc \<le> n" "n < 2 ^ 63" and "other_ok keep n other"
  shows "loop_inv keep n (snd lw) \<and> \<not> lock_hold (fst lw)"
  using assms(1)
proof (induction rule: worker_reach.induct)
  case start
  then show ?case using assms by simp
next
  case (round lw1 e go lw2)
  obtain lp w lp' w' where lw: "lw1 = (lp, w)" "lw2 = (lp', w')" by (cases lw1; cases lw2) auto
  have "loop_inv keep n w" "\<not> lock_hold lp" "events_ok e w" using round.IH round.hyps(2) lw by simp_all
  from event_round_keeps [OF round.hyps(3) [unfolded lw] this(1,3) assms(4-8) this(2)] show ?case using lw by simp
qed

end

end
