(* ===== verification/EventStart.thy ===== *)
theory EventStart
  imports EventLoop
begin

text \<open>
  The start of the event modules (\<open>src/modules/mod_event_core.c\<close>): the master makes the listening
  sockets and the socket cache, a worker its lists and the socket of its channel.

  In fresh memory this establishes the invariant of the event loops: no connection, no timer, and
  a cache of \<open>max_connections + 63\<close> sockets.
\<close>

section \<open>The master\<close>

text \<open>One record of \<open>getaddrinfo\<close>, with what the system answers when a listening socket is made for it:
  the memory of the struct (0 is NULL), the descriptor or -1, and whether \<open>bind\<close> and \<open>listen\<close> succeed.\<close>

record listen_record =
  lr_family :: int
  lr_mem :: addr
  lr_socket :: int
  lr_bind :: bool
  lr_listen :: bool

abbreviation AF_INET :: int where "AF_INET \<equiv> 2"
abbreviation AF_INET6 :: int where "AF_INET6 \<equiv> 10"
definition ENABLE_IPV6 :: bool where "ENABLE_IPV6 = False"

fun listen_loop :: "listen_record list \<Rightarrow> addr list \<Rightarrow> 'a net_scheme \<Rightarrow> (addr list \<times> 'a net_scheme) option" where
  "listen_loop [] ls w = Some (ls, w)"
| "listen_loop (r # rs) ls w =
     (if lr_family r \<noteq> AF_INET \<and> (\<not> ENABLE_IPV6 \<or> lr_family r \<noteq> AF_INET6) then listen_loop rs ls w
      else if lr_mem r = 0 then None
      else do {
        w \<leftarrow> lts_init_socket (lr_mem r) w;
        if lr_socket r = -1 then Some (ls, w)
        else if \<not> lr_bind r \<or> \<not> lr_listen r then Some (ls, w)
        else listen_loop rs (ls @ [lr_mem r]) (upd_skt (lr_mem r) (\<lambda>k. k\<lparr> fd := lr_socket r, family := lr_family r,
               ev_mask := or EPOLLET EPOLLIN, do_read := Do_accept \<rparr>) w) })"

text \<open>The cache: \<open>n\<close> sockets, \<open>sz\<close> bytes apart.\<close>

definition init_sock_cache :: "int \<Rightarrow> addr \<Rightarrow> nat \<Rightarrow> 'a net_scheme \<Rightarrow> 'a net_scheme" where
  "init_sock_cache maxc base sz w =
     (let n = (of_int (maxc + 64) :: 64 word);
          w = w\<lparr> sock_inuse_n := 0, sock_cache_n := n \<rparr>;
          w = upd_links (dlist_init lts_sock_list) w
      in upd_links (cache_loop lts_sock_list (unat n) base sz) w)"

definition alloc_listen_sockets :: "listen_record list option \<Rightarrow> bool \<Rightarrow> int \<Rightarrow> addr \<Rightarrow> nat \<Rightarrow> 'a net_scheme \<Rightarrow>
    (int \<times> addr list \<times> 'a net_scheme) option" where
  "alloc_listen_sockets gai array_mem maxc base sz w = (case gai of
     None \<Rightarrow> Some (-1, [], w)
   | Some rs \<Rightarrow>
       if \<not> array_mem then None
       else do {
         (ls, w) \<leftarrow> listen_loop rs [] w;
         if ls = [] then Some (-1, ls, w)
         else if base = 0 then None
         else Some (0, ls, init_sock_cache maxc base sz w) })"

section \<open>A worker\<close>

text \<open>\<open>init_event_core_worker\<close>, after \<open>setitimer\<close> succeeded; a NULL socket is written to.\<close>

definition init_event_core_worker :: "int \<Rightarrow> 'a net_scheme \<Rightarrow> (addr \<times> 'a net_scheme) option" where
  "init_event_core_worker chan_fd w = do {
     let w = upd_links (dlist_init lts_watch_list) w;
     let w = upd_links (dlist_init lts_post_list) w;
     (s, w) \<leftarrow> lts_alloc_socket w;
     if s = 0 then None
     else Some (s, upd_skt s (\<lambda>k. k\<lparr> fd := chan_fd, ev_mask := or EPOLLET EPOLLIN, do_read := Do_channel, do_write := NoHandler \<rparr>) w) }"

definition exit_event_core_worker :: "addr \<Rightarrow> 'a net_scheme \<Rightarrow> 'a net_scheme" where
  "exit_event_core_worker chan w = lts_free_socket chan w"

section \<open>The listening sockets\<close>

text \<open>Between the records: no connection, no timer, and the listening sockets made so far, whose list
  nodes are linked to themselves.\<close>

definition starting :: "'a net_scheme \<Rightarrow> addr set \<Rightarrow> bool" where
  "starting w A \<longleftrightarrow> live w = {} \<and> special w = A \<and> (\<forall>s\<in>A. s \<noteq> 0 \<and> self_linked (links w) s) \<and>
     rbmap_inv (timer_heap w) \<and> rbmap_dict (timer_heap w) = Map.empty \<and> current_conns w = 0 \<and> channel_signal w = 0"

lemma init_socket_fresh:
  assumes "s \<noteq> 0" and "rbmap_inv (timer_heap w)" and "rbmap_dict (timer_heap w) = Map.empty"
  shows "\<exists>h. lts_init_socket s w = Some (w\<lparr> skts := (skts w)(s := fresh_skt (current_time w) (skts w s)),
    links := dlist_init s (links w), timer_heap := h \<rparr>) \<and> rbmap_inv h \<and> rbmap_dict h = Map.empty"
proof -
  obtain h where "lts_rbmap_node_init s 0 (timer_heap w) = Some h" "rbmap_inv h" "rbmap_dict h = rbmap_dict (timer_heap w)"
    using rbmap_node_init_law [of "timer_heap w" s 0] assms by auto
  then show ?thesis using assms(3)
    by (intro exI [of _ h]) (simp add: lts_init_socket_def skt_timer_init_def lts_timer_node_init_def upd_skt_def upd_links_def fresh_skt_def)
qed

lemma self_linked_init_other: "self_linked m x \<Longrightarrow> self_linked (dlist_init a m) x"
  by (simp add: self_linked_def dlist_init_def set_next_def set_prev_def)

lemma starting_listen:
  assumes i: "starting w A" and s: "s \<noteq> 0" "s \<notin> A"
  shows "\<exists>w'. lts_init_socket s w = Some w' \<and> starting w' A \<and>
    starting (upd_skt s (\<lambda>k. k\<lparr> fd := f, family := fam, ev_mask := m, do_read := Do_accept \<rparr>) w') (insert s A)"
proof -
  obtain h where h: "lts_init_socket s w = Some (w\<lparr> skts := (skts w)(s := fresh_skt (current_time w) (skts w s)),
      links := dlist_init s (links w), timer_heap := h \<rparr>)" "rbmap_inv h" "rbmap_dict h = Map.empty"
    using init_socket_fresh [of s w] i s by (auto simp: starting_def)
  have "conn_of (skts w x) = None" for x using i by (auto simp: starting_def live_def)
  moreover have "special w = A" "\<forall>s\<in>A. s \<noteq> 0 \<and> self_linked (links w) s" "current_conns w = 0" "channel_signal w = 0" using i by (auto simp: starting_def)
  ultimately show ?thesis using h s
    by (auto simp: starting_def live_def special_def fresh_skt_def self_linked_init_other)
qed

lemma listen_loop_correct:
  assumes "starting w (set ls)" and "distinct (ls @ map lr_mem rs)" and "0 \<notin> set (map lr_mem rs)"
  shows "\<exists>ls' w'. listen_loop rs ls w = Some (ls', w') \<and> starting w' (set ls') \<and> distinct ls' \<and> set ls' \<subseteq> set ls \<union> set (map lr_mem rs)"
  using assms
proof (induction rs arbitrary: ls w)
  case (Cons r rs)
  show ?case
  proof (cases "lr_family r = AF_INET")
    case False
    then show ?thesis using Cons.IH [OF Cons.prems(1)] Cons.prems(2,3) by (auto simp: ENABLE_IPV6_def)
  next
    case True
    have s: "lr_mem r \<noteq> 0" "lr_mem r \<notin> set ls" using Cons.prems(2,3) by auto
    obtain w1 where w1: "lts_init_socket (lr_mem r) w = Some w1" "starting w1 (set ls)"
        "starting (upd_skt (lr_mem r) (\<lambda>k. k\<lparr> fd := lr_socket r, family := lr_family r, ev_mask := or EPOLLET EPOLLIN,
          do_read := Do_accept \<rparr>) w1) (insert (lr_mem r) (set ls))" (is "starting ?w2 _")
      using starting_listen [OF Cons.prems(1) s] by blast
    have "starting ?w2 (set (ls @ [lr_mem r]))" using w1(3) by simp
    moreover have "distinct ((ls @ [lr_mem r]) @ map lr_mem rs)" "0 \<notin> set (map lr_mem rs)" using Cons.prems(2,3) by auto
    ultimately obtain ls' w' where "listen_loop rs (ls @ [lr_mem r]) ?w2 = Some (ls', w')" "starting w' (set ls')" "distinct ls'"
        "set ls' \<subseteq> set (ls @ [lr_mem r]) \<union> set (map lr_mem rs)"
      using Cons.IH by blast
    then show ?thesis using True w1(1,2) s(1) Cons.prems(2) by (cases "lr_socket r = -1 \<or> \<not> lr_bind r \<or> \<not> lr_listen r") auto
  qed
qed simp

section \<open>The socket cache\<close>

lemma no_heads: "lists_in m {} F" "cells {} F = {}"
  by (simp_all add: lists_in_def cells_def)

text \<open>The nodes of the cache do not meet the listening sockets.\<close>

definition cache_sock :: "addr \<Rightarrow> nat \<Rightarrow> nat \<Rightarrow> addr set" where
  "cache_sock base sz n = {base + i * sz | i. i < n}"

lemma cache_keeps_self_linked:
  assumes "lists_in m H G" and "l \<in> H" and "0 < sz" and "\<forall>i < n. base + i * sz \<notin> cells H G"
    and "x \<notin> cells H G" and "\<forall>i < n. x \<noteq> base + i * sz" and "self_linked m x"
  shows "self_linked (cache_loop l n base sz m) x"
  using assms
proof (induction n arbitrary: base m G)
  case (Suc n)
  let ?G = "G(l := G l @ [base])"
  have b: "base \<notin> cells H G" "x \<noteq> base" using Suc.prems(4,6) [rule_format, of 0] by simp_all
  have L: "lists_in (dlist_add_tail l base m) H ?G" using lists_in_add_tail [OF Suc.prems(1,2) b(1)] .
  have c: "y \<notin> cells H ?G" if "y \<notin> cells H G" "y \<noteq> base" for y
    using that Suc.prems(2) by (auto simp: cells_def split: if_splits)
  have "base + sz + i * sz \<notin> cells H ?G" "x \<noteq> base + sz + i * sz" if "i < n" for i
    using Suc.prems(3) Suc.prems(4,6) [rule_format, of "Suc i"] that c [of "base + sz + i * sz"] by (auto simp: add.assoc)
  moreover have "self_linked (dlist_add_tail l base m) x" by (rule add_tail_unlinked [OF Suc.prems(1,2,5) b(2) Suc.prems(7)])
  ultimately show ?case unfolding cache_loop.simps
    by (intro Suc.IH [OF L Suc.prems(2,3) _ c [OF Suc.prems(5) b(2)]]) blast+
qed simp

lemma cells_start: "cells {lts_sock_list} ((\<lambda>_. [])(lts_sock_list := xs)) = insert lts_sock_list (set xs)"
  by (simp add: cells_def)

text \<open>The worker's own lists.\<close>

lemma worker_lists:
  assumes c: "\<forall>x\<in>set xs. x \<notin> heads" and L: "lists_in m {lts_sock_list} ((\<lambda>_. [])(lts_sock_list := xs))"
  shows "lists_in (dlist_init lts_post_list (dlist_init lts_watch_list m)) heads ((\<lambda>_. [])(lts_sock_list := xs))"
proof -
  let ?F = "(\<lambda>_. [])(lts_sock_list := xs)"
  have 1: "lists_in (dlist_init lts_watch_list m) {lts_watch_list, lts_sock_list} (?F(lts_watch_list := []))"
    by (rule lists_in_insert [OF L]) (use c in \<open>auto simp: cells_start\<close>)
  have e: "?F(lts_watch_list := []) = ?F" "?F(lts_post_list := []) = ?F" by (rule ext, simp)+
  have "lists_in (dlist_init lts_post_list (dlist_init lts_watch_list m)) {lts_post_list, lts_watch_list, lts_sock_list} (?F(lts_post_list := []))"
    by (rule lists_in_insert [OF 1 [unfolded e]]) (use c in \<open>auto simp: cells_def\<close>)
  then show ?thesis unfolding e by (simp add: insert_commute)
qed

section \<open>The start\<close>

text \<open>Memory as the master finds it: no connection, no timer, no listening socket.\<close>

definition fresh_memory :: "'a net_scheme \<Rightarrow> bool" where
  "fresh_memory w \<longleftrightarrow> starting w {}"

text \<open>The addresses the allocator hands out: the listening structs and the cache are apart from each
  other and from the heads.\<close>

definition apart :: "listen_record list \<Rightarrow> addr \<Rightarrow> nat \<Rightarrow> nat \<Rightarrow> bool" where
  "apart rs base sz n \<longleftrightarrow> 0 < sz \<and> lts_post_list < base \<and> distinct (map lr_mem rs) \<and> 0 \<notin> set (map lr_mem rs) \<and>
     set (map lr_mem rs) \<inter> heads = {} \<and> (\<forall>i < n. base + i * sz \<notin> set (map lr_mem rs))"

definition max_conn_ok :: "int \<Rightarrow> bool" where
  "max_conn_ok maxc \<longleftrightarrow> 0 < maxc \<and> maxc + 64 < 2 ^ 31"

lemma cache_size:
  "max_conn_ok maxc \<Longrightarrow> unat (of_int (maxc + 64) :: 64 word) = nat (maxc + 64) \<and> (of_int (maxc + 64) :: 64 word) = of_nat (nat (maxc + 64))"
proof -
  assume "max_conn_ok maxc"
  then have "(of_int (maxc + 64) :: 64 word) = of_nat (nat (maxc + 64))" "nat (maxc + 64) < 2 ^ 64"
    by (auto simp: max_conn_ok_def)
  then show ?thesis by (simp only: unat_of_nat) simp
qed

text \<open>The master: listening sockets and cache.\<close>

lemma init_sock_cache_correct:
  assumes i: "starting w (set ls)" and m: "max_conn_ok maxc" and a: "0 < sz" "lts_post_list < base"
    and d: "set ls \<inter> heads = {}" "\<forall>i < nat (maxc + 64). base + i * sz \<notin> set ls"
  shows "let w' = init_sock_cache maxc base sz w; xs = map (\<lambda>i. base + i * sz) [0..<nat (maxc + 64)]
    in starting w' (set ls) \<and> lists_in (links w') {lts_sock_list} ((\<lambda>_. [])(lts_sock_list := xs)) \<and>
      sock_cache_n w' = of_nat (length xs)"
proof -
  let ?n = "nat (maxc + 64)" and ?w' = "init_sock_cache maxc base sz w"
  let ?m = "dlist_init lts_sock_list (links w)" and ?G = "\<lambda>_::addr. [] :: addr list"
  have n: "unat (of_int (maxc + 64) :: 64 word) = ?n" "(of_int (maxc + 64) :: 64 word) = of_nat ?n" using cache_size [OF m] by blast+
  have L: "lists_in ?m {lts_sock_list} ?G"
    using lists_in_insert [OF no_heads(1) [of _ ?G], of lts_sock_list] by (simp add: no_heads(2) fun_upd_idem)
  have c: "cells {lts_sock_list} ?G = {lts_sock_list}" by (simp add: cells_def)
  have b: "\<forall>i < ?n. base + i * sz \<notin> cells {lts_sock_list} ?G" unfolding c using a(2) by auto
  have lk: "links ?w' = cache_loop lts_sock_list ?n base sz ?m" using n(1) by (simp add: init_sock_cache_def Let_def)
  have "self_linked (links ?w') s" if "s \<in> set ls" for s
  proof -
    have "self_linked ?m s" using i that by (simp add: starting_def self_linked_init_other)
    moreover have "s \<notin> cells {lts_sock_list} ?G" "\<forall>i < ?n. s \<noteq> base + i * sz" using that d c by auto
    ultimately show ?thesis unfolding lk using cache_keeps_self_linked [OF L _ a(1) b] by blast
  qed
  moreover have "live ?w' = live w" "special ?w' = special w" "timer_heap ?w' = timer_heap w" "current_conns ?w' = current_conns w"
      "channel_signal ?w' = channel_signal w"
    by (simp_all add: init_sock_cache_def live_def special_def Let_def)
  ultimately have "starting ?w' (set ls)" using i by (simp add: starting_def)
  moreover have "lists_in (links ?w') {lts_sock_list} (?G(lts_sock_list := map (\<lambda>i. base + i * sz) [0..< ?n]))"
    unfolding lk using cache_loop_correct [OF L _ b a(1)] by simp
  moreover have "sock_cache_n ?w' = of_nat ?n"
    by (simp only: init_sock_cache_def Let_def upd_links_simps n(2)) simp
  ultimately show ?thesis by (simp add: Let_def)
qed

text \<open>A worker that starts on such memory has the invariant of the event loops.\<close>

lemma worker_start_correct:
  assumes i: "starting w (set ls)" and x: "lists_in (links w) {lts_sock_list} ((\<lambda>_. [])(lts_sock_list := xs))"
    and n: "sock_cache_n w = of_nat (length xs)" and c: "xs = s # fs" "0 \<notin> set xs" "set xs \<inter> heads = {}"
    and d: "set ls \<inter> heads = {}" "set xs \<inter> set ls = {}"
  shows "\<exists>w'. init_event_core_worker fd0 w = Some (s, w') \<and> net_inv w' ((\<lambda>_. [])(lts_sock_list := fs)) {} \<and>
    live w' = {} \<and> special w' = insert s (set ls) \<and> sock_cache_n w' = of_nat (length fs) \<and> channel_signal w' = 0"
proof -
  let ?F = "(\<lambda>_. [])(lts_sock_list := xs)" and ?F' = "(\<lambda>_. [])(lts_sock_list := fs)"
  let ?w = "upd_links (dlist_init lts_post_list) (upd_links (dlist_init lts_watch_list) w)"
  have "0 \<notin> cells heads ?F" using c by (auto simp: cells_def)
  moreover have "lists_in (links ?w) heads ?F" using worker_lists [OF _ x] c(3) by auto
  ultimately have L: "sock_lists ?w ?F" using n by (simp add: sock_lists_def)
  have t: "rbmap_inv (timer_heap ?w)" "rbmap_dict (timer_heap ?w) = Map.empty" using i by (simp_all add: starting_def)
  have st: "live w = {}" "special w = set ls" "current_conns w = 0" "\<forall>s\<in>set ls. s \<noteq> 0 \<and> self_linked (links w) s" "channel_signal w = 0"
    using i by (simp_all add: starting_def)
  have mv: "movable (links ?w) heads ?F y" if "y \<in> set ls" for y
    using that st(4) d(1) by (auto simp: movable_def self_linked_init_other)
  have e: "?F(lts_sock_list := fs) = ?F'" by (rule ext) simp
  obtain w1 where w1: "lts_alloc_socket ?w = Some (s, w1)" "sock_lists w1 ?F'" "s \<notin> cells heads ?F'" "s \<noteq> 0"
      "self_linked (links w1) s" "skts w1 = (skts w)(s := fresh_skt (current_time w) (skts w s))"
      "rbmap_inv (timer_heap w1)" "rbmap_dict (timer_heap w1) = Map.empty"
      "\<And>y. y \<noteq> s \<Longrightarrow> movable (links ?w) heads ?F y \<Longrightarrow> movable (links w1) heads ?F' y" "current_conns w1 = 0" "channel_signal w1 = 0"
    using alloc_socket_some [OF L _ t(1), of s fs] t(2) c(1) st(3,5) unfolding e by auto
  let ?w' = "upd_skt s (\<lambda>k. k\<lparr> fd := fd0, ev_mask := or EPOLLET EPOLLIN, do_read := Do_channel, do_write := NoHandler \<rparr>) w1"
  have r: "init_event_core_worker fd0 w = Some (s, ?w')" using w1(1,4) by (simp add: init_event_core_worker_def)
  have no: "conn_of (skts w y) = None" for y using st(1) by (auto simp: live_def)
  have lv: "live ?w' = {}" using w1(6) no by (auto simp: live_def fresh_skt_def)
  have sp: "special ?w' = insert s (set ls)" using w1(6) st(2) by (auto simp: special_def)
  have "movable (links w1) heads ?F' y" "y \<noteq> 0" "y \<notin> set fs" if "y \<in> set ls" for y
  proof -
    have "y \<noteq> s" "y \<notin> set fs" using that d(2) c(1) by auto
    then show "movable (links w1) heads ?F' y" "y \<noteq> 0" "y \<notin> set fs" using w1(9) [OF _ mv [OF that]] st(4) that by auto
  qed
  moreover have "movable (links w1) heads ?F' s" "s \<notin> set fs" using w1(3,5) c by (auto simp: movable_def cells_def)
  ultimately have "special_ok ?w' ?F'" unfolding special_ok_def sp using w1(4) by auto
  then have "net_inv ?w' ?F' {}" using w1(2,7,8,10) lv by (simp add: net_inv_def sock_lists_def timers_ok_def)
  then show ?thesis using r lv sp w1(2,11) by (auto simp: sock_lists_def)
qed

lemma server_start_correct:
  assumes "fresh_memory w" and "max_conn_ok maxc" and "apart rs base sz (nat (maxc + 64))"
    and "alloc_listen_sockets (Some rs) True maxc base sz w = Some (0, ls, w1)"
  shows "\<exists>w2. init_event_core_worker fd0 w1 = Some (base, w2) \<and>
    net_inv w2 ((\<lambda>_. [])(lts_sock_list := map (\<lambda>i. base + i * sz) [1..<nat maxc + 64])) {} \<and> live w2 = {} \<and>
    special w2 = insert base (set ls) \<and> base \<notin> set ls \<and> sock_cache_n w2 = of_nat (nat maxc + 63) \<and> channel_signal w2 = 0"
proof -
  let ?n = "nat (maxc + 64)" and ?xs = "map (\<lambda>i. base + i * sz) [0..<nat (maxc + 64)]"
  have ap: "0 < sz" "lts_post_list < base" "distinct (map lr_mem rs)" "0 \<notin> set (map lr_mem rs)" "set (map lr_mem rs) \<inter> heads = {}"
      "\<forall>i < ?n. base + i * sz \<notin> set (map lr_mem rs)"
    using assms(3) by (auto simp: apart_def)
  have "starting w (set [])" using assms(1) by (simp add: fresh_memory_def)
  from listen_loop_correct [OF this, of rs] ap(3,4) obtain ls0 w0 where
    w0: "listen_loop rs [] w = Some (ls0, w0)" "starting w0 (set ls0)" "set ls0 \<subseteq> set (map lr_mem rs)" by auto
  then have ls: "ls = ls0" "w1 = init_sock_cache maxc base sz w0"
    using assms(4) by (auto simp: alloc_listen_sockets_def split: if_splits)
  have hd: "set ls0 \<inter> heads = {}" and cl: "\<forall>i < ?n. base + i * sz \<notin> set ls0" using w0(3) ap(5,6) by blast+
  have c: "starting w1 (set ls)" "lists_in (links w1) {lts_sock_list} ((\<lambda>_. [])(lts_sock_list := ?xs))"
      "sock_cache_n w1 = of_nat (length ?xs)"
    using init_sock_cache_correct [OF w0(2) assms(2) ap(1,2) hd cl] ls by (auto simp: Let_def)
  have pos: "?n = nat maxc + 64" using assms(2) by (simp add: max_conn_ok_def nat_add_distrib)
  have xs: "?xs = base # map (\<lambda>i. base + i * sz) [1..<?n]"
    unfolding pos by (simp add: upt_conv_Cons)
  have "0 \<notin> set ?xs" "set ?xs \<inter> heads = {}" "set ?xs \<inter> set ls = {}" using ap(2) cl ls(1) by auto
  moreover have "set ls \<inter> heads = {}" using hd ls(1) by blast
  ultimately obtain w2 where
    w2: "init_event_core_worker fd0 w1 = Some (base, w2)" "net_inv w2 ((\<lambda>_. [])(lts_sock_list := map (\<lambda>i. base + i * sz) [1..<?n])) {}"
      "live w2 = {}" "special w2 = insert base (set ls)" "sock_cache_n w2 = of_nat (length (map (\<lambda>i. base + i * sz) [1..<?n]))"
      "channel_signal w2 = 0"
    using worker_start_correct [OF c xs, of fd0] by blast
  have "base \<notin> set ls" using cl ls(1) pos by (auto dest: spec [of _ 0])
  then show ?thesis using w2 pos by auto
qed

end
