(* ===== verification/SimpleJson.thy ===== *)
theory SimpleJson
  imports ListH AdvString
begin

text \<open>
  \<open>include/simple_json.h\<close>, \<open>src/simple_json.c\<close>: JSON objects as red-black trees of nodes sorted
  by \<open>lts_str_compare\<close>, their encoder, and the decoder, a state machine over the input bytes.

  A node (\<open>lts_sjson_obj_node_t\<close>) is an address; the object, list or key-value structure around
  it is named by the same address.  \<open>jh_tree\<close> gives for every object its root \<open>val\<close> and the
  \<open>tnode\<close> fields of the nodes linked below it; a node is linked into one object only, so the
  \<open>tnode\<close> memories of the objects are kept apart, and the initial \<open>tnode = RB_NODE\<close> of a node,
  which \<open>rb_link_node\<close> overwrites, is not stored.  A string is the bytes it covers.

  Pool allocations return the counter \<open>jh_next\<close> as the address of the new memory;
  \<open>jh_pool\<close> says which requests (number, size) the pool grants, the others return NULL.
\<close>

section \<open>Data\<close>

datatype node_type = STRING_VALUE | LIST_VALUE | OBJ_VALUE | OTHER_TYPE

record jheap =
  jh_tree :: "addr \<Rightarrow> rbs"
  jh_type :: "addr \<Rightarrow> node_type"
  jh_key :: "addr \<Rightarrow> bstr"
  jh_str :: "addr \<Rightarrow> bstr"
  jh_list :: "addr \<Rightarrow> addr"
  jh_link :: links
  jh_next :: addr
  jh_pool :: "addr \<Rightarrow> int \<Rightarrow> bool"

definition jalloc :: "int \<Rightarrow> jheap \<Rightarrow> addr \<times> jheap" where
  "jalloc sz h = (if jh_pool h (jh_next h) sz then jh_next h else 0, h\<lparr> jh_next := jh_next h + 1 \<rparr>)"

text \<open>\<open>lts_str_clone\<close>, on the pool of the heap: a refused request is written to.\<close>

definition jclone :: "bstr \<Rightarrow> jheap \<Rightarrow> (bstr \<times> jheap) option" where
  "jclone s h = (let (p, h) = jalloc 16 h; (q, h) = jalloc (int (length s) + 1) h
                 in if p = 0 \<or> q = 0 then None else Some (s, h))"

text \<open>\<open>lts_key_sjson\<close>, \<open>lts_empty_sjson\<close>: an object without members.\<close>

definition lts_key_sjson :: "addr \<Rightarrow> bstr \<Rightarrow> jheap \<Rightarrow> jheap" where
  "lts_key_sjson ob key h = h\<lparr> jh_tree := (jh_tree h)(ob := (jh_tree h ob)\<lparr> rb_root := 0 \<rparr>),
     jh_type := (jh_type h)(ob := OBJ_VALUE), jh_key := (jh_key h)(ob := key),
     jh_link := (jh_link h)(ob := 0) \<rparr>"

definition lts_empty_sjson :: "addr \<Rightarrow> jheap \<Rightarrow> jheap" where
  "lts_empty_sjson ob h = lts_key_sjson ob [] h"

section \<open>Search and construction\<close>

text \<open>The descent of \<open>__lts_sjson_search\<close>: the node found or 0, the last parent, the place.\<close>

partial_function (option) sjson_descend ::
  "(addr \<Rightarrow> bstr) \<Rightarrow> bstr \<Rightarrow> addr \<Rightarrow> rb_slot \<Rightarrow> rbs \<Rightarrow> (addr \<times> addr \<times> rb_slot) option" where
  "sjson_descend keys key parent iter t = do {
     s \<leftarrow> load_slot iter t;
     if s = 0 then Some (0, parent, iter)
     else let balance = lts_str_compare key (keys s)
          in if balance < 0 then sjson_descend keys key s (LeftSlot s) t
             else if balance > 0 then sjson_descend keys key s (RightSlot s) t
             else Some (s, s, iter) }"

declare sjson_descend.simps [code]

definition lts_sjson_search :: "addr \<Rightarrow> addr \<Rightarrow> bool \<Rightarrow> jheap \<Rightarrow> (addr \<times> jheap) option" where
  "lts_sjson_search ob obj_node link h = do {
     (s, parent, iter) \<leftarrow> sjson_descend (jh_key h) (jh_key h obj_node) 0 RootSlot (jh_tree h ob);
     if s \<noteq> 0 then Some (s, h)
     else if link then do {
       t \<leftarrow> rb_link_node obj_node parent iter (jh_tree h ob);
       t \<leftarrow> rb_insert_color obj_node t;
       Some (obj_node, h\<lparr> jh_tree := (jh_tree h)(ob := t) \<rparr>) }
     else Some (obj_node, h) }"

definition lts_sjson_add_sjson2 :: "addr \<Rightarrow> bstr \<Rightarrow> jheap \<Rightarrow> (addr \<times> jheap) option" where
  "lts_sjson_add_sjson2 sjson key h =
     (let (sub, h) = jalloc 72 h
      in if sub = 0 then Some (0, h)
         else do {
           (key, h) \<leftarrow> jclone key h;
           let h = lts_key_sjson sub key h;
           (r, h) \<leftarrow> lts_sjson_search sjson sub True h;
           Some (if r \<noteq> sub then 0 else sub, h) })"

definition lts_sjson_add_kv2 :: "addr \<Rightarrow> bstr \<Rightarrow> bstr \<Rightarrow> jheap \<Rightarrow> (addr \<times> jheap) option" where
  "lts_sjson_add_kv2 sjson key val h =
     (let (kv, h) = jalloc 64 h
      in do {
        (clone_key, h) \<leftarrow> jclone key h;
        (clone_val, h) \<leftarrow> jclone val h;
        if kv = 0 then None
        else do {
          let h = h\<lparr> jh_str := (jh_str h)(kv := clone_val), jh_type := (jh_type h)(kv := STRING_VALUE),
                     jh_key := (jh_key h)(kv := clone_key) \<rparr>;
          (r, h) \<leftarrow> lts_sjson_search sjson kv True h;
          Some (if r \<noteq> kv then 0 else kv, h) } })"

text \<open>The variants that take C strings.\<close>

definition lts_sjson_add_sjson :: "addr \<Rightarrow> bstr \<Rightarrow> jheap \<Rightarrow> (addr \<times> jheap) option" where
  "lts_sjson_add_sjson sjson key h = lts_sjson_add_sjson2 sjson (cstr key) h"

definition lts_sjson_add_kv :: "addr \<Rightarrow> bstr \<Rightarrow> bstr \<Rightarrow> jheap \<Rightarrow> (addr \<times> jheap) option" where
  "lts_sjson_add_kv sjson key val h = lts_sjson_add_kv2 sjson (cstr key) (cstr val) h"

text \<open>\<open>lts_sjson_get_obj_node\<close>: \<open>tmp\<close> is the address of the local \<open>tmp_node\<close>, of which only the key
  is set.  It is returned when the key is missing.\<close>

definition lts_sjson_get_obj_node :: "addr \<Rightarrow> addr \<Rightarrow> bstr \<Rightarrow> jheap \<Rightarrow> (addr \<times> jheap) option" where
  "lts_sjson_get_obj_node tmp sjson key h =
     lts_sjson_search sjson tmp False (h\<lparr> jh_key := (jh_key h)(tmp := key) \<rparr>)"

definition lts_sjson_pop_min :: "addr \<Rightarrow> jheap \<Rightarrow> (addr \<times> jheap) option" where
  "lts_sjson_pop_min ob h = do {
     p \<leftarrow> rb_first (jh_tree h ob);
     if p = 0 then Some (0, h)
     else do {
       t \<leftarrow> rb_erase p (jh_tree h ob);
       Some (p, h\<lparr> jh_tree := (jh_tree h)(ob := t) \<rparr>) } }"

definition lts_sjson_first :: "addr \<Rightarrow> jheap \<Rightarrow> addr option" where
  "lts_sjson_first ob h = do { p \<leftarrow> rb_first (jh_tree h ob); Some (if p \<noteq> 0 then p else 0) }"

definition lts_sjson_last :: "addr \<Rightarrow> jheap \<Rightarrow> addr option" where
  "lts_sjson_last ob h = do { p \<leftarrow> rb_last (jh_tree h ob); Some (if p \<noteq> 0 then p else 0) }"

definition lts_sjson_prev :: "addr \<Rightarrow> addr \<Rightarrow> jheap \<Rightarrow> addr option" where
  "lts_sjson_prev ob node h = do { p \<leftarrow> rb_prev node (jh_tree h ob); Some (if p \<noteq> 0 then p else 0) }"

definition lts_sjson_next :: "addr \<Rightarrow> addr \<Rightarrow> jheap \<Rightarrow> addr option" where
  "lts_sjson_next ob node h = do { p \<leftarrow> rb_next node (jh_tree h ob); Some (if p \<noteq> 0 then p else 0) }"

section \<open>Encoder\<close>

text \<open>\<open>list_next\<close> reads the link of the cell.\<close>

partial_function (option) li_size_loop :: "jheap \<Rightarrow> addr \<Rightarrow> int \<Rightarrow> int option" where
  "li_size_loop h it sz =
     (if it = 0 then Some sz
      else do {
        n \<leftarrow> list_next (jh_link h) it;
        li_size_loop h n (sz + (int (length (jh_str h it)) + 2) + 1) })"

declare li_size_loop.simps [code]

text \<open>The size of an object, from its member \<open>p\<close> on.  A nested object without members is 2.\<close>

partial_function (option) encode_size_loop :: "jheap \<Rightarrow> addr \<Rightarrow> addr \<Rightarrow> int \<Rightarrow> int option" where
  "encode_size_loop h ob p sz =
     (if p = 0 then Some (sz - 1)
      else let sz = sz + 1; klen = int (length (jh_key h p)) + 2 in
        case jh_type h p of
          STRING_VALUE \<Rightarrow> do {
            let sz = sz + klen + 1 + (int (length (jh_str h p)) + 2);
            next \<leftarrow> rb_next p (jh_tree h ob);
            encode_size_loop h ob next sz }
        | LIST_VALUE \<Rightarrow> do {
            let sz = sz + 2 + klen + 1;
            let it = list_first (jh_list h p);
            sz \<leftarrow> (if it \<noteq> 0 then do { sz \<leftarrow> li_size_loop h it sz; Some (sz - 1) } else Some sz);
            next \<leftarrow> rb_next p (jh_tree h ob);
            encode_size_loop h ob next sz }
        | OBJ_VALUE \<Rightarrow> do {
            let sz = sz + klen + 1;
            q \<leftarrow> rb_first (jh_tree h p);
            sub \<leftarrow> (if q = 0 then Some 2 else encode_size_loop h p q 2);
            next \<leftarrow> rb_next p (jh_tree h ob);
            encode_size_loop h ob next (sz + sub) }
        | OTHER_TYPE \<Rightarrow> Some (-1))"

declare encode_size_loop.simps [code]

definition lts_sjson_encode_size :: "jheap \<Rightarrow> addr \<Rightarrow> int option" where
  "lts_sjson_encode_size h ob = do {
     let sz = 2;
     p \<leftarrow> rb_first (jh_tree h ob);
     if p = 0 then Some sz else encode_size_loop h ob p sz }"

text \<open>The output: its bytes and the offset of the next write.\<close>

type_synonym outbuf = "byte list \<times> int"

definition emit :: "byte \<Rightarrow> outbuf \<Rightarrow> outbuf option" where
  "emit c s = do { D \<leftarrow> wri (fst s) (snd s) c; Some (D, snd s + 1) }"

definition emits :: "bstr \<Rightarrow> outbuf \<Rightarrow> outbuf option" where
  "emits cs s = do { D \<leftarrow> wrn (fst s) (snd s) cs; Some (D, snd s + int (length cs)) }"

definition emit_quoted :: "bstr \<Rightarrow> outbuf \<Rightarrow> outbuf option" where
  "emit_quoted cs s = do { s \<leftarrow> emit c_quot s; s \<leftarrow> emits cs s; emit c_quot s }"

partial_function (option) encode_li_loop :: "jheap \<Rightarrow> addr \<Rightarrow> outbuf \<Rightarrow> outbuf option" where
  "encode_li_loop h it s =
     (if it = 0 then Some s
      else do {
        s \<leftarrow> emit_quoted (jh_str h it) s;
        next \<leftarrow> list_next (jh_link h) it;
        s \<leftarrow> (if next \<noteq> 0 then emit c_comma s else Some s);
        encode_li_loop h next s })"

declare encode_li_loop.simps [code]

text \<open>The members of an object from \<open>p\<close> on, and the closing brace.\<close>

partial_function (option) sjson_encode_loop :: "jheap \<Rightarrow> addr \<Rightarrow> addr \<Rightarrow> outbuf \<Rightarrow> outbuf option" where
  "sjson_encode_loop h ob p s =
     (if p = 0 then emit c_rbrace s
      else do {
        s \<leftarrow> (case jh_type h p of
            STRING_VALUE \<Rightarrow> do {
              s \<leftarrow> emit_quoted (jh_key h p) s;
              s \<leftarrow> emit c_colon s;
              emit_quoted (jh_str h p) s }
          | LIST_VALUE \<Rightarrow> do {
              s \<leftarrow> emit_quoted (jh_key h p) s;
              s \<leftarrow> emit c_colon s;
              s \<leftarrow> emit c_lbrack s;
              s \<leftarrow> encode_li_loop h (list_first (jh_list h p)) s;
              emit c_rbrack s }
          | OBJ_VALUE \<Rightarrow> do {
              s \<leftarrow> emit_quoted (jh_key h p) s;
              s \<leftarrow> emit c_colon s;
              s \<leftarrow> emit c_lbrace s;
              q \<leftarrow> rb_first (jh_tree h p);
              sjson_encode_loop h p q s }
          | OTHER_TYPE \<Rightarrow> None);
        next \<leftarrow> rb_next p (jh_tree h ob);
        s \<leftarrow> (if next \<noteq> 0 then emit c_comma s else Some s);
        sjson_encode_loop h ob next s })"

declare sjson_encode_loop.simps [code]

definition sjson_encode :: "jheap \<Rightarrow> addr \<Rightarrow> outbuf \<Rightarrow> outbuf option" where
  "sjson_encode h ob s = do {
     s \<leftarrow> emit c_lbrace s;
     p \<leftarrow> rb_first (jh_tree h ob);
     sjson_encode_loop h ob p s }"

text \<open>\<open>junk\<close>: the last byte of the buffer, which \<open>memset\<close> leaves.  The result is the return
  value, the output (none on failure) and the heap; \<open>None\<close> is \<open>abort()\<close>, a failed ASSERT or a
  write outside the buffer.\<close>

definition lts_sjson_encode :: "byte \<Rightarrow> addr \<Rightarrow> jheap \<Rightarrow> (int \<times> lts_str option \<times> jheap) option" where
  "lts_sjson_encode junk sjson h = do {
     data_sz \<leftarrow> lts_sjson_encode_size h sjson;
     if data_sz = -1 then Some (-1, None, h)
     else let (data, h) = jalloc (data_sz + 1) h
          in if data = 0 then Some (-1, None, h)
             else do {
               (D, offset) \<leftarrow> sjson_encode h sjson (replicate (nat data_sz) 0 @ [junk], 0);
               if offset = data_sz then Some (0, Some \<lparr> s_data = D, s_len = nat offset \<rparr>, h)
               else None } }"

end
