(* ===== verification/SjsonDecode.thy ===== *)
theory SjsonDecode
  imports SimpleJson
begin

text \<open>
  \<open>lts_sjson_decode\<close> of \<open>src/simple_json.c\<close>: the input, with the invisible characters filtered
  out in place, drives a state machine; the states are the source's, and every case of its
  \<open>switch\<close> is a step function of its own.

  Keys and values are slices of the input; a slice that grows by one character at the reading
  position is kept as its bytes.  A step returns \<open>Inl\<close> the error it reports, and \<open>None\<close> for
  \<open>abort()\<close> or an access through NULL.
\<close>

datatype sjson_stat =
    SJSON_EXP_START
  | SJSON_EXP_K_QUOT_START_OR_END
  | SJSON_EXP_K_QUOT_START
  | SJSON_EXP_K_QUOT_END
  | SJSON_EXP_COLON
  | SJSON_EXP_V_MAP_OR_QUOT_OR_BRACKET_START
  | SJSON_EXP_V_QUOT_END
  | SJSON_EXP_V_QUOT_START_OR_BRACKET_END
  | SJSON_EXP_COMMA_OR_BRACKET_END
  | SJSON_EXP_COMMA_OR_END
  | SJSON_EXP_END
  | SJSON_EXP_NOTHING

datatype jerror = LTS_E_INVALID_FORMAT | LTS_E_NOMEM

record dec =
  obj_stack :: addr
  in_bracket :: bool
  current_stat :: sjson_stat
  current_key :: bstr
  json_kv :: addr
  li_node :: addr
  json_list :: addr
  jh :: jheap

type_synonym dstep = "(jerror + dec) option"

text \<open>The object that is being filled: the top of the stack, or the output.\<close>

definition current_obj :: "addr \<Rightarrow> dec \<Rightarrow> addr" where
  "current_obj out d = (if lstack_is_empty (obj_stack d) then out else lstack_top (obj_stack d))"

definition attach :: "addr \<Rightarrow> addr \<Rightarrow> dec \<Rightarrow> dec option" where
  "attach out n d = do { (_, h) \<leftarrow> lts_sjson_search (current_obj out d) n True (jh d); Some (d\<lparr> jh := h \<rparr>) }"

definition pop_obj :: "dec \<Rightarrow> dec option" where
  "pop_obj d = do { (s, m) \<leftarrow> lstack_pop (obj_stack d) (jh_link (jh d));
     Some (d\<lparr> obj_stack := s, jh := (jh d)\<lparr> jh_link := m \<rparr> \<rparr>) }"

definition exp_start :: "byte \<Rightarrow> dec \<Rightarrow> dstep" where
  "exp_start c d =
     (if c \<noteq> c_lbrace then Some (Inl LTS_E_INVALID_FORMAT)
      else Some (Inr (d\<lparr> current_stat := SJSON_EXP_K_QUOT_START_OR_END \<rparr>)))"

definition exp_k_quot_start_or_end :: "byte \<Rightarrow> dec \<Rightarrow> dstep" where
  "exp_k_quot_start_or_end c d =
     (if c = c_quot then Some (Inr (d\<lparr> current_stat := SJSON_EXP_K_QUOT_END, current_key := [] \<rparr>))
      else if c = c_rbrace then
        if lstack_is_empty (obj_stack d) then Some (Inr (d\<lparr> current_stat := SJSON_EXP_NOTHING \<rparr>))
        else do { d \<leftarrow> pop_obj (d\<lparr> current_stat := SJSON_EXP_COMMA_OR_END \<rparr>); Some (Inr d) }
      else Some (Inl LTS_E_INVALID_FORMAT))"

definition exp_k_quot_start :: "byte \<Rightarrow> dec \<Rightarrow> dstep" where
  "exp_k_quot_start c d =
     (if c = c_quot then Some (Inr (d\<lparr> current_stat := SJSON_EXP_K_QUOT_END, current_key := [] \<rparr>))
      else Some (Inr d))"

definition exp_k_quot_end :: "byte \<Rightarrow> dec \<Rightarrow> dstep" where
  "exp_k_quot_end c d =
     (if c = c_quot then Some (Inr (d\<lparr> current_stat := SJSON_EXP_COLON \<rparr>))
      else Some (Inr (d\<lparr> current_key := current_key d @ [c] \<rparr>)))"

definition exp_colon :: "byte \<Rightarrow> dec \<Rightarrow> dstep" where
  "exp_colon c d =
     (if c \<noteq> c_colon then Some (Inl LTS_E_INVALID_FORMAT)
      else Some (Inr (d\<lparr> current_stat := SJSON_EXP_V_MAP_OR_QUOT_OR_BRACKET_START \<rparr>)))"

text \<open>The start of a value, one case per kind of value.\<close>

definition start_kv :: "dec \<Rightarrow> dstep" where
  "start_kv d =
     (let (kv, h) = jalloc 64 (jh d)
      in if kv = 0 then Some (Inl LTS_E_NOMEM)
         else Some (Inr (d\<lparr> current_stat := SJSON_EXP_V_QUOT_END, json_kv := kv,
           jh := h\<lparr> jh_key := (jh_key h)(kv := current_key d), jh_str := (jh_str h)(kv := []),
                    jh_type := (jh_type h)(kv := STRING_VALUE) \<rparr> \<rparr>)))"

definition start_list :: "dec \<Rightarrow> dstep" where
  "start_list d =
     (let (l, h) = jalloc 56 (jh d)
      in if l = 0 then Some (Inl LTS_E_NOMEM)
         else Some (Inr (d\<lparr> in_bracket := True, current_stat := SJSON_EXP_V_QUOT_START_OR_BRACKET_END,
           json_list := l,
           jh := h\<lparr> jh_key := (jh_key h)(l := current_key d), jh_list := (jh_list h)(l := list_set_empty),
                    jh_type := (jh_type h)(l := LIST_VALUE) \<rparr> \<rparr>)))"

definition start_obj :: "addr \<Rightarrow> dec \<Rightarrow> dstep" where
  "start_obj out d =
     (let (new_obj, h) = jalloc 72 (jh d)
      in if new_obj = 0 then Some (Inl LTS_E_NOMEM)
         else do {
           let h = h\<lparr> jh_key := (jh_key h)(new_obj := current_key d),
                      jh_tree := (jh_tree h)(new_obj := (jh_tree h new_obj)\<lparr> rb_root := 0 \<rparr>),
                      jh_type := (jh_type h)(new_obj := OBJ_VALUE) \<rparr>;
           d \<leftarrow> attach out new_obj (d\<lparr> current_stat := SJSON_EXP_K_QUOT_START_OR_END, jh := h \<rparr>);
           (s, m) \<leftarrow> lstack_push (obj_stack d) new_obj (jh_link (jh d));
           Some (Inr (d\<lparr> obj_stack := s, jh := (jh d)\<lparr> jh_link := m \<rparr> \<rparr>)) })"

definition exp_v_start :: "addr \<Rightarrow> byte \<Rightarrow> dec \<Rightarrow> dstep" where
  "exp_v_start out c d =
     (if c = c_quot then start_kv d
      else if c = c_lbrack then start_list d
      else if c = c_lbrace then start_obj out d
      else Some (Inl LTS_E_INVALID_FORMAT))"

text \<open>\<open>]\<close>: the list is attached.\<close>

definition close_list :: "addr \<Rightarrow> dec \<Rightarrow> dstep" where
  "close_list out d = do {
     d \<leftarrow> attach out (json_list d) (d\<lparr> in_bracket := False, current_stat := SJSON_EXP_COMMA_OR_END \<rparr>);
     Some (Inr (d\<lparr> json_list := 0 \<rparr>)) }"

definition exp_v_quot_start_or_bracket_end :: "addr \<Rightarrow> byte \<Rightarrow> dec \<Rightarrow> dstep" where
  "exp_v_quot_start_or_bracket_end out c d =
     (if \<not> in_bracket d then None
      else if c = c_quot then
        let (li, h) = jalloc 24 (jh d)
        in if li = 0 then Some (Inl LTS_E_NOMEM)
           else Some (Inr (d\<lparr> current_stat := SJSON_EXP_V_QUOT_END, li_node := li,
                  jh := h\<lparr> jh_str := (jh_str h)(li := []) \<rparr> \<rparr>))
      else if c = c_rbrack then close_list out d
      else Some (Inl LTS_E_INVALID_FORMAT))"

text \<open>\<open>++node->val.len\<close>\<close>

definition grow_val :: "addr \<Rightarrow> byte \<Rightarrow> dec \<Rightarrow> dec option" where
  "grow_val n c d =
     (if n = 0 then None
      else Some (d\<lparr> jh := (jh d)\<lparr> jh_str := (jh_str (jh d))(n := jh_str (jh d) n @ [c]) \<rparr> \<rparr>))"

definition exp_v_quot_end :: "addr \<Rightarrow> byte \<Rightarrow> dec \<Rightarrow> dstep" where
  "exp_v_quot_end out c d =
     (if in_bracket d then
        if c = c_quot then
          if json_list d = 0 then None
          else do {
            (l, m) \<leftarrow> list_add_node (jh_list (jh d) (json_list d)) (li_node d) (jh_link (jh d));
            Some (Inr (d\<lparr> current_stat := SJSON_EXP_COMMA_OR_BRACKET_END, li_node := 0,
              jh := (jh d)\<lparr> jh_list := (jh_list (jh d))(json_list d := l), jh_link := m \<rparr> \<rparr>)) }
        else do { d \<leftarrow> grow_val (li_node d) c d; Some (Inr d) }
      else if c = c_quot then do {
          d \<leftarrow> attach out (json_kv d) (d\<lparr> current_stat := SJSON_EXP_COMMA_OR_END \<rparr>);
          Some (Inr (d\<lparr> json_kv := 0 \<rparr>)) }
      else do { d \<leftarrow> grow_val (json_kv d) c d; Some (Inr d) })"

definition exp_comma_or_bracket_end :: "addr \<Rightarrow> byte \<Rightarrow> dec \<Rightarrow> dstep" where
  "exp_comma_or_bracket_end out c d =
     (if \<not> in_bracket d then None
      else if c = c_comma then Some (Inr (d\<lparr> current_stat := SJSON_EXP_V_QUOT_START_OR_BRACKET_END \<rparr>))
      else if c = c_rbrack then close_list out d
      else Some (Inl LTS_E_INVALID_FORMAT))"

definition exp_comma_or_end :: "byte \<Rightarrow> dec \<Rightarrow> dstep" where
  "exp_comma_or_end c d =
     (if in_bracket d then None
      else if c = c_comma then Some (Inr (d\<lparr> current_stat := SJSON_EXP_K_QUOT_START_OR_END \<rparr>))
      else if c = c_rbrace then
        if lstack_is_empty (obj_stack d) then Some (Inr (d\<lparr> current_stat := SJSON_EXP_NOTHING \<rparr>))
        else do { d \<leftarrow> pop_obj (d\<lparr> current_stat := SJSON_EXP_COMMA_OR_END \<rparr>); Some (Inr d) }
      else Some (Inl LTS_E_INVALID_FORMAT))"

definition sjson_step :: "addr \<Rightarrow> byte \<Rightarrow> dec \<Rightarrow> dstep" where
  "sjson_step out c d =
     (case current_stat d of
        SJSON_EXP_START \<Rightarrow> exp_start c d
      | SJSON_EXP_K_QUOT_START_OR_END \<Rightarrow> exp_k_quot_start_or_end c d
      | SJSON_EXP_K_QUOT_START \<Rightarrow> exp_k_quot_start c d
      | SJSON_EXP_K_QUOT_END \<Rightarrow> exp_k_quot_end c d
      | SJSON_EXP_NOTHING \<Rightarrow> Some (Inl LTS_E_INVALID_FORMAT)
      | SJSON_EXP_COLON \<Rightarrow> exp_colon c d
      | SJSON_EXP_V_MAP_OR_QUOT_OR_BRACKET_START \<Rightarrow> exp_v_start out c d
      | SJSON_EXP_V_QUOT_START_OR_BRACKET_END \<Rightarrow> exp_v_quot_start_or_bracket_end out c d
      | SJSON_EXP_V_QUOT_END \<Rightarrow> exp_v_quot_end out c d
      | SJSON_EXP_COMMA_OR_BRACKET_END \<Rightarrow> exp_comma_or_bracket_end out c d
      | SJSON_EXP_COMMA_OR_END \<Rightarrow> exp_comma_or_end c d
      | SJSON_EXP_END \<Rightarrow> None)"

function decode_chars :: "addr \<Rightarrow> lts_str \<Rightarrow> nat \<Rightarrow> dec \<Rightarrow> dstep" where
  "decode_chars out src i d =
     (if i < s_len src then do {
        c \<leftarrow> rd (s_data src) i;
        r \<leftarrow> sjson_step out c d;
        case r of Inl e \<Rightarrow> Some (Inl e) | Inr d \<Rightarrow> decode_chars out src (i + 1) d }
      else Some (Inr d))"
  by pat_completeness auto
termination by (relation "measure (\<lambda>(out, src, i, d). s_len src - i)") auto

declare decode_chars.simps [simp del]

definition sjson_invisible :: bstr where
  "sjson_invisible = [c_tab, c_nl, c_cr, c_space]"

definition dec_start :: "jheap \<Rightarrow> dec" where
  "dec_start h = \<lparr> obj_stack = 0, in_bracket = False, current_stat = SJSON_EXP_START, current_key = [],
     json_kv = 0, li_node = 0, json_list = 0, jh = h \<rparr>"

text \<open>The result: 0 and the heap with the decoded object, or -1 with \<open>errno\<close> (unset when the input
  ends early).  On failure every caller drops the pool, so the heap is not returned.  The second
  component is the filtered input.\<close>

definition lts_sjson_decode :: "lts_str \<Rightarrow> addr \<Rightarrow> jheap \<Rightarrow> ((jerror option + jheap) \<times> lts_str) option" where
  "lts_sjson_decode src out h = do {
     (src, _) \<leftarrow> lts_str_filter_multi src sjson_invisible;
     r \<leftarrow> decode_chars out src 0 (dec_start h);
     Some (case r of Inl e \<Rightarrow> Inl (Some e)
           | Inr d \<Rightarrow> if current_stat d = SJSON_EXP_NOTHING then Inr (jh d) else Inl None, src) }"

end
