(* ===== verification/SjsonTree.thy ===== *)
theory SjsonTree
  imports SjsonDecode RbMap
begin

text \<open>
  What the operations of \<open>simple_json\<close> do to one object: \<open>obj_tree t ns\<close> says that \<open>t\<close> is a
  well-formed red-black tree whose nodes are, in order, \<open>ns\<close>.  Searching and linking end in any
  such tree; they are exact when the keys are sorted and free of NUL, where \<open>lts_str_compare\<close> is
  the lexicographic order.
\<close>

definition obj_tree :: "rbs \<Rightarrow> addr list \<Rightarrow> bool" where
  "obj_tree t ns \<longleftrightarrow> (\<exists>T. zip_in (rb_mem t) t [] T \<and> rb_ok T \<and> col T = Black \<and> inord T = ns)"

lemma obj_tree_empty [simp]: "obj_tree (t\<lparr> rb_root := 0 \<rparr>) []"
  unfolding obj_tree_def by (intro exI [of _ Lf]) (simp add: zip_in_def)

lemma obj_tree_facts: "obj_tree t ns \<Longrightarrow> 0 \<notin> set ns \<and> distinct ns"
  using tree_in_nonzero by (auto simp: obj_tree_def zip_in_def)

lemma obj_tree_first: "obj_tree t ns \<Longrightarrow> rb_first t = Some (hd_or0 ns)"
  using rb_first_correct by (auto simp: obj_tree_def)

lemma obj_tree_next:
  assumes "obj_tree t (xs @ n # ys)"
  shows "rb_next n t = Some (hd_or0 ys)" and "rb_prev n t = Some (last_or0 xs)"
proof -
  obtain T where T: "zip_in (rb_mem t) t [] T" "inord T = xs @ n # ys" using assms by (auto simp: obj_tree_def)
  obtain fs l c r where f: "T = plug fs (Nd l n c r)" using focus_exists [of n T] T(2) by auto
  have z: "zip_in (rb_mem t) t fs (Nd l n c r)" using T(1) f zip_in_plug by blast
  have "distinct (xs @ n # ys)" using obj_tree_facts [OF assms] by blast
  then have "n \<notin> set xs" "n \<notin> set ys" by auto
  moreover have "xs @ n # ys = (pre fs @ inord l) @ n # (inord r @ suf fs)" using T(2) f by simp
  ultimately have "xs = pre fs @ inord l \<and> ys = inord r @ suf fs"
    using append_Cons_eq_iff [of n xs ys "pre fs @ inord l" "inord r @ suf fs"] by blast
  then show "rb_next n t = Some (hd_or0 ys)" "rb_prev n t = Some (last_or0 xs)"
    using rb_next_correct [OF z] rb_prev_correct [OF z] by simp_all
qed

section \<open>Search\<close>

text \<open>In any tree the descent ends, at a node of the tree or at a leaf.\<close>

lemma descend_reaches:
  assumes "zip_in m s fs T"
  shows "\<exists>a p it. sjson_descend keys k (top fs) (slot_of fs) s = Some (a, p, it) \<and>
    (a \<noteq> 0 \<longrightarrow> a \<in> set (inord T)) \<and>
    (a = 0 \<longrightarrow> (\<exists>fs'. p = top fs' \<and> it = slot_of fs' \<and> plug fs' Lf = plug fs T))"
  using assms
proof (induction T arbitrary: fs)
  case Lf
  then show ?case by (subst sjson_descend.simps) (auto simp: load_slot_of [OF Lf])
next
  case (Nd l a c r)
  note ls = load_slot_of [OF Nd.prems]
  have a: "a \<noteq> 0" using Nd.prems by (simp add: zip_in_def)
  have zl: "zip_in m s (FL a c r # fs) l" and zr: "zip_in m s (FR l a c # fs) r"
    using Nd.prems by (simp_all add: zip_in_up)
  show ?case
    using a Nd.IH(1) [OF zl] Nd.IH(2) [OF zr]
    by (subst sjson_descend.simps) (auto simp: ls Let_def)
qed

definition keys_ok :: "(addr \<Rightarrow> bstr) \<Rightarrow> addr list \<Rightarrow> bool" where
  "keys_ok keys ns \<longleftrightarrow> sorted_wrt lex_less (map keys ns) \<and> (\<forall>a\<in>set ns. 0 \<notin> set (keys a))"

lemma keys_ok_append: "keys_ok keys (xs @ a # ys) \<Longrightarrow>
  keys_ok keys xs \<and> keys_ok keys ys \<and> (\<forall>x\<in>set xs. lex_less (keys x) (keys a)) \<and>
  (\<forall>y\<in>set ys. lex_less (keys a) (keys y)) \<and> 0 \<notin> set (keys a)"
  by (auto simp: keys_ok_def sorted_wrt_append)

lemma keys_ok_insert: "keys_ok keys (xs @ ys) \<Longrightarrow> 0 \<notin> set (keys n) \<Longrightarrow> \<forall>x\<in>set xs. lex_less (keys x) (keys n) \<Longrightarrow>
  \<forall>y\<in>set ys. lex_less (keys n) (keys y) \<Longrightarrow> keys_ok keys (xs @ n # ys)"
  by (auto simp: keys_ok_def sorted_wrt_append)

text \<open>With sorted keys it finds the key, or the leaf where it belongs.\<close>

lemma descend_exact:
  assumes "zip_in m s fs T" and "keys_ok keys (inord T)" and "0 \<notin> set k"
    and "\<forall>x\<in>set (pre fs). lex_less (keys x) k" and "\<forall>x\<in>set (suf fs). lex_less k (keys x)"
  shows "\<exists>a p it. sjson_descend keys k (top fs) (slot_of fs) s = Some (a, p, it) \<and>
    (if a \<noteq> 0 then a \<in> set (inord T) \<and> keys a = k
     else \<exists>fs'. p = top fs' \<and> it = slot_of fs' \<and> plug fs' Lf = plug fs T \<and>
       (\<forall>x\<in>set (pre fs'). lex_less (keys x) k) \<and> (\<forall>x\<in>set (suf fs'). lex_less k (keys x)))"
  using assms
proof (induction T arbitrary: fs)
  case Lf
  then show ?case by (subst sjson_descend.simps) (auto simp: load_slot_of [OF Lf(1)])
next
  case (Nd l a c r)
  note ls = load_slot_of [OF Nd.prems(1)]
  have a: "a \<noteq> 0" using Nd.prems(1) by (simp add: zip_in_def)
  have ko: "keys_ok keys (inord l)" "keys_ok keys (inord r)" "\<forall>x\<in>set (inord l). lex_less (keys x) (keys a)"
    "\<forall>x\<in>set (inord r). lex_less (keys a) (keys x)" "0 \<notin> set (keys a)"
    using keys_ok_append [of keys "inord l" a "inord r"] Nd.prems(2) by auto
  have zl: "zip_in m s (FL a c r # fs) l" and zr: "zip_in m s (FR l a c # fs) r"
    using Nd.prems(1) by (simp_all add: zip_in_up)
  have step: "sjson_descend keys k (top fs) (slot_of fs) s =
      (let balance = lts_str_compare k (keys a) in
       if balance < 0 then sjson_descend keys k a (LeftSlot a) s
       else if balance > 0 then sjson_descend keys k a (RightSlot a) s else Some (a, a, slot_of fs))"
    using ls a by (subst sjson_descend.simps) simp
  note cmp = lts_str_compare_sign [OF Nd.prems(3) ko(5)]
  consider "lex_less k (keys a)" | "lex_less (keys a) k" | "k = keys a" using lex_less_linear by blast
  then show ?case
  proof cases
    case 1
    have "\<forall>x\<in>set (suf (FL a c r # fs)). lex_less k (keys x)"
      using ko(4) 1 Nd.prems(5) by (auto intro: lex_less_trans)
    from Nd.IH(1) [OF zl ko(1) Nd.prems(3) _ this] Nd.prems(4) cmp 1 show ?thesis
      unfolding step by (auto split: if_splits)
  next
    case 2
    have "\<forall>x\<in>set (pre (FR l a c # fs)). lex_less (keys x) k"
      using ko(3) 2 Nd.prems(4) by (auto intro: lex_less_trans)
    moreover have "0 < lts_str_compare k (keys a)" "\<not> lts_str_compare k (keys a) < 0"
      using cmp 2 lex_less_asym [OF 2] by (metis lex_less_irrefl linorder_neqE_linordered_idom)+
    ultimately show ?thesis using Nd.IH(2) [OF zr ko(2) Nd.prems(3)] Nd.prems(5)
      unfolding step by (auto split: if_splits)
  next
    case 3
    then show ?thesis using a unfolding step by simp
  qed
qed

lemma descend_root:
  assumes z: "zip_in m s [] T" and k: "keys_ok keys (inord T)" "0 \<notin> set k"
  shows "\<exists>a p it. sjson_descend keys k 0 RootSlot s = Some (a, p, it) \<and>
    (a \<noteq> 0 \<longrightarrow> a \<in> set (inord T) \<and> keys a = k) \<and>
    (a = 0 \<longrightarrow> (\<exists>fs. p = top fs \<and> it = slot_of fs \<and> plug fs Lf = T \<and>
       (\<forall>x\<in>set (pre fs). lex_less (keys x) k) \<and> (\<forall>x\<in>set (suf fs). lex_less k (keys x))))"
proof -
  obtain a p it where "sjson_descend keys k 0 RootSlot s = Some (a, p, it)"
    "if a \<noteq> 0 then a \<in> set (inord T) \<and> keys a = k
     else \<exists>fs'. p = top fs' \<and> it = slot_of fs' \<and> plug fs' Lf = T \<and>
       (\<forall>x\<in>set (pre fs'). lex_less (keys x) k) \<and> (\<forall>x\<in>set (suf fs'). lex_less k (keys x))"
    using descend_exact [OF z k] unfolding top.simps slot_of.simps plug.simps pre.simps suf.simps list.set
    by blast
  then show ?thesis by (cases "a = 0") auto
qed

section \<open>Linking\<close>

lemma link_at:
  assumes "zip_in (rb_mem t) t [] T" and "rb_ok T" and "col T = Black" and "plug fs Lf = T"
    and n: "n \<noteq> 0" "n \<notin> set (inord T)"
  shows "\<exists>t'. do { t \<leftarrow> rb_link_node n (top fs) (slot_of fs) t; rb_insert_color n t } = Some t' \<and>
    obj_tree t' (pre fs @ n # suf fs)"
proof -
  have "inord T = pre fs @ suf fs" using assms(4) by auto
  then have "n \<notin> set (plist fs)" using n(2) by (simp add: set_plist)
  moreover have "path_ok fs 0" using rb_ok_plugD [of fs Lf] assms(2,4) by simp
  moreover have "root_black fs" using root_blackI [of fs Lf] assms(3,4) by simp
  moreover have "zip_in (rb_mem t) t fs Lf" using assms(1,4) zip_in_plug by blast
  ultimately obtain t' T' where "do { t \<leftarrow> rb_link_node n (top fs) (slot_of fs) t; rb_insert_color n t } = Some t'"
      "zip_in (rb_mem t) t' [] T'" "inord T' = pre fs @ n # suf fs" "rb_ok T'" "col T' = Black"
    using rb_insert_correct [of "rb_mem t" t fs n] assms(2,4) n(1) by blast
  then show ?thesis unfolding obj_tree_def by (intro exI conjI) (auto simp: zip_in_def)
qed

lemma search_link:
  assumes "obj_tree (jh_tree h ob) ns" and n: "n \<noteq> 0" "n \<notin> set ns"
  shows "(\<exists>a\<in>set ns. lts_sjson_search ob n True h = Some (a, h)) \<or>
    (\<exists>t xs ys. lts_sjson_search ob n True h = Some (n, h\<lparr> jh_tree := (jh_tree h)(ob := t) \<rparr>) \<and>
      ns = xs @ ys \<and> obj_tree t (xs @ n # ys))"
proof -
  obtain T where T: "zip_in (rb_mem (jh_tree h ob)) (jh_tree h ob) [] T" "rb_ok T" "col T = Black" "inord T = ns"
    using assms(1) by (auto simp: obj_tree_def)
  obtain a p it where d: "sjson_descend (jh_key h) (jh_key h n) 0 RootSlot (jh_tree h ob) = Some (a, p, it)"
      "a \<noteq> 0 \<longrightarrow> a \<in> set ns" "a = 0 \<longrightarrow> (\<exists>fs'. p = top fs' \<and> it = slot_of fs' \<and> plug fs' Lf = T)"
    using descend_reaches [OF T(1), of "jh_key h" "jh_key h n"] T(4) by auto
  show ?thesis
  proof (cases "a = 0")
    case False
    then show ?thesis using d by (auto simp: lts_sjson_search_def)
  next
    case True
    then obtain fs where fs: "p = top fs" "it = slot_of fs" "plug fs Lf = T" using d(3) by blast
    obtain t where t: "do { t \<leftarrow> rb_link_node n (top fs) (slot_of fs) (jh_tree h ob); rb_insert_color n t } = Some t"
        "obj_tree t (pre fs @ n # suf fs)"
      using link_at [OF T(1,2,3) fs(3) n(1)] n(2) T(4) by blast
    have "ns = pre fs @ suf fs" using T(4) fs(3) by auto
    moreover have "lts_sjson_search ob n True h = Some (n, h\<lparr> jh_tree := (jh_tree h)(ob := t) \<rparr>)"
      using d(1) True fs(1,2) t(1) by (auto simp: lts_sjson_search_def bind_Some_iff)
    ultimately show ?thesis using t(2) by blast
  qed
qed

lemma search_link_exact:
  assumes "obj_tree (jh_tree h ob) ns" and n: "n \<noteq> 0" "n \<notin> set ns"
    and ko: "keys_ok (jh_key h) ns" "0 \<notin> set (jh_key h n)"
  shows "(\<exists>a\<in>set ns. jh_key h a = jh_key h n \<and> lts_sjson_search ob n True h = Some (a, h)) \<or>
    (\<exists>t xs ys. lts_sjson_search ob n True h = Some (n, h\<lparr> jh_tree := (jh_tree h)(ob := t) \<rparr>) \<and>
      ns = xs @ ys \<and> obj_tree t (xs @ n # ys) \<and> (\<forall>x\<in>set xs. lex_less (jh_key h x) (jh_key h n)) \<and>
      (\<forall>y\<in>set ys. lex_less (jh_key h n) (jh_key h y)))"
proof -
  obtain T where T: "zip_in (rb_mem (jh_tree h ob)) (jh_tree h ob) [] T" "rb_ok T" "col T = Black" "inord T = ns"
    using assms(1) by (auto simp: obj_tree_def)
  obtain a p it where d: "sjson_descend (jh_key h) (jh_key h n) 0 RootSlot (jh_tree h ob) = Some (a, p, it)"
      "a \<noteq> 0 \<longrightarrow> a \<in> set ns \<and> jh_key h a = jh_key h n"
      "a = 0 \<longrightarrow> (\<exists>fs. p = top fs \<and> it = slot_of fs \<and> plug fs Lf = T \<and>
        (\<forall>x\<in>set (pre fs). lex_less (jh_key h x) (jh_key h n)) \<and> (\<forall>x\<in>set (suf fs). lex_less (jh_key h n) (jh_key h x)))"
    using descend_root [OF T(1), of "jh_key h" "jh_key h n"] ko unfolding T(4) by blast
  show ?thesis
  proof (cases "a = 0")
    case False
    then show ?thesis using d by (auto simp: lts_sjson_search_def)
  next
    case True
    then obtain fs where fs: "p = top fs" "it = slot_of fs" "plug fs Lf = T"
        "\<forall>x\<in>set (pre fs). lex_less (jh_key h x) (jh_key h n)" "\<forall>x\<in>set (suf fs). lex_less (jh_key h n) (jh_key h x)"
      using d(3) by blast
    obtain t where t: "do { t \<leftarrow> rb_link_node n (top fs) (slot_of fs) (jh_tree h ob); rb_insert_color n t } = Some t"
        "obj_tree t (pre fs @ n # suf fs)"
      using link_at [OF T(1,2,3) fs(3) n(1)] n(2) T(4) by blast
    have "ns = pre fs @ suf fs" using T(4) fs(3) by auto
    moreover have "lts_sjson_search ob n True h = Some (n, h\<lparr> jh_tree := (jh_tree h)(ob := t) \<rparr>)"
      using d(1) True fs(1,2) t(1) by (auto simp: lts_sjson_search_def bind_Some_iff)
    ultimately show ?thesis using t(2) fs(4,5) by blast
  qed
qed

lemma find_mid: "\<forall>x\<in>set xs. \<not> P x \<Longrightarrow> P a \<Longrightarrow> find P (xs @ a # ys) = Some a"
  by (induction xs) auto

text \<open>Looking a key up: the node, or the address of the caller's local variable.\<close>

lemma get_obj_node_correct:
  assumes "obj_tree (jh_tree h ob) ns" and "keys_ok (jh_key h) ns" and "tmp \<notin> set ns" and "0 \<notin> set k"
  shows "\<exists>h'. h' = h\<lparr> jh_key := (jh_key h)(tmp := k) \<rparr> \<and>
    lts_sjson_get_obj_node tmp ob k h =
      Some (case find (\<lambda>a. jh_key h a = k) ns of Some a \<Rightarrow> a | None \<Rightarrow> tmp, h')"
proof -
  let ?h = "h\<lparr> jh_key := (jh_key h)(tmp := k) \<rparr>"
  obtain T where T: "zip_in (rb_mem (jh_tree h ob)) (jh_tree h ob) [] T" "inord T = ns"
    using assms(1) by (auto simp: obj_tree_def)
  have ks: "jh_key ?h a = jh_key h a" if "a \<in> set ns" for a using that assms(3) by auto
  then have mp: "map (jh_key ?h) ns = map (jh_key h) ns" by (rule map_cong [OF refl])
  have "keys_ok (jh_key ?h) ns" using assms(2) mp ks by (simp add: keys_ok_def del: map_eq_conv)
  then obtain a p it where d: "sjson_descend (jh_key ?h) k 0 RootSlot (jh_tree h ob) = Some (a, p, it)"
      "a \<noteq> 0 \<longrightarrow> a \<in> set ns \<and> jh_key ?h a = k"
      "a = 0 \<longrightarrow> (\<exists>fs. plug fs Lf = T \<and>
        (\<forall>x\<in>set (pre fs). lex_less (jh_key ?h x) k) \<and> (\<forall>x\<in>set (suf fs). lex_less k (jh_key ?h x)))"
    using descend_root [OF T(1), of "jh_key ?h" k] assms(4) unfolding T(2) by blast
  have r: "lts_sjson_get_obj_node tmp ob k h = Some (if a \<noteq> 0 then a else tmp, ?h)"
    using d(1) by (simp add: lts_sjson_get_obj_node_def lts_sjson_search_def)
  have "find (\<lambda>a. jh_key h a = k) ns = (if a = 0 then None else Some a)"
  proof (cases "a = 0")
    case True
    then obtain fs where fs: "plug fs Lf = T" "\<forall>x\<in>set (pre fs). lex_less (jh_key ?h x) k"
        "\<forall>x\<in>set (suf fs). lex_less k (jh_key ?h x)" using d(3) by blast
    have "ns = pre fs @ suf fs" using T(2) fs(1) by auto
    then have "jh_key h x \<noteq> k" if "x \<in> set ns" for x
      using fs(2,3) that ks [OF that] lex_less_irrefl [of k] by (metis Un_iff set_append)
    then show ?thesis using True by (simp add: find_None_iff)
  next
    case False
    then have a: "a \<in> set ns" "jh_key h a = k" using d(2) ks by auto
    then obtain xs ys where ns: "ns = xs @ a # ys" using split_list by metis
    then have "\<forall>x\<in>set xs. jh_key h x \<noteq> k"
      using assms(2) a(2) keys_ok_append [of "jh_key h" xs a ys] lex_less_irrefl by metis
    then show ?thesis using ns a(2) False find_mid [of xs] by simp
  qed
  then show ?thesis using r by auto
qed

end
