(* ===== verification/SjsonEncode.thy ===== *)
theory SjsonEncode
  imports SjsonTree
begin

text \<open>
  The encoder against its specification: \<open>json\<close> is the value a heap object stands for (\<open>jrep\<close>),
  \<open>jtext\<close> its text.  The encoder writes exactly that text, and \<open>lts_sjson_encode_size\<close> is its
  length.
\<close>

section \<open>Values and their text\<close>

datatype json = JStr bstr | JList "bstr list" | JObj "(bstr \<times> json) list"

fun commas :: "bstr list \<Rightarrow> bstr" where
  "commas [] = []"
| "commas [x] = x"
| "commas (x # y # xs) = x @ c_comma # commas (y # xs)"

definition quoted :: "bstr \<Rightarrow> bstr" where
  "quoted s = c_quot # s @ [c_quot]"

fun jtext :: "json \<Rightarrow> bstr" where
  "jtext (JStr s) = quoted s"
| "jtext (JList vs) = c_lbrack # commas (map quoted vs) @ [c_rbrack]"
| "jtext (JObj kvs) = c_lbrace # commas (map (\<lambda>(k, j). quoted k @ c_colon # jtext j) kvs) @ [c_rbrace]"

abbreviation member_text :: "bstr \<times> json \<Rightarrow> bstr" where
  "member_text \<equiv> \<lambda>(k, j). quoted k @ c_colon # jtext j"

text \<open>The value at an address.  Everything below an object or list was allocated after it.\<close>

fun jrep :: "json \<Rightarrow> jheap \<Rightarrow> addr \<Rightarrow> bool" where
  "jrep (JStr s) h n \<longleftrightarrow> jh_type h n = STRING_VALUE \<and> jh_str h n = s"
| "jrep (JList vs) h n \<longleftrightarrow> jh_type h n = LIST_VALUE \<and>
     (\<exists>as. list_in (jh_link h) (jh_list h n) as \<and> map (jh_str h) as = vs \<and> (\<forall>a\<in>set as. n < a \<and> a < jh_next h))"
| "jrep (JObj kvs) h n \<longleftrightarrow> jh_type h n = OBJ_VALUE \<and>
     (\<exists>ns. obj_tree (jh_tree h n) ns \<and> (\<forall>a\<in>set ns. n < a \<and> a < jh_next h) \<and>
       list_all2 (\<lambda>a (k, j). jh_key h a = k \<and> jrep j h a) ns kvs)"

abbreviation members :: "jheap \<Rightarrow> addr list \<Rightarrow> (bstr \<times> json) list \<Rightarrow> bool" where
  "members h \<equiv> list_all2 (\<lambda>a (k, j). jh_key h a = k \<and> jrep j h a)"

lemma commas_Cons: "xs \<noteq> [] \<Longrightarrow> commas (x # xs) = x @ c_comma # commas xs"
  by (cases xs) auto

lemma length_quoted [simp]: "length (quoted s) = length s + 2"
  by (simp add: quoted_def)

section \<open>Writers\<close>

definition writes :: "(outbuf \<Rightarrow> outbuf option) \<Rightarrow> bstr \<Rightarrow> bool" where
  "writes f txt \<longleftrightarrow> (\<forall>out rest. length txt \<le> length rest \<longrightarrow>
     f (out @ rest, int (length out)) = Some (out @ txt @ drop (length txt) rest, int (length out + length txt)))"

named_theorems writers \<open>what the writing functions write\<close>

lemma writes_bind [writers]:
  assumes "writes f a" and "writes g b"
  shows "writes (\<lambda>s. f s \<bind> g) (a @ b)"
  unfolding writes_def
proof (intro allI impI)
  fix out rest :: bstr
  assume l: "length (a @ b) \<le> length rest"
  then have "f (out @ rest, int (length out)) = Some (out @ a @ drop (length a) rest, int (length out + length a))"
    using assms(1) by (simp add: writes_def)
  moreover have "length b \<le> length (drop (length a) rest)" using l by simp
  then have "g ((out @ a) @ drop (length a) rest, int (length (out @ a))) =
      Some ((out @ a) @ b @ drop (length b) (drop (length a) rest), int (length (out @ a) + length b))"
    using assms(2) unfolding writes_def by blast
  ultimately show "f (out @ rest, int (length out)) \<bind> g =
      Some (out @ (a @ b) @ drop (length (a @ b)) rest, int (length out + length (a @ b)))"
    by (simp add: ac_simps)
qed

lemma writes_Some [writers]: "writes Some []"
  by (simp add: writes_def)

lemma writes_emit [writers]: "writes (emit c) [c]"
  unfolding writes_def emit_def
proof (intro allI impI)
  fix out rest :: bstr
  assume "length [c] \<le> length rest"
  then obtain r rs where "rest = r # rs" by (cases rest) auto
  then show "wri (fst (out @ rest, int (length out))) (snd (out @ rest, int (length out))) c \<bind>
      (\<lambda>D. Some (D, snd (out @ rest, int (length out)) + 1)) =
    Some (out @ [c] @ drop (length [c]) rest, int (length out + length [c]))"
    by (simp add: mem_simps)
qed

lemma writes_emits [writers]: "writes (emits cs) cs"
  by (auto simp: writes_def emits_def wrn_def)

lemma writes_quoted [writers]: "writes (emit_quoted cs) (quoted cs)"
  using writes_bind [OF writes_emit writes_bind [OF writes_emits writes_emit], of c_quot cs c_quot]
  by (simp add: emit_quoted_def [abs_def] quoted_def)

lemma writes_cong: "writes f a \<Longrightarrow> (\<And>s. g s = f s) \<Longrightarrow> a = b \<Longrightarrow> writes g b"
  by (simp add: writes_def)

section \<open>The encoder writes the text\<close>

lemma encode_li_loop_writes:
  "list_in (jh_link h) p as \<Longrightarrow> writes (encode_li_loop h p) (commas (map (\<lambda>a. quoted (jh_str h a)) as))"
proof (induction as arbitrary: p)
  case Nil
  then show ?case by (intro writes_cong [OF writes_Some]) (auto simp: encode_li_loop.simps)
next
  case (Cons a as)
  then have p: "p = a" "a \<noteq> 0" "list_in (jh_link h) (jh_link h a) as" by auto
  have n: "jh_link h a = 0 \<longleftrightarrow> as = []" using p(3) by (cases as) auto
  note rest = Cons.IH [OF p(3)]
  show ?case
  proof (cases "as = []")
    case True
    show ?thesis
      by (rule writes_cong [OF writes_bind [OF writes_quoted [of "jh_str h a"] rest]])
        (use True p n in \<open>auto simp: encode_li_loop.simps [of h a] list_next_def\<close>)
  next
    case False
    show ?thesis
      by (rule writes_cong [OF writes_bind [OF writes_quoted [of "jh_str h a"] writes_bind [OF writes_emit [of c_comma] rest]]])
        (use False p n in \<open>auto simp: encode_li_loop.simps [of h a] list_next_def commas_Cons\<close>)
  qed
qed

text \<open>What the encoder writes for the value of a node.\<close>

definition encode_value :: "jheap \<Rightarrow> addr \<Rightarrow> outbuf \<Rightarrow> outbuf option" where
  "encode_value h p s = (case jh_type h p of
       STRING_VALUE \<Rightarrow> emit_quoted (jh_str h p) s
     | LIST_VALUE \<Rightarrow> do {
         s \<leftarrow> emit c_lbrack s;
         s \<leftarrow> encode_li_loop h (jh_list h p) s;
         emit c_rbrack s }
     | OBJ_VALUE \<Rightarrow> sjson_encode h p s
     | OTHER_TYPE \<Rightarrow> None)"

lemma encode_loop_step:
  assumes "p \<noteq> 0" and "jh_type h p \<noteq> OTHER_TYPE"
  shows "sjson_encode_loop h ob p s = do {
    s \<leftarrow> emit_quoted (jh_key h p) s;
    s \<leftarrow> emit c_colon s;
    s \<leftarrow> encode_value h p s;
    next \<leftarrow> rb_next p (jh_tree h ob);
    s \<leftarrow> (if next \<noteq> 0 then emit c_comma s else Some s);
    sjson_encode_loop h ob next s }"
  using assms
  by (subst sjson_encode_loop.simps) (cases "jh_type h p"; simp add: encode_value_def sjson_encode_def list_first_def)

lemma jrep_type: "jrep j h n \<Longrightarrow> jh_type h n \<noteq> OTHER_TYPE"
  by (cases j) auto

lemma hd_or0_eq_0: "0 \<notin> set ns \<Longrightarrow> hd_or0 ns = 0 \<longleftrightarrow> ns = []"
  by (cases ns) (auto simp: hd_or0_def)

lemma encode_members_writes:
  assumes "obj_tree (jh_tree h ob) (xs @ ns)" and "members h ns kvs"
    and "\<And>n k j. n \<in> set ns \<Longrightarrow> (k, j) \<in> set kvs \<Longrightarrow> jrep j h n \<Longrightarrow> writes (encode_value h n) (jtext j)"
  shows "writes (sjson_encode_loop h ob (hd_or0 ns)) (commas (map member_text kvs) @ [c_rbrace])"
  using assms
proof (induction ns arbitrary: xs kvs)
  case Nil
  then show ?case by (intro writes_cong [OF writes_emit]) (auto simp: sjson_encode_loop.simps hd_or0_def)
next
  case (Cons n ns)
  obtain k j kvs' where kvs: "kvs = (k, j) # kvs'" "jh_key h n = k" "jrep j h n" "members h ns kvs'"
    using Cons.prems(2) by (cases kvs) auto
  have nz: "0 \<notin> set (n # ns)" using obj_tree_facts [OF Cons.prems(1)] by auto
  have nx: "rb_next n (jh_tree h ob) = Some (hd_or0 ns)" using obj_tree_next Cons.prems(1) by blast
  have v: "writes (encode_value h n) (jtext j)" using Cons.prems(3) [of n k j] kvs by simp
  have rest: "writes (sjson_encode_loop h ob (hd_or0 ns)) (commas (map member_text kvs') @ [c_rbrace])"
    by (rule Cons.IH [of "xs @ [n]"]) (use Cons.prems kvs in auto)
  have hd: "hd_or0 (n # ns) = n" "n \<noteq> 0" using nz by (auto simp: hd_or0_def)
  note step = encode_loop_step [OF hd(2) jrep_type [OF kvs(3)]]
  have e: "kvs' = [] \<longleftrightarrow> ns = []" using kvs(4) by auto
  show ?case
  proof (cases "ns = []")
    case True
    show ?thesis
      by (rule writes_cong [OF writes_bind [OF writes_quoted [of k] writes_bind [OF writes_emit [of c_colon] writes_bind [OF v rest]]]])
        (use True e kvs nx in \<open>auto simp: hd step hd_or0_def\<close>)
  next
    case False
    then have "hd_or0 ns \<noteq> 0" using nz by (simp add: hd_or0_eq_0)
    then show ?thesis
      by (intro writes_cong [OF writes_bind [OF writes_quoted [of k] writes_bind [OF writes_emit [of c_colon]
            writes_bind [OF v writes_bind [OF writes_emit [of c_comma] rest]]]]])
        (use False e kvs nx in \<open>auto simp: hd step commas_Cons\<close>)
  qed
qed

lemma encode_value_writes: "jrep j h n \<Longrightarrow> writes (encode_value h n) (jtext j)"
proof (induction j arbitrary: n)
  case (JStr s)
  then show ?case by (intro writes_cong [OF writes_quoted]) (auto simp: encode_value_def)
next
  case (JList vs)
  then obtain as where as: "list_in (jh_link h) (jh_list h n) as" "map (jh_str h) as = vs" "jh_type h n = LIST_VALUE"
    by auto
  have "map quoted vs = map (\<lambda>a. quoted (jh_str h a)) as" using as(2) by auto
  then show ?case
    by (intro writes_cong [OF writes_bind [OF writes_emit [of c_lbrack]
          writes_bind [OF encode_li_loop_writes [OF as(1)] writes_emit [of c_rbrack]]]])
      (auto simp: encode_value_def as(3))
next
  case (JObj kvs)
  then obtain ns where ns: "obj_tree (jh_tree h n) ns" "members h ns kvs" "jh_type h n = OBJ_VALUE" by auto
  have w: "writes (sjson_encode_loop h n (hd_or0 ns)) (commas (map member_text kvs) @ [c_rbrace])"
    by (rule encode_members_writes [where xs = "[]"]) (use ns JObj.IH in \<open>auto intro: snds.intros\<close>)
  show ?case
    by (rule writes_cong [OF writes_bind [OF writes_emit [of c_lbrace] w]])
      (simp_all add: encode_value_def ns(3) sjson_encode_def obj_tree_first [OF ns(1)])
qed

section \<open>The size is the length of the text\<close>

lemma length_commas: "xs \<noteq> [] \<Longrightarrow> int (length (commas xs)) = (\<Sum>x\<leftarrow>xs. int (length x) + 1) - 1"
  by (induction xs rule: commas.induct) auto

lemma li_size_loop_correct:
  "list_in (jh_link h) p as \<Longrightarrow> li_size_loop h p sz = Some (sz + (\<Sum>a\<leftarrow>as. int (length (quoted (jh_str h a))) + 1))"
proof (induction as arbitrary: p sz)
  case Nil
  then show ?case by (simp add: li_size_loop.simps)
next
  case (Cons a as)
  then show ?case by (subst li_size_loop.simps) (simp add: list_next_def)
qed

definition value_size :: "jheap \<Rightarrow> addr \<Rightarrow> int option" where
  "value_size h p = (case jh_type h p of
       STRING_VALUE \<Rightarrow> Some (int (length (jh_str h p)) + 2)
     | LIST_VALUE \<Rightarrow> (if jh_list h p \<noteq> 0 then do { sz \<leftarrow> li_size_loop h (jh_list h p) 2; Some (sz - 1) } else Some 2)
     | OBJ_VALUE \<Rightarrow> lts_sjson_encode_size h p
     | OTHER_TYPE \<Rightarrow> None)"

lemma li_size_shift:
  "list_in (jh_link h) p as \<Longrightarrow> li_size_loop h p (a + b) = do { r \<leftarrow> li_size_loop h p b; Some (a + r) }"
  by (simp add: li_size_loop_correct)

lemma encode_size_step:
  assumes "p \<noteq> 0" and j: "jrep j h p" and v: "value_size h p = Some v"
  shows "encode_size_loop h ob p sz = do {
    next \<leftarrow> rb_next p (jh_tree h ob);
    encode_size_loop h ob next (sz + 1 + (int (length (jh_key h p)) + 2) + 1 + v) }"
proof (cases j)
  case (JStr s)
  then show ?thesis using assms by (subst encode_size_loop.simps) (simp add: value_size_def Let_def ac_simps)
next
  case (JList vs)
  then obtain as where as: "list_in (jh_link h) (jh_list h p) as" using j by auto
  have e: "sz + 1 + 2 + (int (length (jh_key h p)) + 2) + 1 = (sz + 1 + (int (length (jh_key h p)) + 2) + 1) + 2" for sz by simp
  show ?thesis using assms JList
    by (subst encode_size_loop.simps)
      (auto simp: value_size_def Let_def list_first_def li_size_loop_correct [OF as] ac_simps split: if_splits)
next
  case (JObj kvs)
  then have t: "jh_type h p = OBJ_VALUE" using j by simp
  then obtain q where q: "rb_first (jh_tree h p) = Some q" "(if q = 0 then Some 2 else encode_size_loop h p q 2) = Some v"
    using v by (auto simp: value_size_def lts_sjson_encode_size_def bind_Some_iff)
  show ?thesis using assms(1) t q
    by (subst encode_size_loop.simps) (simp add: Let_def ac_simps)
qed

lemma encode_size_members:
  assumes "obj_tree (jh_tree h ob) (xs @ ns)" and "members h ns kvs"
    and "\<And>n k j. n \<in> set ns \<Longrightarrow> (k, j) \<in> set kvs \<Longrightarrow> jrep j h n \<Longrightarrow> value_size h n = Some (int (length (jtext j)))"
  shows "encode_size_loop h ob (hd_or0 ns) sz = Some (sz + (\<Sum>kv\<leftarrow>kvs. int (length (member_text kv)) + 1) - 1)"
  using assms
proof (induction ns arbitrary: xs kvs sz)
  case Nil
  then show ?case by (simp add: hd_or0_def encode_size_loop.simps)
next
  case (Cons n ns)
  obtain k j kvs' where kvs: "kvs = (k, j) # kvs'" "jh_key h n = k" "jrep j h n" "members h ns kvs'"
    using Cons.prems(2) by (cases kvs) auto
  have "n \<noteq> 0" using obj_tree_facts [OF Cons.prems(1)] by auto
  have nx: "rb_next n (jh_tree h ob) = Some (hd_or0 ns)" using obj_tree_next Cons.prems(1) by blast
  have v: "value_size h n = Some (int (length (jtext j)))" using Cons.prems(3) [of n k j] kvs by simp
  have "encode_size_loop h ob (hd_or0 ns) sz' = Some (sz' + (\<Sum>kv\<leftarrow>kvs'. int (length (member_text kv)) + 1) - 1)" for sz'
    by (rule Cons.IH [of "xs @ [n]"]) (use Cons.prems kvs in auto)
  then show ?case using encode_size_step [OF \<open>n \<noteq> 0\<close> kvs(3) v] nx kvs(1,2) by (simp add: hd_or0_def)
qed

lemma value_size_correct: "jrep j h n \<Longrightarrow> value_size h n = Some (int (length (jtext j)))"
proof (induction j arbitrary: n)
  case (JStr s)
  then show ?case by (simp add: value_size_def)
next
  case (JList vs)
  then obtain as where as: "list_in (jh_link h) (jh_list h n) as" "map (jh_str h) as = vs" "jh_type h n = LIST_VALUE"
    by auto
  have "map quoted vs = map (\<lambda>a. quoted (jh_str h a)) as" using as(2) by auto
  then show ?case using as li_size_loop_correct [OF as(1), of 2]
    by (cases as) (auto simp: value_size_def length_commas o_def)
next
  case (JObj kvs)
  then obtain ns where ns: "obj_tree (jh_tree h n) ns" "members h ns kvs" "jh_type h n = OBJ_VALUE" by auto
  have s: "encode_size_loop h n (hd_or0 ns) sz = Some (sz + (\<Sum>kv\<leftarrow>kvs. int (length (member_text kv)) + 1) - 1)" for sz
    by (rule encode_size_members [where xs = "[]"]) (use ns JObj.IH in \<open>auto intro: snds.intros\<close>)
  have z: "hd_or0 ns = 0 \<longleftrightarrow> kvs = []" using ns(2) obj_tree_facts [OF ns(1)] hd_or0_eq_0 [of ns] by auto
  show ?case using s [of 2] z
    by (cases "kvs = []") (auto simp: value_size_def ns(3) lts_sjson_encode_size_def obj_tree_first [OF ns(1)] length_commas o_def)
qed

lemma encode_size_correct:
  "jrep (JObj kvs) h ob \<Longrightarrow> lts_sjson_encode_size h ob = Some (int (length (jtext (JObj kvs))))"
  using value_size_correct [of "JObj kvs" h ob] by (simp add: value_size_def)

lemma sjson_encode_writes: "jrep (JObj kvs) h ob \<Longrightarrow> writes (sjson_encode h ob) (jtext (JObj kvs))"
  using encode_value_writes [of "JObj kvs" h ob] by (simp add: encode_value_def [abs_def])

section \<open>Frames\<close>

definition same_cell :: "addr \<Rightarrow> jheap \<Rightarrow> jheap \<Rightarrow> bool" where
  "same_cell a h h' \<longleftrightarrow> jh_tree h' a = jh_tree h a \<and> jh_type h' a = jh_type h a \<and> jh_key h' a = jh_key h a \<and>
     jh_str h' a = jh_str h a \<and> jh_list h' a = jh_list h a \<and> jh_link h' a = jh_link h a"

text \<open>A value only depends on its own cell and on the cells allocated after it.\<close>

lemma jrep_frame:
  "jrep j h n \<Longrightarrow> same_cell n h h' \<Longrightarrow> \<forall>a. n < a \<and> a < jh_next h \<longrightarrow> same_cell a h h' \<Longrightarrow>
   jh_next h \<le> jh_next h' \<Longrightarrow> jrep j h' n"
proof (induction j arbitrary: n)
  case (JStr s)
  then show ?case by (simp add: same_cell_def)
next
  case (JList vs)
  then obtain as where as: "list_in (jh_link h) (jh_list h n) as" "map (jh_str h) as = vs"
      "\<forall>a\<in>set as. n < a \<and> a < jh_next h" by auto
  have sc: "same_cell a h h'" if "a \<in> set as" for a using that as(3) JList.prems(3) by blast
  then have "list_in (jh_link h') (jh_list h n) as" "map (jh_str h') as = vs"
    using as(1,2) list_in_cong [of as "jh_link h'" "jh_link h"] by (auto simp: same_cell_def)
  then show ?case using as(3) JList.prems by (fastforce simp: same_cell_def)
next
  case (JObj kvs)
  then obtain ns where ns: "obj_tree (jh_tree h n) ns" "\<forall>a\<in>set ns. n < a \<and> a < jh_next h" "members h ns kvs" by auto
  have "members h' ns kvs"
  proof (rule list.rel_mono_strong [OF ns(3)])
    fix a kj assume a: "a \<in> set ns" "kj \<in> set kvs" "case kj of (k, j) \<Rightarrow> jh_key h a = k \<and> jrep j h a"
    obtain k j where kj: "kj = (k, j)" by (cases kj)
    have "same_cell a h h'" "\<forall>b. a < b \<and> b < jh_next h \<longrightarrow> same_cell b h h'"
      using ns(2) a(1) JObj.prems(3) by auto
    then show "case kj of (k, j) \<Rightarrow> jh_key h' a = k \<and> jrep j h' a"
      using JObj.IH [of kj j a] a kj JObj.prems(4) by (auto simp: same_cell_def)
  qed
  then show ?case using ns(1,2) JObj.prems by (fastforce simp: same_cell_def)
qed

section \<open>Encoding an object\<close>

text \<open>The text, or -1 when the pool refuses the memory for it.  The ASSERT on the size does not
  fail.\<close>

lemma lts_sjson_encode_correct:
  assumes j: "jrep (JObj kvs) h ob" and nz: "jh_next h \<noteq> 0"
  defines "txt \<equiv> jtext (JObj kvs)"
  shows "lts_sjson_encode junk ob h =
    (if jh_pool h (jh_next h) (int (length txt) + 1)
     then Some (0, Some \<lparr> s_data = txt @ [junk], s_len = length txt \<rparr>, h\<lparr> jh_next := jh_next h + 1 \<rparr>)
     else Some (-1, None, h\<lparr> jh_next := jh_next h + 1 \<rparr>))"
proof -
  let ?h = "h\<lparr> jh_next := jh_next h + 1 \<rparr>" and ?r = "replicate (length txt) 0 @ [junk]"
  have "jrep (JObj kvs) ?h ob" by (rule jrep_frame [OF j]) (auto simp: same_cell_def)
  then have "writes (sjson_encode ?h ob) txt" unfolding txt_def by (rule sjson_encode_writes)
  then have "\<forall>out rest. length txt \<le> length rest \<longrightarrow> sjson_encode ?h ob (out @ rest, int (length out)) =
      Some (out @ txt @ drop (length txt) rest, int (length out + length txt))"
    unfolding writes_def .
  from this [THEN spec, of "[]", THEN spec, of ?r]
  have "sjson_encode ?h ob (?r, 0) = Some (txt @ [junk], int (length txt))" by simp
  moreover have "lts_sjson_encode_size h ob = Some (int (length txt))"
    unfolding txt_def by (rule encode_size_correct [OF j])
  ultimately show ?thesis using nz by (simp add: lts_sjson_encode_def jalloc_def)
qed

end
