(* ===== verification/SjsonBuild.thy ===== *)
theory SjsonBuild
  imports SjsonEncode
begin

text \<open>
  Adding members: an object stands for its members sorted by key (\<open>obj_rep\<close>); linking a node with
  a value implements \<open>ins_kv\<close>, insertion that keeps the first of two members with the same key.
  \<open>lts_sjson_add_kv\<close> is the case of a string.
\<close>

section \<open>Sorted members\<close>

fun ins_kv :: "bstr \<Rightarrow> json \<Rightarrow> (bstr \<times> json) list \<Rightarrow> (bstr \<times> json) list" where
  "ins_kv k j [] = [(k, j)]"
| "ins_kv k j ((k', j') # r) =
     (if lex_less k k' then (k, j) # (k', j') # r
      else if k = k' then (k', j') # r
      else (k', j') # ins_kv k j r)"

definition sorted_kvs :: "(bstr \<times> json) list \<Rightarrow> bool" where
  "sorted_kvs kvs \<longleftrightarrow> sorted_wrt lex_less (map fst kvs) \<and> (\<forall>k\<in>fst ` set kvs. 0 \<notin> set k)"

lemma sorted_kvs_Nil [simp]: "sorted_kvs []"
  by (simp add: sorted_kvs_def)

lemma ins_kv_place:
  "\<forall>x\<in>fst ` set kx. lex_less x k \<Longrightarrow> \<forall>y\<in>fst ` set ky. lex_less k y \<Longrightarrow> ins_kv k j (kx @ ky) = kx @ (k, j) # ky"
proof (induction kx)
  case Nil
  then show ?case by (cases ky) auto
next
  case (Cons p kx)
  obtain k' j' where p: "p = (k', j')" by (cases p)
  then have "lex_less k' k" using Cons.prems by auto
  then have "\<not> lex_less k k'" "k \<noteq> k'" using lex_less_asym lex_less_irrefl by blast+
  then show ?case using Cons p by simp
qed

lemma ins_kv_present: "sorted_kvs kvs \<Longrightarrow> k \<in> fst ` set kvs \<Longrightarrow> ins_kv k j kvs = kvs"
proof (induction kvs)
  case (Cons p kvs)
  obtain k' j' where p: "p = (k', j')" by (cases p)
  show ?case
  proof (cases "k = k'")
    case False
    then have "lex_less k' k" "k \<in> fst ` set kvs" using Cons.prems p by (auto simp: sorted_kvs_def)
    moreover have "sorted_kvs kvs" using Cons.prems p by (simp add: sorted_kvs_def)
    ultimately show ?thesis using Cons.IH p False lex_less_asym by auto
  qed (use p in auto)
qed simp

lemma ins_kv_keys: "fst ` set (ins_kv k j kvs) = insert k (fst ` set kvs)"
  by (induction kvs) force+

lemma ins_kv_sorted: "sorted_kvs kvs \<Longrightarrow> 0 \<notin> set k \<Longrightarrow> sorted_kvs (ins_kv k j kvs)"
proof (induction kvs)
  case (Cons p kvs)
  obtain k' j' where p: "p = (k', j')" by (cases p)
  have s: "sorted_kvs kvs" "\<forall>x\<in>fst ` set kvs. lex_less k' x" using Cons.prems p by (auto simp: sorted_kvs_def)
  consider "lex_less k k'" | "k = k'" | "lex_less k' k" using lex_less_linear by blast
  then show ?case
  proof cases
    case 1
    then have "\<forall>x\<in>fst ` set kvs. lex_less k x" using s(2) lex_less_trans by blast
    then show ?thesis using Cons.prems p 1 by (auto simp: sorted_kvs_def)
  next
    case 2
    then show ?thesis using Cons.prems p by simp
  next
    case 3
    then have e: "ins_kv k j (p # kvs) = (k', j') # ins_kv k j kvs"
      using p lex_less_asym [OF 3] lex_less_irrefl by auto
    have i: "sorted_kvs (ins_kv k j kvs)" using Cons.IH s(1) Cons.prems(2) by blast
    have "\<forall>x\<in>fst ` set (ins_kv k j kvs). lex_less k' x" using s(2) 3 by (simp add: ins_kv_keys)
    then show ?thesis using i Cons.prems p unfolding e by (auto simp: sorted_kvs_def)
  qed
qed (simp add: sorted_kvs_def)

section \<open>Objects\<close>

definition obj_rep :: "jheap \<Rightarrow> addr \<Rightarrow> addr list \<Rightarrow> (bstr \<times> json) list \<Rightarrow> bool" where
  "obj_rep h ob ns kvs \<longleftrightarrow> jh_type h ob = OBJ_VALUE \<and> obj_tree (jh_tree h ob) ns \<and>
     (\<forall>a\<in>set ns. ob < a \<and> a < jh_next h) \<and> members h ns kvs"

lemma jrep_obj_rep: "jrep (JObj kvs) h ob \<longleftrightarrow> (\<exists>ns. obj_rep h ob ns kvs)"
  by (auto simp: obj_rep_def)

lemma members_keys: "members h ns kvs \<Longrightarrow> map (jh_key h) ns = map fst kvs"
  by (induction rule: list_all2_induct) auto

lemma obj_rep_keys: "obj_rep h ob ns kvs \<Longrightarrow> sorted_kvs kvs \<Longrightarrow> keys_ok (jh_key h) ns"
proof -
  assume r: "obj_rep h ob ns kvs" and s: "sorted_kvs kvs"
  have m: "map (jh_key h) ns = map fst kvs" using members_keys r by (auto simp: obj_rep_def)
  have "jh_key h ` set ns = fst ` set kvs" using arg_cong [OF m, of set] by simp
  then have "\<forall>a\<in>set ns. jh_key h a \<in> fst ` set kvs" by blast
  then show ?thesis using s unfolding keys_ok_def sorted_kvs_def m by blast
qed

text \<open>The cells a change of one object leaves alone.\<close>

definition same_fields :: "addr \<Rightarrow> jheap \<Rightarrow> jheap \<Rightarrow> bool" where
  "same_fields a h h' \<longleftrightarrow> jh_type h' a = jh_type h a \<and> jh_key h' a = jh_key h a \<and>
     jh_str h' a = jh_str h a \<and> jh_list h' a = jh_list h a \<and> jh_link h' a = jh_link h a"

lemma same_cell_fields: "same_cell a h h' \<longleftrightarrow> same_fields a h h' \<and> jh_tree h' a = jh_tree h a"
  by (auto simp: same_cell_def same_fields_def)

definition frame_obj :: "addr \<Rightarrow> jheap \<Rightarrow> jheap \<Rightarrow> bool" where
  "frame_obj ob h h' \<longleftrightarrow> (\<forall>a < jh_next h. same_fields a h h' \<and> (a \<noteq> ob \<longrightarrow> jh_tree h' a = jh_tree h a)) \<and>
     jh_next h \<le> jh_next h' \<and> jh_pool h' = jh_pool h"

lemma frame_obj_refl [simp]: "frame_obj ob h h"
  by (simp add: frame_obj_def same_fields_def)

lemma frame_obj_trans: "frame_obj ob h h' \<Longrightarrow> frame_obj ob h' h'' \<Longrightarrow> frame_obj ob h h''"
  by (auto simp: frame_obj_def same_fields_def)

text \<open>A change of a younger object is invisible from here.\<close>

lemma frame_obj_young: "frame_obj ob h h' \<Longrightarrow> frame_obj n h' h'' \<Longrightarrow> jh_next h \<le> n \<Longrightarrow> frame_obj ob h h''"
  by (fastforce simp: frame_obj_def same_fields_def)

lemma frame_jrep:
  assumes "frame_obj ob h h'" and "jrep j h a" and "ob < a" and "a < jh_next h"
  shows "jrep j h' a"
  using assms by (intro jrep_frame [OF assms(2)]) (auto simp: frame_obj_def same_cell_fields)

lemma frame_members:
  assumes f: "frame_obj ob h h'" and m: "members h ns kvs" and n: "\<forall>a\<in>set ns. ob < a \<and> a < jh_next h"
  shows "members h' ns kvs"
proof (rule list.rel_mono_strong [OF m])
  fix a kj assume a: "a \<in> set ns" "case kj of (k, j) \<Rightarrow> jh_key h a = k \<and> jrep j h a"
  then show "case kj of (k, j) \<Rightarrow> jh_key h' a = k \<and> jrep j h' a"
    using frame_jrep [OF f] n f by (auto simp: frame_obj_def same_fields_def)
qed

lemma frame_obj_rep:
  assumes f: "frame_obj n h h'" and r: "obj_rep h ob ns kvs" and "ob < jh_next h" and "jh_next h \<le> n"
  shows "obj_rep h' ob ns kvs"
proof -
  have "\<forall>a < jh_next h. same_cell a h h'" "jh_next h \<le> jh_next h'"
    using f assms(4) by (auto simp: frame_obj_def same_cell_fields)
  moreover have "frame_obj ob h h'" using frame_obj_young [OF frame_obj_refl f assms(4)] .
  then have "members h' ns kvs" using frame_members r by (auto simp: obj_rep_def)
  ultimately show ?thesis using r assms(3) by (auto simp: obj_rep_def same_cell_def)
qed

section \<open>Linking a value\<close>

text \<open>Where a new node goes, or which node already has its key.\<close>

lemma search_place:
  assumes r: "obj_rep h ob ns kvs" and s: "sorted_kvs kvs" and n: "n \<noteq> 0" "n \<notin> set ns" and k: "0 \<notin> set (jh_key h n)"
  shows "(\<exists>a. lts_sjson_search ob n True h = Some (a, h) \<and> a \<noteq> n \<and> jh_key h n \<in> fst ` set kvs) \<or>
    (\<exists>t xs ys kx ky. lts_sjson_search ob n True h = Some (n, h\<lparr> jh_tree := (jh_tree h)(ob := t) \<rparr>) \<and>
      jh_key h n \<notin> fst ` set kvs \<and> ns = xs @ ys \<and> kvs = kx @ ky \<and> obj_tree t (xs @ n # ys) \<and>
      members h xs kx \<and> members h ys ky \<and> (\<forall>j. ins_kv (jh_key h n) j kvs = kx @ (jh_key h n, j) # ky))"
proof -
  have o: "obj_tree (jh_tree h ob) ns" and m: "members h ns kvs" using r by (auto simp: obj_rep_def)
  have kk: "set (map (jh_key h) ns) = fst ` set kvs" using members_keys [OF m] by (metis list.set_map)
  from search_link_exact [OF o n obj_rep_keys [OF r s] k] show ?thesis
  proof (elim disjE bexE exE conjE)
    fix a assume a: "a \<in> set ns" "jh_key h a = jh_key h n" "lts_sjson_search ob n True h = Some (a, h)"
    then have "jh_key h n \<in> fst ` set kvs" using kk by (metis image_eqI list.set_map)
    then show ?thesis using a n by blast
  next
    fix t xs ys
    assume a: "lts_sjson_search ob n True h = Some (n, h\<lparr> jh_tree := (jh_tree h)(ob := t) \<rparr>)"
      "ns = xs @ ys" "obj_tree t (xs @ n # ys)"
      "\<forall>x\<in>set xs. lex_less (jh_key h x) (jh_key h n)" "\<forall>y\<in>set ys. lex_less (jh_key h n) (jh_key h y)"
    obtain kx ky where kxy: "kvs = kx @ ky" "members h xs kx" "members h ys ky"
      using m a(2) by (auto simp: list_all2_append1)
    have "fst ` set kx = jh_key h ` set xs" "fst ` set ky = jh_key h ` set ys"
      using members_keys [OF kxy(2)] members_keys [OF kxy(3)] by (metis list.set_map)+
    then have kl: "\<forall>x\<in>fst ` set kx. lex_less x (jh_key h n)" "\<forall>y\<in>fst ` set ky. lex_less (jh_key h n) y"
      using a(4,5) by auto
    then have "jh_key h n \<notin> fst ` set kvs" using kxy(1) lex_less_irrefl by (metis Un_iff image_Un set_append)
    then show ?thesis using a kxy ins_kv_place [OF kl] by blast
  qed
qed

text \<open>Linking a node whose value is complete.\<close>

lemma link_value:
  assumes r: "obj_rep h ob ns kvs" and s: "sorted_kvs kvs" and n: "ob < n" "n < jh_next h" "n \<notin> set ns"
    and k: "0 \<notin> set (jh_key h n)" and j: "jrep j h n"
  shows "\<exists>a h' ns'. lts_sjson_search ob n True h = Some (a, h') \<and> obj_rep h' ob ns' (ins_kv (jh_key h n) j kvs) \<and>
    frame_obj ob h h' \<and> jh_next h' = jh_next h \<and> (a = n \<longleftrightarrow> jh_key h n \<notin> fst ` set kvs)"
proof -
  have nz: "n \<noteq> 0" using n by simp
  from search_place [OF r s nz n(3) k] show ?thesis
  proof (elim disjE exE conjE)
  fix a assume "lts_sjson_search ob n True h = Some (a, h)" "a \<noteq> n" "jh_key h n \<in> fst ` set kvs"
  then show ?thesis using r ins_kv_present [OF s] by auto
next
  fix t xs ys kx ky
  let ?h = "h\<lparr> jh_tree := (jh_tree h)(ob := t) \<rparr>"
  assume a: "lts_sjson_search ob n True h = Some (n, ?h)" "jh_key h n \<notin> fst ` set kvs" "ns = xs @ ys" "kvs = kx @ ky"
    "obj_tree t (xs @ n # ys)" "members h xs kx" "members h ys ky"
    "\<forall>j. ins_kv (jh_key h n) j kvs = kx @ (jh_key h n, j) # ky"
  have f: "frame_obj ob h ?h" by (simp add: frame_obj_def same_fields_def)
  have b: "\<forall>a\<in>set ns. ob < a \<and> a < jh_next h" using r by (simp add: obj_rep_def)
  have "members h (xs @ n # ys) (kx @ (jh_key h n, j) # ky)"
    using a(6,7) j by (simp add: list_all2_appendI)
  then have "members ?h (xs @ n # ys) (kx @ (jh_key h n, j) # ky)"
    by (rule frame_members [OF f]) (use b a(3) n in auto)
  then have "obj_rep ?h ob (xs @ n # ys) (ins_kv (jh_key h n) j kvs)"
    using a(3,5,8) b n r by (auto simp: obj_rep_def)
  then show ?thesis using a(1,2) f by fastforce
  qed
qed

section \<open>Adding a string\<close>

definition pool_grants :: "jheap \<Rightarrow> int \<Rightarrow> bool" where
  "pool_grants h lim \<longleftrightarrow> 0 < jh_next h \<and> (\<forall>i n. 0 < i \<and> n \<le> lim \<longrightarrow> jh_pool h i n)"

lemma lts_sjson_add_kv2_correct:
  assumes r: "obj_rep h ob ns kvs" and s: "sorted_kvs kvs" and ob: "ob < jh_next h"
    and g: "pool_grants h lim" "64 \<le> lim" "int (length k) < lim" "int (length v) < lim" and k: "0 \<notin> set k"
  shows "\<exists>a h' ns'. lts_sjson_add_kv2 ob k v h = Some (a, h') \<and> obj_rep h' ob ns' (ins_kv k (JStr v) kvs) \<and>
    frame_obj ob h h' \<and> pool_grants h' lim \<and> (a = 0 \<longleftrightarrow> k \<in> fst ` set kvs)"
proof -
  let ?n = "jh_next h"
  let ?h = "h\<lparr> jh_next := ?n + 5, jh_str := (jh_str h)(?n := v), jh_type := (jh_type h)(?n := STRING_VALUE),
               jh_key := (jh_key h)(?n := k) \<rparr>"
  have n0: "0 < ?n" using g by (simp add: pool_grants_def)
  have f: "frame_obj ob h ?h" using ob by (auto simp: frame_obj_def same_fields_def)
  have b: "\<forall>a\<in>set ns. ob < a \<and> a < ?n" using r by (simp add: obj_rep_def)
  have "members ?h ns kvs" using frame_members [OF f _ b] r by (simp add: obj_rep_def)
  then have r': "obj_rep ?h ob ns kvs" using r b ob by (auto simp: obj_rep_def)
  have "jrep (JStr v) ?h ?n" by simp
  moreover have "?n < jh_next ?h" "?n \<notin> set ns" "jh_key ?h ?n = k" using b by auto
  ultimately obtain a h' ns' where a: "lts_sjson_search ob ?n True ?h = Some (a, h')" "obj_rep h' ob ns' (ins_kv k (JStr v) kvs)"
      "frame_obj ob ?h h'" "a = ?n \<longleftrightarrow> k \<notin> fst ` set kvs"
    using link_value [OF r' s ob] k by metis
  have "lts_sjson_add_kv2 ob k v h = Some (if a \<noteq> ?n then 0 else ?n, h')"
    using a(1) g n0 by (simp add: lts_sjson_add_kv2_def jalloc_def jclone_def pool_grants_def Let_def eval_nat_numeral)
  moreover have "frame_obj ob h h'" using frame_obj_trans [OF f a(3)] .
  moreover have "pool_grants h' lim"
    using g(1) \<open>frame_obj ob h h'\<close> by (auto simp: pool_grants_def frame_obj_def)
  ultimately show ?thesis using a(2,4) n0 by auto
qed

end
