(* ===== verification/SjsonSafe.thy ===== *)
theory SjsonSafe
  imports SjsonBuild
begin

text \<open>
  The decoder is safe on every input: whatever the bytes and whatever the pool grants, no step
  aborts, dereferences NULL or loops, and the machine stops at the end of the input at the
  latest.  The invariant \<open>dec_inv\<close> ties the flags of the machine to its state: in which states the
  bracket flag is set, which node is under construction, and that the stack holds objects.
\<close>

section \<open>Runs\<close>

fun run :: "addr \<Rightarrow> bstr \<Rightarrow> dec \<Rightarrow> dstep" where
  "run out [] d = Some (Inr d)"
| "run out (c # cs) d = do {
     r \<leftarrow> sjson_step out c d;
     case r of Inl e \<Rightarrow> Some (Inl e) | Inr d \<Rightarrow> run out cs d }"

lemma run_append: "run out (as @ bs) d = do {
    r \<leftarrow> run out as d;
    case r of Inl e \<Rightarrow> Some (Inl e) | Inr d \<Rightarrow> run out bs d }"
  by (induction as arbitrary: d) (auto split: sum.splits option.splits Option.bind_splits)

lemma decode_chars_run:
  "str_ok src \<Longrightarrow> i \<le> s_len src \<Longrightarrow> decode_chars out src i d = run out (drop i (chars src)) d"
proof (induction out src i d rule: decode_chars.induct)
  case (1 out src i d)
  show ?case
  proof (cases "i < s_len src")
    case False
    then have "drop i (chars src) = []" using 1 by simp
    then show ?thesis using False by (subst decode_chars.simps) simp
  next
    case True
    then have l: "i < length (s_data src)" using 1 by (simp add: str_ok_def)
    then have "drop i (chars src) = s_data src ! i # drop (Suc i) (chars src)"
      using True 1(2) by (subst Cons_nth_drop_Suc [symmetric]) (auto simp: chars_def)
    then show ?thesis
      using "1.IH" [OF True] "1.prems" True l
      by (subst decode_chars.simps) (auto simp: mem_simps split: sum.splits option.splits Option.bind_splits)
  qed
qed

section \<open>The invariant\<close>

definition stack_ok :: "addr \<Rightarrow> addr list \<Rightarrow> jheap \<Rightarrow> addr \<Rightarrow> bool" where
  "stack_ok out os h p \<longleftrightarrow> (\<forall>x\<in>insert out (set os). x < jh_next h \<and>
     (\<exists>ns. obj_tree (jh_tree h x) ns \<and> (\<forall>a\<in>set ns. a < jh_next h) \<and> p \<notin> set ns))"

definition pend_node :: "dec \<Rightarrow> addr" where
  "pend_node d = (if in_bracket d then json_list d
     else if current_stat d = SJSON_EXP_V_QUOT_END then json_kv d else 0)"

definition phase_ok :: "dec \<Rightarrow> addr list \<Rightarrow> bool" where
  "phase_ok d os \<longleftrightarrow>
     (current_stat d \<in> {SJSON_EXP_V_QUOT_START_OR_BRACKET_END, SJSON_EXP_COMMA_OR_BRACKET_END} \<longrightarrow> in_bracket d) \<and>
     (in_bracket d \<longrightarrow> current_stat d \<in> {SJSON_EXP_V_QUOT_START_OR_BRACKET_END, SJSON_EXP_COMMA_OR_BRACKET_END, SJSON_EXP_V_QUOT_END}
        \<and> json_list d \<noteq> 0) \<and>
     (current_stat d = SJSON_EXP_V_QUOT_END \<longrightarrow>
        (if in_bracket d then li_node d \<noteq> 0 \<and> li_node d \<notin> set os else json_kv d \<noteq> 0)) \<and>
     current_stat d \<noteq> SJSON_EXP_END"

definition dec_inv :: "addr \<Rightarrow> dec \<Rightarrow> bool" where
  "dec_inv out d \<longleftrightarrow> (\<exists>os. list_in (jh_link (jh d)) (obj_stack d) os \<and> distinct os \<and>
     stack_ok out os (jh d) (pend_node d) \<and> pend_node d < jh_next (jh d) \<and> phase_ok d os)"

abbreviation safe_step :: "addr \<Rightarrow> dstep \<Rightarrow> bool" where
  "safe_step out r \<equiv> \<exists>x. r = Some x \<and> (\<forall>d. x = Inr d \<longrightarrow> dec_inv out d)"

lemma stack_ok_pend: "stack_ok out os h p \<Longrightarrow> p' = 0 \<or> jh_next h \<le> p' \<Longrightarrow> stack_ok out os h p'"
  using obj_tree_facts by (fastforce simp: stack_ok_def)

lemma stack_ok_grow:
  assumes "stack_ok out os h p" and "\<forall>x < jh_next h. jh_tree h' x = jh_tree h x" and "jh_next h \<le> jh_next h'"
  shows "stack_ok out os h' p"
  unfolding stack_ok_def
proof
  fix x assume "x \<in> insert out (set os)"
  then obtain ns where "x < jh_next h" "obj_tree (jh_tree h x) ns" "\<forall>a\<in>set ns. a < jh_next h" "p \<notin> set ns"
    using assms(1) by (auto simp: stack_ok_def)
  then show "x < jh_next h' \<and> (\<exists>ns. obj_tree (jh_tree h' x) ns \<and> (\<forall>a\<in>set ns. a < jh_next h') \<and> p \<notin> set ns)"
    using assms(2,3) by (intro conjI exI [of _ ns]) (auto intro: less_le_trans)
qed

lemma current_obj_eq: "list_in m (obj_stack d) os \<Longrightarrow> current_obj out d = (case os of [] \<Rightarrow> out | a # _ \<Rightarrow> a)"
  by (cases os) (auto simp: current_obj_def lstack_is_empty_def lstack_top_def list_first_def)

lemma attach_safe:
  assumes st: "list_in (jh_link (jh d)) (obj_stack d) os" and ok: "stack_ok out os (jh d) p"
    and p: "p \<noteq> 0" "p < jh_next (jh d)"
  shows "\<exists>t. attach out p d = Some (d\<lparr> jh := (jh d)\<lparr> jh_tree := t \<rparr> \<rparr>) \<and>
    (\<forall>x. x \<noteq> current_obj out d \<longrightarrow> t x = jh_tree (jh d) x) \<and> stack_ok out os ((jh d)\<lparr> jh_tree := t \<rparr>) 0"
proof -
  let ?ob = "current_obj out d" and ?h = "jh d"
  have ob: "?ob \<in> insert out (set os)" using current_obj_eq [OF st] by (cases os) auto
  then obtain ns where ns: "obj_tree (jh_tree ?h ?ob) ns" "\<forall>a\<in>set ns. a < jh_next ?h" "p \<notin> set ns"
    using ok by (auto simp: stack_ok_def)
  have z: "stack_ok out os ?h 0" using stack_ok_pend [OF ok] by simp
  from search_link [OF ns(1) p(1) ns(3)] show ?thesis
  proof (elim disjE bexE exE conjE)
    fix a assume "lts_sjson_search ?ob p True ?h = Some (a, ?h)"
    then show ?thesis using z by (intro exI [of _ "jh_tree ?h"]) (simp add: attach_def)
  next
    fix t xs ys assume a: "lts_sjson_search ?ob p True ?h = Some (p, ?h\<lparr> jh_tree := (jh_tree ?h)(?ob := t) \<rparr>)"
      "ns = xs @ ys" "obj_tree t (xs @ p # ys)"
    have "stack_ok out os (?h\<lparr> jh_tree := (jh_tree ?h)(?ob := t) \<rparr>) 0"
      unfolding stack_ok_def
    proof
      fix x assume x: "x \<in> insert out (set os)"
      show "x < jh_next (?h\<lparr> jh_tree := (jh_tree ?h)(?ob := t) \<rparr>) \<and>
        (\<exists>ns. obj_tree (jh_tree (?h\<lparr> jh_tree := (jh_tree ?h)(?ob := t) \<rparr>) x) ns \<and>
          (\<forall>a\<in>set ns. a < jh_next (?h\<lparr> jh_tree := (jh_tree ?h)(?ob := t) \<rparr>)) \<and> 0 \<notin> set ns)"
      proof (cases "x = ?ob")
        case True
        then show ?thesis using z x a ns p obj_tree_facts [OF a(3)]
          by (intro conjI exI [of _ "xs @ p # ys"]) (auto simp: stack_ok_def)
      next
        case False
        then show ?thesis using z x by (auto simp: stack_ok_def)
      qed
    qed
    then show ?thesis using a(1) by (intro exI [of _ "(jh_tree ?h)(?ob := t)"]) (simp add: attach_def)
  qed
qed

section \<open>Every step is safe\<close>

lemma pop_safe:
  assumes "list_in (jh_link (jh d)) (obj_stack d) os" and "distinct os" and "obj_stack d \<noteq> 0"
    and "stack_ok out os (jh d) 0" and "\<not> in_bracket d" and "current_stat d = SJSON_EXP_COMMA_OR_END"
    and "0 < jh_next (jh d)"
  shows "\<exists>d'. pop_obj d = Some d' \<and> dec_inv out d'"
proof -
  obtain x os' where os: "os = x # os'" using assms by (cases os) auto
  have p: "lstack_pop (obj_stack d) (jh_link (jh d)) = Some (jh_link (jh d) x, (jh_link (jh d))(x := 0))"
    "list_in ((jh_link (jh d))(x := 0)) (jh_link (jh d) x) os'"
    using lstack_pop_correct [of "jh_link (jh d)" "obj_stack d" x os'] assms(1,2) os by auto
  have "stack_ok out os' (jh d) 0" using assms(4) os by (simp add: stack_ok_def)
  then have "stack_ok out os' ((jh d)\<lparr> jh_link := (jh_link (jh d))(x := 0) \<rparr>) 0"
    by (rule stack_ok_grow) simp_all
  then show ?thesis using p assms os
    by (auto simp: pop_obj_def dec_inv_def pend_node_def phase_ok_def intro!: exI [of _ os'])
qed

lemma dec_inv_pos: "dec_inv out d \<Longrightarrow> 0 < jh_next (jh d)"
  by (auto simp: dec_inv_def)

lemma close_list_safe:
  assumes "dec_inv out d" and "in_bracket d"
  shows "safe_step out (close_list out d)"
proof -
  obtain os where os: "list_in (jh_link (jh d)) (obj_stack d) os" "distinct os" "stack_ok out os (jh d) (json_list d)"
      "json_list d < jh_next (jh d)" "json_list d \<noteq> 0"
    using assms by (auto simp: dec_inv_def pend_node_def phase_ok_def)
  let ?d = "d\<lparr> in_bracket := False, current_stat := SJSON_EXP_COMMA_OR_END \<rparr>"
  obtain t where "attach out (json_list d) ?d = Some (?d\<lparr> jh := (jh ?d)\<lparr> jh_tree := t \<rparr> \<rparr>)"
      "stack_ok out os ((jh d)\<lparr> jh_tree := t \<rparr>) 0"
    using attach_safe [of ?d os out "json_list d"] os by auto
  then show ?thesis using os dec_inv_pos [OF assms(1)]
    by (auto simp: close_list_def dec_inv_def pend_node_def phase_ok_def intro!: exI [of _ os])
qed

lemma exp_v_start_safe:
  assumes i: "dec_inv out d" and s: "current_stat d = SJSON_EXP_V_MAP_OR_QUOT_OR_BRACKET_START"
  shows "safe_step out (exp_v_start out c d)"
proof -
  let ?n = "jh_next (jh d)"
  obtain os where os: "list_in (jh_link (jh d)) (obj_stack d) os" "distinct os" "stack_ok out os (jh d) 0" "0 < ?n"
      "\<not> in_bracket d"
    using i s by (auto simp: dec_inv_def pend_node_def phase_ok_def)
  have fresh: "stack_ok out os (jh d) ?n" using stack_ok_pend [OF os(3)] by simp
  have nos: "?n \<notin> set os" using os(3) by (auto simp: stack_ok_def)
  have kv: "safe_step out (start_kv d)"
  proof (cases "jh_pool (jh d) ?n 64")
    case True
    let ?d = "d\<lparr> current_stat := SJSON_EXP_V_QUOT_END, json_kv := ?n,
      jh := (jh d)\<lparr> jh_next := ?n + 1, jh_key := (jh_key (jh d))(?n := current_key d),
        jh_str := (jh_str (jh d))(?n := []), jh_type := (jh_type (jh d))(?n := STRING_VALUE) \<rparr> \<rparr>"
    have "start_kv d = Some (Inr ?d)" using True os(4) by (simp add: start_kv_def jalloc_def)
    moreover have "stack_ok out os (jh ?d) ?n" by (rule stack_ok_grow [OF fresh]) simp_all
    then have "dec_inv out ?d" using os by (auto simp: dec_inv_def pend_node_def phase_ok_def intro!: exI [of _ os])
    ultimately show ?thesis by simp
  qed (simp add: start_kv_def jalloc_def)
  have l: "safe_step out (start_list d)"
  proof (cases "jh_pool (jh d) ?n 56")
    case True
    let ?d = "d\<lparr> in_bracket := True, current_stat := SJSON_EXP_V_QUOT_START_OR_BRACKET_END, json_list := ?n,
      jh := (jh d)\<lparr> jh_next := ?n + 1, jh_key := (jh_key (jh d))(?n := current_key d),
        jh_list := (jh_list (jh d))(?n := list_set_empty), jh_type := (jh_type (jh d))(?n := LIST_VALUE) \<rparr> \<rparr>"
    have "start_list d = Some (Inr ?d)" using True os(4) by (simp add: start_list_def jalloc_def)
    moreover have "stack_ok out os (jh ?d) ?n" by (rule stack_ok_grow [OF fresh]) simp_all
    then have "dec_inv out ?d" using os by (auto simp: dec_inv_def pend_node_def phase_ok_def intro!: exI [of _ os])
    ultimately show ?thesis by simp
  qed (simp add: start_list_def jalloc_def)
  have ob: "safe_step out (start_obj out d)"
  proof (cases "jh_pool (jh d) ?n 72")
    case True
    let ?h = "(jh d)\<lparr> jh_next := ?n + 1, jh_key := (jh_key (jh d))(?n := current_key d),
      jh_tree := (jh_tree (jh d))(?n := (jh_tree (jh d) ?n)\<lparr> rb_root := 0 \<rparr>),
      jh_type := (jh_type (jh d))(?n := OBJ_VALUE) \<rparr>"
    let ?d = "d\<lparr> current_stat := SJSON_EXP_K_QUOT_START_OR_END, jh := ?h \<rparr>"
    have ok: "stack_ok out os ?h ?n" by (rule stack_ok_grow [OF fresh]) auto
    obtain t where t: "attach out ?n ?d = Some (?d\<lparr> jh := ?h\<lparr> jh_tree := t \<rparr> \<rparr>)"
        "\<forall>x. x \<noteq> current_obj out ?d \<longrightarrow> t x = jh_tree ?h x" "stack_ok out os (?h\<lparr> jh_tree := t \<rparr>) 0"
      using attach_safe [of ?d os out ?n] os ok by auto
    have "current_obj out ?d \<in> insert out (set os)" using current_obj_eq [of "jh_link ?h" ?d os] os(1) by (cases os) auto
    then have "current_obj out ?d \<noteq> ?n" using os(3) by (auto simp: stack_ok_def)
    then have "t ?n = (jh_tree (jh d) ?n)\<lparr> rb_root := 0 \<rparr>" using t(2) by auto
    then have tn: "obj_tree (t ?n) []" by simp
    let ?d' = "?d\<lparr> obj_stack := ?n, jh := ?h\<lparr> jh_tree := t, jh_link := (jh_link (jh d))(?n := obj_stack d) \<rparr> \<rparr>"
    have "start_obj out d = Some (Inr ?d')"
      using True os(4) t(1) by (simp add: start_obj_def jalloc_def lstack_push_def list_add_node_def)
    moreover have "stack_ok out (?n # os) (jh ?d') 0"
      using t(3) tn by (auto simp: stack_ok_def)
    then have "dec_inv out ?d'" using os nos by (auto simp: dec_inv_def pend_node_def phase_ok_def intro!: exI [of _ "?n # os"])
    ultimately show ?thesis by simp
  qed (simp add: start_obj_def jalloc_def)
  show ?thesis using kv l ob by (simp add: exp_v_start_def)
qed

lemma exp_v_quot_end_safe:
  assumes i: "dec_inv out d" and s: "current_stat d = SJSON_EXP_V_QUOT_END"
  shows "safe_step out (exp_v_quot_end out c d)"
proof -
  obtain os where os: "list_in (jh_link (jh d)) (obj_stack d) os" "distinct os" "stack_ok out os (jh d) (pend_node d)"
      "pend_node d < jh_next (jh d)" "phase_ok d os" using i by (auto simp: dec_inv_def)
  have grow: "\<exists>d'. grow_val n c d = Some d' \<and> dec_inv out d'" if "n \<noteq> 0" for n
  proof -
    let ?d = "d\<lparr> jh := (jh d)\<lparr> jh_str := (jh_str (jh d))(n := jh_str (jh d) n @ [c]) \<rparr> \<rparr>"
    have "stack_ok out os (jh ?d) (pend_node d)" by (rule stack_ok_grow [OF os(3)]) simp_all
    then have "dec_inv out ?d" using os by (auto simp: dec_inv_def pend_node_def phase_ok_def intro!: exI [of _ os])
    then show ?thesis using that by (simp add: grow_val_def)
  qed
  show ?thesis
  proof (cases "in_bracket d")
    case True
    then have p: "json_list d \<noteq> 0" "li_node d \<noteq> 0" "li_node d \<notin> set os" "pend_node d = json_list d"
      using os(5) s by (auto simp: phase_ok_def pend_node_def)
    show ?thesis
    proof (cases "c = c_quot")
      case c: True
      let ?m = "(jh_link (jh d))(li_node d := jh_list (jh d) (json_list d))"
      let ?d = "d\<lparr> current_stat := SJSON_EXP_COMMA_OR_BRACKET_END, li_node := 0,
        jh := (jh d)\<lparr> jh_list := (jh_list (jh d))(json_list d := li_node d), jh_link := ?m \<rparr> \<rparr>"
      have "exp_v_quot_end out c d = Some (Inr ?d)"
        using True c p by (simp add: exp_v_quot_end_def list_add_node_def)
      moreover have "stack_ok out os (jh ?d) (json_list d)"
        using os(3) unfolding p(4) by (rule stack_ok_grow) simp_all
      then have "dec_inv out ?d" using os p True
        by (auto simp: dec_inv_def pend_node_def phase_ok_def intro!: exI [of _ os])
      ultimately show ?thesis by simp
    next
      case False
      then show ?thesis using True grow [OF p(2)] by (auto simp: exp_v_quot_end_def)
    qed
  next
    case False
    then have p: "json_kv d \<noteq> 0" "pend_node d = json_kv d" using os(5) s by (auto simp: phase_ok_def pend_node_def)
    show ?thesis
    proof (cases "c = c_quot")
      case True
      let ?d = "d\<lparr> current_stat := SJSON_EXP_COMMA_OR_END \<rparr>"
      obtain t where "attach out (json_kv d) ?d = Some (?d\<lparr> jh := (jh ?d)\<lparr> jh_tree := t \<rparr> \<rparr>)"
          "stack_ok out os ((jh d)\<lparr> jh_tree := t \<rparr>) 0"
        using attach_safe [of ?d os out "json_kv d"] os p by auto
      then show ?thesis using os False True dec_inv_pos [OF i]
        by (auto simp: exp_v_quot_end_def dec_inv_def pend_node_def phase_ok_def intro!: exI [of _ os])
    qed (use False grow [OF p(1)] in \<open>auto simp: exp_v_quot_end_def\<close>)
  qed
qed

lemma exp_v_quot_start_or_bracket_end_safe:
  assumes i: "dec_inv out d" and s: "current_stat d = SJSON_EXP_V_QUOT_START_OR_BRACKET_END"
  shows "safe_step out (exp_v_quot_start_or_bracket_end out c d)"
proof -
  let ?n = "jh_next (jh d)"
  obtain os where os: "list_in (jh_link (jh d)) (obj_stack d) os" "distinct os" "stack_ok out os (jh d) (json_list d)"
      "json_list d < ?n" "in_bracket d" "json_list d \<noteq> 0"
    using i s by (auto simp: dec_inv_def pend_node_def phase_ok_def)
  have nos: "?n \<notin> set os" "?n \<noteq> 0" using os(3,4) by (auto simp: stack_ok_def)
  show ?thesis
  proof (cases "c = c_quot \<and> jh_pool (jh d) ?n 24")
    case True
    let ?d = "d\<lparr> current_stat := SJSON_EXP_V_QUOT_END, li_node := ?n,
      jh := (jh d)\<lparr> jh_next := ?n + 1, jh_str := (jh_str (jh d))(?n := []) \<rparr> \<rparr>"
    have "stack_ok out os (jh ?d) (json_list d)" by (rule stack_ok_grow [OF os(3)]) simp_all
    then have "dec_inv out ?d" using os nos by (auto simp: dec_inv_def pend_node_def phase_ok_def intro!: exI [of _ os])
    then show ?thesis using True os(5) nos(2) by (simp add: exp_v_quot_start_or_bracket_end_def jalloc_def)
  qed (use os(5) close_list_safe [OF i os(5)] in \<open>auto simp: exp_v_quot_start_or_bracket_end_def jalloc_def\<close>)
qed

lemma sjson_step_safe:
  assumes i: "dec_inv out d"
  shows "safe_step out (sjson_step out c d)"
proof -
  obtain os where os: "list_in (jh_link (jh d)) (obj_stack d) os" "distinct os" "stack_ok out os (jh d) (pend_node d)"
      "pend_node d < jh_next (jh d)" "phase_ok d os" using i by (auto simp: dec_inv_def)
  note defs = dec_inv_def pend_node_def phase_ok_def
  have stat: "dec_inv out (d\<lparr> current_stat := s, current_key := k \<rparr>)"
    if "\<not> in_bracket d" "current_stat d \<noteq> SJSON_EXP_V_QUOT_END"
      "s \<notin> {SJSON_EXP_END, SJSON_EXP_V_QUOT_END, SJSON_EXP_V_QUOT_START_OR_BRACKET_END, SJSON_EXP_COMMA_OR_BRACKET_END}" for s k
    using os that by (auto simp: defs intro!: exI [of _ os])
  have stat': "dec_inv out (d\<lparr> current_stat := s \<rparr>)"
    if "\<not> in_bracket d" "current_stat d \<noteq> SJSON_EXP_V_QUOT_END"
      "s \<notin> {SJSON_EXP_END, SJSON_EXP_V_QUOT_END, SJSON_EXP_V_QUOT_START_OR_BRACKET_END, SJSON_EXP_COMMA_OR_BRACKET_END}" for s
    using stat [OF that, of "current_key d"] by simp
  have key: "dec_inv out (d\<lparr> current_key := k \<rparr>)" for k
    using os by (auto simp: defs intro!: exI [of _ os])
  have pop: "\<exists>d'. pop_obj (d\<lparr> current_stat := SJSON_EXP_COMMA_OR_END \<rparr>) = Some d' \<and> dec_inv out d'"
    if "\<not> in_bracket d" "\<not> lstack_is_empty (obj_stack d)"
    using that os stack_ok_pend [OF os(3), of 0] dec_inv_pos [OF i]
    by (intro pop_safe [of _ os]) (auto simp: lstack_is_empty_def)
  show ?thesis
  proof (cases "current_stat d")
    case SJSON_EXP_V_MAP_OR_QUOT_OR_BRACKET_START
    then show ?thesis using exp_v_start_safe [OF i] by (simp add: sjson_step_def)
  next
    case SJSON_EXP_V_QUOT_END
    then show ?thesis using exp_v_quot_end_safe [OF i] by (simp add: sjson_step_def)
  next
    case SJSON_EXP_V_QUOT_START_OR_BRACKET_END
    then show ?thesis using exp_v_quot_start_or_bracket_end_safe [OF i] by (simp add: sjson_step_def)
  next
    case SJSON_EXP_COMMA_OR_BRACKET_END
    then have b: "in_bracket d" using os(5) by (simp add: phase_ok_def)
    then have "dec_inv out (d\<lparr> current_stat := SJSON_EXP_V_QUOT_START_OR_BRACKET_END \<rparr>)"
      using os by (auto simp: defs intro!: exI [of _ os])
    then show ?thesis using SJSON_EXP_COMMA_OR_BRACKET_END b close_list_safe [OF i b]
      by (auto simp: sjson_step_def exp_comma_or_bracket_end_def)
  next
    case SJSON_EXP_COMMA_OR_END
    then have "\<not> in_bracket d" using os(5) by (auto simp: phase_ok_def)
    then show ?thesis using SJSON_EXP_COMMA_OR_END stat' pop by (auto simp: sjson_step_def exp_comma_or_end_def)
  next
    case SJSON_EXP_K_QUOT_START_OR_END
    then have "\<not> in_bracket d" using os(5) by (auto simp: phase_ok_def)
    then show ?thesis using SJSON_EXP_K_QUOT_START_OR_END stat stat' pop
      by (auto simp: sjson_step_def exp_k_quot_start_or_end_def)
  next
    case SJSON_EXP_START
    then have "\<not> in_bracket d" using os(5) by (auto simp: phase_ok_def)
    then show ?thesis using SJSON_EXP_START stat' by (auto simp: sjson_step_def exp_start_def)
  next
    case SJSON_EXP_K_QUOT_START
    then have "\<not> in_bracket d" using os(5) by (auto simp: phase_ok_def)
    then show ?thesis using SJSON_EXP_K_QUOT_START stat i by (auto simp: sjson_step_def exp_k_quot_start_def)
  next
    case SJSON_EXP_K_QUOT_END
    then have "\<not> in_bracket d" using os(5) by (auto simp: phase_ok_def)
    then show ?thesis using SJSON_EXP_K_QUOT_END stat' key
      by (auto simp: sjson_step_def exp_k_quot_end_def)
  next
    case SJSON_EXP_COLON
    then have "\<not> in_bracket d" using os(5) by (auto simp: phase_ok_def)
    then show ?thesis using SJSON_EXP_COLON stat' by (auto simp: sjson_step_def exp_colon_def)
  next
    case SJSON_EXP_END
    then show ?thesis using os(5) by (simp add: phase_ok_def)
  qed (simp add: sjson_step_def)
qed

lemma run_safe: "dec_inv out d \<Longrightarrow> safe_step out (run out cs d)"
proof (induction cs arbitrary: d)
  case (Cons c cs)
  obtain x where x: "sjson_step out c d = Some x" "\<forall>d. x = Inr d \<longrightarrow> dec_inv out d"
    using sjson_step_safe [OF Cons.prems] by blast
  then show ?case using Cons.IH by (cases x) auto
qed simp

lemma lts_sjson_decode_safe:
  assumes "str_ok src" and "obj_tree (jh_tree h out) ns" and "\<forall>a\<in>set ns. a < jh_next h" and "out < jh_next h"
  shows "\<exists>r src'. lts_sjson_decode src out h = Some (r, src')"
proof -
  obtain src' n where f: "lts_str_filter_multi src sjson_invisible = Some (src', n)" "str_ok src'"
    using filter_core_correct [OF assms(1), of "charmap_isset (charmap_of sjson_invisible)"]
    by (auto simp: lts_str_filter_multi_def)
  have "stack_ok out [] h 0" using assms(2,3,4) obj_tree_facts [OF assms(2)] by (auto simp: stack_ok_def)
  then have "dec_inv out (dec_start h)" using assms(4)
    unfolding dec_inv_def by (intro exI [of _ "[]"]) (simp add: dec_start_def pend_node_def phase_ok_def)
  from run_safe [OF this, of "chars src'"] f decode_chars_run [OF f(2), of 0 out "dec_start h"]
  show ?thesis by (auto simp: lts_sjson_decode_def split: sum.splits)
qed

end
