(* ===== verification/SjsonRound.thy ===== *)
theory SjsonRound
  imports SjsonSafe
begin

text \<open>
  What the decoder makes of a JSON text: \<open>norm j\<close> is the value stored for the text of \<open>j\<close>.  Members
  are sorted by key and the first of two members with the same key is kept; the elements of a
  list come out in reverse order, because each is added at the head.
\<close>

section \<open>The value a text stands for\<close>

definition ins_all :: "(bstr \<times> json) list \<Rightarrow> (bstr \<times> json) list \<Rightarrow> (bstr \<times> json) list" where
  "ins_all new kvs = fold (\<lambda>(k, j). ins_kv k j) new kvs"

fun norm :: "json \<Rightarrow> json" where
  "norm (JStr s) = JStr s"
| "norm (JList vs) = JList (rev vs)"
| "norm (JObj kvs) = JObj (ins_all (map (\<lambda>(k, j). (k, norm j)) kvs) [])"

text \<open>Strings without quotes, keys without NUL.\<close>

fun jgood :: "json \<Rightarrow> bool" where
  "jgood (JStr s) \<longleftrightarrow> c_quot \<notin> set s"
| "jgood (JList vs) \<longleftrightarrow> (\<forall>v\<in>set vs. c_quot \<notin> set v)"
| "jgood (JObj kvs) \<longleftrightarrow> (\<forall>(k, j)\<in>set kvs. c_quot \<notin> set k \<and> 0 \<notin> set k \<and> jgood j)"

section \<open>Runs over strings\<close>

lemma run_step: "run out (c # cs) d = do {
    r \<leftarrow> sjson_step out c d;
    case r of Inl e \<Rightarrow> Some (Inl e) | Inr d \<Rightarrow> run out cs d }"
  by simp

lemma run_key:
  "current_stat d = SJSON_EXP_K_QUOT_END \<Longrightarrow> c_quot \<notin> set k \<Longrightarrow>
   run out k d = Some (Inr (d\<lparr> current_key := current_key d @ k \<rparr>))"
  by (induction k arbitrary: d) (auto simp: sjson_step_def exp_k_quot_end_def)

definition with_str :: "addr \<Rightarrow> bstr \<Rightarrow> dec \<Rightarrow> dec" where
  "with_str n s d = d\<lparr> jh := (jh d)\<lparr> jh_str := (jh_str (jh d))(n := s) \<rparr> \<rparr>"

lemma with_str_simps [simp]:
  "current_stat (with_str n s d) = current_stat d" "in_bracket (with_str n s d) = in_bracket d"
  "json_kv (with_str n s d) = json_kv d" "li_node (with_str n s d) = li_node d"
  "json_list (with_str n s d) = json_list d" "obj_stack (with_str n s d) = obj_stack d"
  "jh_str (jh (with_str n s d)) n = s"
  "with_str n s (with_str n s' d) = with_str n s d"
  by (simp_all add: with_str_def)

lemma grow_val_eq: "n \<noteq> 0 \<Longrightarrow> grow_val n c d = Some (with_str n (jh_str (jh d) n @ [c]) d)"
  by (simp add: grow_val_def with_str_def)

lemma run_val:
  assumes "current_stat d = SJSON_EXP_V_QUOT_END" and "n \<noteq> 0" and "c_quot \<notin> set s"
    and "n = (if in_bracket d then li_node d else json_kv d)"
  shows "run out s d = Some (Inr (with_str n (jh_str (jh d) n @ s) d))"
  using assms
proof (induction s arbitrary: d)
  case Nil
  then show ?case by (simp add: with_str_def)
next
  case (Cons c s)
  have "sjson_step out c d = Some (Inr (with_str n (jh_str (jh d) n @ [c]) d))"
    using Cons.prems by (auto simp: sjson_step_def exp_v_quot_end_def grow_val_eq)
  then show ?case using Cons by (simp add: run_step)
qed

section \<open>Ready states\<close>

definition ready :: "addr \<Rightarrow> addr list \<Rightarrow> addr \<Rightarrow> addr list \<Rightarrow> (bstr \<times> json) list \<Rightarrow> dec \<Rightarrow> bool" where
  "ready out os ob ns kvs d \<longleftrightarrow> list_in (jh_link (jh d)) (obj_stack d) os \<and> distinct os \<and>
     ob = (case os of [] \<Rightarrow> out | a # _ \<Rightarrow> a) \<and> obj_rep (jh d) ob ns kvs \<and> sorted_kvs kvs \<and>
     ob < jh_next (jh d) \<and> (\<forall>x\<in>set os. x < jh_next (jh d)) \<and> \<not> in_bracket d \<and> pool_grants (jh d) 72"

text \<open>A state between members: the object stands for \<open>kvs\<close>, and only it has changed.\<close>

definition between :: "addr \<Rightarrow> addr list \<Rightarrow> addr \<Rightarrow> (bstr \<times> json) list \<Rightarrow> jheap \<Rightarrow> dec \<Rightarrow> bool" where
  "between out os ob kvs h d \<longleftrightarrow> current_stat d = SJSON_EXP_COMMA_OR_END \<and> frame_obj ob h (jh d) \<and>
     (\<exists>ns. ready out os ob ns kvs d)"

lemma ready_current: "ready out os ob ns kvs d \<Longrightarrow> current_obj out d = ob"
  using current_obj_eq by (auto simp: ready_def)

text \<open>A state whose heap only gained cells is as ready as before.\<close>

lemma ready_grow:
  assumes r: "ready out os ob ns kvs d" and f: "frame_obj n (jh d) (jh d')" and n: "jh_next (jh d) \<le> n"
    and s: "obj_stack d' = obj_stack d" "\<not> in_bracket d'"
  shows "ready out os ob ns kvs d'"
proof -
  have "\<forall>a\<in>set os. jh_link (jh d') a = jh_link (jh d) a"
    using r f by (auto simp: ready_def frame_obj_def same_fields_def)
  then have "list_in (jh_link (jh d')) (obj_stack d') os"
    using r s list_in_cong [of os] by (auto simp: ready_def)
  moreover have "obj_rep (jh d') ob ns kvs" using frame_obj_rep [OF f _ _ n] r by (auto simp: ready_def)
  ultimately show ?thesis using r f s by (fastforce simp: ready_def frame_obj_def pool_grants_def)
qed

text \<open>Attaching a complete value to the current object.\<close>

lemma attach_ready:
  assumes r: "ready out os ob ns kvs d" and n: "ob < n" "n < jh_next (jh d)" "n \<notin> set ns"
    and k: "0 \<notin> set (jh_key (jh d) n)" and j: "jrep j (jh d) n"
  shows "\<exists>h' ns'. attach out n d = Some (d\<lparr> jh := h' \<rparr>) \<and> frame_obj ob (jh d) h' \<and>
    ready out os ob ns' (ins_kv (jh_key (jh d) n) j kvs) (d\<lparr> jh := h' \<rparr>)"
proof -
  have o: "obj_rep (jh d) ob ns kvs" "sorted_kvs kvs" using r by (auto simp: ready_def)
  obtain a h' ns' where h': "lts_sjson_search ob n True (jh d) = Some (a, h')"
      "obj_rep h' ob ns' (ins_kv (jh_key (jh d) n) j kvs)" "frame_obj ob (jh d) h'" "jh_next h' = jh_next (jh d)"
    using link_value [OF o n k j] by blast
  have "attach out n d = Some (d\<lparr> jh := h' \<rparr>)" using h'(1) ready_current [OF r] by (simp add: attach_def)
  moreover have "\<forall>a\<in>set os. jh_link h' a = jh_link (jh d) a"
    using r h'(3) by (auto simp: ready_def frame_obj_def same_fields_def)
  then have "list_in (jh_link h') (obj_stack d) os" using r list_in_cong [of os] by (auto simp: ready_def)
  moreover have "pool_grants h' 72" using r h'(3,4) by (auto simp: ready_def pool_grants_def frame_obj_def)
  ultimately show ?thesis using h' r ins_kv_sorted [OF o(2) k] by (intro exI conjI) (auto simp: ready_def)
qed

section \<open>Strings\<close>

lemma run_string:
  assumes r: "ready out os ob ns kvs d" and st: "current_stat d = SJSON_EXP_V_MAP_OR_QUOT_OR_BRACKET_START"
    and k: "0 \<notin> set (current_key d)" and s: "c_quot \<notin> set s"
  shows "\<exists>d'. run out (quoted s) d = Some (Inr d') \<and> between out os ob (ins_kv (current_key d) (JStr s) kvs) (jh d) d'"
proof -
  let ?n = "jh_next (jh d)"
  have g: "jh_pool (jh d) ?n 64" "0 < ?n" using r by (auto simp: ready_def pool_grants_def)
  define d1 where "d1 = d\<lparr> current_stat := SJSON_EXP_V_QUOT_END, json_kv := ?n,
      jh := (jh d)\<lparr> jh_next := ?n + 1, jh_key := (jh_key (jh d))(?n := current_key d),
        jh_str := (jh_str (jh d))(?n := []), jh_type := (jh_type (jh d))(?n := STRING_VALUE) \<rparr> \<rparr>"
  have nb: "\<not> in_bracket d" using r by (simp add: ready_def)
  have 1: "sjson_step out c_quot d = Some (Inr d1)"
    using st g by (simp add: sjson_step_def exp_v_start_def start_kv_def jalloc_def d1_def)
  let ?d2 = "with_str ?n s d1"
  have "current_stat d1 = SJSON_EXP_V_QUOT_END" "?n = (if in_bracket d1 then li_node d1 else json_kv d1)"
      "jh_str (jh d1) ?n = []"
    using nb by (simp_all add: d1_def)
  with run_val [OF this(1) _ s this(2)] g(2) have 2: "run out s d1 = Some (Inr ?d2)" by simp
  let ?d3 = "?d2\<lparr> current_stat := SJSON_EXP_COMMA_OR_END \<rparr>"
  have f: "frame_obj ob (jh d) (jh ?d3)" by (auto simp: d1_def with_str_def frame_obj_def same_fields_def)
  have "frame_obj ?n (jh d) (jh ?d3)" by (auto simp: d1_def with_str_def frame_obj_def same_fields_def)
  then have r3: "ready out os ob ns kvs ?d3"
    by (rule ready_grow [OF r]) (auto simp: d1_def nb)
  have b: "ob < ?n" "?n \<notin> set ns" using r by (auto simp: ready_def obj_rep_def)
  have j: "jrep (JStr s) (jh ?d3) ?n" by (simp add: d1_def with_str_def)
  have key: "jh_key (jh ?d3) ?n = current_key d" "jh_next (jh ?d3) = ?n + 1" by (simp_all add: d1_def with_str_def)
  obtain h' ns' where h': "attach out ?n ?d3 = Some (?d3\<lparr> jh := h' \<rparr>)" "frame_obj ob (jh ?d3) h'"
      "ready out os ob ns' (ins_kv (current_key d) (JStr s) kvs) (?d3\<lparr> jh := h' \<rparr>)"
    using attach_ready [OF r3 b(1) _ b(2) _ j] k unfolding key by auto
  let ?d4 = "?d3\<lparr> jh := h', json_kv := 0 \<rparr>"
  have "sjson_step out c_quot ?d2 = Some (Inr ?d4)"
    using h'(1) nb by (simp add: sjson_step_def exp_v_quot_end_def d1_def)
  then have "run out (quoted s) d = Some (Inr ?d4)" using 1 2 by (simp add: quoted_def run_append)
  moreover have "between out os ob (ins_kv (current_key d) (JStr s) kvs) (jh d) ?d4"
    using h'(3) frame_obj_trans [OF f h'(2)] by (auto simp: between_def ready_def)
  ultimately show ?thesis by blast
qed

section \<open>Lists\<close>

definition frame_list :: "addr \<Rightarrow> jheap \<Rightarrow> jheap \<Rightarrow> bool" where
  "frame_list l h h' \<longleftrightarrow> (\<forall>a < jh_next h. a \<noteq> l \<longrightarrow> same_cell a h h') \<and> jh_type h' l = jh_type h l \<and>
     jh_key h' l = jh_key h l \<and> jh_next h \<le> jh_next h' \<and> jh_pool h' = jh_pool h"

lemma frame_list_refl [simp]: "frame_list l h h"
  by (simp add: frame_list_def same_cell_def)

lemma frame_list_trans: "frame_list l h h' \<Longrightarrow> frame_list l h' h'' \<Longrightarrow> frame_list l h h''"
  by (auto simp: frame_list_def same_cell_def)

text \<open>The list \<open>l\<close> under construction holds the elements \<open>vs\<close>.\<close>

definition list_state :: "addr \<Rightarrow> addr \<Rightarrow> bstr list \<Rightarrow> dec \<Rightarrow> bool" where
  "list_state s l vs d \<longleftrightarrow> in_bracket d \<and> json_list d = l \<and> l \<noteq> 0 \<and> l < jh_next (jh d) \<and> obj_stack d = s \<and>
     pool_grants (jh d) 72 \<and>
     (\<exists>as. list_in (jh_link (jh d)) (jh_list (jh d) l) as \<and> map (jh_str (jh d)) as = vs \<and>
        (\<forall>a\<in>set as. l < a \<and> a < jh_next (jh d)))"

lemma run_element:
  assumes l: "list_state sk l vs d" and s: "current_stat d = SJSON_EXP_V_QUOT_START_OR_BRACKET_END" and q: "c_quot \<notin> set v"
  shows "\<exists>d'. run out (quoted v) d = Some (Inr d') \<and> current_stat d' = SJSON_EXP_COMMA_OR_BRACKET_END \<and>
    list_state sk l (v # vs) d' \<and> frame_list l (jh d) (jh d')"
proof -
  let ?n = "jh_next (jh d)"
  obtain as where as: "list_in (jh_link (jh d)) (jh_list (jh d) l) as" "map (jh_str (jh d)) as = vs"
      "\<forall>a\<in>set as. l < a \<and> a < ?n" using l by (auto simp: list_state_def)
  have g: "jh_pool (jh d) ?n 24" "0 < ?n" "in_bracket d" "json_list d = l" "l \<noteq> 0" "l < ?n"
    using l by (auto simp: list_state_def pool_grants_def)
  define d1 where "d1 = d\<lparr> current_stat := SJSON_EXP_V_QUOT_END, li_node := ?n,
      jh := (jh d)\<lparr> jh_next := ?n + 1, jh_str := (jh_str (jh d))(?n := []) \<rparr> \<rparr>"
  have 1: "sjson_step out c_quot d = Some (Inr d1)"
    using s g by (simp add: sjson_step_def exp_v_quot_start_or_bracket_end_def jalloc_def d1_def)
  let ?d2 = "with_str ?n v d1"
  have "current_stat d1 = SJSON_EXP_V_QUOT_END" "?n = (if in_bracket d1 then li_node d1 else json_kv d1)"
      "jh_str (jh d1) ?n = []"
    using g(3) by (simp_all add: d1_def)
  with run_val [OF this(1) _ q this(2)] g(2) have 2: "run out v d1 = Some (Inr ?d2)" by simp
  let ?d3 = "?d2\<lparr> current_stat := SJSON_EXP_COMMA_OR_BRACKET_END, li_node := 0,
      jh := (jh ?d2)\<lparr> jh_list := (jh_list (jh d))(l := ?n), jh_link := (jh_link (jh d))(?n := jh_list (jh d) l) \<rparr> \<rparr>"
  have "sjson_step out c_quot ?d2 = Some (Inr ?d3)"
    using g by (simp add: sjson_step_def exp_v_quot_end_def d1_def with_str_def list_add_node_def)
  then have run: "run out (quoted v) d = Some (Inr ?d3)" using 1 2 by (simp add: quoted_def run_append)
  have n: "?n \<notin> set as" using as(3) by auto
  have "list_in (jh_link (jh ?d3)) (jh_list (jh ?d3) l) (?n # as)"
    using as(1) n g(2) by simp
  moreover have "map (jh_str (jh ?d3)) (?n # as) = v # vs"
    using as(2) n by (auto simp: d1_def with_str_def)
  moreover have "\<forall>a\<in>set (?n # as). l < a \<and> a < jh_next (jh ?d3)"
    using as(3) g by (auto simp: d1_def with_str_def)
  moreover have "pool_grants (jh ?d3) 72" using l by (simp add: list_state_def pool_grants_def d1_def with_str_def)
  ultimately have "list_state sk l (v # vs) ?d3"
    using l unfolding list_state_def by (intro conjI exI [of _ "?n # as"]) (auto simp: d1_def with_str_def)
  moreover have "frame_list l (jh d) (jh ?d3)"
    by (auto simp: frame_list_def same_cell_def d1_def with_str_def)
  ultimately show ?thesis using run by (intro exI [of _ ?d3]) simp
qed

lemma run_elements:
  assumes "list_state sk l vs d" and "current_stat d = SJSON_EXP_V_QUOT_START_OR_BRACKET_END"
    and "\<forall>v\<in>set ws. c_quot \<notin> set v"
  shows "\<exists>d'. run out (commas (map quoted ws)) d = Some (Inr d') \<and>
    current_stat d' \<in> {SJSON_EXP_V_QUOT_START_OR_BRACKET_END, SJSON_EXP_COMMA_OR_BRACKET_END} \<and>
    list_state sk l (rev ws @ vs) d' \<and> frame_list l (jh d) (jh d')"
  using assms
proof (induction ws arbitrary: vs d)
  case Nil
  then show ?case by simp
next
  case (Cons w ws)
  obtain d1 where d1: "run out (quoted w) d = Some (Inr d1)" "current_stat d1 = SJSON_EXP_COMMA_OR_BRACKET_END"
      "list_state sk l (w # vs) d1" "frame_list l (jh d) (jh d1)"
    using run_element [OF Cons.prems(1,2)] Cons.prems(3) by (meson list.set_intros(1))
  show ?case
  proof (cases "ws = []")
    case True
    then show ?thesis using d1 by simp
  next
    case False
    let ?d2 = "d1\<lparr> current_stat := SJSON_EXP_V_QUOT_START_OR_BRACKET_END \<rparr>"
    have "list_state sk l (w # vs) ?d2" using d1(3) by (simp add: list_state_def)
    from Cons.IH [OF this] Cons.prems(3)
    obtain d' where d': "run out (commas (map quoted ws)) ?d2 = Some (Inr d')"
      "current_stat d' \<in> {SJSON_EXP_V_QUOT_START_OR_BRACKET_END, SJSON_EXP_COMMA_OR_BRACKET_END}"
      "list_state sk l (rev ws @ w # vs) d'" "frame_list l (jh d1) (jh d')" by auto
    have "sjson_step out c_comma d1 = Some (Inr ?d2)"
      using d1(2,3) by (simp add: sjson_step_def exp_comma_or_bracket_end_def list_state_def)
    then have "run out (commas (map quoted (w # ws))) d = Some (Inr d')"
      using False d1(1) d'(1) by (simp add: commas_Cons run_append)
    then show ?thesis using d' frame_list_trans [OF d1(4) d'(4)] by simp
  qed
qed

lemma run_list:
  assumes r: "ready out os ob ns kvs d" and st: "current_stat d = SJSON_EXP_V_MAP_OR_QUOT_OR_BRACKET_START"
    and k: "0 \<notin> set (current_key d)" and q: "\<forall>v\<in>set vs. c_quot \<notin> set v"
  shows "\<exists>d'. run out (jtext (JList vs)) d = Some (Inr d') \<and>
    between out os ob (ins_kv (current_key d) (JList (rev vs)) kvs) (jh d) d'"
proof -
  let ?n = "jh_next (jh d)"
  have g: "jh_pool (jh d) ?n 56" "0 < ?n" using r by (auto simp: ready_def pool_grants_def)
  define d1 where "d1 = d\<lparr> in_bracket := True, current_stat := SJSON_EXP_V_QUOT_START_OR_BRACKET_END, json_list := ?n,
      jh := (jh d)\<lparr> jh_next := ?n + 1, jh_key := (jh_key (jh d))(?n := current_key d),
        jh_list := (jh_list (jh d))(?n := 0), jh_type := (jh_type (jh d))(?n := LIST_VALUE) \<rparr> \<rparr>"
  have 1: "sjson_step out c_lbrack d = Some (Inr d1)"
    using st g by (simp add: sjson_step_def exp_v_start_def start_list_def jalloc_def d1_def list_set_empty_def)
  have "list_state (obj_stack d) ?n [] d1"
    using r g(2) by (auto simp: list_state_def d1_def ready_def pool_grants_def)
  from run_elements [OF this _ q] obtain d2 where d2: "run out (commas (map quoted vs)) d1 = Some (Inr d2)"
      "current_stat d2 \<in> {SJSON_EXP_V_QUOT_START_OR_BRACKET_END, SJSON_EXP_COMMA_OR_BRACKET_END}"
      "list_state (obj_stack d) ?n (rev vs) d2" "frame_list ?n (jh d1) (jh d2)"
    by (auto simp: d1_def)
  let ?d3 = "d2\<lparr> in_bracket := False, current_stat := SJSON_EXP_COMMA_OR_END \<rparr>"
  have f0: "\<forall>a < ?n. same_cell a (jh d) (jh d2)" "?n < jh_next (jh d2)" "jh_pool (jh d2) = jh_pool (jh d)"
    "jh_key (jh d2) ?n = current_key d" "jh_type (jh d2) ?n = LIST_VALUE"
    using d2(4) by (auto simp: d1_def frame_list_def same_cell_def)
  then have f: "frame_obj a (jh d) (jh ?d3)" for a by (auto simp: frame_obj_def same_cell_fields)
  have r3: "ready out os ob ns kvs ?d3"
    by (rule ready_grow [OF r f [of ?n]]) (use d2(3) in \<open>auto simp: list_state_def\<close>)
  have b: "ob < ?n" "?n \<notin> set ns" using r by (auto simp: ready_def obj_rep_def)
  have j: "jrep (JList (rev vs)) (jh ?d3) ?n" using d2(3) f0(5) by (auto simp: list_state_def)
  obtain h' ns' where h': "attach out ?n ?d3 = Some (?d3\<lparr> jh := h' \<rparr>)" "frame_obj ob (jh ?d3) h'"
      "ready out os ob ns' (ins_kv (current_key d) (JList (rev vs)) kvs) (?d3\<lparr> jh := h' \<rparr>)"
    using attach_ready [OF r3 b(1) _ b(2) _ j] k f0(2,4) by auto
  let ?d4 = "?d3\<lparr> jh := h', json_list := 0 \<rparr>"
  have "in_bracket d2" "json_list d2 = ?n" using d2(3) by (auto simp: list_state_def)
  then have "sjson_step out c_rbrack d2 = Some (Inr ?d4)"
    using h'(1) d2(2)
    by (auto simp: sjson_step_def exp_v_quot_start_or_bracket_end_def exp_comma_or_bracket_end_def close_list_def)
  then have "run out (jtext (JList vs)) d = Some (Inr ?d4)" using 1 d2(1) by (simp add: run_append)
  moreover have "between out os ob (ins_kv (current_key d) (JList (rev vs)) kvs) (jh d) ?d4"
    using h'(3) frame_obj_trans [OF f h'(2)] by (auto simp: between_def ready_def)
  ultimately show ?thesis by blast
qed

section \<open>Objects\<close>

lemma obj_rep_relink:
  assumes r: "obj_rep h n ns kvs"
  shows "obj_rep (h\<lparr> jh_link := (jh_link h)(n := v) \<rparr>) n ns kvs"
proof -
  let ?h = "h\<lparr> jh_link := (jh_link h)(n := v) \<rparr>"
  have m: "members h ns kvs" "\<forall>a\<in>set ns. n < a" using r by (auto simp: obj_rep_def)
  have "members ?h ns kvs"
  proof (rule list.rel_mono_strong [OF m(1)])
    fix a kj assume "a \<in> set ns" "case kj of (k, j) \<Rightarrow> jh_key h a = k \<and> jrep j h a"
    moreover from this have "n < a" using m(2) by blast
    then have "jrep j h a \<Longrightarrow> jrep j ?h a" for j by (elim jrep_frame) (auto simp: same_cell_def)
    ultimately show "case kj of (k, j) \<Rightarrow> jh_key ?h a = k \<and> jrep j ?h a" by auto
  qed
  then show ?thesis using r by (simp add: obj_rep_def)
qed

text \<open>Linking a fresh object that is still empty; its value is completed later.\<close>

lemma link_open:
  assumes r: "obj_rep g ob ns kvs" "obj_rep h ob ns kvs" and s: "sorted_kvs kvs"
    and n: "ob < n" "n \<notin> set ns" and k: "0 \<notin> set (jh_key h n)"
  shows "\<exists>a T. lts_sjson_search ob n True h = Some (a, h\<lparr> jh_tree := T \<rparr>) \<and> (\<forall>x. x \<noteq> ob \<longrightarrow> T x = jh_tree h x) \<and>
    (\<forall>h' j. frame_obj ob g h' \<and> jh_tree h' ob = T ob \<and> ob < jh_next g \<and> n < jh_next h' \<and> jh_key h' n = jh_key h n \<and> jrep j h' n \<longrightarrow>
      (\<exists>ns'. obj_rep h' ob ns' (ins_kv (jh_key h n) j kvs)))"
proof -
  have n0: "n \<noteq> 0" using n by simp
  have b: "\<forall>a\<in>set ns. ob < a \<and> a < jh_next g" and m: "members g ns kvs" and t: "jh_type g ob = OBJ_VALUE"
    "obj_tree (jh_tree h ob) ns" using r by (auto simp: obj_rep_def)
  have nx: "\<forall>a\<in>set ns. ob < a \<and> a < jh_next h'" "jh_type h' ob = OBJ_VALUE" "members h' ns kvs"
    if "frame_obj ob g h'" "ob < jh_next g" for h'
    using that b t(1) frame_members [OF that(1) m b] by (auto simp: frame_obj_def same_fields_def)
  from search_place [OF r(2) s n0 n(2) k] show ?thesis
  proof (elim disjE exE conjE)
    fix a assume a: "lts_sjson_search ob n True h = Some (a, h)" "jh_key h n \<in> fst ` set kvs"
    have "obj_rep h' ob ns (ins_kv (jh_key h n) j kvs)"
      if "frame_obj ob g h'" "ob < jh_next g" "jh_tree h' ob = jh_tree h ob" for h' j
      using nx [OF that(1,2)] t(2) that(3) ins_kv_present [OF s a(2)] by (simp add: obj_rep_def)
    then show ?thesis using a(1) by (intro exI [of _ a] exI [of _ "jh_tree h"]) auto
  next
    fix t xs ys kx ky
    assume a: "lts_sjson_search ob n True h = Some (n, h\<lparr> jh_tree := (jh_tree h)(ob := t) \<rparr>)" "ns = xs @ ys" "kvs = kx @ ky"
      "obj_tree t (xs @ n # ys)" "members h xs kx" "members h ys ky"
      "\<forall>j. ins_kv (jh_key h n) j kvs = kx @ (jh_key h n, j) # ky"
    have l: "length xs = length kx" using a(5) by (rule list_all2_lengthD)
    have "obj_rep h' ob (xs @ n # ys) (ins_kv (jh_key h n) j kvs)"
      if f: "frame_obj ob g h'" "ob < jh_next g" and t: "jh_tree h' ob = t" "n < jh_next h'"
        and j: "jh_key h' n = jh_key h n" "jrep j h' n" for h' j
    proof -
      have "members h' xs kx" "members h' ys ky"
        using nx(3) [OF f] l by (auto simp: a(2,3) list_all2_append)
      then have "members h' (xs @ n # ys) (kx @ (jh_key h n, j) # ky)"
        using j by (simp add: list_all2_appendI)
      then show ?thesis using nx(1,2) [OF f] n(1) t a(4,7) by (auto simp: obj_rep_def a(2))
    qed
    then show ?thesis using a(1) by (intro exI [of _ n] exI [of _ "(jh_tree h)(ob := t)"]) auto
  qed
qed

text \<open>The parts of \<open>ready\<close>, one by one.\<close>

lemma readyD:
  assumes "ready out os ob ns kvs d"
  shows "list_in (jh_link (jh d)) (obj_stack d) os" "distinct os" "obj_rep (jh d) ob ns kvs" "sorted_kvs kvs"
    "ob < jh_next (jh d)" "\<forall>x\<in>set os. x < jh_next (jh d)" "\<not> in_bracket d" "pool_grants (jh d) 72"
    "\<forall>a\<in>set ns. ob < a \<and> a < jh_next (jh d)"
  using assms unfolding ready_def obj_rep_def by blast+

text \<open>The same current object in another heap, with other members.\<close>

lemma ready_put:
  assumes r: "ready out os ob ns kvs d" and s: "list_in (jh_link (jh d')) (obj_stack d') os"
    and o: "obj_rep (jh d') ob ns' kvs'" "sorted_kvs kvs'" and f: "jh_next (jh d) \<le> jh_next (jh d')" "jh_pool (jh d') = jh_pool (jh d)"
    and b: "\<not> in_bracket d'"
  shows "ready out os ob ns' kvs' d'"
proof -
  have "ob = (case os of [] \<Rightarrow> out | a # _ \<Rightarrow> a)" using r unfolding ready_def by blast
  moreover have "ob < jh_next (jh d')" "\<forall>x\<in>set os. x < jh_next (jh d')" using readyD(5,6) [OF r] f(1) by auto
  moreover have "pool_grants (jh d') 72" using readyD(8) [OF r] f by (auto simp: pool_grants_def)
  ultimately show ?thesis using s o b readyD(2) [OF r] unfolding ready_def by blast
qed

lemma ready_rec:
  assumes r: "ready out os ob ns kvs d" and d: "jh d' = jh d" "obj_stack d' = obj_stack d" "in_bracket d' = in_bracket d"
  shows "ready out os ob ns kvs d'"
  by (rule ready_put [OF r]) (use readyD [OF r] d in auto)

lemma run_member:
  assumes r: "ready out os ob ns kvs d" and s: "current_stat d = SJSON_EXP_K_QUOT_START_OR_END"
    and k: "c_quot \<notin> set k"
    and v: "\<And>d. ready out os ob ns kvs d \<Longrightarrow> current_stat d = SJSON_EXP_V_MAP_OR_QUOT_OR_BRACKET_START \<Longrightarrow>
      current_key d = k \<Longrightarrow> \<exists>d'. run out (jtext j) d = Some (Inr d') \<and> between out os ob kvs' (jh d) d'"
  shows "\<exists>d'. run out (member_text (k, j)) d = Some (Inr d') \<and> between out os ob kvs' (jh d) d'"
proof -
  let ?d1 = "d\<lparr> current_stat := SJSON_EXP_K_QUOT_END, current_key := [] \<rparr>"
  let ?d2 = "?d1\<lparr> current_key := k \<rparr>"
  let ?d3 = "?d2\<lparr> current_stat := SJSON_EXP_V_MAP_OR_QUOT_OR_BRACKET_START \<rparr>"
  have "ready out os ob ns kvs ?d3" by (rule ready_rec [OF r]) simp_all
  from v [OF this] obtain d' where d': "run out (jtext j) ?d3 = Some (Inr d')" "between out os ob kvs' (jh d) d'" by auto
  have "sjson_step out c_quot d = Some (Inr ?d1)" using s by (simp add: sjson_step_def exp_k_quot_start_or_end_def)
  moreover have "run out k ?d1 = Some (Inr ?d2)" using run_key [of ?d1 k out] k by simp
  moreover have "run out [c_quot, c_colon] ?d2 = Some (Inr ?d3)"
    by (simp add: sjson_step_def exp_k_quot_end_def exp_colon_def)
  ultimately have "run out (member_text (k, j)) d = Some (Inr d')"
    using d'(1) run_append [of out "[c_quot, c_colon]" "jtext j" ?d2] by (simp add: quoted_def run_append)
  then show ?thesis using d'(2) by blast
qed

definition parses :: "json \<Rightarrow> bool" where
  "parses j \<longleftrightarrow> (\<forall>out os ob ns kvs d. ready out os ob ns kvs d \<and>
     current_stat d = SJSON_EXP_V_MAP_OR_QUOT_OR_BRACKET_START \<and> 0 \<notin> set (current_key d) \<longrightarrow>
     (\<exists>d'. run out (jtext j) d = Some (Inr d') \<and> between out os ob (ins_kv (current_key d) (norm j) kvs) (jh d) d'))"

lemma run_members:
  assumes "ready out os ob ns kvs d" and "current_stat d = SJSON_EXP_K_QUOT_START_OR_END"
    and "\<forall>(k, j)\<in>set new. c_quot \<notin> set k \<and> 0 \<notin> set k \<and> parses j"
  shows "\<exists>d' ns'. run out (commas (map member_text new)) d = Some (Inr d') \<and>
    ready out os ob ns' (ins_all (map (\<lambda>(k, j). (k, norm j)) new) kvs) d' \<and> frame_obj ob (jh d) (jh d') \<and>
    current_stat d' = (if new = [] then SJSON_EXP_K_QUOT_START_OR_END else SJSON_EXP_COMMA_OR_END)"
  using assms
proof (induction new arbitrary: ns kvs d)
  case Nil
  then show ?case by (auto simp: ins_all_def)
next
  case (Cons p new)
  obtain k j where p: "p = (k, j)" by (cases p)
  have kj: "c_quot \<notin> set k" "0 \<notin> set k" "parses j" using Cons.prems(3) p by auto
  have v: "\<exists>d'. run out (jtext j) d = Some (Inr d') \<and> between out os ob (ins_kv k (norm j) kvs) (jh d) d'"
    if "ready out os ob ns kvs d" "current_stat d = SJSON_EXP_V_MAP_OR_QUOT_OR_BRACKET_START" "current_key d = k" for d
    using kj(2,3) that by (auto simp: parses_def)
  from run_member [OF Cons.prems(1,2) kj(1) v]
  obtain d1 ns1 where d1: "run out (member_text p) d = Some (Inr d1)" "current_stat d1 = SJSON_EXP_COMMA_OR_END"
      "frame_obj ob (jh d) (jh d1)" "ready out os ob ns1 (ins_kv k (norm j) kvs) d1"
    unfolding p between_def by blast
  show ?case
  proof (cases "new = []")
    case True
    then show ?thesis using d1 p by (auto simp: ins_all_def)
  next
    case False
    let ?d2 = "d1\<lparr> current_stat := SJSON_EXP_K_QUOT_START_OR_END \<rparr>"
    have r2: "ready out os ob ns1 (ins_kv k (norm j) kvs) ?d2" by (rule ready_rec [OF d1(4)]) simp_all
    have all: "\<forall>(k, j)\<in>set new. c_quot \<notin> set k \<and> 0 \<notin> set k \<and> parses j" using Cons.prems(3) by auto
    obtain d' ns' where d': "run out (commas (map member_text new)) ?d2 = Some (Inr d')"
      "ready out os ob ns' (ins_all (map (\<lambda>(k, j). (k, norm j)) new) (ins_kv k (norm j) kvs)) d'"
      "frame_obj ob (jh ?d2) (jh d')" "current_stat d' = SJSON_EXP_COMMA_OR_END"
      using Cons.IH [OF r2 _ all] False by auto
    have "sjson_step out c_comma d1 = Some (Inr ?d2)"
      using d1(2) readyD(7) [OF d1(4)] by (simp add: sjson_step_def exp_comma_or_end_def)
    then have "run out (commas (map member_text (p # new))) d = Some (Inr d')"
      using False d1(1) d'(1) by (simp add: commas_Cons run_append)
    moreover have "frame_obj ob (jh d) (jh d')" using frame_obj_trans [OF d1(3)] d'(3) by simp
    ultimately show ?thesis using d' p False by (auto simp: ins_all_def)
  qed
qed

lemma run_object:
  assumes r: "ready out os ob ns kvs d" and st: "current_stat d = SJSON_EXP_V_MAP_OR_QUOT_OR_BRACKET_START"
    and k: "0 \<notin> set (current_key d)" and m: "\<forall>(k, j)\<in>set new. c_quot \<notin> set k \<and> 0 \<notin> set k \<and> parses j"
  shows "\<exists>d'. run out (jtext (JObj new)) d = Some (Inr d') \<and>
    between out os ob (ins_kv (current_key d) (norm (JObj new)) kvs) (jh d) d'"
proof -
  let ?n = "jh_next (jh d)" and ?nk = "ins_all (map (\<lambda>(k, j). (k, norm j)) new) []"
  have g: "jh_pool (jh d) ?n 72" "0 < ?n" using readyD(8) [OF r] by (auto simp: pool_grants_def)
  define h0 where "h0 = (jh d)\<lparr> jh_next := Suc ?n, jh_key := (jh_key (jh d))(?n := current_key d),
    jh_tree := (jh_tree (jh d))(?n := (jh_tree (jh d) ?n)\<lparr> rb_root := 0 \<rparr>), jh_type := (jh_type (jh d))(?n := OBJ_VALUE) \<rparr>"
  have h0: "\<forall>a < ?n. same_cell a (jh d) h0" "jh_next h0 = Suc ?n" "jh_key h0 ?n = current_key d" "jh_pool h0 = jh_pool (jh d)"
    "jh_type h0 ?n = OBJ_VALUE" "obj_tree (jh_tree h0 ?n) []" "jh_link h0 = jh_link (jh d)"
    by (auto simp: h0_def same_cell_def)
  have f0: "frame_obj a (jh d) h0" for a using h0 by (simp add: frame_obj_def same_cell_fields)
  have b: "ob < ?n" "?n \<notin> set ns" "?n \<notin> set os" "sorted_kvs kvs" using readyD [OF r] by auto
  have r0: "obj_rep h0 ob ns kvs" by (rule frame_obj_rep [OF f0 readyD(3) [OF r] b(1) order_refl])
  obtain a T where T: "lts_sjson_search ob ?n True h0 = Some (a, h0\<lparr> jh_tree := T \<rparr>)" "\<forall>x. x \<noteq> ob \<longrightarrow> T x = jh_tree h0 x"
    "\<And>h' j. frame_obj ob (jh d) h' \<Longrightarrow> jh_tree h' ob = T ob \<Longrightarrow> ob < ?n \<Longrightarrow> ?n < jh_next h' \<Longrightarrow>
      jh_key h' ?n = current_key d \<Longrightarrow> jrep j h' ?n \<Longrightarrow> \<exists>ns'. obj_rep h' ob ns' (ins_kv (current_key d) j kvs)"
    using link_open [OF readyD(3) [OF r] r0 b(4,1,2)] k unfolding h0(3) by blast
  define d1 where "d1 = d\<lparr> current_stat := SJSON_EXP_K_QUOT_START_OR_END, obj_stack := ?n,
    jh := h0\<lparr> jh_tree := T, jh_link := (jh_link h0)(?n := obj_stack d) \<rparr> \<rparr>"
  have co: "current_obj out (d\<lparr> current_stat := SJSON_EXP_K_QUOT_START_OR_END, jh := h0 \<rparr>) = ob"
    using ready_current [OF r] by (cases "lstack_is_empty (obj_stack d)") (simp_all add: current_obj_def)
  have 1: "sjson_step out c_lbrace d = Some (Inr d1)"
    using st g T(1) co
    by (simp add: sjson_step_def exp_v_start_def start_obj_def jalloc_def attach_def lstack_push_def list_add_node_def
        h0_def [symmetric] d1_def Let_def)
  have tn: "obj_tree (T ?n) []" using T(2) h0(6) b(1) by simp
  have r1: "ready out (?n # os) ?n [] [] d1"
    using r b tn h0 g by (auto simp: ready_def d1_def obj_rep_def pool_grants_def)
  have s1: "current_stat d1 = SJSON_EXP_K_QUOT_START_OR_END" by (simp add: d1_def)
  obtain d2 ns2 where d2: "run out (commas (map member_text new)) d1 = Some (Inr d2)"
      "ready out (?n # os) ?n ns2 ?nk d2" "frame_obj ?n (jh d1) (jh d2)"
      "current_stat d2 \<in> {SJSON_EXP_K_QUOT_START_OR_END, SJSON_EXP_COMMA_OR_END}"
    using run_members [OF r1 s1 m] by (cases "new = []") auto
  have li: "list_in (jh_link (jh d2)) (obj_stack d2) (?n # os)" "distinct (?n # os)" "\<not> in_bracket d2"
    using readyD [OF d2(2)] by auto
  let ?h3 = "(jh d2)\<lparr> jh_link := (jh_link (jh d2))(?n := 0) \<rparr>"
  let ?d3 = "d2\<lparr> current_stat := SJSON_EXP_COMMA_OR_END, obj_stack := jh_link (jh d2) ?n, jh := ?h3 \<rparr>"
  have pop: "lstack_pop (obj_stack d2) (jh_link (jh d2)) = Some (jh_link (jh d2) ?n, (jh_link (jh d2))(?n := 0))"
      "list_in (jh_link ?h3) (jh_link (jh d2) ?n) os"
    using lstack_pop_correct [OF li(1,2)] by auto
  then have 3: "sjson_step out c_rbrace d2 = Some (Inr ?d3)"
    using d2(4) li(1,3) g(2)
    by (auto simp: sjson_step_def exp_k_quot_start_or_end_def exp_comma_or_end_def pop_obj_def lstack_is_empty_def)
  then have run: "run out (jtext (JObj new)) d = Some (Inr ?d3)" using 1 d2(1) by (simp add: run_append)
  have fa: "\<forall>x < ?n. same_fields x h0 ?h3 \<and> (x \<noteq> ob \<longrightarrow> jh_tree ?h3 x = jh_tree h0 x)"
    "jh_tree ?h3 ob = T ob" "?n < jh_next ?h3" "jh_pool ?h3 = jh_pool h0" "jh_key ?h3 ?n = current_key d"
    using d2(3) T(2) b(1) h0(2,3) by (auto simp: d1_def frame_obj_def same_fields_def)
  have "obj_rep ?h3 ?n ns2 ?nk" by (rule obj_rep_relink [OF readyD(3) [OF d2(2)]])
  then have jr: "jrep (JObj ?nk) ?h3 ?n" using jrep_obj_rep by blast
  have f03: "frame_obj ob (jh d) ?h3"
    using fa h0(1,4) by (auto simp: frame_obj_def same_cell_fields same_fields_def)
  obtain ns' where ns': "obj_rep ?h3 ob ns' (ins_kv (current_key d) (JObj ?nk) kvs)"
    using T(3) [OF f03 fa(2) b(1) fa(3,5) jr] by blast
  have "ready out os ob ns' (ins_kv (current_key d) (JObj ?nk) kvs) ?d3"
    by (rule ready_put [OF r _ _ ins_kv_sorted [OF b(4) k]])
      (use ns' pop(2) li(3) f03 in \<open>auto simp: frame_obj_def\<close>)
  then show ?thesis using run f03 by (auto simp: between_def)
qed

section \<open>Whole texts\<close>

lemma parses_all: "jgood j \<Longrightarrow> parses j"
proof (induction j)
  case (JStr s)
  then show ?case using run_string by (auto simp: parses_def)
next
  case (JList vs)
  then show ?case using run_list unfolding parses_def norm.simps by (metis jgood.simps(2))
next
  case (JObj kvs)
  have m: "\<forall>(k, j)\<in>set kvs. c_quot \<notin> set k \<and> 0 \<notin> set k \<and> parses j"
    using JObj by fastforce
  show ?case unfolding parses_def
  proof (intro allI impI, elim conjE)
    fix out os ob ns ks d
    assume "ready out os ob ns ks d" "current_stat d = SJSON_EXP_V_MAP_OR_QUOT_OR_BRACKET_START" "0 \<notin> set (current_key d)"
    from run_object [OF this m]
    show "\<exists>d'. run out (jtext (JObj kvs)) d = Some (Inr d') \<and>
      between out os ob (ins_kv (current_key d) (norm (JObj kvs)) ks) (jh d) d'" .
  qed
qed

lemma lts_sjson_decode_obj:
  assumes src: "str_ok src" "filter (\<lambda>c. c \<notin> set sjson_invisible) (chars src) = jtext (JObj kvs)" and j: "jgood (JObj kvs)"
    and h: "obj_rep h out [] []" "out < jh_next h" "pool_grants h 72"
  shows "\<exists>h' src'. lts_sjson_decode src out h = Some (Inr h', src') \<and>
    (\<exists>ns nkvs. norm (JObj kvs) = JObj nkvs \<and> obj_rep h' out ns nkvs \<and> sorted_kvs nkvs \<and> frame_obj out h h')"
proof -
  obtain src' m where f: "lts_str_filter_multi src sjson_invisible = Some (src', m)" "str_ok src'"
      "chars src' = jtext (JObj kvs)"
    using filter_core_correct [OF src(1), of "charmap_isset (charmap_of sjson_invisible)"] src(2)
    by (auto simp: lts_str_filter_multi_def)
  let ?d1 = "(dec_start h)\<lparr> current_stat := SJSON_EXP_K_QUOT_START_OR_END \<rparr>"
  have 1: "sjson_step out c_lbrace (dec_start h) = Some (Inr ?d1)"
    by (simp add: sjson_step_def exp_start_def dec_start_def)
  have r: "ready out [] out [] [] ?d1" using h by (simp add: ready_def dec_start_def)
  have m: "\<forall>(k, j)\<in>set kvs. c_quot \<notin> set k \<and> 0 \<notin> set k \<and> parses j" using j parses_all by fastforce
  obtain d2 ns2 where d2: "run out (commas (map member_text kvs)) ?d1 = Some (Inr d2)"
      "ready out [] out ns2 (ins_all (map (\<lambda>(k, j). (k, norm j)) kvs) []) d2"
      "current_stat d2 \<in> {SJSON_EXP_K_QUOT_START_OR_END, SJSON_EXP_COMMA_OR_END}" "frame_obj out h (jh d2)"
    using run_members [OF r _ m] by (cases "kvs = []") (auto simp: dec_start_def frame_obj_def same_fields_def)
  have e: "obj_stack d2 = 0" "\<not> in_bracket d2" using readyD(1,7) [OF d2(2)] by simp_all
  have 3: "sjson_step out c_rbrace d2 = Some (Inr (d2\<lparr> current_stat := SJSON_EXP_NOTHING \<rparr>))"
    using d2(3) e
    by (auto simp: sjson_step_def exp_k_quot_start_or_end_def exp_comma_or_end_def pop_obj_def lstack_is_empty_def)
  have "decode_chars out src' 0 (dec_start h) = Some (Inr (d2\<lparr> current_stat := SJSON_EXP_NOTHING \<rparr>))"
    using decode_chars_run [OF f(2), of 0] f(3) 1 d2(1) 3 by (simp add: run_append)
  then have "lts_sjson_decode src out h = Some (Inr (jh d2), src')"
    using f(1) by (simp add: lts_sjson_decode_def)
  then show ?thesis using readyD(3,4) [OF d2(2)] d2(4) by auto
qed

lemma lts_sjson_decode_text:
  assumes src: "str_ok src" "filter (\<lambda>c. c \<notin> set sjson_invisible) (chars src) = jtext (JObj kvs)" and j: "jgood (JObj kvs)"
    and h: "obj_rep h out [] []" "out < jh_next h" "pool_grants h 72"
  shows "\<exists>h' src'. lts_sjson_decode src out h = Some (Inr h', src') \<and> jrep (norm (JObj kvs)) h' out"
  using lts_sjson_decode_obj [OF assms] jrep_obj_rep by metis

end
