(* ===== verification/JsonProps.thy ===== *)
theory JsonProps
  imports SjsonRound
begin

text \<open>
  What \<open>simple_json\<close> guarantees to its callers, as properties over the model of \<open>SimpleJson\<close> and
  \<open>SjsonDecode\<close>, and the heaps their examples start from.
\<close>

section \<open>Example heaps\<close>

text \<open>A heap with one empty object at address 40, a tree of no members, and a generous pool.\<close>

definition heap0 :: jheap where
  "heap0 = \<lparr> jh_tree = \<lambda>_. \<lparr> rb_mem = \<lambda>a. \<lparr> rb_parent = a, rb_color = Black, rb_right = 0, rb_left = 0 \<rparr>, rb_root = 0 \<rparr>,
     jh_type = \<lambda>_. OBJ_VALUE, jh_key = \<lambda>_. [], jh_str = \<lambda>_. [], jh_list = \<lambda>_. 0, jh_link = \<lambda>_. 0,
     jh_next = 41, jh_pool = \<lambda>_ _. True \<rparr>"

lemma heap0_tree [simp]: "obj_tree (jh_tree heap0 a) []"
  using obj_tree_empty [of "jh_tree heap0 a"] by (simp add: heap0_def)

lemma heap0_facts [simp]: "obj_rep heap0 40 [] []" "jrep (JObj []) heap0 40" "pool_grants heap0 lim" "jh_next heap0 = 41" "jh_pool heap0 i n"
  by (simp_all add: obj_rep_def pool_grants_def del: jrep.simps) (simp_all add: heap0_def [symmetric] jrep_obj_rep obj_rep_def, simp_all add: heap0_def)

section \<open>Properties\<close>

text \<open>C9. The decoder is total on every input: whatever bytes arrive it returns 0 or -1, never fails
  an ASSERT and never touches memory it does not own, although its states work on half built
  objects and lists.\<close>

theorem decoder_total_on_any_input:
  assumes "str_ok src" and "obj_tree (jh_tree h out) ns" and "\<forall>a\<in>set ns. a < jh_next h" and "out < jh_next h"
  shows "\<exists>r src'. lts_sjson_decode src out h = Some (r, src')"
  by (rule lts_sjson_decode_safe [OF assms])

lemma decoder_total_on_any_input_witness:
  "\<exists>r src'. lts_sjson_decode \<lparr> s_data = [c_lbrace, c_quot, 0x61, c_colon, c_rbrack], s_len = 5 \<rparr> 40 heap0 = Some (r, src')"
  using decoder_total_on_any_input [of "\<lparr> s_data = [c_lbrace, c_quot, 0x61, c_colon, c_rbrack], s_len = 5 \<rparr>" heap0 40 "[]"]
  by (simp add: str_ok_def)

text \<open>C10. Decoding the text of an object, with any white space in between, builds in the given empty
  object the value \<open>norm\<close>: members sorted by key with the first of equal keys kept, at every
  depth, and the elements of lists in reverse order.\<close>

theorem decode_of_text:
  assumes "str_ok src" and "filter (\<lambda>c. c \<notin> set sjson_invisible) (chars src) = jtext (JObj kvs)"
    and "jgood (JObj kvs)" and "obj_rep h out [] []" and "out < jh_next h" and "pool_grants h 72"
  shows "\<exists>h' src'. lts_sjson_decode src out h = Some (Inr h', src') \<and> jrep (norm (JObj kvs)) h' out"
  by (rule lts_sjson_decode_text [OF assms])

text \<open>The text \<open>{"b": ["x","y"], "a":"z","b":"q"}\<close>.\<close>

definition text1 :: bstr where
  "text1 = [c_lbrace, c_quot, 0x62, c_quot, c_colon, c_space, c_lbrack, c_quot, 0x78, c_quot, c_comma, c_quot, 0x79, c_quot,
     c_rbrack, c_comma, c_space, c_quot, 0x61, c_quot, c_colon, c_quot, 0x7A, c_quot, c_comma, c_quot, 0x62, c_quot, c_colon,
     c_quot, 0x71, c_quot, c_rbrace]"

lemma decode_of_text_witness:
  "\<exists>h' src'. lts_sjson_decode \<lparr> s_data = text1, s_len = 33 \<rparr> 40 heap0 = Some (Inr h', src') \<and>
     jrep (JObj [([0x61], JStr [0x7A]), ([0x62], JList [[0x79], [0x78]])]) h' 40"
proof -
  let ?kvs = "[([0x62], JList [[0x78], [0x79]]), ([0x61], JStr [0x7A]), ([0x62], JStr [0x71])]"
  have 1: "str_ok \<lparr> s_data = text1, s_len = 33 \<rparr>" "filter (\<lambda>c. c \<notin> set sjson_invisible) (chars \<lparr> s_data = text1, s_len = 33 \<rparr>) = jtext (JObj ?kvs)"
    by (simp_all add: str_ok_def text1_def sjson_invisible_def quoted_def chars_def)
  have 2: "jgood (JObj ?kvs)" by simp
  have 3: "norm (JObj ?kvs) = JObj [([0x61], JStr [0x7A]), ([0x62], JList [[0x79], [0x78]])]"
    by (simp add: ins_all_def ins_kv.simps)
  show ?thesis using decode_of_text [OF 1 2, of heap0 40] unfolding 3 by simp
qed

text \<open>C27. Encoding an object whose memory the pool grants returns 0 and the exact JSON text, with the
  size computed beforehand and the rest of the buffer untouched; otherwise -1.  The ASSERT that
  compares the written bytes with the computed size does not fail.\<close>

theorem encode_writes_text:
  assumes "jrep (JObj kvs) h ob" and "jh_next h \<noteq> 0"
  shows "lts_sjson_encode junk ob h =
    (let txt = jtext (JObj kvs); h' = h\<lparr> jh_next := jh_next h + 1 \<rparr> in
     if jh_pool h (jh_next h) (int (length txt) + 1)
     then Some (0, Some \<lparr> s_data = txt @ [junk], s_len = length txt \<rparr>, h')
     else Some (-1, None, h'))"
  using lts_sjson_encode_correct [OF assms] by (simp add: Let_def)

lemma encode_writes_text_witness:
  "lts_sjson_encode 7 40 heap0 = Some (0, Some \<lparr> s_data = [c_lbrace, c_rbrace, 7], s_len = 2 \<rparr>, heap0\<lparr> jh_next := 42 \<rparr>)"
  using encode_writes_text [OF heap0_facts(2), of 7] by (simp add: numeral_2_eq_2 Let_def)



text \<open>C29. \<open>lts_sjson_add_kv2\<close> implements insertion into the sorted association list an object stands
  for: a new key is put at its place and the node's address returned, for a key that is present
  NULL is returned and the old value stays; every other node keeps its value.\<close>

theorem add_kv_refines_insert:
  assumes "obj_rep h ob ns kvs" and "sorted_kvs kvs" and "ob < jh_next h"
    and "pool_grants h lim" and "64 \<le> lim" and "int (length k) < lim" and "int (length v) < lim" and "0 \<notin> set k"
  shows "\<exists>a h' ns'. lts_sjson_add_kv2 ob k v h = Some (a, h') \<and> obj_rep h' ob ns' (ins_kv k (JStr v) kvs) \<and>
    sorted_kvs (ins_kv k (JStr v) kvs) \<and> frame_obj ob h h' \<and> (a = 0 \<longleftrightarrow> k \<in> fst ` set kvs)"
  using lts_sjson_add_kv2_correct [OF assms] ins_kv_sorted [OF assms(2,8)] by blast

lemma add_kv_refines_insert_witness:
  "\<exists>a h' ns'. lts_sjson_add_kv2 40 [0x61] [0x62] heap0 = Some (a, h') \<and> obj_rep h' 40 ns' [([0x61], JStr [0x62])] \<and> a \<noteq> 0"
  using add_kv_refines_insert [OF heap0_facts(1), of 64 "[0x61]" "[0x62]"] by auto

text \<open>\<open>lts_sjson_get_obj_node\<close> finds the member with the key; for a key that is missing it does
  not return NULL but the address of the caller's local variable, with nothing but its key set.\<close>

theorem get_obj_node_finds_member:
  assumes "obj_rep h ob ns kvs" and "sorted_kvs kvs" and "tmp \<notin> set ns" and "0 \<notin> set k"
  shows "\<exists>a h'. lts_sjson_get_obj_node tmp ob k h = Some (a, h') \<and>
    (case map_of kvs k of None \<Rightarrow> a = tmp | Some j \<Rightarrow> a \<in> set ns \<and> jh_key h a = k \<and> jrep j h a)"
proof -
  have m: "members h ns kvs" and t: "obj_tree (jh_tree h ob) ns" using assms(1) by (auto simp: obj_rep_def)
  have "case map_of kvs k of None \<Rightarrow> find (\<lambda>a. jh_key h a = k) ns = None
      | Some j \<Rightarrow> (\<exists>a. find (\<lambda>a. jh_key h a = k) ns = Some a \<and> a \<in> set ns \<and> jh_key h a = k \<and> jrep j h a)"
    using m by (induction rule: list_all2_induct) (fastforce split: option.splits)+
  moreover obtain h' where
    "lts_sjson_get_obj_node tmp ob k h = Some (case find (\<lambda>a. jh_key h a = k) ns of Some a \<Rightarrow> a | None \<Rightarrow> tmp, h')"
    using get_obj_node_correct [OF t obj_rep_keys [OF assms(1,2)] assms(3,4)] by blast
  ultimately show ?thesis by (cases "map_of kvs k") (fastforce simp del: jrep.simps)+
qed

lemma get_obj_node_finds_member_witness:
  "\<exists>h'. lts_sjson_get_obj_node 9 40 [0x61] heap0 = Some (9, h')"
  using get_obj_node_finds_member [OF heap0_facts(1), of 9 "[0x61]"] by auto

end
