(* ===== verification/ProtoSjsonb.thy ===== *)
theory ProtoSjsonb
  imports JsonProps Buffer StrFind
begin

text \<open>
  \<open>src/protocol_sjsonb.c\<close>: the packet format, a 20 byte header in network byte order and a JSON text.

  A packet is searched for in the pending bytes of a buffer by the first three bytes of the magic
  number (\<open>lts_string\<close> counts an array of four bytes as three characters).  The JSON text is filtered
  in place, inside the buffer.  \<open>None\<close> is an access outside the memory of the buffer, or through NULL.
\<close>

section \<open>Byte order\<close>

abbreviation MAGIC_NO :: "32 word" where "MAGIC_NO \<equiv> 0xE78F8A9D"
abbreviation PROTO_VER :: "32 word" where "PROTO_VER \<equiv> 1000"
abbreviation LEN_HEADER :: int where "LEN_HEADER \<equiv> 20"
abbreviation LEN_MIN_CONTENT :: int where "LEN_MIN_CONTENT \<equiv> 2"

text \<open>The bytes of a number after \<open>htonl\<close>, and back (\<open>ntohl\<close>).\<close>

definition htonl :: "32 word \<Rightarrow> bstr" where
  "htonl x = [ucast (drop_bit 24 x), ucast (drop_bit 16 x), ucast (drop_bit 8 x), ucast x]"

definition ntohl :: "bstr \<Rightarrow> nat \<Rightarrow> 32 word" where
  "ntohl b i = push_bit 24 (ucast (b ! i)) + push_bit 16 (ucast (b ! (i + 1))) + push_bit 8 (ucast (b ! (i + 2))) + ucast (b ! (i + 3))"

record sjsonb_header =
  magic_no :: "32 word"
  proto_ver :: "32 word"
  content_ofst :: "32 word"
  content_len :: "32 word"
  content_checksum :: "32 word"

definition header_bytes :: "sjsonb_header \<Rightarrow> bstr" where
  "header_bytes h = htonl (magic_no h) @ htonl (proto_ver h) @ htonl (content_ofst h) @ htonl (content_len h) @ htonl (content_checksum h)"

definition read_header :: "bstr \<Rightarrow> sjsonb_header" where
  "read_header b = \<lparr> magic_no = ntohl b 0, proto_ver = ntohl b 4, content_ofst = ntohl b 8, content_len = ntohl b 12,
     content_checksum = ntohl b 16 \<rparr>"

section \<open>Encoding\<close>

text \<open>The memory the appends would need if they grew the buffer is that of the buffer's pool.\<close>

definition lts_proto_sjsonb_encode ::
  "layout \<Rightarrow> nat \<Rightarrow> bool \<Rightarrow> (nat \<Rightarrow> byte) \<Rightarrow> addr \<Rightarrow> buffer \<Rightarrow> jheap \<Rightarrow> (int \<times> buffer \<times> jheap) option" where
  "lts_proto_sjsonb_encode base pagesize mem junk sjson buf h = do {
     encode_len \<leftarrow> lts_sjson_encode_size h sjson;
     let (_, h) = jalloc encode_len h;
     (r, str_sjson, h) \<leftarrow> lts_sjson_encode (junk 0) sjson h;
     case str_sjson of None \<Rightarrow> Some (-1, buf, h)
     | Some str_sjson \<Rightarrow> do {
         let header = \<lparr> magic_no = MAGIC_NO, proto_ver = PROTO_VER, content_ofst = of_int LEN_HEADER,
           content_len = of_int encode_len, content_checksum = 0 \<rparr>;
         let pack_len = LEN_HEADER + encode_len;
         buf \<leftarrow> (if lts_buffer_space buf < pack_len then lts_buffer_drop_accessed buf else Some buf);
         if lts_buffer_space buf < pack_len then Some (-1, buf, h)
         else do {
           (_, buf) \<leftarrow> lts_buffer_append base pagesize mem junk buf (header_bytes header) LEN_HEADER;
           (_, buf) \<leftarrow> lts_buffer_append base pagesize mem junk buf (s_data str_sjson) (int (s_len str_sjson));
           Some (0, buf, h) } } }"

section \<open>Decoding\<close>

definition str_magic :: bstr where
  "str_magic = butlast (htonl MAGIC_NO)"

text \<open>The bytes from \<open>seek\<close> on; a negative number of pending bytes is a huge length.\<close>

definition buf_bytes :: "buffer \<Rightarrow> int \<Rightarrow> int \<Rightarrow> bstr option" where
  "buf_bytes b ofst n = rdn (b_mem b) (b_seek b - b_start b + ofst) (n mod 2 ^ 64)"

definition header_bad :: "sjsonb_header \<Rightarrow> bool" where
  "header_bad hdr \<longleftrightarrow> proto_ver hdr \<noteq> PROTO_VER \<or> content_ofst hdr < of_int LEN_HEADER \<or>
     (content_len hdr < of_int LEN_MIN_CONTENT \<or> content_len hdr > 4096)"

partial_function (option) find_header :: "buffer \<Rightarrow> (sjsonb_header option \<times> buffer) option" where
  "find_header buf = do {
     str_buf \<leftarrow> buf_bytes buf 0 (lts_buffer_pending buf);
     idx \<leftarrow> lts_str_find str_buf str_magic 0;
     if idx = -1 then Some (None, lts_buffer_clear buf)
     else let buf = buf\<lparr> b_seek := b_seek buf + idx \<rparr>
          in if lts_buffer_pending buf mod 2 ^ 64 < LEN_HEADER + LEN_MIN_CONTENT then Some (None, buf)
             else do {
               hb \<leftarrow> buf_bytes buf 0 LEN_HEADER;
               if header_bad (read_header hb) then find_header (buf\<lparr> b_seek := b_seek buf + 4 \<rparr>)
               else Some (Some (read_header hb), buf) } }"

declare find_header.simps [code]

text \<open>The result is the object or 0.  The sum of offset and length is taken in 32 bits.\<close>

definition lts_proto_sjsonb_decode :: "buffer \<Rightarrow> jheap \<Rightarrow> (addr \<times> buffer \<times> jheap) option" where
  "lts_proto_sjsonb_decode buf h = do {
     (hdr, buf) \<leftarrow> find_header buf;
     case hdr of None \<Rightarrow> Some (0, buf, h)
     | Some hdr \<Rightarrow>
         if lts_buffer_pending buf mod 2 ^ 32 < uint (content_ofst hdr + content_len hdr) then Some (0, buf, h)
         else let (rslt, h) = jalloc 72 h
              in if rslt = 0 then None
                 else do {
                   let h = lts_empty_sjson rslt h;
                   txt \<leftarrow> buf_bytes buf (uint (content_ofst hdr)) (uint (content_len hdr));
                   (r, src) \<leftarrow> lts_sjson_decode \<lparr> s_data = txt, s_len = nat (uint (content_len hdr)) \<rparr> rslt h;
                   m \<leftarrow> wrn (b_mem buf) (b_seek buf - b_start buf + uint (content_ofst hdr)) (s_data src);
                   let buf = buf\<lparr> b_mem := m \<rparr>;
                   Some (case r of
                       Inl _ \<Rightarrow> (0, buf\<lparr> b_seek := b_seek buf + 4 \<rparr>, h)
                     | Inr h \<Rightarrow> (rslt, buf\<lparr> b_seek := b_seek buf + (LEN_HEADER + uint (content_len hdr)) \<rparr>, h)) } }"

section \<open>Headers\<close>

lemma length_htonl [simp]: "length (htonl x) = 4"
  by (simp add: htonl_def)

lemma base256:
  fixes a :: nat
  shows "a = (a div 2 ^ 24) * 2 ^ 24 + (a div 2 ^ 16 mod 256) * 2 ^ 16 + (a div 2 ^ 8 mod 256) * 2 ^ 8 + a mod 256"
proof -
  have "a = a div 256 * 256 + a mod 256" by simp
  moreover have "a div 256 = a div 65536 * 256 + a div 256 mod 256"
    using div_mult_mod_eq [of "a div 256" 256] by (simp add: div_mult2_eq [symmetric])
  moreover have "a div 65536 = a div 16777216 * 256 + a div 65536 mod 256"
    using div_mult_mod_eq [of "a div 65536" 256] by (simp add: div_mult2_eq [symmetric])
  ultimately have "a = a div 16777216 * 16777216 + (a div 65536 mod 256) * 65536 + (a div 256 mod 256) * 256 + a mod 256"
    by linarith
  then show ?thesis by (simp only: power_numeral Num.pow.simps Num.sqr.simps Num.numeral_times_numeral) simp
qed

lemma word_bytes:
  fixes x :: "32 word"
  shows "push_bit 24 (ucast (ucast (drop_bit 24 x) :: byte)) + push_bit 16 (ucast (ucast (drop_bit 16 x) :: byte)) +
     push_bit 8 (ucast (ucast (drop_bit 8 x) :: byte)) + ucast (ucast x :: byte) = x"
proof -
  have b: "ucast (ucast (drop_bit n x) :: byte) = (of_nat (unat x div 2 ^ n mod 256) :: 32 word)" for n
  proof -
    have "unat (ucast (ucast (drop_bit n x) :: byte) :: 32 word) = unat (drop_bit n x) mod 256"
      by (simp add: unsigned_ucast_eq take_bit_eq_mod unat_mod_distrib)
    also have "unat (drop_bit n x) = unat x div 2 ^ n" by (subst unat_drop_bit_eq) (rule drop_bit_eq_div)
    finally show ?thesis by (metis of_nat_unat ucast_id)
  qed
  have "unat x < 2 ^ LENGTH(32)" by (rule unsigned_less)
  then have "unat x div 2 ^ 24 < 256" by (simp add: less_mult_imp_div_less)
  then have "unat x = unat x div 2 ^ 24 mod 256 * 2 ^ 24 + (unat x div 2 ^ 16 mod 256) * 2 ^ 16 +
      (unat x div 2 ^ 8 mod 256) * 2 ^ 8 + unat x div 2 ^ 0 mod 256"
    using base256 [of "unat x"] by simp
  then have "x = of_nat (unat x div 2 ^ 24 mod 256 * 2 ^ 24 + (unat x div 2 ^ 16 mod 256) * 2 ^ 16 +
      (unat x div 2 ^ 8 mod 256) * 2 ^ 8 + unat x div 2 ^ 0 mod 256)"
    by (metis of_nat_unat ucast_id)
  then show ?thesis using b [of 24] b [of 16] b [of 8] b [of 0] by (simp add: push_bit_eq_mult)
qed

lemma ntohl_htonl: "length a = i \<Longrightarrow> ntohl (a @ htonl x @ b) i = x"
  using word_bytes [of x] by (simp add: ntohl_def htonl_def nth_append)

lemma read_header_bytes: "read_header (header_bytes h @ b) = h"
proof -
  have "read_header (header_bytes h @ b) = \<lparr> magic_no = magic_no h, proto_ver = proto_ver h, content_ofst = content_ofst h,
      content_len = content_len h, content_checksum = content_checksum h \<rparr>"
    unfolding read_header_def header_bytes_def
    using ntohl_htonl [of "[]" 0 "magic_no h"] ntohl_htonl [of "htonl (magic_no h)" 4 "proto_ver h"]
      ntohl_htonl [of "htonl (magic_no h) @ htonl (proto_ver h)" 8 "content_ofst h"]
      ntohl_htonl [of "htonl (magic_no h) @ htonl (proto_ver h) @ htonl (content_ofst h)" 12 "content_len h"]
      ntohl_htonl [of "htonl (magic_no h) @ htonl (proto_ver h) @ htonl (content_ofst h) @ htonl (content_len h)" 16 "content_checksum h"]
    by simp
  then show ?thesis by simp
qed

lemma length_header_bytes [simp]: "length (header_bytes h) = 20"
  by (simp add: header_bytes_def)

section \<open>The memory of a buffer\<close>

lemma buf_bytes_pending:
  assumes "buffer_ok b" and "0 \<le> i" and "0 \<le> n" and "i + n \<le> lts_buffer_pending b" and "n < 2 ^ 64"
  shows "buf_bytes b i n = Some (take (nat n) (drop (nat i) (pending b)))"
proof -
  let ?s = "nat (b_seek b - b_start b)" and ?l = "nat (b_last b - b_start b)"
  have o: "b_start b \<le> b_seek b" "b_seek b \<le> b_last b" "b_last b \<le> b_end b" "length (b_mem b) = nat (b_end b - b_start b)"
    using assms(1) by (auto simp: buffer_ok_def)
  have l: "?s + nat i + nat n \<le> ?l" using o assms(2-4) by (auto simp: lts_buffer_pending_def)
  have "nat (b_seek b - b_start b + i) = ?s + nat i" using o assms(2) by linarith
  moreover have "?s + nat i + nat n \<le> length (b_mem b)" using l o by linarith
  ultimately have "buf_bytes b i n = Some (take (nat n) (drop (?s + nat i) (b_mem b)))"
    using o assms(2,3,5) by (simp add: buf_bytes_def rdn_def)
  moreover have "take (nat n) (drop (nat i) (pending b)) = take (nat n) (drop (?s + nat i) (b_mem b))"
    using l by (simp add: pending_def contents_def drop_take ac_simps min_def)
  ultimately show ?thesis by simp
qed

lemma advance_pending:
  assumes "buffer_ok b" and "0 \<le> k" and "k \<le> lts_buffer_pending b"
  shows "buffer_ok (b\<lparr> b_seek := b_seek b + k \<rparr>)" and "pending (b\<lparr> b_seek := b_seek b + k \<rparr>) = drop (nat k) (pending b)"
proof -
  have o: "b_start b \<le> b_seek b" "b_seek b \<le> b_last b" using assms(1) by (auto simp: buffer_ok_def)
  show "buffer_ok (b\<lparr> b_seek := b_seek b + k \<rparr>)" using assms by (auto simp: buffer_ok_def lts_buffer_pending_def)
  have "nat (b_seek b + k - b_start b) = nat k + nat (b_seek b - b_start b)" using o assms(2) by linarith
  then show "pending (b\<lparr> b_seek := b_seek b + k \<rparr>) = drop (nat k) (pending b)"
    by (simp add: pending_def contents_def)
qed

lemma take_overwrite:
  "i + length s \<le> l \<Longrightarrow> l \<le> length m \<Longrightarrow>
   take l (take i m @ s @ drop (i + length s) m) = take i m @ s @ drop (i + length s) (take l m)"
  by (simp add: drop_take min_absorb2 min_absorb1)

lemma drop_overwrite:
  "j + i + length s \<le> length X \<Longrightarrow> drop j (take (j + i) X @ s @ drop (j + i + length s) X) =
   take i (drop j X) @ s @ drop (i + length s) (drop j X)"
  by (simp add: take_drop drop_drop add.commute add.left_commute)

lemma overwrite_pending:
  assumes "buffer_ok b" and "0 \<le> i" and "i + int (length s) \<le> lts_buffer_pending b"
  shows "\<exists>m. wrn (b_mem b) (b_seek b - b_start b + i) s = Some m \<and> buffer_ok (b\<lparr> b_mem := m \<rparr>) \<and>
    pending (b\<lparr> b_mem := m \<rparr>) = take (nat i) (pending b) @ s @ drop (nat i + length s) (pending b)"
proof -
  let ?s = "nat (b_seek b - b_start b)" and ?l = "nat (b_last b - b_start b)"
  let ?o = "?s + nat i"
  let ?m = "take ?o (b_mem b) @ s @ drop (?o + length s) (b_mem b)"
  have o: "b_start b \<le> b_seek b" "b_seek b \<le> b_last b" "b_last b \<le> b_end b" "length (b_mem b) = nat (b_end b - b_start b)"
    using assms(1) by (auto simp: buffer_ok_def)
  have l: "?o + length s \<le> ?l" using o assms(2,3) by (auto simp: lts_buffer_pending_def)
  have l2: "?l \<le> length (b_mem b)" using o by linarith
  have "nat (b_seek b - b_start b + i) = ?o" using o assms(2) by linarith
  then have w: "wrn (b_mem b) (b_seek b - b_start b + i) s = Some ?m" using o assms(2) l l2 by (simp add: wrn_def)
  have "length ?m = length (b_mem b)" using l l2 by simp
  then have ok: "buffer_ok (b\<lparr> b_mem := ?m \<rparr>)" using assms(1) by (simp add: buffer_ok_def)
  have "take ?l ?m = take ?o (b_mem b) @ s @ drop (?o + length s) (take ?l (b_mem b))"
    by (rule take_overwrite [OF l l2])
  moreover have "take ?o (b_mem b) = take ?o (take ?l (b_mem b))" using l by (simp add: min_absorb1)
  ultimately have "drop ?s (take ?l ?m) = drop ?s (take ?o (take ?l (b_mem b)) @ s @ drop (?o + length s) (take ?l (b_mem b)))"
    by (simp only:)
  also have "\<dots> = take (nat i) (pending b) @ s @ drop (nat i + length s) (pending b)"
    unfolding pending_def contents_def by (rule drop_overwrite) (use l l2 in simp)
  finally have "pending (b\<lparr> b_mem := ?m \<rparr>) = take (nat i) (pending b) @ s @ drop (nat i + length s) (pending b)"
    by (simp add: pending_def contents_def)
  then show ?thesis using w ok by blast
qed

section \<open>Encoding a packet\<close>

definition json_header :: "nat \<Rightarrow> sjsonb_header" where
  "json_header n = \<lparr> magic_no = MAGIC_NO, proto_ver = PROTO_VER, content_ofst = of_int LEN_HEADER,
     content_len = of_nat n, content_checksum = 0 \<rparr>"

definition packet :: "bstr \<Rightarrow> bstr" where
  "packet txt = header_bytes (json_header (length txt)) @ txt"

lemma content_len_json: "n \<le> 4096 \<Longrightarrow> unat (content_len (json_header n)) = n"
  by (simp add: json_header_def unat_of_nat)

lemma append_prefix: "lts_buffer_append base pg mem junk b (txt @ rest) (int (length txt)) =
    lts_buffer_append base pg mem junk b txt (int (length txt))"
  by (simp add: lts_buffer_append_def rdn_def)

lemma append_room:
  assumes "buffer_ok b" and "int (length data) \<le> lts_buffer_space b"
  shows "\<exists>b'. lts_buffer_append base pg mem junk b (data @ rest) (int (length data)) = Some (0, b') \<and> buffer_ok b' \<and>
    pending b' = pending b @ data \<and> lts_buffer_space b' = lts_buffer_space b - int (length data)"
  using lts_buffer_append_room [OF assms, of base pg mem junk] by (auto simp: append_prefix lts_buffer_space_def)

lemma lts_proto_sjsonb_encode_correct:
  assumes j: "jrep (JObj kvs) h ob" and nz: "jh_next h \<noteq> 0"
    and g: "jh_pool h (jh_next h + 1) (int (length (jtext (JObj kvs))) + 1)"
    and b: "buffer_ok buf" and room: "LEN_HEADER + int (length (jtext (JObj kvs))) \<le> lts_buffer_space buf"
  shows "\<exists>buf'. lts_proto_sjsonb_encode base pg mem junk ob buf h = Some (0, buf', h\<lparr> jh_next := jh_next h + 2 \<rparr>) \<and>
    buffer_ok buf' \<and> pending buf' = pending buf @ packet (jtext (JObj kvs))"
proof -
  let ?txt = "jtext (JObj kvs)" and ?h = "h\<lparr> jh_next := jh_next h + 1 \<rparr>"
  have "jrep (JObj kvs) ?h ob" by (rule jrep_frame [OF j]) (auto simp: same_cell_def)
  then have e: "lts_sjson_encode (junk 0) ob ?h =
      Some (0, Some \<lparr> s_data = ?txt @ [junk 0], s_len = length ?txt \<rparr>, h\<lparr> jh_next := jh_next h + 2 \<rparr>)"
    using lts_sjson_encode_correct [of kvs ?h ob] g by simp
  have "int (length (header_bytes (json_header (length ?txt)))) \<le> lts_buffer_space buf" using room by simp
  from append_room [OF b this, of base pg mem junk "[]"] obtain b1 where b1:
      "lts_buffer_append base pg mem junk buf (header_bytes (json_header (length ?txt))) LEN_HEADER = Some (0, b1)" "buffer_ok b1"
      "pending b1 = pending buf @ header_bytes (json_header (length ?txt))" "lts_buffer_space b1 = lts_buffer_space buf - LEN_HEADER"
    by auto
  obtain b2 where b2: "lts_buffer_append base pg mem junk b1 (?txt @ [junk 0]) (int (length ?txt)) = Some (0, b2)" "buffer_ok b2"
      "pending b2 = pending b1 @ ?txt"
    using append_room [OF b1(2), of ?txt base pg mem junk "[junk 0]"] b1(4) room by auto
  have "\<not> lts_buffer_space buf < LEN_HEADER + int (length ?txt)" using room by simp
  then have "lts_proto_sjsonb_encode base pg mem junk ob buf h = Some (0, b2, h\<lparr> jh_next := jh_next h + 2 \<rparr>)"
    using e b1(1) b2(1) encode_size_correct [OF j]
    by (simp add: lts_proto_sjsonb_encode_def jalloc_def json_header_def del: jtext.simps)
  then show ?thesis using b1(3) b2(2,3) by (simp add: packet_def)
qed

section \<open>Finding the header\<close>

lemma magic_first:
  assumes "0xE7 \<notin> set g" and "take 3 p = str_magic"
  shows "lts_str_find (g @ p) str_magic 0 = Some (int (length g))"
proof -
  have m: "length str_magic = 3" "str_magic ! 0 = 0xE7" by (simp_all add: str_magic_def htonl_def)
  have p: "3 \<le> length p" using arg_cong [OF assms(2), of length] m by simp
  obtain r where r: "lts_str_find (g @ p) str_magic 0 = Some r" "first_occurrence (g @ p) str_magic r"
    using lts_str_find_total [of str_magic 0 "g @ p"] m by auto
  have at: "occurs_at (g @ p) str_magic (length g)" using assms(2) p m by (simp add: occurs_at_take)
  have "\<not> occurs_at (g @ p) str_magic s" if "s < length g" for s
  proof
    assume "occurs_at (g @ p) str_magic s"
    then have "(g @ p) ! s = 0xE7" using m by (auto simp: occurs_at_def dest: spec [of _ 0])
    then show False using that assms(1) nth_mem [of s g] by (simp add: nth_append)
  qed
  then have "r = int (length g)" using r(2) at unfolding first_occurrence_def
    by (metis linorder_neqE_nat nat_0_le nat_int)
  then show ?thesis using r(1) by simp
qed

lemma find_header_found:
  assumes b: "buffer_ok buf" and p: "pending buf = g @ header_bytes hdr @ rest" and n: "int (length (pending buf)) < 2 ^ 31"
    and g: "0xE7 \<notin> set g" and hdr: "magic_no hdr = MAGIC_NO" "\<not> header_bad hdr" and r: "2 \<le> length rest"
  shows "\<exists>buf'. find_header buf = Some (Some hdr, buf') \<and> buffer_ok buf' \<and> pending buf' = header_bytes hdr @ rest \<and>
    buf' = buf\<lparr> b_seek := b_seek buf + int (length g) \<rparr>"
proof -
  let ?b = "buf\<lparr> b_seek := b_seek buf + int (length g) \<rparr>"
  have l: "int (length (pending buf)) = lts_buffer_pending buf" by (rule length_pending [OF b])
  have "buf_bytes buf 0 (lts_buffer_pending buf) = Some (pending buf)"
    using buf_bytes_pending [OF b, of 0 "lts_buffer_pending buf"] l n by simp
  moreover have "take 3 (header_bytes hdr @ rest) = str_magic"
    using hdr(1) by (simp add: header_bytes_def str_magic_def htonl_def)
  then have "lts_str_find (pending buf) str_magic 0 = Some (int (length g))"
    unfolding p by (rule magic_first [OF g])
  moreover have adv: "buffer_ok ?b" "pending ?b = header_bytes hdr @ rest"
    using advance_pending [OF b, of "int (length g)"] l p by auto
  have lb: "int (length (pending ?b)) = lts_buffer_pending ?b" by (rule length_pending [OF adv(1)])
  then have pb: "lts_buffer_pending ?b = 20 + int (length rest)" using adv(2) by simp
  have small: "lts_buffer_pending ?b < 2 ^ 64" using pb n p by simp
  then have "lts_buffer_pending ?b mod 2 ^ 64 = lts_buffer_pending ?b" using pb by simp
  moreover have "buf_bytes ?b 0 LEN_HEADER = Some (header_bytes hdr)"
    using buf_bytes_pending [OF adv(1), of 0 LEN_HEADER] pb adv(2) by simp
  moreover have "read_header (header_bytes hdr) = hdr" using read_header_bytes [of hdr "[]"] by simp
  ultimately have "find_header buf = Some (Some hdr, ?b)"
    using hdr(2) pb r by (subst find_header.simps) (simp add: Let_def)
  then show ?thesis using adv by blast
qed

section \<open>Decoding a packet\<close>

lemma decode_keeps_length:
  assumes "lts_sjson_decode src out h = Some (r, src')" and "str_ok src"
  shows "length (s_data src') = length (s_data src)"
  using filter_core_correct [OF assms(2), of "charmap_isset (charmap_of sjson_invisible)"] assms(1)
  by (auto simp: lts_sjson_decode_def lts_str_filter_multi_def bind_eq_Some_conv)

lemma empty_obj: "obj_rep (lts_empty_sjson ob h) ob [] []"
  by (simp add: lts_empty_sjson_def lts_key_sjson_def obj_rep_def)

text \<open>What the decoder does with a packet at the end of other bytes, for any offset of the content.\<close>

lemma lts_proto_sjsonb_decode_obj:
  assumes b: "buffer_ok buf" and p: "pending buf = g @ header_bytes hdr @ ext @ txt @ rest" and n: "int (length (pending buf)) < 2 ^ 31"
    and g: "0xE7 \<notin> set g" and hdr: "magic_no hdr = MAGIC_NO" "proto_ver hdr = PROTO_VER"
      "unat (content_ofst hdr) = 20 + length ext" "unat (content_len hdr) = length txt"
    and tt: "2 \<le> length txt" "length txt \<le> 4096" "filter (\<lambda>c. c \<notin> set sjson_invisible) txt = jtext (JObj kvs)" "jgood (JObj kvs)"
    and h: "pool_grants h 72"
  shows "\<exists>buf' h'. lts_proto_sjsonb_decode buf h = Some (jh_next h, buf', h') \<and> 
    (\<exists>ns nkvs. norm (JObj kvs) = JObj nkvs \<and> obj_rep h' (jh_next h) ns nkvs \<and> sorted_kvs nkvs) \<and>
    jh_next h < jh_next h' \<and> jh_pool h' = jh_pool h \<and>
    buffer_ok buf' \<and> length (pending buf') = length ext + length rest \<and> drop (length ext) (pending buf') = rest"
proof -
  have u: "uint (content_ofst hdr) = 20 + int (length ext)" "uint (content_len hdr) = int (length txt)"
    using hdr(3,4) by (simp_all add: uint_nat)
  have len: "length g + 20 + length ext + length txt + length rest < 2 ^ 31" using n p by simp
  have "\<not> header_bad hdr"
  proof -
    have "\<not> content_ofst hdr < 20" "\<not> content_len hdr < 2" "\<not> content_len hdr > 4096"
      using hdr(3,4) tt(1,2) by (simp_all add: word_less_nat_alt)
    then show ?thesis using hdr(2) by (simp add: header_bad_def)
  qed
  from find_header_found [OF b p n g hdr(1) this] tt(1)
  obtain b1 where b1: "find_header buf = Some (Some hdr, b1)" "buffer_ok b1" "pending b1 = header_bytes hdr @ ext @ txt @ rest"
    by auto
  have l1: "lts_buffer_pending b1 = 20 + int (length ext + length txt + length rest)"
    using length_pending [OF b1(2)] b1(3) by simp
  have "unat (content_ofst hdr + content_len hdr) = 20 + length ext + length txt"
    using hdr(3,4) len by (simp add: unat_word_ariths)
  then have sum: "uint (content_ofst hdr + content_len hdr) = 20 + int (length ext) + int (length txt)" by (simp add: uint_nat)
  have "lts_buffer_pending b1 mod 2 ^ 32 = lts_buffer_pending b1" using l1 len by simp
  then have enough: "\<not> lts_buffer_pending b1 mod 2 ^ 32 < uint (content_ofst hdr + content_len hdr)" using l1 sum by simp
  let ?n = "jh_next h" and ?h = "lts_empty_sjson (jh_next h) (h\<lparr> jh_next := jh_next h + 1 \<rparr>)"
  have al: "jalloc 72 h = (?n, h\<lparr> jh_next := jh_next h + 1 \<rparr>)" "?n \<noteq> 0" using h by (simp_all add: jalloc_def pool_grants_def)
  have h2: "obj_rep ?h ?n [] []" "?n < jh_next ?h" "pool_grants ?h 72"
    using h by (simp_all add: empty_obj) (simp_all add: lts_empty_sjson_def lts_key_sjson_def pool_grants_def)
  have tx: "buf_bytes b1 (20 + int (length ext)) (int (length txt)) = Some txt"
    using buf_bytes_pending [OF b1(2), of "20 + int (length ext)" "int (length txt)"] l1 b1(3) len by (simp add: nat_add_distrib)
  let ?src = "\<lparr> s_data = txt, s_len = length txt \<rparr>"
  have ok: "str_ok ?src" "chars ?src = txt" by (simp_all add: str_ok_def chars_def)
  obtain h' src' where d: "lts_sjson_decode ?src ?n ?h = Some (Inr h', src')" "\<exists>ns nkvs. norm (JObj kvs) = JObj nkvs \<and> obj_rep h' ?n ns nkvs \<and> sorted_kvs nkvs" "frame_obj ?n ?h h'"
    using lts_sjson_decode_obj [OF ok(1) _ tt(4) h2] tt(3) unfolding ok(2) by blast
  have "jh_next ?h = ?n + 1" "jh_pool ?h = jh_pool h" by (simp_all add: lts_empty_sjson_def lts_key_sjson_def)
  then have fr: "?n < jh_next h'" "jh_pool h' = jh_pool h" using d(3) by (auto simp: frame_obj_def)
  have l2: "length (s_data src') = length txt" using decode_keeps_length [OF d(1) ok(1)] by simp
  obtain m where m: "wrn (b_mem b1) (b_seek b1 - b_start b1 + (20 + int (length ext))) (s_data src') = Some m"
      "buffer_ok (b1\<lparr> b_mem := m \<rparr>)"
      "pending (b1\<lparr> b_mem := m \<rparr>) = take (20 + length ext) (pending b1) @ s_data src' @ drop (20 + length ext + length txt) (pending b1)"
    using overwrite_pending [OF b1(2), of "20 + int (length ext)" "s_data src'"] l1 l2 by (auto simp: nat_add_distrib)
  let ?b2 = "(b1\<lparr> b_mem := m \<rparr>)\<lparr> b_seek := b_seek (b1\<lparr> b_mem := m \<rparr>) + (LEN_HEADER + int (length txt)) \<rparr>"
  have lp: "lts_buffer_pending (b1\<lparr> b_mem := m \<rparr>) = lts_buffer_pending b1" by (simp add: lts_buffer_pending_def)
  have b2: "buffer_ok ?b2" "pending ?b2 = drop (20 + length txt) (pending (b1\<lparr> b_mem := m \<rparr>))"
    using advance_pending [OF m(2), of "LEN_HEADER + int (length txt)"] lp l1 by (simp_all add: nat_add_distrib)
  have "lts_proto_sjsonb_decode buf h = Some (?n, ?b2, h')"
    using b1(1) enough al tx d(1) m(1) u by (simp add: lts_proto_sjsonb_decode_def)
  moreover have "length (pending ?b2) = length ext + length rest"
    unfolding b2(2) m(3) using b1(3) l2 by simp
  moreover have "drop (length ext) (pending ?b2) = rest"
    unfolding b2(2) m(3) using b1(3) l2 by simp
  ultimately show ?thesis using d(2) b2(1) fr by blast
qed

lemma lts_proto_sjsonb_decode_correct:
  assumes b: "buffer_ok buf" and p: "pending buf = g @ header_bytes hdr @ ext @ txt @ rest" and n: "int (length (pending buf)) < 2 ^ 31"
    and g: "0xE7 \<notin> set g" and hdr: "magic_no hdr = MAGIC_NO" "proto_ver hdr = PROTO_VER"
      "unat (content_ofst hdr) = 20 + length ext" "unat (content_len hdr) = length txt"
    and tt: "2 \<le> length txt" "length txt \<le> 4096" "filter (\<lambda>c. c \<notin> set sjson_invisible) txt = jtext (JObj kvs)" "jgood (JObj kvs)"
    and h: "pool_grants h 72"
  shows "\<exists>buf' h'. lts_proto_sjsonb_decode buf h = Some (jh_next h, buf', h') \<and> jrep (norm (JObj kvs)) h' (jh_next h) \<and>
    buffer_ok buf' \<and> length (pending buf') = length ext + length rest \<and> drop (length ext) (pending buf') = rest"
  using lts_proto_sjsonb_decode_obj [OF assms] jrep_obj_rep by metis

text \<open>An offset near \<open>2^32\<close>: the 32 bit sum wraps, the length check passes, and the text is read far
  outside the buffer.\<close>

lemma lts_proto_sjsonb_decode_wraps:
  assumes b: "buffer_ok buf" "b_end buf - b_start buf < 2 ^ 31"
    and p: "pending buf = header_bytes hdr @ rest" and rest: "2 \<le> length rest"
    and hdr: "magic_no hdr = MAGIC_NO" "\<not> header_bad hdr"
    and wrap: "2 ^ 32 \<le> unat (content_ofst hdr) + unat (content_len hdr)"
      "unat (content_ofst hdr) + unat (content_len hdr) - 2 ^ 32 \<le> 20 + length rest"
  shows "lts_proto_sjsonb_decode buf h = None"
proof -
  have l: "int (length (pending buf)) = lts_buffer_pending buf" by (rule length_pending [OF b(1)])
  have o: "b_start buf \<le> b_seek buf" "b_seek buf \<le> b_last buf" "b_last buf \<le> b_end buf" "length (b_mem buf) = nat (b_end buf - b_start buf)"
    using b(1) by (auto simp: buffer_ok_def)
  have small: "lts_buffer_pending buf < 2 ^ 31" using o b(2) by (simp add: lts_buffer_pending_def)
  then have fh: "find_header buf = Some (Some hdr, buf)"
    using find_header_found [OF b(1), of "[]" hdr rest] p l hdr rest by auto
  have cl: "unat (content_len hdr) \<le> 4096" using hdr(2) by (simp add: header_bad_def word_less_nat_alt not_less)
  have ub: "unat (content_ofst hdr) < 2 ^ LENGTH(32)" "unat (content_len hdr) < 2 ^ LENGTH(32)" by (rule unsigned_less)+
  have "unat (content_ofst hdr + content_len hdr) = unat (content_ofst hdr) + unat (content_len hdr) - 2 ^ 32"
    using wrap(1) ub by (simp add: unat_word_ariths mod_if)
  then have "uint (content_ofst hdr + content_len hdr) \<le> 20 + int (length rest)" using wrap(2) by (simp add: uint_nat)
  moreover have "lts_buffer_pending buf = 20 + int (length rest)" using l p by simp
  ultimately have enough: "\<not> lts_buffer_pending buf mod 2 ^ 32 < uint (content_ofst hdr + content_len hdr)" using small by simp
  have "4294963200 \<le> unat (content_ofst hdr)" using wrap(1) cl by simp
  then have "4294963200 \<le> uint (content_ofst hdr)" unfolding uint_nat by linarith
  moreover have "b_end buf - b_start buf < 2147483648" using b(2) by simp
  ultimately have "b_end buf - b_start buf < b_seek buf - b_start buf + uint (content_ofst hdr)" using o(1) by linarith
  then have "nat (b_seek buf - b_start buf + uint (content_ofst hdr)) > length (b_mem buf)"
    using o(1-4) by linarith
  then have "buf_bytes buf (uint (content_ofst hdr)) (uint (content_len hdr)) = None"
    by (simp add: buf_bytes_def rdn_def)
  then show ?thesis using fh enough by (simp add: lts_proto_sjsonb_decode_def Let_def split: prod.splits)
qed

section \<open>Properties\<close>


text \<open>C38. The decoder trusts the content offset: for a header whose offset and length add up to \<open>2^32\<close> or
  more the check on the pending bytes passes (the sum is taken in 32 bits) and the text is read
  outside the buffer.\<close>

theorem wrapping_offset_reads_outside:
  assumes "buffer_ok buf" and "b_end buf - b_start buf < 2 ^ 31" and "pending buf = header_bytes hdr @ rest" and "2 \<le> length rest"
    and "magic_no hdr = MAGIC_NO" and "proto_ver hdr = PROTO_VER" and "2 \<le> content_len hdr" and "content_len hdr \<le> 4096"
    and "2 ^ 32 \<le> unat (content_ofst hdr) + unat (content_len hdr)"
    and "unat (content_ofst hdr) + unat (content_len hdr) - 2 ^ 32 \<le> 20 + length rest"
  shows "lts_proto_sjsonb_decode buf h = None"
proof -
  have "unat (content_len hdr) \<le> 4096" using assms(8) by (simp add: word_le_nat_alt)
  then have "\<not> unat (content_ofst hdr) < 20" using assms(9) by simp
  then have "\<not> header_bad hdr" using assms(6-8) by (simp add: header_bad_def word_less_nat_alt not_less word_le_nat_alt)
  from lts_proto_sjsonb_decode_wraps [OF assms(1-5) this assms(9,10)] show ?thesis .
qed

definition buffer_with :: "bstr \<Rightarrow> int \<Rightarrow> buffer" where
  "buffer_with s n = \<lparr> b_pool = \<lparr> max_size = 0, current = None, blocks = [] \<rparr>, b_limit = 0, b_start = 4096, b_seek = 4096,
     b_last = 4096 + int (length s), b_end = 4096 + n, b_mem = s @ replicate (nat n - length s) 0 \<rparr>"

lemma buffer_with_ok: "int (length s) \<le> n \<Longrightarrow> buffer_ok (buffer_with s n) \<and> pending (buffer_with s n) = s \<and>
    lts_buffer_space (buffer_with s n) = n - int (length s)"
  by (auto simp: buffer_with_def buffer_ok_def pending_def contents_def lts_buffer_space_def)


lemma wrapping_offset_reads_outside_witness:
  "lts_proto_sjsonb_decode (buffer_with (header_bytes \<lparr> magic_no = MAGIC_NO, proto_ver = PROTO_VER, content_ofst = 0xFFFFFFFE,
      content_len = 2, content_checksum = 0 \<rparr> @ [1, 2]) 64) heap0 = None"
  by (rule wrapping_offset_reads_outside [where rest = "[1, 2]" and hdr = "\<lparr> magic_no = MAGIC_NO, proto_ver = PROTO_VER,
      content_ofst = 0xFFFFFFFE, content_len = 2, content_checksum = 0 \<rparr>"])
    (use buffer_with_ok [of "header_bytes \<lparr> magic_no = MAGIC_NO, proto_ver = PROTO_VER, content_ofst = 0xFFFFFFFE,
      content_len = 2, content_checksum = 0 \<rparr> @ [1, 2]" 64] in \<open>simp_all add: buffer_with_def\<close>)

end
