(* ===== verification/DemoApps.thy ===== *)
theory DemoApps
  imports EventLoop ProtoSjsonb
begin

text \<open>
  The two small application modules: \<open>src/modules/mod_app_echo.c\<close>, which sends back what it receives,
  and \<open>src/modules/mod_app_sjsonb.c\<close>, which answers a packet with the same object and one more
  member.  Both keep the contract \<open>net_app\<close> of the event modules, so what is proved there of
  accepting, receiving, sending and expiring holds for a server that runs them.  The locale
  \<open>plain_app\<close> is the part of the contract that an application which changes one connection has to show.
\<close>

section \<open>Echo\<close>

definition echo_on_connected :: "addr \<Rightarrow> 'a net_scheme \<Rightarrow> 'a net_scheme option" where
  "echo_on_connected s w = Some w"

definition echo_service :: "addr \<Rightarrow> 'a net_scheme \<Rightarrow> 'a net_scheme option" where
  "echo_service s w = do {
     c \<leftarrow> conn_of (skts w s);
     let sb = lts_buffer_clear (sbuf c);
     Some (upd_skt s (\<lambda>k. k\<lparr> conn_of := Some (c\<lparr> rbuf := sb, sbuf := rbuf c \<rparr>) \<rparr>) w) }"

definition echo_send_more :: "addr \<Rightarrow> 'a net_scheme \<Rightarrow> 'a net_scheme option" where
  "echo_send_more s w = Some w"

definition echo_itfc :: "'a net_scheme app_itfc" where
  "echo_itfc = \<lparr> on_connected = Some echo_on_connected, service = echo_service, send_more = echo_send_more, on_closing = None \<rparr>"

section \<open>JSON packets\<close>

text \<open>What the memory of one request is: whether its pool can be created and, in \<open>rq_heap\<close>, what the
  pool grants.  The members \<open>rq_base\<close> to \<open>rq_junk\<close> are the memory a growing buffer would be given.\<close>

record request_env =
  rq_pool :: bool
  rq_heap :: jheap
  rq_base :: layout
  rq_pagesize :: nat
  rq_mem :: bool
  rq_junk :: "nat \<Rightarrow> byte"

definition sjsonb_on_connected :: "addr \<Rightarrow> 'a net_scheme \<Rightarrow> 'a net_scheme option" where
  "sjsonb_on_connected s w = Some w"

definition sjsonb_service :: "request_env \<Rightarrow> addr \<Rightarrow> 'a net_scheme \<Rightarrow> 'a net_scheme option" where
  "sjsonb_service e s w = do {
     c \<leftarrow> conn_of (skts w s);
     pool \<leftarrow> lts_create_pool (rq_pool e) 4096;
     (sjson, rb, h) \<leftarrow> lts_proto_sjsonb_decode (rbuf c) (rq_heap e);
     let w = set_rbuf s rb w;
     if sjson = 0 then Some w
     else do {
       (_, h) \<leftarrow> lts_sjson_add_kv sjson (lit ''lala'') (lit ''tiannalu'') h;
       (_, sb, h) \<leftarrow> lts_proto_sjsonb_encode (rq_base e) (rq_pagesize e) (rq_mem e) (rq_junk e) sjson (sbuf c) h;
       Some (set_sbuf s sb w) } }"

definition sjsonb_send_more :: "addr \<Rightarrow> 'a net_scheme \<Rightarrow> 'a net_scheme option" where
  "sjsonb_send_more s w = Some w"

text \<open>The requests of a connection find different memory: \<open>env\<close> tells which.\<close>

definition sjsonb_itfc :: "(addr \<Rightarrow> 'a net_scheme \<Rightarrow> request_env) \<Rightarrow> 'a net_scheme app_itfc" where
  "sjsonb_itfc env = \<lparr> on_connected = Some sjsonb_on_connected, service = (\<lambda>s w. sjsonb_service (env s w) s w),
     send_more = sjsonb_send_more, on_closing = None \<rparr>"

section \<open>The contract\<close>

text \<open>What a callback may change: buffers, \<open>app_ctx\<close>, the descriptor flags and its own state.\<close>

definition same_skt :: "skt \<Rightarrow> skt \<Rightarrow> bool" where
  "same_skt k k' \<longleftrightarrow> map_option c_pool (conn_of k') = map_option c_pool (conn_of k) \<and> on_timeout k' = on_timeout k \<and> do_read k' = do_read k"

definition net_same :: "'a net_scheme \<Rightarrow> 'a net_scheme \<Rightarrow> bool" where
  "net_same w w' \<longleftrightarrow> (\<forall>x. same_skt (skts w x) (skts w' x)) \<and>
     links w' = links w \<and> sock_cache_n w' = sock_cache_n w \<and> timer_heap w' = timer_heap w \<and> current_conns w' = current_conns w"

lemma same_skt_steps [simp]:
  "same_skt k k" "same_skt k (k'\<lparr> app_ctx := a \<rparr>) = same_skt k k'"
  "same_skt k (k'\<lparr> conn_of := map_option (\<lambda>c. c\<lparr> rbuf := b \<rparr>) (conn_of k') \<rparr>) = same_skt k k'"
  "same_skt k (k'\<lparr> conn_of := map_option (\<lambda>c. c\<lparr> sbuf := b \<rparr>) (conn_of k') \<rparr>) = same_skt k k'"
  "same_skt (k\<lparr> conn_of := map_option (\<lambda>c. c\<lparr> rbuf := b \<rparr>) (conn_of k) \<rparr>) k' = same_skt k k'"
  by (simp_all add: same_skt_def option.map_comp o_def)

lemma net_same_upd:
  assumes "\<And>k k'. same_skt k (f k') = same_skt k k'"
  shows "net_same w (upd_skt s f h) = net_same w h"
proof -
  have "same_skt (skts w x) (skts (upd_skt s f h) x) = same_skt (skts w x) (skts h x)" for x
    by (cases "x = s") (simp_all add: upd_skt_def assms)
  then show ?thesis by (simp add: net_same_def upd_skt_def)
qed

lemma net_same_steps [simp]:
  "net_same w w" "net_same w (set_rbuf s b h) = net_same w h" "net_same w (set_sbuf s b h) = net_same w h"
  "net_same w (upd_skt s (\<lambda>k. k\<lparr> app_ctx := a \<rparr>) h) = net_same w h"
  by (simp_all add: set_rbuf_def set_sbuf_def net_same_upd) (simp add: net_same_def)

lemma net_same_trans: "net_same w w1 \<Longrightarrow> net_same w1 w2 \<Longrightarrow> net_same w w2"
  by (simp add: net_same_def same_skt_def)

lemma net_same_keeps:
  assumes b: "net_same w w'" and i: "net_inv w F {}"
  shows "net_inv w' F {} \<and> live w' = live w"
proof (intro conjI net_inv_cong [OF i] live_cong)
  fix x
  have k: "same_skt (skts w x) (skts w' x)" using b by (simp add: net_same_def)
  then show "conn_of (skts w' x) = None \<longleftrightarrow> conn_of (skts w x) = None" "conn_of (skts w' x) = None \<longleftrightarrow> conn_of (skts w x) = None"
    "on_timeout (skts w' x) = on_timeout (skts w x)" "do_read (skts w' x) = do_read (skts w x)"
    by (cases "conn_of (skts w x)"; cases "conn_of (skts w' x)"; simp add: same_skt_def)+
  assume "x \<in> live w"
  then show "c_pool (the (conn_of (skts w' x))) = c_pool (the (conn_of (skts w x)))"
    using k by (cases "conn_of (skts w x)"; cases "conn_of (skts w' x)") (simp_all add: live_def same_skt_def)
qed (use b in \<open>simp_all add: net_same_def\<close>)

lemma net_inv_set_bufs:
  assumes "net_inv w F X"
  shows "net_inv (set_rbuf s b w) F X" "net_inv (set_sbuf s b w) F X" "live (set_rbuf s b w) = live w" "live (set_sbuf s b w) = live w"
  unfolding set_rbuf_def set_sbuf_def using assms by (auto intro!: net_inv_upd simp: live_upd option.map_sel)

text \<open>An application whose callbacks keep to that, and that does nothing when a connection closes, keeps the
  contract of the event modules, without an invariant of its own.\<close>

locale plain_app =
  fixes app :: "'a net_scheme app_itfc"
  assumes closes: "on_closing app = None"
    and connects: "callback (on_connected app) s w = Some w' \<Longrightarrow> net_same w w'"
    and serves: "service app s w = Some w' \<Longrightarrow> net_same w w'"
    and sends: "send_more app s w = Some w' \<Longrightarrow> net_same w w'"

sublocale plain_app \<subseteq> net_app app "\<lambda>_. True"
proof
  fix s w w' F
  show "\<exists>w'. callback (on_closing app) s w = Some w' \<and> app_only w w' \<and> (\<forall>w''. dropped s w' w'' \<longrightarrow> True)"
    by (simp add: closes callback_def)
  assume i: "net_inv w F {}"
  show "(\<exists>F'. net_inv w' F' {}) \<and> live w' = live w \<and> True" if "service app s w = Some w'"
    using net_same_keeps [OF serves [OF that] i] by blast
  show "(\<exists>F'. net_inv w' F' {}) \<and> live w' = live w \<and> True" if "send_more app s w = Some w'"
    using net_same_keeps [OF sends [OF that] i] by blast
  show "(\<exists>F'. net_inv w' F' {}) \<and> live w' = live w \<and> True" if "callback (on_connected app) s w = Some w'"
    using net_same_keeps [OF connects [OF that] i] by blast
qed simp

lemma net_same_swap:
  assumes "conn_of (skts w s) = Some c"
  shows "net_same w (upd_skt s (\<lambda>k. k\<lparr> conn_of := Some (c\<lparr> rbuf := a, sbuf := b \<rparr>) \<rparr>) w)"
  using assms by (simp add: net_same_def upd_skt_def same_skt_def)

interpretation echo: plain_app echo_itfc
  by unfold_locales (auto simp: echo_itfc_def callback_def echo_on_connected_def echo_service_def echo_send_more_def Let_def
      bind_eq_Some_conv net_same_swap)

lemma sjsonb_service_writes: "sjsonb_service e s w = Some w' \<Longrightarrow> net_same w w'"
  by (auto simp: sjsonb_service_def Let_def bind_eq_Some_conv split: if_splits)

interpretation sjsonb: plain_app "sjsonb_itfc env" for env
  by unfold_locales (auto simp: sjsonb_itfc_def callback_def sjsonb_on_connected_def sjsonb_send_more_def intro: sjsonb_service_writes)

end
