(* ===== verification/ServerProps.thy ===== *)
theory ServerProps
  imports EventStart DemoApps
begin

text \<open>
  The properties of a running server: what a worker keeps from its start on, round after round, for
  the echo and the JSON application, and what a failed receive does to it.
\<close>

section \<open>A connection is accepted\<close>

text \<open>Memory is granted and \<open>accept\<close> succeeds.\<close>

definition grants :: "accept_env \<Rightarrow> conn \<Rightarrow> bool" where
  "grants e c \<longleftrightarrow> (\<exists>p p'. new_conn e = Some (Some (c, p)) \<and> (\<exists>q. lts_palloc (acc_pagesize e) (acc_mem e) p 16 = Some (Some q, p')))"

lemma accept_opens:
  assumes i: "net_inv w F {}" and ka: "0 < ka" and m: "current_conns w < maxc" "maxc < 2 ^ 31"
    and f: "F lts_sock_list = s # fs" "length (F lts_sock_list) < 2 ^ 64"
    and e: "acc_result e = Inr fd0" "grants e c" and app: "on_connected app = Some (\<lambda>s w. Some w)"
  shows "\<exists>w'. lts_accept app ka maxc e ls w = Some w' \<and> net_inv w' (moved lts_watch_list s (F(lts_sock_list := fs))) {} \<and>
    s \<notin> live w \<and> live w' = insert s (live w) \<and> conn_of (skts w' s) = Some c \<and> fd (skts w' s) = fd0 \<and> do_write (skts w' s) = Do_send \<and>
    channel_signal w' = channel_signal w"
proof -
  have L: "sock_lists w F" and t: "timers_ok w {}" using i by (auto simp: net_inv_def)
  have cache: "sock_cache_n w \<noteq> 0"
  proof -
    have "(of_nat (length (F lts_sock_list)) :: 64 word) \<noteq> 0"
      using f by (simp add: word_of_nat_eq_0_iff del: of_nat_Suc) (use nat_dvd_not_less in force)
    then show ?thesis using L by (simp add: sock_lists_def)
  qed
  obtain p p' q where nc: "new_conn e = Some (Some (c, p))" "lts_palloc (acc_pagesize e) (acc_mem e) p 16 = Some (Some q, p')"
    using e(2) by (auto simp: grants_def)
  have sr: "s \<notin> live w" using net_inv_live(2) [OF i] f(1) by (metis list.set_intros(1))
  obtain w1 where w1: "lts_alloc_socket w = Some (s, w1)" "s \<noteq> 0"
      "skts w1 = (skts w)(s := fresh_skt (current_time w) (skts w s))" "current_conns w1 = current_conns w" "channel_signal w1 = channel_signal w"
    using alloc_socket_some [OF L f(1)] t sr by (auto simp: timers_ok_def)
  let ?u = "\<lambda>k. k\<lparr> fd := fd0, peer_addr := acc_clt e, ev_mask := or EPOLLET EPOLLIN, conn_of := Some c, do_read := Do_recv,
      do_write := Do_send, app_ctx := 0 \<rparr>"
  let ?w2 = "epoll_event_add s (upd_skt s ?u w1)"
  let ?t = "of_int (current_time ?w2 + ka * 10)"
  have lim: "current_conns w < 2 ^ 63" using m by simp
  obtain w3 h where w3: "skt_timer_init s 0 True ?w2 = Some w3" "timer_reset_retry s ?t (timer_heap w3) = Some h"
      "net_inv ((lts_watch_list_add s (w3\<lparr> timer_heap := h \<rparr>))\<lparr> current_conns := current_conns w3 + 1 \<rparr>)
        (moved lts_watch_list s (F(lts_sock_list := fs))) {}"
      "live (lts_watch_list_add s (w3\<lparr> timer_heap := h \<rparr>)) = insert s (live w)"
    using open_conn [OF i w1(1,2) new_conn_pool [OF nc(1)] lim refl, where fd' = fd0 and pa = "acc_clt e" and m = "or EPOLLET EPOLLIN" and t = ?t] f(1) by auto
  have k3: "skts w3 s = (?u (fresh_skt (current_time w) (skts w s)))\<lparr> on_timeout := True \<rparr>" "current_time w3 = current_time ?w2"
      "channel_signal w3 = channel_signal w"
    using w3(1) w1(3,5) by (auto simp: skt_timer_init_def bind_eq_Some_conv epoll_event_add_def Let_def)
  let ?w' = "(lts_watch_list_add s (w3\<lparr> timer_heap := h \<rparr>))\<lparr> current_conns := current_conns w3 + 1 \<rparr>"
  have "lts_accept app ka maxc e ls w = Some ?w'"
    using m(1) cache e(1) nc w1(1,2) w3(1,2) ka app k3(2) by (simp add: lts_accept_def callback_def Let_def list_adds)
  then show ?thesis using w3(3,4) sr k3(1,3) by (intro exI [of _ ?w']) (simp add: list_adds fresh_skt_def)
qed

section \<open>A quiet round\<close>

text \<open>No events, no accept lock; \<open>tick\<close> is the time of day when the clock signal arrived.\<close>

definition quiet :: "(int \<times> int) option \<Rightarrow> handler_env \<Rightarrow> round_env" where
  "quiet tick he = \<lparr> re_parent = True, re_lock = False, re_tick = tick, re_events = Inr [], re_handlers = he \<rparr>"

definition ticked :: "(int \<times> int) option \<Rightarrow> 'a net_scheme \<Rightarrow> 'a net_scheme" where
  "ticked tick w = (case tick of None \<Rightarrow> w | Some (sec, usec) \<Rightarrow> w\<lparr> current_time := lts_update_time sec usec \<rparr>)"

lemma ticked_keeps:
  "net_inv w F {} \<Longrightarrow> net_inv (ticked tick w) F {}" "live (ticked tick w) = live w" "links (ticked tick w) = links w"
  "timer_heap (ticked tick w) = timer_heap w" "channel_signal (ticked tick w) = channel_signal w"
  by (auto simp: ticked_def net_inv_time(1) live_def split: option.split)

lemma timer_min_total:
  assumes "net_inv w F {}"
  shows "\<exists>m. lts_timer_min (timer_heap w) = Some m"
proof -
  have "rbmap_inv (timer_heap w)" using assms by (auto simp: net_inv_def timers_ok_def)
  from rbm.least [OF this] show ?thesis using lts_timer_min_eq by auto
qed

lemma quiet_round:
  assumes i: "net_inv w F {}" and p: "F lts_post_list = []" and c: "channel_signal w \<noteq> LTS_CHANNEL_SIGEXIT" and h: "\<not> lock_hold lp"
    and ex: "expire_timers app ka (ticked tick w) = Some w'"
  shows "\<exists>lp'. multi_round app ka maxc other (quiet tick he) (lp, w) = Some (True, lp', w') \<and> \<not> lock_hold lp'"
proof -
  have d: "dlist_in (links (ticked tick w)) lts_post_list []"
    using i p unfolding ticked_keeps(3) net_inv_def sock_lists_def lists_in_def by (metis insertI1 insertI2)
  have n: "mp_next (links (ticked tick w)) lts_post_list = lts_post_list" using dlist_next [OF d] by simp
  obtain m where m: "lts_timer_min (timer_heap w) = Some m" using timer_min_total [OF i] by blast
  have pp: "process_post_list r (ticked tick w) = Some (ticked tick w)" for r
    unfolding process_post_list_def Let_def n by (subst post_loop.simps, simp add: n, subst post_clean.simps, simp)
  obtain lp1 where t: "try_accept maxc False lp w = (lp1, w)" "\<not> lock_hold lp1"
    by (cases "sint (accept_load maxc w) < 0") (use h in \<open>simp_all add: try_accept_def Let_def\<close>)
  have "epoll_process_events tick (Inr []) w = Some (0, ticked tick w)"
    using m by (simp add: epoll_process_events_def epoll_timeout_def ticked_def)
  then show ?thesis using c t pp ex by (simp add: multi_round_def quiet_def Let_def)
qed

section \<open>Concrete memory\<close>

definition zero_net :: "'a \<Rightarrow> 'a net_scheme" where
  "zero_net app = \<lparr> skts = (\<lambda>_. \<lparr> fd = 0, family = 0, peer_addr = [], ev_mask = 0, readable = False, writable = False,
       instance_bit = False, born_time = 0, conn_of = None, on_timeout = False, do_read = NoHandler, do_write = NoHandler, app_ctx = 0 \<rparr>),
     links = \<lparr> mp_next = (\<lambda>_. 0), mp_prev = (\<lambda>_. 0) \<rparr>, sock_cache_n = 0, sock_inuse_n = 0, timer_heap = empty_map,
     current_time = 0, current_conns = 0, interest = Map.empty, channel_signal = 0, \<dots> = app \<rparr>"

definition one_record :: listen_record where
  "one_record = \<lparr> lr_family = AF_INET, lr_mem = 40, lr_socket = 5, lr_bind = True, lr_listen = True \<rparr>"

definition new_worker :: "addr list \<Rightarrow> worker" where
  "new_worker ls = \<lparr> lock_hold = False, accept_disabled = 0, listen_array = ls, rslt = None \<rparr>"

lemma zero_net_fresh: "fresh_memory (zero_net app)"
  by (simp add: fresh_memory_def starting_def zero_net_def live_def special_def)

lemma one_record_apart: "apart [one_record] 1000 8 n"
  by (auto simp: apart_def one_record_def)

lemma one_record_listens: "\<exists>w. alloc_listen_sockets (Some [one_record]) True 1 1000 8 (zero_net app) = Some (0, [40], w)"
proof -
  obtain h where "lts_init_socket 40 (zero_net app) = Some ((zero_net app)\<lparr> skts := (skts (zero_net app))(40 := fresh_skt (current_time (zero_net app)) (skts (zero_net app) 40)),
      links := dlist_init 40 (links (zero_net app)), timer_heap := h \<rparr>)"
    using init_socket_fresh [of 40 "zero_net app"] zero_net_fresh [of app] by (auto simp: fresh_memory_def starting_def)
  then show ?thesis by (simp add: alloc_listen_sockets_def one_record_def)
qed

definition granted :: accept_env where
  "granted = \<lparr> acc_result = Inr 7, acc_clt = [], acc_pool = True, acc_pagesize = 4096, acc_mem = True, acc_base = (\<lambda>_. 0),
     acc_junk = (\<lambda>_. 0) \<rparr>"

lemma granted_conn: "\<exists>c. grants granted c \<and> \<not> lts_buffer_full (rbuf c)"
  by (simp add: grants_def granted_def new_conn_def lts_create_pool_def lts_create_buffer_def lts_palloc_def lts_palloc_block_def
      palloc_find.simps attach_loop.simps lts_align_def Let_def lts_buffer_full_def addr_def del: upt_Suc upt_rec_numeral)

lemma server_with_client:
  "\<exists>(w :: 'a net_scheme) F c. net_inv w F {} \<and> F lts_post_list = [] \<and> live w = {1008} \<and> conn_of (skts w 1008) = Some c \<and>
     \<not> lts_buffer_full (rbuf c) \<and> do_write (skts w 1008) = Do_send \<and> channel_signal w = 0"
proof -
  obtain w1 where w1: "alloc_listen_sockets (Some [one_record]) True 1 1000 8 (zero_net (undefined :: 'a)) = Some (0, [40], w1)"
    using one_record_listens [of undefined] by (elim exE)
  have m: "max_conn_ok 1" by (simp add: max_conn_ok_def)
  let ?F = "(\<lambda>_. [])(lts_sock_list := map (\<lambda>i. 1000 + i * 8) [1..<nat 1 + 64])"
  obtain w2 :: "'a net_scheme" where w2: "net_inv w2 ?F {}" "live w2 = {}" "channel_signal w2 = 0"
    using server_start_correct [OF zero_net_fresh m one_record_apart w1, of 6] by blast
  obtain c where c: "grants granted c" "\<not> lts_buffer_full (rbuf c)" using granted_conn by blast
  have cc: "current_conns w2 < 1" using w2(1,2) by (simp add: net_inv_def)
  have F: "?F lts_sock_list = 1008 # map (\<lambda>i. 1000 + i * 8) [2..<65]" "length (?F lts_sock_list) < 2 ^ 64"
    by (simp_all add: upt_conv_Cons del: upt_rec_numeral)
  from accept_opens [OF w2(1) _ cc _ F, of 60 granted 7 c echo_itfc 40] c w2(2,3) show ?thesis
    by (fastforce simp: granted_def echo_itfc_def echo_on_connected_def [abs_def] moved_def)
qed

section \<open>A hang-up\<close>

text \<open>The events that make the epoll round report a socket readable and writable at once.\<close>

definition hangup :: "32 word \<Rightarrow> bool" where
  "hangup m \<longleftrightarrow> has m EPOLLIN \<and> has m EPOLLOUT \<or> has m (or EPOLLERR EPOLLHUP) \<and> \<not> has m (or EPOLLIN EPOLLOUT)"

lemma has_or: "has (or m x) y \<longleftrightarrow> has m y \<or> has x y"
  by (simp add: has_def bit.conj_disj_distrib2 or_eq_0_iff)

lemma hangup_sets_both:
  assumes "hangup m"
  shows "epoll_event (m, cs, instance_bit (skts w cs)) w =
    lts_post_list_add cs (upd_skt cs (\<lambda>k. k\<lparr> writable := True \<rparr>) (lts_post_list_add cs (upd_skt cs (\<lambda>k. k\<lparr> readable := True \<rparr>) w)))"
proof -
  have "has (or EPOLLIN EPOLLOUT) EPOLLIN" "has (or EPOLLIN EPOLLOUT) EPOLLOUT" by (simp_all add: has_def)
  then show ?thesis using assms by (auto simp: hangup_def epoll_event_def Let_def has_or)
qed

section \<open>Properties\<close>

text \<open>The start of a server: when the master has made its listening sockets, in fresh memory and with
  a limit of connections that fits an \<open>int\<close>, a worker's start cannot fail.  The channel gets the first
  socket of the cache, the others stay cached in order, and the invariant of the event loops holds.\<close>

theorem server_starts:
  assumes "fresh_memory w" and "max_conn_ok maxc" and "apart rs base sz (nat (maxc + 64))"
    and "alloc_listen_sockets (Some rs) True maxc base sz w = Some (0, ls, w1)"
  shows "\<exists>w2. init_event_core_worker fd0 w1 = Some (base, w2) \<and>
    net_inv w2 ((\<lambda>_. [])(lts_sock_list := map (\<lambda>i. base + i * sz) [1..<nat maxc + 64])) {} \<and> live w2 = {} \<and>
    special w2 = insert base (set ls) \<and> base \<notin> set ls \<and> sock_cache_n w2 = of_nat (nat maxc + 63)"
  using server_start_correct [OF assms, of fd0] by blast

theorem server_starts_witness:
  "\<exists>w1 w2. alloc_listen_sockets (Some [one_record]) True 1 1000 8 (zero_net ()) = Some (0, [40], w1) \<and>
     init_event_core_worker 6 w1 = Some (1000, w2) \<and> special w2 = {1000, 40} \<and> sock_cache_n w2 = 64"
proof -
  obtain w1 where w1: "alloc_listen_sockets (Some [one_record]) True 1 1000 8 (zero_net ()) = Some (0, [40], w1)"
    using one_record_listens [of "()"] by (elim exE)
  have "max_conn_ok 1" by (simp add: max_conn_ok_def)
  from server_starts [OF zero_net_fresh this one_record_apart w1, of 6] w1 show ?thesis by auto
qed

text \<open>C2. Safety of a running server.  From its start on, after any number of rounds of the event loop,
  whatever the system calls answer and the clients send, a worker that runs the echo or the JSON
  application has intact socket lists and timers, counts its connections correctly, never has more
  than \<open>max_connections\<close>, and does not hold the accept lock between two rounds.\<close>

theorem server_rounds_keep_invariant:
  assumes "fresh_memory w0" and "max_conn_ok maxc" and "apart rs base sz (nat (maxc + 64))"
    and "alloc_listen_sockets (Some rs) True maxc base sz w0 = Some (0, ls, w1)"
    and "init_event_core_worker fd0 w1 = Some (chan, w2)" and "0 < keepalive"
    and "worker_reach (event_round lock app keepalive maxc (\<lambda>_ _ _ _. None)) (new_worker ls, w2) (lp, w)"
    and "app = echo_itfc \<or> app = sjsonb_itfc env"
  shows "(\<exists>F. net_inv w F {}) \<and> current_conns w = int (card (live w)) \<and> current_conns w \<le> maxc \<and> \<not> lock_hold lp"
proof -
  have m: "maxc < 2 ^ 31" "0 < maxc" "maxc < 2 ^ 63" using assms(2) by (auto simp: max_conn_ok_def)
  obtain F where "net_inv w2 F {}" "live w2 = {}" using server_start_correct [OF assms(1-4), of fd0] assms(5) by auto
  then have i: "loop_inv (\<lambda>_. True) maxc (snd (new_worker ls, w2))" using m(2) by (auto simp: loop_inv_def net_inv_def)
  have o: "other_ok (\<lambda>_. True) maxc (\<lambda>_ _ _ _. None)" by (simp add: other_ok_def)
  have l: "\<not> lock_hold (fst (new_worker ls, w2))" by (simp add: new_worker_def)
  have "loop_inv (\<lambda>_. True) maxc w \<and> \<not> lock_hold lp"
    using assms(8)
  proof
    assume "app = echo_itfc"
    from echo.event_run_keeps [OF assms(7) [unfolded this] i l assms(6) m(1) order_refl m(3) o] show ?thesis by simp
  next
    assume "app = sjsonb_itfc env"
    from sjsonb.event_run_keeps [OF assms(7) [unfolded this] i l assms(6) m(1) order_refl m(3) o] show ?thesis by simp
  qed
  then show ?thesis by (auto simp: loop_inv_def net_inv_def)
qed

theorem server_rounds_keep_invariant_witness:
  "\<exists>w1 w2 lp w3. alloc_listen_sockets (Some [one_record]) True 1 1000 8 (zero_net ()) = Some (0, [40], w1) \<and>
     init_event_core_worker 6 w1 = Some (1000, w2) \<and>
     event_round True echo_itfc 60 1 (\<lambda>_ _ _ _. None) (quiet None undefined) (new_worker [40], w2) = Some (True, lp, w3) \<and>
     current_conns w3 \<le> 1 \<and> \<not> lock_hold lp"
proof -
  obtain w1 where w1: "alloc_listen_sockets (Some [one_record]) True 1 1000 8 (zero_net ()) = Some (0, [40], w1)"
    using one_record_listens [of "()"] by (elim exE)
  have m: "max_conn_ok 1" by (simp add: max_conn_ok_def)
  obtain w2 F where w2: "init_event_core_worker 6 w1 = Some (1000, w2)" "net_inv w2 F {}" "F lts_post_list = []" "live w2 = {}" "channel_signal w2 = 0"
    using server_start_correct [OF zero_net_fresh m one_record_apart w1, of 6] by fastforce
  obtain w3 where ex: "expire_timers echo_itfc 60 (ticked None w2) = Some w3"
    using echo.expire_closes_due [OF ticked_keeps(1) [OF w2(2)] TrueI, of 60 None] by fastforce
  obtain lp where r: "multi_round echo_itfc 60 1 (\<lambda>_ _ _ _. None) (quiet None undefined) (new_worker [40], w2) = Some (True, lp, w3)"
    using quiet_round [OF w2(2,3) _ _ ex, of "new_worker [40]" 1 "\<lambda>_ _ _ _. None" undefined] w2(5) by (auto simp: new_worker_def)
  have "worker_reach (event_round True echo_itfc 60 1 (\<lambda>_ _ _ _. None)) (new_worker [40], w2) (lp, w3)"
    by (rule worker_reach.round [where e = "quiet None undefined", OF worker_reach.start]) (use r in \<open>simp_all add: events_ok_def quiet_def event_round_def\<close>)
  from server_rounds_keep_invariant [OF zero_net_fresh m one_record_apart w1 w2(1) _ this] r w1 w2(1) show ?thesis by (auto simp: event_round_def)
qed

text \<open>C33. A failed receive can take the worker down: when epoll reports a connection readable and writable
  in the same round and \<open>recv\<close> fails, the receive handler closes the connection and the loop then runs the
  write handler of the closed socket, which follows its NULL connection.\<close>

theorem hangup_crashes_worker:
  assumes "net_inv w F {}" and "F lts_post_list = []" and "0 < keepalive" and "hangup m"
    and "conn_of (skts w cs) = Some c" and "\<not> lts_buffer_full (rbuf c)" and "do_write (skts w cs) = Do_send"
    and "he_recv he 0 = Inl err" and "err \<noteq> E_AGAIN" and "err \<noteq> E_WOULDBLOCK"
  shows "process_post_list (run_handler echo_itfc keepalive maxc other he) (epoll_event (m, cs, instance_bit (skts w cs)) w) = None"
proof -
  let ?w1 = "lts_post_list_add cs (upd_skt cs (\<lambda>k. k\<lparr> readable := True \<rparr>) w)"
  let ?w = "lts_post_list_add cs (upd_skt cs (\<lambda>k. k\<lparr> writable := True \<rparr>) ?w1)"
  have cl: "cs \<in> live w" using assms(5) by (simp add: live_def)
  have 1: "net_inv ?w1 (moved lts_post_list cs F) {}" "same_conns w ?w1"
    using post_add_keeps [OF assms(1), of cs "\<lambda>k. k\<lparr> readable := True \<rparr>"] cl by simp_all
  have 2: "net_inv ?w (moved lts_post_list cs (moved lts_post_list cs F)) {}" "same_conns ?w1 ?w"
    using post_add_keeps [OF 1(1), of cs "\<lambda>k. k\<lparr> writable := True \<rparr>"] cl 1(2) by (simp_all add: same_conns_def)
  have "do_read (skts w cs) = Do_recv" using assms(1) cl by (simp add: net_inv_def)
  then have sk: "readable (skts ?w cs)" "writable (skts ?w cs)" "do_read (skts ?w cs) = Do_recv" "do_write (skts ?w cs) = Do_send"
      "conn_of (skts ?w cs) = Some c"
    using assms(5,7) by (simp_all add: list_adds)
  have "dlist_in (links ?w) lts_post_list (moved lts_post_list cs (moved lts_post_list cs F) lts_post_list)"
    using 2(1) unfolding net_inv_def sock_lists_def lists_in_def by simp
  then have f: "mp_next (links ?w) lts_post_list = cs" using dlist_next assms(2) by (fastforce simp: moved_def)
  have "post_loop (run_handler echo_itfc keepalive maxc other he) 0 cs (mp_next (links ?w) cs) ?w = None"
    by (rule echo.recv_failure_then_write [OF 2(1) TrueI assms(3) sk(5) assms(6) sk(1-4) _ _ assms(9,10)])
      (simp_all add: run_handler_def assms(8))
  then show ?thesis unfolding hangup_sets_both [OF assms(4)] process_post_list_def Let_def f by simp
qed

theorem hangup_crashes_worker_witness:
  "\<exists>(w :: net) he. process_post_list (run_handler echo_itfc 60 1 (\<lambda>_ _ _ _. None) he)
     (epoll_event (EPOLLHUP, 1008, instance_bit (skts w 1008)) w) = None"
proof -
  obtain w :: net and F c where w: "net_inv w F {}" "F lts_post_list = []" "conn_of (skts w 1008) = Some c"
      "\<not> lts_buffer_full (rbuf c)" "do_write (skts w 1008) = Do_send"
    using server_with_client by blast
  let ?he = "\<lparr> he_accept = undefined, he_recv = (\<lambda>_. Inl E_CONNRESET), he_send = undefined, he_chan = undefined \<rparr>"
  have "hangup EPOLLHUP" by (simp add: hangup_def has_def)
  from hangup_crashes_worker [OF w(1,2) _ this w(3-5), of 60 ?he E_CONNRESET] show ?thesis by auto
qed



end
