(* ===== verification/NatFsm.thy ===== *)
theory NatFsm
  imports RbTree AdvString
begin

text \<open>
  The NAT state machine of \<open>src/modules/mod_app_p2p_fsm.c\<close>: a session (\<open>tcp_session_t\<close>), the reports
  of the two retinue servers (\<open>sub_chanpack_t\<close>, one for every UDP packet of the client that reaches a
  retinue), and the reaction to a report, the \<open>switch\<close> of \<open>on_channel_sub\<close>.

  \<open>nat_fsm\<close> is the code; \<open>nat_trans\<close> the transition relation it implements, by kinds of transition,
  and \<open>nat_reach\<close> the sessions that can occur.  \<open>verdict\<close> is the specification: what a sequence of
  reports says about the NAT.
\<close>

section \<open>Sessions and reports\<close>

abbreviation FSM_IDLE :: "32 word" where "FSM_IDLE \<equiv> 0"
abbreviation FSM_WAIT_RETINUE_MASTER :: "32 word" where "FSM_WAIT_RETINUE_MASTER \<equiv> 1"
abbreviation FSM_WAIT_RETINUE_VICE :: "32 word" where "FSM_WAIT_RETINUE_VICE \<equiv> 2"

datatype nat_kind = NAT_UNKNOWN | NAT_SYMMETIC | NAT_PORT_RESTRICTED_CONE | NAT_RESTRICTED_CONE | NAT_FULL_CONE

record udp_hole =
  ip :: "32 word"
  port :: "16 word"

text \<open>\<open>pool\<close> is whether the session has its own memory pool; \<open>conn\<close> is the socket or 0.  The map node
  and the list node of a session are named by the address of the session.\<close>

record tcp_session =
  fsm_stat :: "32 word"
  ts_pool :: bool
  auth_token :: bstr
  ts_port_restricted :: bool
  pre_udp_port :: int
  nat_type :: nat_kind
  ts_hole :: udp_hole
  ts_conn :: addr

record sub_chanpack =
  retinue_master :: bool
  sub_auth :: lts_str
  port_restricted :: bool
  udp_port :: int

section \<open>The reaction to a report\<close>

text \<open>The classification that both waiting states make; \<open>None\<close> is the failed ASSERT.\<close>

definition nat_classify :: "int \<Rightarrow> tcp_session \<Rightarrow> tcp_session option" where
  "nat_classify prt ts =
     (if pre_udp_port ts = 0 then None
      else let ts = (if pre_udp_port ts \<noteq> prt then ts\<lparr> nat_type := NAT_SYMMETIC \<rparr>
                     else if ts_port_restricted ts then ts\<lparr> nat_type := NAT_PORT_RESTRICTED_CONE \<rparr>
                     else ts\<lparr> nat_type := NAT_RESTRICTED_CONE \<rparr>)
           in Some (ts\<lparr> fsm_stat := FSM_IDLE, pre_udp_port := 0 \<rparr>))"

definition nat_fsm :: "sub_chanpack \<Rightarrow> tcp_session \<Rightarrow> tcp_session option" where
  "nat_fsm d ts =
     (if fsm_stat ts = FSM_IDLE then
        (if retinue_master d
         then Some (ts\<lparr> fsm_stat := FSM_WAIT_RETINUE_VICE, ts_port_restricted := port_restricted d,
                        pre_udp_port := udp_port d \<rparr>)
         else Some (ts\<lparr> fsm_stat := FSM_WAIT_RETINUE_MASTER, pre_udp_port := udp_port d \<rparr>))
      else if fsm_stat ts = FSM_WAIT_RETINUE_MASTER then
        (if \<not> retinue_master d then Some (ts\<lparr> pre_udp_port := udp_port d \<rparr>) else nat_classify (udp_port d) ts)
      else if fsm_stat ts = FSM_WAIT_RETINUE_VICE then
        (if retinue_master d then Some (ts\<lparr> pre_udp_port := udp_port d \<rparr>) else nat_classify (udp_port d) ts)
      else Some ts)"

fun nat_run :: "sub_chanpack list \<Rightarrow> tcp_session \<Rightarrow> tcp_session option" where
  "nat_run [] ts = Some ts"
| "nat_run (d # ds) ts = do { ts \<leftarrow> nat_fsm d ts; nat_run ds ts }"

section \<open>Transitions\<close>

definition waits_for :: "bool \<Rightarrow> 32 word" where
  "waits_for m = (if m then FSM_WAIT_RETINUE_MASTER else FSM_WAIT_RETINUE_VICE)"

definition kind_of :: "bool \<Rightarrow> bool \<Rightarrow> nat_kind" where
  "kind_of same restr = (if \<not> same then NAT_SYMMETIC
     else if restr then NAT_PORT_RESTRICTED_CONE else NAT_RESTRICTED_CONE)"

inductive nat_trans :: "tcp_session \<Rightarrow> sub_chanpack \<Rightarrow> tcp_session \<Rightarrow> bool" where
  first: "fsm_stat ts = FSM_IDLE \<Longrightarrow>
    nat_trans ts d (ts\<lparr> fsm_stat := waits_for (\<not> retinue_master d), pre_udp_port := udp_port d,
      ts_port_restricted := (if retinue_master d then port_restricted d else ts_port_restricted ts) \<rparr>)"
| again: "fsm_stat ts = waits_for (\<not> retinue_master d) \<Longrightarrow> nat_trans ts d (ts\<lparr> pre_udp_port := udp_port d \<rparr>)"
| verdict: "fsm_stat ts = waits_for (retinue_master d) \<Longrightarrow> pre_udp_port ts \<noteq> 0 \<Longrightarrow>
    nat_trans ts d (ts\<lparr> nat_type := kind_of (udp_port d = pre_udp_port ts) (ts_port_restricted ts),
      fsm_stat := FSM_IDLE, pre_udp_port := 0 \<rparr>)"

inductive_cases nat_transE: "nat_trans ts d ts'"

lemma waits_for_simps [simp]: "waits_for m \<noteq> FSM_IDLE" "FSM_IDLE \<noteq> waits_for m" "waits_for m = waits_for n \<longleftrightarrow> m = n"
  by (auto simp: waits_for_def)

definition fsm_valid :: "tcp_session \<Rightarrow> bool" where
  "fsm_valid ts \<longleftrightarrow> fsm_stat ts = FSM_IDLE \<or> (\<exists>m. fsm_stat ts = waits_for m)"

lemma nat_fsm_idle: "fsm_stat ts = FSM_IDLE \<Longrightarrow>
  nat_fsm d ts = Some (ts\<lparr> fsm_stat := waits_for (\<not> retinue_master d), pre_udp_port := udp_port d,
      ts_port_restricted := (if retinue_master d then port_restricted d else ts_port_restricted ts) \<rparr>)"
  by (simp add: nat_fsm_def waits_for_def)

lemma nat_fsm_again: "fsm_stat ts = waits_for (\<not> retinue_master d) \<Longrightarrow>
  nat_fsm d ts = Some (ts\<lparr> pre_udp_port := udp_port d \<rparr>)"
  by (auto simp: nat_fsm_def waits_for_def)

lemma nat_fsm_verdict: "fsm_stat ts = waits_for (retinue_master d) \<Longrightarrow>
  nat_fsm d ts = (if pre_udp_port ts = 0 then None
    else Some (ts\<lparr> nat_type := kind_of (udp_port d = pre_udp_port ts) (ts_port_restricted ts),
      fsm_stat := FSM_IDLE, pre_udp_port := 0 \<rparr>))"
  by (auto simp: nat_fsm_def nat_classify_def waits_for_def kind_of_def Let_def)

lemmas nat_fsm_cases = nat_fsm_idle nat_fsm_again nat_fsm_verdict

lemma fsm_valid_cases:
  assumes "fsm_valid ts"
  obtains "fsm_stat ts = FSM_IDLE" | "fsm_stat ts = waits_for (\<not> retinue_master d)" | "fsm_stat ts = waits_for (retinue_master d)"
proof -
  have "fsm_stat ts = FSM_IDLE \<or> fsm_stat ts = waits_for (\<not> retinue_master d) \<or> fsm_stat ts = waits_for (retinue_master d)"
    using assms unfolding fsm_valid_def waits_for_def by (auto split: if_splits)
  then show thesis using that by blast
qed

text \<open>The code does what the relation says.\<close>

lemma nat_fsm_trans:
  assumes "fsm_valid ts"
  shows "nat_fsm d ts = Some ts' \<longleftrightarrow> nat_trans ts d ts'"
proof
  assume a: "nat_fsm d ts = Some ts'"
  from assms show "nat_trans ts d ts'"
    by (cases rule: fsm_valid_cases [where d = d]) (use a nat_trans.intros [of ts d] in \<open>simp_all add: nat_fsm_cases split: if_splits\<close>)
next
  assume "nat_trans ts d ts'"
  then show "nat_fsm d ts = Some ts'"
    by cases (auto simp: nat_fsm_cases)
qed

text \<open>The sessions that occur: a fresh one, and what reports make of it.\<close>

definition fresh_session :: "bstr \<Rightarrow> addr \<Rightarrow> tcp_session" where
  "fresh_session tok skt = \<lparr> fsm_stat = FSM_IDLE, ts_pool = True, auth_token = tok, ts_port_restricted = False,
     pre_udp_port = 0, nat_type = NAT_UNKNOWN, ts_hole = \<lparr> ip = 0, port = 0 \<rparr>, ts_conn = skt \<rparr>"

inductive nat_reach :: "tcp_session \<Rightarrow> bool" where
  start: "nat_reach (fresh_session tok skt)"
| report: "nat_reach ts \<Longrightarrow> nat_trans ts d ts' \<Longrightarrow> nat_reach ts'"

lemma nat_reach_valid: "nat_reach ts \<Longrightarrow>
    fsm_valid ts \<and> (fsm_stat ts = FSM_IDLE \<longrightarrow> pre_udp_port ts = 0) \<and> nat_type ts \<noteq> NAT_FULL_CONE"
proof (induction rule: nat_reach.induct)
  case (report ts d ts')
  show ?case using report.hyps(2)
    by (cases rule: nat_trans.cases) (use report.IH in \<open>auto simp: fsm_valid_def kind_of_def\<close>)
qed (simp add: fresh_session_def fsm_valid_def)

text \<open>A run stays among them.\<close>

lemma nat_run_reach: "nat_run ds ts = Some ts' \<Longrightarrow> nat_reach ts \<Longrightarrow> nat_reach ts'"
proof (induction ds arbitrary: ts)
  case (Cons d ds)
  then obtain t where t: "nat_fsm d ts = Some t" "nat_run ds t = Some ts'"
    by (auto simp: bind_Some_iff split: Option.bind_splits)
  then have "nat_trans ts d t" using nat_fsm_trans nat_reach_valid Cons.prems(2) by blast
  then show ?case using Cons.IH t(2) Cons.prems(2) nat_reach.report by blast
qed simp

section \<open>The verdict of a sequence of reports\<close>

text \<open>The specification keeps the report that waits for its counterpart, the last \<open>port_restricted\<close>
  a master opened a round with, and the kind found last.\<close>

record nat_spec =
  waiting :: "(bool \<times> int) option"
  restricted :: bool
  kind :: nat_kind

definition spec_step :: "sub_chanpack \<Rightarrow> nat_spec \<Rightarrow> nat_spec" where
  "spec_step d a = (case waiting a of
     None \<Rightarrow> a\<lparr> waiting := Some (retinue_master d, udp_port d),
                restricted := (if retinue_master d then port_restricted d else restricted a) \<rparr>
   | Some (m, p) \<Rightarrow> if m = retinue_master d then a\<lparr> waiting := Some (m, udp_port d) \<rparr>
                    else a\<lparr> waiting := None, kind := kind_of (udp_port d = p) (restricted a) \<rparr>)"

definition nat_abs :: "tcp_session \<Rightarrow> nat_spec" where
  "nat_abs ts = \<lparr> waiting = (if fsm_stat ts = FSM_IDLE then None
       else Some (fsm_stat ts = FSM_WAIT_RETINUE_VICE, pre_udp_port ts)),
     restricted = ts_port_restricted ts, kind = nat_type ts \<rparr>"

text \<open>Simulation: one report, when no pending port is 0.\<close>

lemma nat_fsm_simulates:
  assumes "fsm_valid ts" and "fsm_stat ts \<noteq> FSM_IDLE \<longrightarrow> pre_udp_port ts \<noteq> 0" and "udp_port d \<noteq> 0"
  shows "\<exists>ts'. nat_fsm d ts = Some ts' \<and> nat_abs ts' = spec_step d (nat_abs ts) \<and> fsm_valid ts' \<and>
    (fsm_stat ts' \<noteq> FSM_IDLE \<longrightarrow> pre_udp_port ts' \<noteq> 0)"
proof -
  from assms(1) show ?thesis
    by (cases rule: fsm_valid_cases [where d = d]) (use assms in \<open>auto simp: nat_fsm_cases nat_abs_def spec_step_def fsm_valid_def waits_for_def split: if_splits\<close>)
qed

lemma nat_run_simulates:
  assumes "fsm_valid ts" and "fsm_stat ts \<noteq> FSM_IDLE \<longrightarrow> pre_udp_port ts \<noteq> 0" and "\<forall>d\<in>set ds. udp_port d \<noteq> 0"
  shows "\<exists>ts'. nat_run ds ts = Some ts' \<and> nat_abs ts' = fold spec_step ds (nat_abs ts)"
  using assms
proof (induction ds arbitrary: ts)
  case (Cons d ds)
  obtain t where t: "nat_fsm d ts = Some t" "nat_abs t = spec_step d (nat_abs ts)" "fsm_valid t"
      "fsm_stat t \<noteq> FSM_IDLE \<longrightarrow> pre_udp_port t \<noteq> 0"
    using nat_fsm_simulates [OF Cons.prems(1,2), of d] Cons.prems(3) by auto
  show ?case using Cons.IH [OF t(3,4)] Cons.prems(3) t(1,2) by auto
qed simp

section \<open>One round of reports\<close>

lemma nat_run_append: "nat_run (as @ bs) ts = do { ts \<leftarrow> nat_run as ts; nat_run bs ts }"
  by (induction as arbitrary: ts) (auto split: Option.bind_split)

lemma nat_run_again:
  assumes "fsm_stat ts = waits_for (\<not> m)" and "\<forall>d\<in>set ds. retinue_master d = m"
  shows "nat_run ds ts = Some (if ds = [] then ts else ts\<lparr> pre_udp_port := udp_port (last ds) \<rparr>)"
  using assms by (induction ds arbitrary: ts) (auto simp: nat_fsm_again)

lemma nat_round:
  assumes ts: "fsm_stat ts = FSM_IDLE" and ds: "\<forall>d\<in>set (d # ds). retinue_master d = m" and e: "retinue_master e = (\<not> m)"
  defines "p \<equiv> udp_port (last (d # ds))"
  defines "r \<equiv> (if m then port_restricted d else ts_port_restricted ts)"
  shows "nat_run (d # ds @ [e]) ts = (if p = 0 then None
    else Some (ts\<lparr> nat_type := kind_of (udp_port e = p) r, ts_port_restricted := r, pre_udp_port := 0 \<rparr>))"
proof -
  let ?t = "ts\<lparr> fsm_stat := waits_for (\<not> m), pre_udp_port := udp_port d, ts_port_restricted := r \<rparr>"
  let ?u = "?t\<lparr> pre_udp_port := p \<rparr>"
  have 1: "nat_fsm d ts = Some ?t" using ds ts by (simp add: nat_fsm_idle r_def)
  have 2: "nat_run ds ?t = Some ?u" using nat_run_again [of ?t m ds] ds by (simp add: p_def)
  have "nat_fsm e ?u = (if p = 0 then None else Some (?u\<lparr> nat_type := kind_of (udp_port e = p) r,
      fsm_stat := FSM_IDLE, pre_udp_port := 0 \<rparr>))"
    using nat_fsm_verdict [of ?u e] e by simp
  then show ?thesis using 1 2 ts by (simp add: nat_run_append)
qed

section \<open>Properties\<close>



text \<open>In every session that can occur an idle machine has no pending port, the state is one of the
  three, and the kind is never \<open>NAT_FULL_CONE\<close>: the answer \<open>full\<close> of getlinkinfo is dead code.\<close>

theorem nat_machine_invariant:
  assumes "nat_reach ts"
  shows "fsm_stat ts \<in> {FSM_IDLE, FSM_WAIT_RETINUE_MASTER, FSM_WAIT_RETINUE_VICE} \<and>
    (fsm_stat ts = FSM_IDLE \<longrightarrow> pre_udp_port ts = 0) \<and> nat_type ts \<noteq> NAT_FULL_CONE"
  using nat_reach_valid [OF assms] unfolding fsm_valid_def waits_for_def by (auto split: if_splits)

lemma nat_machine_invariant_witness:
  "nat_type (fresh_session [0x61] 5) \<noteq> NAT_FULL_CONE"
  using nat_machine_invariant [OF nat_reach.start, of "[0x61]" 5] by simp

text \<open>A round from the idle state: reports of one retinue, then one of the other.  The NAT is
  symmetric when the ports differ; but \<open>port_restricted\<close> is taken from the report that opens the
  round only if the master sends it, so the same two reports in the other order are judged with
  the value of an earlier round.  A last port 0 of the first retinue fails the ASSERT and kills
  the server.\<close>

theorem nat_round_verdict:
  assumes "fsm_stat ts = FSM_IDLE" and "\<forall>d\<in>set (d # ds). retinue_master d = m" and "retinue_master e = (\<not> m)"
  shows "nat_run (d # ds @ [e]) ts = (if udp_port (last (d # ds)) = 0 then None
    else let r = (if m then port_restricted d else ts_port_restricted ts)
         in Some (ts\<lparr> nat_type := (if udp_port e \<noteq> udp_port (last (d # ds)) then NAT_SYMMETIC
              else if r then NAT_PORT_RESTRICTED_CONE else NAT_RESTRICTED_CONE),
              ts_port_restricted := r, pre_udp_port := 0 \<rparr>))"
  using nat_round [OF assms] by (simp add: kind_of_def Let_def)

lemma nat_round_verdict_witness:
  "let rep = \<lambda>m. \<lparr> retinue_master = m, sub_auth = \<lparr> s_data = [], s_len = 0 \<rparr>, port_restricted = m, udp_port = 7 \<rparr>
   in map_option nat_type (nat_run [rep True, rep False] (fresh_session [] 5)) = Some NAT_PORT_RESTRICTED_CONE \<and>
      map_option nat_type (nat_run [rep False, rep True] (fresh_session [] 5)) = Some NAT_RESTRICTED_CONE"
  using nat_round_verdict [of "fresh_session [] 5" "\<lparr> retinue_master = True, sub_auth = \<lparr> s_data = [], s_len = 0 \<rparr>,
      port_restricted = True, udp_port = 7 \<rparr>" "[]" True "\<lparr> retinue_master = False, sub_auth = \<lparr> s_data = [], s_len = 0 \<rparr>,
      port_restricted = False, udp_port = 7 \<rparr>"]
    nat_round_verdict [of "fresh_session [] 5" "\<lparr> retinue_master = False, sub_auth = \<lparr> s_data = [], s_len = 0 \<rparr>,
      port_restricted = False, udp_port = 7 \<rparr>" "[]" False "\<lparr> retinue_master = True, sub_auth = \<lparr> s_data = [], s_len = 0 \<rparr>,
      port_restricted = True, udp_port = 7 \<rparr>"]
  by (simp add: fresh_session_def Let_def)

end
