(* ===== verification/P2pSession.thy ===== *)
theory P2pSession
  imports EventInv NatFsm Hashing
begin

text \<open>
  The sessions of \<open>src/modules/mod_app_p2p_fsm.c\<close>: a fixed number of session structs, each on the list
  of free or of used ones, and the map of the logged in ones, filed by the hash of their token.

  The module state extends \<open>net\<close>: \<open>ts_mem\<close> are the session structs, \<open>ts_links\<close> the memory of their
  list nodes, \<open>ts_set\<close> the map.  A session, its list node and its map node have one address.
\<close>

section \<open>State\<close>

abbreviation s_ts_cachelst :: addr where "s_ts_cachelst \<equiv> 16"
abbreviation s_ts_uselst :: addr where "s_ts_uselst \<equiv> 17"

record p2p = net +
  ts_mem :: "addr \<Rightarrow> tcp_session"
  ts_links :: dlinks
  ts_set :: rbmap

definition upd_ts :: "addr \<Rightarrow> (tcp_session \<Rightarrow> tcp_session) \<Rightarrow> p2p \<Rightarrow> p2p" where
  "upd_ts ts f w = w\<lparr> ts_mem := (ts_mem w)(ts := f (ts_mem w ts)) \<rparr>"

text \<open>\<open>ts_change_skt\<close>\<close>

definition ts_change_skt :: "addr \<Rightarrow> addr \<Rightarrow> p2p \<Rightarrow> p2p" where
  "ts_change_skt ts skt w = upd_skt skt (\<lambda>k. k\<lparr> app_ctx := ts \<rparr>) (upd_ts ts (\<lambda>t. t\<lparr> ts_conn := skt \<rparr>) w)"

section \<open>Session structs\<close>

text \<open>\<open>mem\<close>: the pool of the session can be created; the token is cloned into it.  \<open>None\<close> is the NULL
  pointer that nobody checks.\<close>

definition clone_token :: "nat \<Rightarrow> bool \<Rightarrow> bstr \<Rightarrow> bstr option" where
  "clone_token pagesize mem s = do {
     pool \<leftarrow> lts_create_pool mem 4096;
     (p, pool) \<leftarrow> lts_palloc pagesize mem pool 16;
     (q, pool) \<leftarrow> lts_palloc pagesize mem pool (int (length s) + 1);
     if p = None \<or> q = None then None else Some s }"

definition tcp_session_init :: "nat \<Rightarrow> bool \<Rightarrow> addr \<Rightarrow> addr \<Rightarrow> bstr \<Rightarrow> p2p \<Rightarrow> p2p option" where
  "tcp_session_init pagesize mem ts skt session w = do {
     tok \<leftarrow> clone_token pagesize mem session;
     let w = upd_ts ts (\<lambda>t. t\<lparr> fsm_stat := FSM_IDLE, ts_pool := True, auth_token := tok, ts_port_restricted := False,
       pre_udp_port := 0, nat_type := NAT_UNKNOWN, ts_hole := \<lparr> ip = 0, port = 0 \<rparr> \<rparr>) w;
     hash \<leftarrow> time33 session (length session);
     m \<leftarrow> lts_rbmap_node_init ts hash (ts_set w);
     Some (ts_change_skt ts skt (w\<lparr> ts_set := m \<rparr>)) }"

definition tcp_session_release :: "addr \<Rightarrow> p2p \<Rightarrow> p2p" where
  "tcp_session_release ts w = (if ts_pool (ts_mem w ts) then upd_ts ts (\<lambda>t. t\<lparr> ts_pool := False \<rparr>) w else w)"

definition alloc_ts_instance :: "nat \<Rightarrow> bool \<Rightarrow> addr \<Rightarrow> bstr \<Rightarrow> p2p \<Rightarrow> (addr \<times> p2p) option" where
  "alloc_ts_instance pagesize mem skt session w =
     (if dlist_empty s_ts_cachelst (ts_links w) then Some (0, w)
      else let ts = mp_next (ts_links w) s_ts_cachelst;
               w = w\<lparr> ts_links := dlist_add_tail s_ts_uselst ts (dlist_del ts (ts_links w)) \<rparr>
           in do { w \<leftarrow> tcp_session_init pagesize mem ts skt session w; Some (ts, w) })"

definition free_ts_instance :: "addr \<Rightarrow> p2p \<Rightarrow> p2p" where
  "free_ts_instance ts w = (let w = tcp_session_release ts w
     in w\<lparr> ts_links := dlist_add_tail s_ts_cachelst ts (dlist_del ts (ts_links w)) \<rparr>)"

definition find_ts_by_auth :: "bstr \<Rightarrow> p2p \<Rightarrow> addr option" where
  "find_ts_by_auth auth w = do { hash \<leftarrow> time33 auth (length auth); lts_rbmap_get (ts_set w) hash }"

text \<open>The end of \<open>init_p2p_fsm_module\<close>: \<open>n\<close> structs, \<open>sz\<close> bytes apart, go on the free list.\<close>

definition init_sessions :: "nat \<Rightarrow> addr \<Rightarrow> nat \<Rightarrow> p2p \<Rightarrow> p2p" where
  "init_sessions n ats sz w =
     (let w = w\<lparr> ts_set := lts_rbmap_entity (rb_mem (rm_tree (ts_set w))) (rm_key (ts_set w)) \<rparr>;
          m = dlist_init s_ts_uselst (dlist_init s_ts_cachelst (ts_links w))
      in w\<lparr> ts_links := cache_loop s_ts_cachelst n ats sz m \<rparr>)"

section \<open>Callbacks\<close>

text \<open>A message of the subscribe or the UDP thread; \<open>None\<close> when the channel is empty.\<close>

definition on_channel_sub :: "sub_chanpack option \<Rightarrow> addr \<Rightarrow> p2p \<Rightarrow> p2p option" where
  "on_channel_sub msg cs w = (case msg of
     None \<Rightarrow> Some (upd_skt cs (\<lambda>k. k\<lparr> readable := False \<rparr>) w)
   | Some d \<Rightarrow> do {
       ts \<leftarrow> find_ts_by_auth (chars (sub_auth d)) w;
       if ts = 0 then Some w
       else do { t \<leftarrow> nat_fsm d (ts_mem w ts); Some (upd_ts ts (\<lambda>_. t) w) } })"

record udp_chanpack =
  peer_hole :: udp_hole
  udp_auth :: bstr

definition on_channel_udp :: "udp_chanpack option \<Rightarrow> addr \<Rightarrow> p2p \<Rightarrow> p2p option" where
  "on_channel_udp msg cs w = (case msg of
     None \<Rightarrow> Some (upd_skt cs (\<lambda>k. k\<lparr> readable := False \<rparr>) w)
   | Some d \<Rightarrow> do {
       ts \<leftarrow> find_ts_by_auth (udp_auth d) w;
       Some (if ts \<noteq> 0 then upd_ts ts (\<lambda>t. t\<lparr> ts_hole := peer_hole d \<rparr>) w else w) })"

definition p2p_fsm_on_connected :: "addr \<Rightarrow> p2p \<Rightarrow> p2p option" where
  "p2p_fsm_on_connected s w = Some w"

definition p2p_fsm_on_closing :: "addr \<Rightarrow> p2p \<Rightarrow> p2p option" where
  "p2p_fsm_on_closing s w =
     (let ts = app_ctx (skts w s)
      in Some (if ts \<noteq> 0 \<and> ts_conn (ts_mem w ts) = s
               then upd_skt s (\<lambda>k. k\<lparr> app_ctx := 0 \<rparr>) (upd_ts ts (\<lambda>t. t\<lparr> ts_conn := 0 \<rparr>) w)
               else w))"

definition p2p_fsm_send_more :: "addr \<Rightarrow> p2p \<Rightarrow> p2p option" where
  "p2p_fsm_send_more s w = Some w"

section \<open>The invariant of the sessions\<close>

abbreviation ts_heads :: "addr set" where "ts_heads \<equiv> {s_ts_cachelst, s_ts_uselst}"

text \<open>\<open>G\<close> are the two lists; the used sessions are exactly those in the map, each under the hash of its
  token.\<close>

definition sessions_ok :: "p2p \<Rightarrow> (addr \<Rightarrow> addr list) \<Rightarrow> bool" where
  "sessions_ok w G \<longleftrightarrow> lists_in (ts_links w) ts_heads G \<and> 0 \<notin> cells ts_heads G \<and> rbmap_inv (ts_set w) \<and>
     ran (rbmap_dict (ts_set w)) = set (G s_ts_uselst) \<and>
     (\<forall>ts\<in>set (G s_ts_uselst). rbmap_dict (ts_set w) (hash33 (auth_token (ts_mem w ts))) = Some ts)"

lemma time33_bytes: "time33 s (length s) = Some (hash33 s)"
  using time33_hash33 [of "\<lparr> s_data = s, s_len = length s \<rparr>"] by (simp add: str_ok_def chars_def)

lemma find_ts_by_auth_eq:
  "rbmap_inv (ts_set w) \<Longrightarrow>
   find_ts_by_auth auth w = Some (case rbmap_dict (ts_set w) (hash33 auth) of None \<Rightarrow> 0 | Some ts \<Rightarrow> ts)"
  by (simp add: find_ts_by_auth_def time33_bytes lts_rbmap_get_def rbm.search)

lemma upd_ts_simps [simp]:
  "ts_mem (upd_ts ts f w) = (ts_mem w)(ts := f (ts_mem w ts))" "ts_links (upd_ts ts f w) = ts_links w"
  "ts_set (upd_ts ts f w) = ts_set w" "skts (upd_ts ts f w) = skts w" "links (upd_ts ts f w) = links w"
  "timer_heap (upd_ts ts f w) = timer_heap w" "sock_cache_n (upd_ts ts f w) = sock_cache_n w"
  "current_conns (upd_ts ts f w) = current_conns w" "current_time (upd_ts ts f w) = current_time w"
  "interest (upd_ts ts f w) = interest w" "sock_inuse_n (upd_ts ts f w) = sock_inuse_n w"
  by (simp_all add: upd_ts_def)

lemma upd_skt_ts [simp]:
  "ts_mem (upd_skt s g w) = ts_mem w" "ts_links (upd_skt s g w) = ts_links w" "ts_set (upd_skt s g w) = ts_set w"
  by (simp_all add: upd_skt_def)

lemma change_skt_simps [simp]:
  "ts_links (ts_change_skt ts s w) = ts_links w" "ts_set (ts_change_skt ts s w) = ts_set w"
  "links (ts_change_skt ts s w) = links w" "timer_heap (ts_change_skt ts s w) = timer_heap w"
  "skts (ts_change_skt ts s w) = (skts w)(s := (skts w s)\<lparr> app_ctx := ts \<rparr>)"
  "ts_mem (ts_change_skt ts s w) = (ts_mem w)(ts := (ts_mem w ts)\<lparr> ts_conn := s \<rparr>)"
  by (simp_all add: ts_change_skt_def)

text \<open>A token that was never used finds nobody, one that is in use its own session, and any token with
  the same hash that session too.\<close>

lemma sessions_find:
  assumes "sessions_ok w G" and "ts \<in> set (G s_ts_uselst)" and "hash33 auth = hash33 (auth_token (ts_mem w ts))"
  shows "find_ts_by_auth auth w = Some ts"
  using assms by (simp add: sessions_ok_def find_ts_by_auth_eq)

lemma sessions_find_none:
  assumes "sessions_ok w G" and "\<forall>ts\<in>set (G s_ts_uselst). hash33 auth \<noteq> hash33 (auth_token (ts_mem w ts))"
  shows "find_ts_by_auth auth w = Some 0"
proof -
  have "rbmap_dict (ts_set w) (hash33 auth) = None"
  proof (rule ccontr)
    assume "rbmap_dict (ts_set w) (hash33 auth) \<noteq> None"
    then obtain ts where ts: "rbmap_dict (ts_set w) (hash33 auth) = Some ts" by auto
    then have u: "ts \<in> set (G s_ts_uselst)" using assms(1) by (auto simp: sessions_ok_def ran_def)
    then have "rbmap_dict (ts_set w) (hash33 (auth_token (ts_mem w ts))) = Some ts" using assms(1) by (simp add: sessions_ok_def)
    moreover have "rbmap_inv (ts_set w)" using assms(1) by (simp add: sessions_ok_def)
    ultimately have "hash33 (auth_token (ts_mem w ts)) = hash33 auth" using ts rbm.dict_key by metis
    then show False using u assms(2) by metis
  qed
  then show ?thesis using assms(1) by (simp add: sessions_ok_def find_ts_by_auth_eq)
qed

section \<open>Logging in and out\<close>

lemma sessions_lists:
  assumes "sessions_ok w G" and "ts \<in> cells ts_heads G - ts_heads"
  shows "ts \<noteq> 0" "movable (ts_links w) ts_heads G ts" "l \<in> ts_heads \<Longrightarrow> lists_in (dlist_add_tail l ts (dlist_del ts (ts_links w))) ts_heads (moved l ts G)"
proof -
  have L: "lists_in (ts_links w) ts_heads G" "0 \<notin> cells ts_heads G" using assms(1) by (auto simp: sessions_ok_def)
  show "ts \<noteq> 0" using L(2) assms(2) by (metis DiffD1)
  show m: "movable (ts_links w) ts_heads G ts" using assms(2) by (auto simp: movable_def cells_def)
  show "lists_in (dlist_add_tail l ts (dlist_del ts (ts_links w))) ts_heads (moved l ts G)" if "l \<in> ts_heads"
    by (rule lists_in_move [OF L(1) that m])
qed

lemma alloc_none: "sessions_ok w G \<Longrightarrow> G s_ts_cachelst = [] \<Longrightarrow> alloc_ts_instance pg mem skt tok w = Some (0, w)"
proof -
  assume a: "sessions_ok w G" "G s_ts_cachelst = []"
  then have "dlist_in (ts_links w) s_ts_cachelst []" by (auto simp: sessions_ok_def lists_in_def)
  then show ?thesis by (simp add: dlist_empty_correct alloc_ts_instance_def)
qed

text \<open>A new session: taken from the free list, initialised, added to the map.\<close>

lemma session_login:
  assumes i: "sessions_ok w G" and g: "G s_ts_cachelst = ts # fs" and c: "clone_token pg mem tok = Some tok"
    and n: "rbmap_dict (ts_set w) (hash33 tok) = None"
  shows "\<exists>w1 m. alloc_ts_instance pg mem skt tok w = Some (ts, w1) \<and> lts_rbmap_add (ts_set w1) ts = Some (0, m) \<and> ts \<noteq> 0 \<and>
    sessions_ok (w1\<lparr> ts_set := m \<rparr>) (moved s_ts_uselst ts G) \<and> rbmap_dict m = (rbmap_dict (ts_set w))(hash33 tok \<mapsto> ts) \<and>
    ts_mem w1 = (ts_mem w)(ts := fresh_session tok skt) \<and> skts w1 = (skts w)(skt := (skts w skt)\<lparr> app_ctx := ts \<rparr>) \<and>
    links w1 = links w \<and> timer_heap w1 = timer_heap w \<and> sock_cache_n w1 = sock_cache_n w \<and> current_conns w1 = current_conns w"
proof -
  let ?d = "rbmap_dict (ts_set w)" and ?h = "hash33 tok"
  have s: "rbmap_inv (ts_set w)" "ran ?d = set (G s_ts_uselst)" and L: "lists_in (ts_links w) ts_heads G"
    using i by (auto simp: sessions_ok_def)
  have d: "dlist_in (ts_links w) s_ts_cachelst (ts # fs)" using L g by (metis insertI1 lists_in_def)
  have hd: "\<not> dlist_empty s_ts_cachelst (ts_links w)" "mp_next (ts_links w) s_ts_cachelst = ts"
    using dlist_empty_correct [OF d] dlist_next [OF d] by auto
  have u: "ts \<notin> set (G s_ts_uselst)" and tc: "ts \<in> cells ts_heads G - ts_heads"
    using L g by (auto simp: lists_in_def cells_def dlist_in_def)
  note ts = sessions_lists [OF i tc]
  obtain m1 m where m: "lts_rbmap_node_init ts ?h (ts_set w) = Some m1" "lts_rbmap_add m1 ts = Some (0, m)" "rbmap_inv m"
      "rbmap_dict m = ?d(?h \<mapsto> ts)"
    using rbm_store.init_then_add [OF s(1) ts(1), of ?h] u s(2) n by auto
  let ?w0 = "upd_ts ts (\<lambda>t. t\<lparr> fsm_stat := FSM_IDLE, ts_pool := True, auth_token := tok, ts_port_restricted := False,
       pre_udp_port := 0, nat_type := NAT_UNKNOWN, ts_hole := \<lparr> ip = 0, port = 0 \<rparr> \<rparr>)
       (w\<lparr> ts_links := dlist_add_tail s_ts_uselst ts (dlist_del ts (ts_links w)) \<rparr>)"
  let ?w1 = "ts_change_skt ts skt (?w0\<lparr> ts_set := m1 \<rparr>)"
  have "alloc_ts_instance pg mem skt tok w = Some (ts, ?w1)"
    using hd c m(1) by (simp add: alloc_ts_instance_def tcp_session_init_def time33_bytes Let_def)
  moreover have mem: "ts_mem ?w1 = (ts_mem w)(ts := fresh_session tok skt)"
    by (cases "ts_mem w ts") (simp add: fresh_session_def)
  moreover have "sessions_ok (?w1\<lparr> ts_set := m \<rparr>) (moved s_ts_uselst ts G)"
  proof -
    have "set (moved s_ts_uselst ts G s_ts_uselst) = insert ts (set (G s_ts_uselst))" using u by (auto simp: moved_def)
    moreover have "ran (?d(?h \<mapsto> ts)) = insert ts (ran ?d)" using n by (rule ran_map_upd)
    ultimately have r: "ran (rbmap_dict m) = set (moved s_ts_uselst ts G s_ts_uselst)" using m(4) s(2) by simp
    have h: "?h \<noteq> hash33 (auth_token (ts_mem w x))" if "x \<in> set (G s_ts_uselst)" for x
      using n i that by (metis option.distinct(1) sessions_ok_def)
    have "rbmap_dict m (hash33 (auth_token (ts_mem ?w1 x))) = Some x" if "x \<in> set (moved s_ts_uselst ts G s_ts_uselst)" for x
    proof (cases "x = ts")
      case True
      then show ?thesis using m(4) by (simp add: mem fresh_session_def)
    next
      case False
      then have "x \<in> set (G s_ts_uselst)" using that u by (auto simp: moved_def)
      then show ?thesis using False h [of x] i m(4) unfolding mem by (simp add: sessions_ok_def)
    qed
    moreover have "0 \<notin> cells ts_heads (moved s_ts_uselst ts G)"
      using i ts(1) cells_moved [of s_ts_uselst ts_heads ts G] by (simp add: sessions_ok_def)
    ultimately show ?thesis using ts(3) [of s_ts_uselst] m(3) r unfolding sessions_ok_def by simp
  qed
  ultimately show ?thesis using m(2,4) ts(1) by (intro exI [of _ ?w1] exI [of _ m])
    (simp add: ts_change_skt_def)
qed

text \<open>Logging out: out of the map, back to the free list.\<close>

lemma session_logout:
  assumes i: "sessions_ok w G" and u: "ts \<in> set (G s_ts_uselst)"
  shows "\<exists>m. lts_rbmap_safe_del (ts_set w) ts = Some (ts, m) \<and>
    sessions_ok (free_ts_instance ts (w\<lparr> ts_set := m \<rparr>)) (moved s_ts_cachelst ts G) \<and>
    rbmap_dict m = (rbmap_dict (ts_set w))(hash33 (auth_token (ts_mem w ts)) := None)"
proof -
  let ?d = "rbmap_dict (ts_set w)" and ?h = "hash33 (auth_token (ts_mem w ts))"
  have s: "rbmap_inv (ts_set w)" "ran ?d = set (G s_ts_uselst)" "?d ?h = Some ts" and L: "lists_in (ts_links w) ts_heads G"
    using i u by (auto simp: sessions_ok_def)
  have k: "rm_key (ts_set w) ts = ?h" using rbm.dict_key [OF s(1,3)] by simp
  have uc: "ts \<notin> set (G s_ts_cachelst)" and tc: "ts \<in> cells ts_heads G - ts_heads"
    using L u by (auto simp: lists_in_def cells_def dlist_in_def)
  note ts = sessions_lists [OF i tc]
  obtain m where m: "rbmap_remove ts (ts_set w) = Some m" "rbmap_inv m" "rbmap_dict m = ?d(?h := None)"
    using rbm.remove [OF s(1,3)] by blast
  have sd: "lts_rbmap_safe_del (ts_set w) ts = Some (ts, m)" using safe_del_linked [OF s(1)] s(3) k m(1) by simp
  let ?w = "free_ts_instance ts (w\<lparr> ts_set := m \<rparr>)"
  have f: "ts_links ?w = dlist_add_tail s_ts_cachelst ts (dlist_del ts (ts_links w))" "ts_set ?w = m"
    "auth_token (ts_mem ?w x) = auth_token (ts_mem w x)" for x
    by (simp_all add: free_ts_instance_def tcp_session_release_def Let_def)
  have own: "?h \<noteq> hash33 (auth_token (ts_mem w x))" if "x \<in> set (G s_ts_uselst)" "x \<noteq> ts" for x
    using i that s(3) by (auto simp: sessions_ok_def)
  have "set (moved s_ts_cachelst ts G s_ts_uselst) = set (G s_ts_uselst) - {ts}" by (simp add: moved_def)
  moreover have "ran (?d(?h := None)) = ran ?d - {ts}"
  proof -
    have j: "j = ?h" if "?d j = Some ts" for j using rbm.dict_key [OF s(1) that] k by simp
    have "x \<in> ran (?d(?h := None)) \<longleftrightarrow> (\<exists>j. j \<noteq> ?h \<and> ?d j = Some x)" for x by (simp add: ran_def) metis
    moreover have "(\<exists>j. j \<noteq> ?h \<and> ?d j = Some x) \<longleftrightarrow> x \<in> ran ?d \<and> x \<noteq> ts" for x
      unfolding ran_def mem_Collect_eq by (metis j option.inject s(3))
    ultimately show ?thesis by blast
  qed
  moreover have "0 \<notin> cells ts_heads (moved s_ts_cachelst ts G)"
    using i ts(1) cells_moved [of s_ts_cachelst ts_heads ts G] by (simp add: sessions_ok_def)
  ultimately have r: "ran (rbmap_dict m) = set (moved s_ts_cachelst ts G s_ts_uselst)" "0 \<notin> cells ts_heads (moved s_ts_cachelst ts G)"
    using s(2) m(3) by simp_all
  have "rbmap_dict m (hash33 (auth_token (ts_mem w x))) = Some x" if "x \<in> set (moved s_ts_cachelst ts G s_ts_uselst)" for x
    using own [of x] i that m(3) by (auto simp: moved_def sessions_ok_def)
  then have "sessions_ok ?w (moved s_ts_cachelst ts G)"
    unfolding sessions_ok_def f using ts(3) [of s_ts_cachelst] m(2) r by blast
  then show ?thesis using sd m(3) by blast
qed

end
