(* ===== verification/AdvNumber.thy ===== *)
theory AdvNumber
  imports AdvString
begin

text \<open>
  The second half of src/adv_string.c: numbers to decimal text (\<open>lts_uint322cstr\<close>,
  \<open>lts_l2str\<close>), splitting and cloning, and the library function \<open>atoi\<close> the
  configuration and report parsers use to read numbers back.
\<close>

section \<open>Decimal notation\<close>

text \<open>Digits of a number, least significant first (as the loops produce them; the number 0
  has none), and the usual notation.\<close>

fun rdec :: "nat \<Rightarrow> bstr" where
  "rdec n = (if n = 0 then [] else of_nat (48 + n mod 10) # rdec (n div 10))"

declare rdec.simps [simp del]

definition dec :: "nat \<Rightarrow> bstr" where
  "dec n = (if n = 0 then [c_zero] else rev (rdec n))"

definition sdec :: "int \<Rightarrow> bstr" where
  "sdec x = (if x < 0 then c_minus # dec (nat (- x)) else dec (nat x))"

lemma rdec_0 [simp]: "rdec 0 = []"
  by (simp add: rdec.simps)

lemma rdec_pos: "0 < n \<Longrightarrow> rdec n = of_nat (48 + n mod 10) # rdec (n div 10)"
  by (subst rdec.simps) simp

lemma rdec_length: "n < 10 ^ k \<Longrightarrow> length (rdec n) \<le> k"
proof (induction k arbitrary: n)
  case (Suc k)
  then have "n div 10 < 10 ^ k" by (simp add: less_mult_imp_div_less mult.commute)
  then have "length (rdec (n div 10)) \<le> k" by (rule Suc.IH)
  then show ?case by (cases "n = 0") (simp_all add: rdec_pos)
qed simp

lemma of_nat_byte: "n < 256 \<Longrightarrow> unat (of_nat n :: byte) = n"
  by (simp add: unat_of_nat)

text \<open>A decimal digit, and its value.\<close>

definition is_digit :: "byte \<Rightarrow> bool" where
  "is_digit c \<longleftrightarrow> 0x30 \<le> c \<and> c \<le> 0x39"

definition digit_val :: "byte \<Rightarrow> nat" where
  "digit_val c = unat c - 48"

lemma digit_of_nat:
  assumes "d < 10"
  shows "is_digit (of_nat (48 + d))" and "digit_val (of_nat (48 + d)) = d"
    and "(of_nat (48 + d) :: byte) \<noteq> 0"
proof -
  have u: "unat (of_nat (48 + d) :: byte) = 48 + d"
    using assms by (intro of_nat_byte) simp
  from u assms show "is_digit (of_nat (48 + d))"
    unfolding is_digit_def word_le_nat_alt by simp
  from u show "digit_val (of_nat (48 + d)) = d" by (simp only: digit_val_def)
  from u show "(of_nat (48 + d) :: byte) \<noteq> 0" by (metis add_is_0 unat_0 zero_neq_numeral)
qed

lemma rdec_digits: "c \<in> set (rdec n) \<Longrightarrow> is_digit c \<and> c \<noteq> 0"
proof (induction n rule: rdec.induct)
  case (1 n)
  show ?case
  proof (cases "n = 0")
    case False
    then show ?thesis
      using 1 digit_of_nat [of "n mod 10"] by (auto simp: rdec_pos simp del: of_nat_add)
  qed (use 1 in simp)
qed

lemma dec_digits: "c \<in> set (dec n) \<Longrightarrow> is_digit c \<and> c \<noteq> 0"
  by (auto simp: dec_def is_digit_def rdec_digits [unfolded is_digit_def] split: if_splits)

lemma dec_nonempty [simp]: "dec n \<noteq> []"
  by (auto simp: dec_def rdec_pos)

text \<open>Reading digits back.\<close>

definition dec_val :: "bstr \<Rightarrow> nat" where
  "dec_val cs = foldl (\<lambda>v c. 10 * v + digit_val c) 0 cs"

lemma dec_val_rdec: "foldr (\<lambda>c v. 10 * v + digit_val c) (rdec n) 0 = n"
proof (induction n rule: rdec.induct)
  case (1 n)
  show ?case
    using 1 digit_of_nat [of "n mod 10"] by (cases "n = 0") (simp_all add: rdec_pos del: of_nat_add)
qed

lemma dec_val_dec: "dec_val (dec n) = n"
proof (cases "n = 0")
  case True
  then show ?thesis by (simp add: dec_def dec_val_def digit_val_def)
next
  case False
  then show ?thesis
    using dec_val_rdec [of n] by (simp add: dec_def dec_val_def foldl_conv_foldr)
qed

section \<open>lts_uint322cstr\<close>

text \<open>The argument \<open>rslt\<close> is the content of the function's static 16-byte buffer.\<close>

function digits_loop :: "byte list \<Rightarrow> nat \<Rightarrow> 32 word \<Rightarrow> (byte list \<times> nat) option" where
  "digits_loop D count u =
     (if 0 < u then do {
        D' \<leftarrow> wr D count (ucast (u mod 10) + 0x30);
        digits_loop D' (count + 1) (u div 10) }
      else Some (D, count))"
  by pat_completeness auto
termination
proof (relation "measure (\<lambda>(D, count, u). unat u)")
  fix D count and u :: "32 word" and x :: "byte list"
  assume "0 < u"
  then have "0 < unat u" by (simp add: unat_gt_0)
  then show "((x, count + 1, u div 10), D, count, u) \<in> measure (\<lambda>(D, count, u). unat u)"
    by (simp add: unat_div)
qed simp

declare digits_loop.simps [simp del]

definition lts_uint322cstr :: "byte list \<Rightarrow> 32 word \<Rightarrow> byte list option" where
  "lts_uint322cstr rslt u =
     (if u = 0 then do { D \<leftarrow> wr rslt 0 c_zero; wr D 1 0 }
      else do {
        (D, count) \<leftarrow> digits_loop rslt 0 u;
        D1 \<leftarrow> wr D count 0;
        rev_region D1 0 (int count - 1) })"

lemma ucast_digit: "ucast ((u :: 32 word) mod 10) + 0x30 = (of_nat (48 + unat u mod 10) :: byte)"
proof -
  have "ucast (u mod 10) = (of_nat (unat u mod 10) :: byte)"
    by (simp add: word_unat_eq_iff unsigned_ucast_eq unsigned_take_bit_eq take_bit_nat_def
        unat_mod unat_of_nat)
  then show ?thesis by simp
qed

lemma digits_loop_app:
  assumes "length (rdec (unat u)) \<le> length B"
  shows "digits_loop (A @ B) (length A) u =
    Some (A @ rdec (unat u) @ drop (length (rdec (unat u))) B, length A + length (rdec (unat u)))"
  using assms
proof (induction "unat u" arbitrary: A B u rule: less_induct)
  case less
  show ?case
  proof (cases "u = 0")
    case True
    then show ?thesis by (subst digits_loop.simps) simp
  next
    case False
    then have pos: "0 < unat u" by (simp add: unat_gt_0 word_neq_0_conv)
    let ?d = "of_nat (48 + unat u mod 10) :: byte"
    have r: "rdec (unat u) = ?d # rdec (unat (u div 10))"
      using rdec_pos [OF pos] by (simp add: unat_div)
    then obtain b B' where B: "B = b # B'" using less.prems by (cases B) auto
    have "digits_loop ((A @ [?d]) @ B') (length (A @ [?d])) (u div 10) =
      Some ((A @ [?d]) @ rdec (unat (u div 10)) @ drop (length (rdec (unat (u div 10)))) B',
        length (A @ [?d]) + length (rdec (unat (u div 10))))"
      using less.prems r B pos by (intro less.hyps) (simp_all add: unat_div)
    then show ?thesis
      using False by (subst digits_loop.simps)
        (simp add: B r mem_simps ucast_digit word_neq_0_conv)
  qed
qed

lemma unat_word32_less: "unat (u :: 32 word) < 10 ^ 10"
proof -
  have "unat u < 2 ^ LENGTH(32)" by (rule unsigned_less)
  then show ?thesis by simp
qed

lemma lts_uint322cstr_correct:
  assumes "length rslt = 16"
  shows "\<exists>D. lts_uint322cstr rslt u = Some D \<and> length D = 16 \<and> cstr D = dec (unat u)"
proof (cases "u = 0")
  case True
  obtain a B where aB: "rslt = a # B" using assms by (cases rslt) auto
  moreover obtain b C where "B = b # C" using assms aB by (cases B) auto
  ultimately have "rslt = a # b # C" by simp
  then show ?thesis
    using True assms by (simp add: lts_uint322cstr_def mem_simps cstr_def dec_def)
next
  case False
  then have u0: "unat u \<noteq> 0" by (simp add: unat_eq_0)
  let ?r = "rdec (unat u)"
  have le: "length ?r \<le> 10" using rdec_length [OF unat_word32_less] .
  then obtain z Z where Z: "drop (length ?r) rslt = z # Z"
    using assms by (cases "drop (length ?r) rslt") auto
  have l: "digits_loop rslt 0 u = Some (?r @ z # Z, length ?r)"
    using digits_loop_app [of u rslt "[]"] le assms Z by simp
  have "rev_region (?r @ 0 # Z) 0 (int (length ?r) - 1) = Some (rev ?r @ 0 # Z)"
    using rev_region_app [of "[]" ?r "0 # Z"] by simp
  moreover have "cstr (rev ?r @ 0 # Z) = rev ?r"
    by (rule cstr_terminated) (auto dest: rdec_digits)
  moreover have "length (?r @ z # Z) = 16"
    using arg_cong [OF Z, of length] le assms by simp
  ultimately show ?thesis
    using False l u0 by (simp add: lts_uint322cstr_def mem_simps dec_def)
qed

section \<open>lts_l2str\<close>

function long_width_loop :: "int \<Rightarrow> nat" where
  "long_width_loop x = (let y = c_div x 10 in if y \<noteq> 0 then 1 + long_width_loop y else 1)"
  by pat_completeness auto
termination
proof (relation "measure (\<lambda>x. nat \<bar>x\<bar>)")
  fix x y :: int
  assume y: "y = c_div x 10" and "y \<noteq> 0"
  then have "\<bar>y\<bar> = \<bar>x\<bar> div 10" "x \<noteq> 0" by (auto simp: c_div_def abs_mult sgn_if)
  then show "(y, x) \<in> measure (\<lambda>x. nat \<bar>x\<bar>)" by simp
qed simp

declare long_width_loop.simps [simp del]

definition long_width :: "int \<Rightarrow> nat" where
  "long_width x = (if x < 0 then 1 else 0) + long_width_loop x"

function l2str_loop :: "byte list \<Rightarrow> nat \<Rightarrow> nat \<Rightarrow> (byte list \<times> nat) option" where
  "l2str_loop D k absx = do {
     D' \<leftarrow> wr D k (of_nat (48 + absx mod 10));
     if absx div 10 \<noteq> 0 then l2str_loop D' (k + 1) (absx div 10)
     else Some (D', k + 1) }"
  by pat_completeness auto
termination by (relation "measure (\<lambda>(D, k, a). a)") auto

declare l2str_loop.simps [simp del]

text \<open>\<open>labs(LONG_MIN)\<close> overflows: no defined result.\<close>

definition lts_l2str :: "lts_str \<Rightarrow> int \<Rightarrow> (int \<times> lts_str) option" where
  "lts_l2str s x =
     (if x = - (2 ^ 63) then None
      else if s_len s + 1 < long_width x then Some (-1, s)
      else do {
        (D, k) \<leftarrow> l2str_loop (s_data s) 0 (nat \<bar>x\<bar>);
        (D, k) \<leftarrow> (if x < 0 then do { D' \<leftarrow> wr D k c_minus; Some (D', k + 1) }
                     else Some (D, k));
        D \<leftarrow> rev_region D 0 (int k - 1);
        D \<leftarrow> wr D k 0;
        Some (0, \<lparr>s_data = D, s_len = k\<rparr>) })"

lemma dec_rec: "dec n = (if n div 10 = 0 then [] else dec (n div 10)) @ [of_nat (48 + n mod 10)]"
  by (cases "n = 0") (auto simp: dec_def rdec_pos)

lemma length_dec: "length (dec n) = (if n div 10 = 0 then 1 else 1 + length (dec (n div 10)))"
  by (subst dec_rec) simp

lemma long_width_loop_dec: "long_width_loop x = length (dec (nat \<bar>x\<bar>))"
proof (induction x rule: long_width_loop.induct)
  case (1 x)
  have y: "nat \<bar>c_div x 10\<bar> = nat \<bar>x\<bar> div 10" and y0: "c_div x 10 \<noteq> 0 \<longleftrightarrow> nat \<bar>x\<bar> div 10 \<noteq> 0"
    by (auto simp: c_div_def abs_mult sgn_if nat_div_distrib)
  show ?case
    by (subst long_width_loop.simps, subst length_dec) (use 1 y y0 in \<open>simp add: Let_def\<close>)
qed

lemma long_width_sdec: "long_width x = length (sdec x)"
  by (simp add: long_width_def sdec_def long_width_loop_dec)

lemma l2str_loop_app:
  assumes "length (dec a) \<le> length B"
  shows "l2str_loop (A @ B) (length A) a =
    Some (A @ rev (dec a) @ drop (length (dec a)) B, length A + length (dec a))"
  using assms
proof (induction a arbitrary: A B rule: less_induct)
  case (less a)
  let ?d = "of_nat (48 + a mod 10) :: byte"
  obtain b B' where B: "B = b # B'" using less.prems by (cases B) auto
  show ?case
  proof (cases "a div 10 = 0")
    case True
    then show ?thesis
      by (subst l2str_loop.simps, subst (1 2 3) dec_rec) (simp add: B mem_simps)
  next
    case False
    have "l2str_loop ((A @ [?d]) @ B') (length (A @ [?d])) (a div 10) =
      Some ((A @ [?d]) @ rev (dec (a div 10)) @ drop (length (dec (a div 10))) B',
        length (A @ [?d]) + length (dec (a div 10)))"
    proof (rule less.IH)
      show "a div 10 < a" using False by simp
      show "length (dec (a div 10)) \<le> length B'"
        using less.prems False B by (simp add: length_dec [of a])
    qed
    with False show ?thesis
      by (subst l2str_loop.simps, subst (1 2 3) dec_rec) (simp add: B mem_simps)
  qed
qed

text \<open>Up to the final NUL, the text is written at the start of the memory.\<close>

lemma l2str_digits:
  assumes "length (sdec x) \<le> length D"
  shows "do {
      (D, k) \<leftarrow> l2str_loop D 0 (nat \<bar>x\<bar>);
      (D, k) \<leftarrow> (if x < 0 then do { D' \<leftarrow> wr D k c_minus; Some (D', k + 1) } else Some (D, k));
      D \<leftarrow> rev_region D 0 (int k - 1);
      f D k }
    = f (sdec x @ drop (length (sdec x)) D) (length (sdec x))"
proof (cases "x < 0")
  case True
  let ?r = "rev (dec (nat (- x)))"
  obtain z Z where Z: "drop (length ?r) D = z # Z"
    using assms True by (cases "drop (length ?r) D") (auto simp: sdec_def)
  then have "D = take (length ?r) D @ z # Z" by (metis append_take_drop_id)
  then have Z': "drop (Suc (length ?r)) D = Z" using Z by (metis drop_Suc list.sel(3) tl_drop)
  have "l2str_loop D 0 (nat \<bar>x\<bar>) = Some (?r @ z # Z, length ?r)"
    using l2str_loop_app [of "nat \<bar>x\<bar>" D "[]"] assms True Z by (simp add: sdec_def)
  moreover have "wr (?r @ z # Z) (length (dec (nat (- x)))) c_minus = Some (?r @ c_minus # Z)"
    using wr_append [of ?r z Z] by simp
  ultimately show ?thesis
    using rev_region_app [of "[]" "?r @ [c_minus]" Z] True Z'
    by (simp add: sdec_def)
next
  case False
  then show ?thesis
    using l2str_loop_app [of "nat \<bar>x\<bar>" D "[]"] assms
      rev_region_app [of "[]" "rev (dec (nat x))" "drop (length (dec (nat x))) D"]
    by (simp add: sdec_def)
qed

lemma lts_l2str_correct:
  assumes "x \<noteq> - (2 ^ 63)" and "length (sdec x) \<le> s_len s + 1" and "length (sdec x) < length (s_data s)"
  shows "lts_l2str s x =
    Some (0, \<lparr>s_data = sdec x @ 0 # drop (length (sdec x) + 1) (s_data s), s_len = length (sdec x)\<rparr>)"
proof -
  obtain z Z where Z: "drop (length (sdec x)) (s_data s) = z # Z"
    using assms(3) by (cases "drop (length (sdec x)) (s_data s)") auto
  then have "drop (length (sdec x) + 1) (s_data s) = Z"
    by (metis Suc_eq_plus1 drop_Suc list.sel(3) tl_drop)
  then show ?thesis
    using assms Z by (simp add: lts_l2str_def long_width_sdec l2str_digits mem_simps)
qed

lemma lts_l2str_too_small:
  assumes "x \<noteq> - (2 ^ 63)" and "s_len s + 1 < length (sdec x)"
  shows "lts_l2str s x = Some (-1, s)"
  using assms by (simp add: lts_l2str_def long_width_sdec)

lemma lts_l2str_overrun:
  assumes "x \<noteq> - (2 ^ 63)" and "length (s_data s) = s_len s + 1" and "length (sdec x) = s_len s + 1"
  shows "lts_l2str s x = None"
  using assms by (simp add: lts_l2str_def long_width_sdec l2str_digits mem_simps)

section \<open>atoi\<close>

text \<open>The C library's \<open>atoi\<close> as glibc has it: leading white space, an optional sign, the
  longest run of digits; \<open>strtol\<close> clamps to the range of \<open>long\<close> and the cast keeps the
  low 32 bits.\<close>

definition c_isspace :: "byte \<Rightarrow> bool" where
  "c_isspace c \<longleftrightarrow> c = c_space \<or> 9 \<le> c \<and> c \<le> 13"

definition clamp_long :: "int \<Rightarrow> int" where
  "clamp_long v = max (- (2 ^ 63)) (min (2 ^ 63 - 1) v)"

definition strtol10 :: "bstr \<Rightarrow> int" where
  "strtol10 m =
     (let s = dropWhile c_isspace m;
          neg = (case s of c # _ \<Rightarrow> c = c_minus | [] \<Rightarrow> False);
          s' = (case s of c # t \<Rightarrow> if c = c_minus \<or> c = c_plus then t else s | [] \<Rightarrow> []);
          v = int (dec_val (takeWhile is_digit s'))
      in clamp_long (if neg then - v else v))"

definition atoi :: "bstr \<Rightarrow> int" where
  "atoi m = sint (word_of_int (strtol10 m) :: 32 word)"

lemma is_digit_not_space: "is_digit c \<Longrightarrow> \<not> c_isspace c \<and> c \<noteq> c_minus \<and> c \<noteq> c_plus"
  by (auto simp: is_digit_def c_isspace_def word_le_nat_alt)

lemma atoi_dec:
  assumes "n < 2 ^ 31"
  shows "atoi (dec n) = int n"
proof -
  obtain d ds where d: "dec n = d # ds" by (cases "dec n") auto
  then have dig: "is_digit d" using dec_digits [of d n] by simp
  have "takeWhile is_digit (dec n) = dec n"
    using dec_digits [of _ n] by (simp add: takeWhile_eq_all_conv)
  then have v: "strtol10 (dec n) = int n"
    using d is_digit_not_space [OF dig] assms dec_val_dec [of n]
    by (simp add: strtol10_def clamp_long_def)
  show ?thesis
    unfolding atoi_def v sint_sbintrunc' using assms by (simp add: signed_take_bit_int_eq_self)
qed

lemma atoi_range: "- (2 ^ 31) \<le> atoi m \<and> atoi m < 2 ^ 31"
  using sint_range_size [of "word_of_int (strtol10 m) :: 32 word"]
  by (simp add: atoi_def word_size)

section \<open>lts_str_clone and lts_str_split\<close>

text \<open>A clone owns its memory: the characters and a terminating NUL.\<close>

definition lts_str_clone :: "lts_str \<Rightarrow> lts_str option" where
  "lts_str_clone s = do {
     m \<leftarrow> rdn (s_data s) 0 (int (s_len s));
     Some \<lparr>s_data = m @ [0], s_len = s_len s\<rparr> }"

lemma lts_str_clone_correct:
  "str_ok s \<Longrightarrow> lts_str_clone s = Some \<lparr>s_data = chars s @ [0], s_len = s_len s\<rparr>"
  by (simp add: lts_str_clone_def rdn_def str_ok_def chars_def)

text \<open>
  Splitting: the first loop counts the items, the second cuts them.  An item is the pair
  of its offset and length.  The result array has \<open>count + 1\<close> slots, so more than \<open>count\<close>
  items would overrun it.
\<close>

fun split_count_loop :: "byte list \<Rightarrow> byte \<Rightarrow> nat \<Rightarrow> nat \<Rightarrow> nat option" where
  "split_count_loop D c i 0 = Some 0"
| "split_count_loop D c i (Suc k) = do {
     b \<leftarrow> rd D i;
     if c = b then do {
       b' \<leftarrow> rd D (i + 1);
       r \<leftarrow> split_count_loop D c (i + 1) k;
       Some (if c = b' then r else Suc r) }
     else split_count_loop D c (i + 1) k }"

definition split_count :: "lts_str \<Rightarrow> byte \<Rightarrow> nat option" where
  "split_count s c = do {
     b \<leftarrow> rd (s_data s) 0;
     r \<leftarrow> split_count_loop (s_data s) c 0 (s_len s - 1);
     Some ((if c = b then 0 else 1) + r) }"

function split_item :: "byte list \<Rightarrow> byte \<Rightarrow> nat \<Rightarrow> nat \<Rightarrow> nat \<Rightarrow> (nat \<times> nat) option" where
  "split_item D c len j n =
     (if j < len then do {
        b \<leftarrow> rd D (j + 1);
        if c \<noteq> b then split_item D c len (j + 1) (n + 1) else Some (j, n) }
      else Some (j, n))"
  by pat_completeness auto
termination by (relation "measure (\<lambda>(D, c, len, j, n). len - j)") auto

declare split_item.simps [simp del]

partial_function (option) split_loop ::
  "byte list \<Rightarrow> byte \<Rightarrow> nat \<Rightarrow> nat \<Rightarrow> (nat \<times> nat) list option" where
  "split_loop D c len j =
     (if j < len then do {
        b \<leftarrow> rd D j;
        if c \<noteq> b then do {
          (j', n) \<leftarrow> split_item D c len j 1;
          rest \<leftarrow> split_loop D c len (j' + 1);
          Some ((j, n) # rest) }
        else split_loop D c len (j + 1) }
      else Some [])"

declare split_loop.simps [code]

definition lts_str_split :: "lts_str \<Rightarrow> byte \<Rightarrow> (nat \<times> nat) list option" where
  "lts_str_split s c = do {
     count \<leftarrow> split_count s c;
     items \<leftarrow> split_loop (s_data s) c (s_len s) 0;
     if length items \<le> count then Some items else None }"

text \<open>The reference: the maximal runs of bytes other than the separator.\<close>

function runs :: "byte \<Rightarrow> bstr \<Rightarrow> bstr list" where
  "runs c [] = []"
| "runs c (x # xs) =
     (if x = c then runs c xs
      else (x # takeWhile (\<lambda>b. b \<noteq> c) xs) # runs c (dropWhile (\<lambda>b. b \<noteq> c) xs))"
  by pat_completeness auto
termination
  by (relation "measure (\<lambda>(c, xs). length xs)") (auto simp: less_Suc_eq_le length_dropWhile_le)

definition item_text :: "byte list \<Rightarrow> nat \<times> nat \<Rightarrow> bstr" where
  "item_text D it = take (snd it) (drop (fst it) D)"

text \<open>One item, cut from the rest \<open>R\<close> of a string that is followed by the NUL.\<close>

lemma split_item_app:
  assumes "c \<noteq> 0" and "len = length A + 1 + length R"
  shows "split_item (A @ x # R @ 0 # T) c len (length A) n =
    (let w = takeWhile (\<lambda>b. b \<noteq> c) R in
     if w = R then Some (len, n + length R + 1) else Some (length A + length w, n + length w))"
  using assms(2)
proof (induction R arbitrary: A x n)
  case Nil
  have "rd (A @ [x, 0] @ T) (length A + 1) = Some 0"
    using rd_append [of "A @ [x]" 0 T] by simp
  moreover have "split_item (A @ [x, 0] @ T) c len (length A + 1) (n + 1) = Some (len, n + 1)"
    using Nil by (subst split_item.simps) simp
  ultimately show ?case using Nil assms(1)
    by (subst split_item.simps) simp
next
  case (Cons r R)
  have r: "rd (A @ x # r # R @ 0 # T) (length A + 1) = Some r"
    using rd_append [of "A @ [x]" r "R @ 0 # T"] by simp
  show ?case
  proof (cases "r = c")
    case True
    then show ?thesis using r Cons.prems by (subst split_item.simps) simp
  next
    case False
    have "split_item ((A @ [x]) @ r # R @ 0 # T) c len (length (A @ [x])) (n + 1) =
      (let w = takeWhile (\<lambda>b. b \<noteq> c) R in
       if w = R then Some (len, (n + 1) + length R + 1)
       else Some (length (A @ [x]) + length w, (n + 1) + length w))"
      by (rule Cons.IH) (use Cons.prems in simp)
    with False show ?thesis using r Cons.prems
      by (subst split_item.simps) (auto simp: Let_def)
  qed
qed

text \<open>The string the items are really cut from: the terminating NUL counts as a character of
  the last item.\<close>

definition split_source :: "byte \<Rightarrow> bstr \<Rightarrow> bstr" where
  "split_source c cs = (if cs = [] \<or> last cs = c then cs else cs @ [0])"

lemma split_source_simps [simp]:
  "split_source c [] = []"
  "split_source c (x # R) = (if R = [] \<and> x \<noteq> c then [x, 0] else x # split_source c R)"
  by (auto simp: split_source_def)

lemma split_source_dropWhile:
  assumes "takeWhile (\<lambda>b. b \<noteq> c) R \<noteq> R"
  shows "takeWhile (\<lambda>b. b \<noteq> c) (split_source c R) = takeWhile (\<lambda>b. b \<noteq> c) R"
    and "dropWhile (\<lambda>b. b \<noteq> c) (split_source c R) = split_source c (dropWhile (\<lambda>b. b \<noteq> c) R)"
  using assms by (induction R) (auto split: if_splits)

lemma split_source_all:
  assumes "takeWhile (\<lambda>b. b \<noteq> c) R = R" and "R \<noteq> []"
  shows "split_source c R = R @ [0]"
  using assms by (induction R) (auto split: if_splits)

lemma split_loop_correct:
  assumes "c \<noteq> 0" and "len = length A + length R"
  shows "\<exists>items. split_loop (A @ R @ 0 # T) c len (length A) = Some items \<and>
    map (item_text (A @ R @ 0 # T)) items = runs c (split_source c R)"
  using assms(2)
proof (induction "length R" arbitrary: A R rule: less_induct)
  case less
  show ?case
  proof (cases R)
    case Nil
    then show ?thesis using less.prems by (subst split_loop.simps) simp
  next
    case (Cons x R')
    have rdx: "rd (A @ R @ 0 # T) (length A) = Some x" by (simp add: Cons mem_simps)
    have lt: "length A < len" using less.prems Cons by simp
    show ?thesis
    proof (cases "x = c")
      case True
      have "\<exists>items. split_loop ((A @ [x]) @ R' @ 0 # T) c len (length (A @ [x])) = Some items \<and>
          map (item_text ((A @ [x]) @ R' @ 0 # T)) items = runs c (split_source c R')"
        by (rule less.hyps) (use less.prems Cons in auto)
      then show ?thesis
        using True rdx lt by (subst split_loop.simps) (simp add: Cons)
    next
      case False
      let ?w = "takeWhile (\<lambda>b. b \<noteq> c) R'" and ?d = "dropWhile (\<lambda>b. b \<noteq> c) R'"
      have it: "split_item (A @ R @ 0 # T) c len (length A) 1 =
        (if ?w = R' then Some (len, 1 + length R' + 1) else Some (length A + length ?w, 1 + length ?w))"
        using split_item_app [of c len A R' x T 1] less.prems assms(1) by (simp add: Cons Let_def)
      show ?thesis
      proof (cases "?w = R'")
        case True
        have "split_loop (A @ R @ 0 # T) c len (len + 1) = Some []"
          by (subst split_loop.simps) simp
        moreover have "split_source c R = R @ [0]"
          using True False Cons by (intro split_source_all) auto
        moreover have "takeWhile (\<lambda>b. b \<noteq> c) (R' @ [0]) = R' @ [0]"
          "dropWhile (\<lambda>b. b \<noteq> c) (R' @ [0]) = []"
          using True assms(1) by (auto simp: takeWhile_eq_all_conv dropWhile_eq_Nil_conv)
        ultimately show ?thesis
          using rdx lt it True False
          by (subst split_loop.simps) (simp add: Cons item_text_def)
      next
        case ne: False
        then obtain d' where d: "?d = c # d'"
          by (cases ?d) (auto simp: dropWhile_eq_Nil_conv takeWhile_eq_all_conv dest: dropWhile_head)
        have R': "R' = ?w @ c # d'" using d by (metis takeWhile_dropWhile_id)
        have mem: "A @ R @ 0 # T = (A @ x # ?w @ [c]) @ d' @ 0 # T"
          using R' Cons by (metis append.assoc append_Cons append_Nil)
        have "\<exists>items. split_loop ((A @ x # ?w @ [c]) @ d' @ 0 # T) c len (length (A @ x # ?w @ [c]))
            = Some items \<and>
          map (item_text ((A @ x # ?w @ [c]) @ d' @ 0 # T)) items = runs c (split_source c d')"
        proof (rule less.hyps)
          show "length d' < length R" using Cons arg_cong [OF R', of length] by simp
          show "len = length (A @ x # ?w @ [c]) + length d'"
            using less.prems Cons arg_cong [OF R', of length] by simp
        qed
        then obtain items where i: "split_loop (A @ R @ 0 # T) c len (length A + length ?w + 2) = Some items"
          and im: "map (item_text (A @ R @ 0 # T)) items = runs c (split_source c d')"
          unfolding mem [symmetric] by auto
        have j: "split_loop (A @ R @ 0 # T) c len (length A + length ?w + 1) = Some items"
        proof -
          have "length A + length ?w + 1 = length (A @ x # ?w)" by simp
          moreover have "rd (A @ R @ 0 # T) (length (A @ x # ?w)) = Some c"
            using rd_append [of "A @ x # ?w" c "d' @ 0 # T"] mem by simp
          moreover have "length A + length ?w + 1 < len"
            using less.prems Cons arg_cong [OF R', of length] by simp
          ultimately show ?thesis using i by (subst split_loop.simps) simp
        qed
        have "item_text (A @ R @ 0 # T) (length A, Suc (length ?w)) = x # ?w"
          unfolding mem by (simp add: item_text_def)
        moreover have "runs c (split_source c R) = (x # ?w) # runs c (split_source c d')"
          using ne False d split_source_dropWhile [of c R'] Cons by auto
        ultimately show ?thesis
          using rdx lt it [unfolded if_not_P [OF ne]] False i j im
          by (subst split_loop.simps) (simp add: Cons)
      qed
    qed
  qed
qed

lemma split_count_correct:
  "split_count_loop (A @ x # R @ T) c (length A) (length R) =
     Some (length (runs c (x # R)) - (if x = c then 0 else 1))"
proof (induction R arbitrary: A x)
  case Nil
  show ?case by simp
next
  case (Cons r R)
  have r: "rd (A @ x # r # R @ T) (Suc (length A)) = Some r"
    using rd_append [of "A @ [x]" r "R @ T"] by simp
  have "split_count_loop ((A @ [x]) @ r # R @ T) c (length (A @ [x])) (length R) =
     Some (length (runs c (r # R)) - (if r = c then 0 else 1))"
    by (rule Cons)
  with r show ?case
    by (cases "x = c"; cases "r = c") (simp_all add: mem_simps)
qed

lemma length_runs_source: "R \<noteq> [] \<Longrightarrow> c \<noteq> 0 \<Longrightarrow> length (runs c (split_source c R)) = length (runs c R)"
proof (induction "length R" arbitrary: R rule: less_induct)
  case less
  then obtain x R' where R: "R = x # R'" by (cases R) auto
  show ?case
  proof (cases "x = c \<or> takeWhile (\<lambda>b. b \<noteq> c) R' \<noteq> R'")
    case True
    have "length (runs c (split_source c R')) = length (runs c R')"
      using less R by (cases "R' = []") auto
    moreover have "length (runs c (split_source c d)) = length (runs c d)"
      if "d = dropWhile (\<lambda>b. b \<noteq> c) R'" for d
      using less R that length_dropWhile_le [of "\<lambda>b. b \<noteq> c" R'] by (cases "d = []") auto
    ultimately show ?thesis
      using True split_source_dropWhile [of c R'] by (auto simp: R)
  next
    case False
    then have "dropWhile (\<lambda>b. b \<noteq> c) R' = []" and "dropWhile (\<lambda>b. b \<noteq> c) (R' @ [0]) = []"
      using less.prems by (auto simp: dropWhile_eq_Nil_conv takeWhile_eq_all_conv)
    moreover have "split_source c R = R @ [0]"
      using False R by (intro split_source_all) auto
    ultimately show ?thesis
      using False less.prems by (simp add: R del: dropWhile_eq_Nil_conv split_source_simps)
  qed
qed

lemma lts_str_split_correct:
  assumes "c \<noteq> 0" and "s_data s = cs @ 0 # T" and "s_len s = length cs"
  shows "\<exists>items. lts_str_split s c = Some items \<and>
    map (item_text (s_data s)) items = runs c (split_source c cs)"
proof -
  obtain items where i: "split_loop (s_data s) c (s_len s) 0 = Some items"
    and im: "map (item_text (s_data s)) items = runs c (split_source c cs)"
    using split_loop_correct [of c "length cs" "[]" cs T] assms by auto
  then have len: "length items = length (runs c (split_source c cs))"
    by (metis length_map)
  show ?thesis
  proof (cases cs)
    case Nil
    have "rd (0 # T) 0 = Some 0" by (simp add: mem_simps)
    then show ?thesis using assms i im len Nil by (simp add: lts_str_split_def split_count_def)
  next
    case (Cons x R)
    have "length (runs c cs) = length items" using length_runs_source [of cs c] assms len Cons by simp
    moreover have "length (runs c cs) \<ge> (if x = c then 0 else 1)" by (simp add: Cons)
    moreover have "split_count_loop (s_data s) c 0 (s_len s - 1) =
        Some (length (runs c cs) - (if x = c then 0 else 1))"
      using split_count_correct [of "[]" x R "0 # T" c] assms Cons by simp
    moreover have "rd (s_data s) 0 = Some x" using assms Cons by (simp add: mem_simps)
    ultimately show ?thesis
      using i im by (auto simp: lts_str_split_def split_count_def)
  qed
qed

section \<open>Properties\<close>

text \<open>A 32-bit number written by \<open>lts_uint322cstr\<close> and read back by \<open>atoi\<close> is the same number
  (the UDP port and address of a peer travel this way), for every value an \<open>int\<close> can hold.\<close>

theorem uint322cstr_atoi:
  assumes "length rslt = 16" and "unat u < 2 ^ 31"
  shows "\<exists>D. lts_uint322cstr rslt u = Some D \<and> cstr D = dec (unat u) \<and> atoi (cstr D) = int (unat u)"
  using lts_uint322cstr_correct [OF assms(1), of u] atoi_dec [OF assms(2)] by auto

lemma uint322cstr_atoi_witness:
  "\<exists>D. lts_uint322cstr (replicate 16 0) 6742 = Some D \<and> atoi (cstr D) = 6742"
  using uint322cstr_atoi [of "replicate 16 0" 6742] by auto

text \<open>\<open>lts_l2str\<close> on a NUL-terminated buffer: the decimal text of any long but the smallest when
  it fits, -1 when it is too long; a number exactly one character longer than the string passes
  the length check and its NUL is written outside the buffer.\<close>

theorem l2str_writes_decimal:
  assumes "x \<noteq> - (2 ^ 63)" and "length (s_data s) = s_len s + 1"
  shows "lts_l2str s x =
    (if length (sdec x) \<le> s_len s
     then Some (0, \<lparr>s_data = sdec x @ 0 # drop (length (sdec x) + 1) (s_data s), s_len = length (sdec x)\<rparr>)
     else if length (sdec x) = s_len s + 1 then None else Some (-1, s))"
  using lts_l2str_correct lts_l2str_too_small lts_l2str_overrun assms by auto

lemma l2str_writes_decimal_witness:
  "lts_l2str \<lparr>s_data = [0, 0, 0, 0], s_len = 3\<rparr> (- 42) = Some (0, \<lparr>s_data = [c_minus, 0x34, 0x32, 0], s_len = 3\<rparr>)"
  using l2str_writes_decimal [of "- 42" "\<lparr>s_data = [0, 0, 0, 0], s_len = 3\<rparr>"]
  by (simp add: sdec_def dec_def rdec_pos)

text \<open>\<open>lts_str_split\<close> cuts a NUL-terminated string at the separator: the items are the maximal runs
  of other characters, and they fit into the array it allocated.  The last item includes the NUL
  unless the string ends in a separator (\<open>split_source\<close>).\<close>

theorem split_gives_runs:
  assumes "c \<noteq> 0" and "s_data s = cs @ 0 # T" and "s_len s = length cs"
  shows "\<exists>items. lts_str_split s c = Some items \<and>
    map (item_text (s_data s)) items = runs c (split_source c cs)"
  by (rule lts_str_split_correct [OF assms])

lemma split_gives_runs_witness:
  "\<exists>items. lts_str_split \<lparr>s_data = [0x61, 0x2C, 0x62, 0x2C, 0], s_len = 4\<rparr> 0x2C = Some items \<and>
    map (item_text [0x61, 0x2C, 0x62, 0x2C, 0]) items = runs 0x2C (split_source 0x2C [0x61, 0x2C, 0x62, 0x2C])"
  using split_gives_runs [of "0x2C" "\<lparr>s_data = [0x61, 0x2C, 0x62, 0x2C, 0], s_len = 4\<rparr>" "[0x61, 0x2C, 0x62, 0x2C]" "[]"]
  by simp

end
