(* ===== verification/P2pService.thy ===== *)
theory P2pService
  imports DemoApps P2pSession AdvNumber
begin

text \<open>
  The requests of \<open>src/modules/mod_app_p2p_fsm.c\<close>: \<open>p2p_fsm_service\<close> decodes a packet and dispatches
  on its member \<open>interface\<close>.  One definition per interface, in the order of the code; a \<open>break\<close> out of
  the dispatch is the end of a branch.
\<close>

section \<open>Responses\<close>

text \<open>\<open>rq_tmp\<close> is the address of the local \<open>tmp_node\<close> of a lookup, \<open>rq_rsp\<close> that of a response object on
  the stack, \<open>rq_session_mem\<close> whether the pool of a new session can be created.\<close>

record p2p_env = request_env +
  rq_tmp :: addr
  rq_rsp :: addr
  rq_session_mem :: bool

record lts_conf_p2p_fsm =
  redis_host :: bstr
  redis_port :: int
  redis_auth :: bstr
  conf_retinue_master :: bstr
  conf_retinue_vice :: bstr

definition K_ERRNO :: bstr where "K_ERRNO = lit ''error_no''"
definition K_ERRMSG :: bstr where "K_ERRMSG = lit ''error_msg''"
definition E_SUCCESS :: bstr where "E_SUCCESS = lit ''200''"
definition E_NOT_EXIST :: bstr where "E_NOT_EXIST = lit ''404''"
definition E_NOT_SUPPORT :: bstr where "E_NOT_SUPPORT = lit ''405''"
definition E_ARG_MISS :: bstr where "E_ARG_MISS = lit ''421''"
definition E_INVALID_ARG :: bstr where "E_INVALID_ARG = lit ''422''"
definition E_SERVER_FAILED :: bstr where "E_SERVER_FAILED = lit ''500''"

text \<open>A response: the members are added one by one to an empty object, results ignored, and the object
  is encoded into the send buffer of a socket.  A NULL connection is followed.\<close>

fun add_kvs :: "addr \<Rightarrow> (bstr \<times> bstr) list \<Rightarrow> jheap \<Rightarrow> jheap option" where
  "add_kvs ob [] h = Some h"
| "add_kvs ob ((k, v) # kvs) h = do { (_, h) \<leftarrow> lts_sjson_add_kv ob k v h; add_kvs ob kvs h }"

definition send_rsp :: "p2p_env \<Rightarrow> (bstr \<times> bstr) list \<Rightarrow> addr \<Rightarrow> jheap \<Rightarrow> p2p \<Rightarrow> (jheap \<times> p2p) option" where
  "send_rsp e kvs s h w = do {
     c \<leftarrow> conn_of (skts w s);
     let h = lts_empty_sjson (rq_rsp e) h;
     h \<leftarrow> add_kvs (rq_rsp e) kvs h;
     (_, sb, h) \<leftarrow> lts_proto_sjsonb_encode (rq_base e) (rq_pagesize e) (rq_mem e) (rq_junk e) (rq_rsp e) (sbuf c) h;
     Some (h, set_sbuf s sb w) }"

definition make_simple_rsp :: "p2p_env \<Rightarrow> bstr \<Rightarrow> bstr \<Rightarrow> addr \<Rightarrow> jheap \<Rightarrow> p2p \<Rightarrow> (jheap \<times> p2p) option" where
  "make_simple_rsp e error_no error_msg s h w = send_rsp e [(K_ERRNO, error_no), (K_ERRMSG, error_msg)] s h w"

text \<open>A string argument of the request; \<open>NULL\<close> never is the answer of the lookup, but it is compared with.\<close>

definition get_arg :: "p2p_env \<Rightarrow> addr \<Rightarrow> bstr \<Rightarrow> jheap \<Rightarrow> (bstr option \<times> jheap) option" where
  "get_arg e sjson k h = do {
     (objnode, h) \<leftarrow> lts_sjson_get_obj_node (rq_tmp e) sjson k h;
     Some (if objnode = 0 \<or> jh_type h objnode \<noteq> STRING_VALUE then None else Some (jh_str h objnode), h) }"

text \<open>\<open>while (-1 == lts_timer_reset(heap, node, expire_time++))\<close> from time 0: the socket is due at once.\<close>

definition kick :: "addr \<Rightarrow> p2p \<Rightarrow> p2p option" where
  "kick s w = do { h \<leftarrow> timer_reset_retry s 0 (timer_heap w); Some (w\<lparr> timer_heap := h \<rparr>) }"

abbreviation arg_missing :: "p2p_env \<Rightarrow> addr \<Rightarrow> jheap \<Rightarrow> p2p \<Rightarrow> (jheap \<times> p2p) option" where
  "arg_missing e s h w \<equiv> make_simple_rsp e E_ARG_MISS (lit ''argument missing'') s h w"

section \<open>Interfaces\<close>

definition srv_heartbeat :: "p2p_env \<Rightarrow> addr \<Rightarrow> jheap \<Rightarrow> p2p \<Rightarrow> (jheap \<times> p2p) option" where
  "srv_heartbeat e s h w = make_simple_rsp e E_SUCCESS (lit ''success'') s h w"

text \<open>The session of a token for this socket: 0 when there is no session left.\<close>

definition login_session :: "p2p_env \<Rightarrow> addr \<Rightarrow> bstr \<Rightarrow> p2p \<Rightarrow> (addr \<times> p2p) option" where
  "login_session e s auth w = do {
     ts \<leftarrow> find_ts_by_auth auth w;
     if ts \<noteq> 0 then
       (if ts_conn (ts_mem w ts) = 0 then Some (ts, ts_change_skt ts s w)
        else if s \<noteq> ts_conn (ts_mem w ts) then do {
          w \<leftarrow> kick (ts_conn (ts_mem w ts)) w;
          Some (ts, ts_change_skt ts s w) }
        else Some (ts, w))
     else do {
       (ts, w) \<leftarrow> alloc_ts_instance (rq_pagesize e) (rq_session_mem e) s auth w;
       if ts = 0 then Some (0, w)
       else do { (_, m) \<leftarrow> lts_rbmap_add (ts_set w) ts; Some (ts, w\<lparr> ts_set := m \<rparr>) } } }"

definition srv_login :: "lts_conf_p2p_fsm \<Rightarrow> p2p_env \<Rightarrow> addr \<Rightarrow> addr \<Rightarrow> jheap \<Rightarrow> p2p \<Rightarrow> (jheap \<times> p2p) option" where
  "srv_login conf e s sjson h w = do {
     (auth, h) \<leftarrow> get_arg e sjson (lit ''auth'') h;
     case auth of None \<Rightarrow> arg_missing e s h w
     | Some auth \<Rightarrow> do {
         (ts, w) \<leftarrow> login_session e s auth w;
         if ts = 0 then make_simple_rsp e E_SERVER_FAILED (lit ''server failed'') s h w
         else send_rsp e [(K_ERRNO, E_SUCCESS), (K_ERRMSG, lit ''success''),
                (lit ''retinue_master'', conf_retinue_master conf), (lit ''retinue_vice'', conf_retinue_vice conf)]
                (ts_conn (ts_mem w ts)) h w } }"

text \<open>The checks that \<open>talkto\<close> and \<open>getlinkinfo\<close> share: the sessions, or the response that ends the request.\<close>

definition check_peers :: "bstr \<Rightarrow> bstr \<Rightarrow> addr \<Rightarrow> p2p \<Rightarrow> ((bstr \<times> bstr) + (addr \<times> addr)) option" where
  "check_peers auth peerauth s w = do {
     ts \<leftarrow> find_ts_by_auth auth w;
     if ts = 0 then Some (Inl (E_NOT_EXIST, lit ''not login''))
     else do {
       peer_ts \<leftarrow> find_ts_by_auth peerauth w;
       Some (if peer_ts = 0 \<or> ts_conn (ts_mem w peer_ts) = 0 then Inl (E_NOT_EXIST, lit ''peer not login'')
             else if s \<noteq> ts_conn (ts_mem w ts) then Inl (E_INVALID_ARG, lit ''invalid session'')
             else Inr (ts, peer_ts)) } }"

definition srv_talkto :: "p2p_env \<Rightarrow> addr \<Rightarrow> addr \<Rightarrow> jheap \<Rightarrow> p2p \<Rightarrow> (jheap \<times> p2p) option" where
  "srv_talkto e s sjson h w = do {
     (auth, h) \<leftarrow> get_arg e sjson (lit ''auth'') h;
     case auth of None \<Rightarrow> arg_missing e s h w
     | Some auth \<Rightarrow> do {
         (peerauth, h) \<leftarrow> get_arg e sjson (lit ''peerauth'') h;
         case peerauth of None \<Rightarrow> arg_missing e s h w
         | Some peerauth \<Rightarrow> do {
             (msg, h) \<leftarrow> get_arg e sjson (lit ''message'') h;
             case msg of None \<Rightarrow> arg_missing e s h w
             | Some msg \<Rightarrow> do {
                 r \<leftarrow> check_peers auth peerauth s w;
                 case r of Inl (no, txt) \<Rightarrow> make_simple_rsp e no txt s h w
                 | Inr (ts, peer_ts) \<Rightarrow> do {
                     let peer = ts_conn (ts_mem w peer_ts);
                     (str_msg, h) \<leftarrow> jclone msg h;
                     (h, w) \<leftarrow> send_rsp e [(K_ERRNO, E_SUCCESS), (K_ERRMSG, lit ''success''), (lit ''message'', str_msg)] peer h w;
                     let (_, w) = lts_soft_event peer True w;
                     make_simple_rsp e E_SUCCESS (lit ''success'') s h w } } } } }"

fun nattype_text :: "nat_kind \<Rightarrow> bstr" where
  "nattype_text NAT_SYMMETIC = lit ''symmetic''"
| "nattype_text NAT_PORT_RESTRICTED_CONE = lit ''portrestricted''"
| "nattype_text NAT_RESTRICTED_CONE = lit ''restricted''"
| "nattype_text NAT_FULL_CONE = lit ''full''"
| "nattype_text NAT_UNKNOWN = lit ''unknown''"

text \<open>\<open>lts_uint322cstr\<close> writes a static buffer of 16 bytes, which \<open>lts_sjson_add_kv\<close> copies.\<close>

definition uint_text :: "32 word \<Rightarrow> bstr option" where
  "uint_text n = lts_uint322cstr (replicate 16 0) n"

definition link_kvs :: "tcp_session \<Rightarrow> tcp_session \<Rightarrow> (bstr \<times> bstr) list option" where
  "link_kvs t p = do {
     i \<leftarrow> uint_text (ip (ts_hole t));
     pt \<leftarrow> uint_text (ucast (port (ts_hole t)));
     pi \<leftarrow> uint_text (ip (ts_hole p));
     pp \<leftarrow> uint_text (ucast (port (ts_hole p)));
     Some [(K_ERRNO, E_SUCCESS), (K_ERRMSG, lit ''success''), (lit ''ip'', i), (lit ''port'', pt),
       (lit ''nattype'', nattype_text (nat_type t)), (lit ''peerip'', pi), (lit ''peerport'', pp),
       (lit ''peernattype'', nattype_text (nat_type p))] }"

definition srv_getlinkinfo :: "p2p_env \<Rightarrow> addr \<Rightarrow> addr \<Rightarrow> jheap \<Rightarrow> p2p \<Rightarrow> (jheap \<times> p2p) option" where
  "srv_getlinkinfo e s sjson h w = do {
     (auth, h) \<leftarrow> get_arg e sjson (lit ''auth'') h;
     case auth of None \<Rightarrow> arg_missing e s h w
     | Some auth \<Rightarrow> do {
         (peerauth, h) \<leftarrow> get_arg e sjson (lit ''peerauth'') h;
         case peerauth of None \<Rightarrow> arg_missing e s h w
         | Some peerauth \<Rightarrow>
             if lts_str_compare auth peerauth = 0 then make_simple_rsp e E_INVALID_ARG (lit ''auth equals to peerauth'') s h w
             else do {
               r \<leftarrow> check_peers auth peerauth s w;
               case r of Inl (no, txt) \<Rightarrow> make_simple_rsp e no txt s h w
               | Inr (ts, peer_ts) \<Rightarrow> do {
                   kvs \<leftarrow> link_kvs (ts_mem w ts) (ts_mem w peer_ts);
                   send_rsp e kvs (ts_conn (ts_mem w ts)) h w } } } }"

definition srv_logout :: "p2p_env \<Rightarrow> addr \<Rightarrow> addr \<Rightarrow> jheap \<Rightarrow> p2p \<Rightarrow> (jheap \<times> p2p) option" where
  "srv_logout e s sjson h w = do {
     (auth, h) \<leftarrow> get_arg e sjson (lit ''auth'') h;
     case auth of None \<Rightarrow> arg_missing e s h w
     | Some auth \<Rightarrow> do {
         ts \<leftarrow> find_ts_by_auth auth w;
         if ts = 0 then make_simple_rsp e E_NOT_EXIST (lit ''not found'') s h w
         else if s \<noteq> ts_conn (ts_mem w ts) then make_simple_rsp e E_INVALID_ARG (lit ''invalid session'') s h w
         else do {
           w \<leftarrow> kick (ts_conn (ts_mem w ts)) w;
           (_, m) \<leftarrow> lts_rbmap_safe_del (ts_set w) ts;
           let w = free_ts_instance ts (w\<lparr> ts_set := m \<rparr>);
           (_, h) \<leftarrow> jclone auth h;
           make_simple_rsp e E_SUCCESS (lit ''success'') s h w } } }"

section \<open>Dispatch\<close>

text \<open>A request without interface is kicked and its pool destroyed, and then destroyed again.\<close>

definition dispatch_request :: "lts_conf_p2p_fsm \<Rightarrow> p2p_env \<Rightarrow> addr \<Rightarrow> addr \<Rightarrow> jheap \<Rightarrow> p2p \<Rightarrow> p2p option" where
  "dispatch_request conf e s sjson h w = do {
     (itfc, h) \<leftarrow> get_arg e sjson (lit ''interface'') h;
     case itfc of None \<Rightarrow> do { _ \<leftarrow> kick s w; None }
     | Some itfc \<Rightarrow> do {
         (_, w) \<leftarrow> (if lts_str_compare itfc (lit ''heartbeat'') = 0 then srv_heartbeat e s h w
           else if lts_str_compare itfc (lit ''login'') = 0 then srv_login conf e s sjson h w
           else if lts_str_compare itfc (lit ''talkto'') = 0 then srv_talkto e s sjson h w
           else if lts_str_compare itfc (lit ''getlinkinfo'') = 0 then srv_getlinkinfo e s sjson h w
           else if lts_str_compare itfc (lit ''logout'') = 0 then srv_logout e s sjson h w
           else make_simple_rsp e E_NOT_SUPPORT (lit ''unsupport interface'') s h w);
         Some w } }"

definition p2p_fsm_service :: "lts_conf_p2p_fsm \<Rightarrow> p2p_env \<Rightarrow> addr \<Rightarrow> p2p \<Rightarrow> p2p option" where
  "p2p_fsm_service conf e s w = do {
     c \<leftarrow> conn_of (skts w s);
     pool \<leftarrow> lts_create_pool (rq_pool e) 4096;
     (sjson, rb, h) \<leftarrow> lts_proto_sjsonb_decode (rbuf c) (rq_heap e);
     let w = set_rbuf s rb w;
     if sjson = 0 then kick s w else dispatch_request conf e s sjson h w }"

definition p2p_fsm_itfc :: "lts_conf_p2p_fsm \<Rightarrow> (addr \<Rightarrow> p2p \<Rightarrow> p2p_env) \<Rightarrow> p2p app_itfc" where
  "p2p_fsm_itfc conf env = \<lparr> on_connected = Some p2p_fsm_on_connected, service = (\<lambda>s w. p2p_fsm_service conf (env s w) s w),
     send_more = p2p_fsm_send_more, on_closing = Some p2p_fsm_on_closing \<rparr>"

end
