(* ===== verification/P2pInv.thy ===== *)
theory P2pInv
  imports P2pService
begin

text \<open>
  What the requests do to the sessions and the connections.

  \<open>p2p_inv\<close> joins the invariant of the event modules with that of the sessions and the link between
  the two: a session in use that has a socket has a connected one, whose \<open>app_ctx\<close> points back.  Every
  request keeps it, with one exception that is in the code: a second login on the same socket.
\<close>

section \<open>Postconditions\<close>

text \<open>\<open>post P m\<close>: if \<open>m\<close> returns, \<open>P\<close> holds of the result.\<close>

definition post :: "('a \<Rightarrow> bool) \<Rightarrow> 'a option \<Rightarrow> bool" where
  "post P m \<longleftrightarrow> (\<forall>x. m = Some x \<longrightarrow> P x)"

lemma post_Some [simp]: "post P (Some x) = P x" and post_None [simp]: "post P None"
  by (simp_all add: post_def)

lemma post_bind: "post Q m \<Longrightarrow> (\<And>x. Q x \<Longrightarrow> post P (f x)) \<Longrightarrow> post P (m \<bind> f)"
  by (cases m) (simp_all add: post_def)

lemma post_any: "(\<And>x. m = Some x \<Longrightarrow> post P (f x)) \<Longrightarrow> post P (m \<bind> f)"
  by (cases m) simp_all

lemma post_weaken: "post Q m \<Longrightarrow> (\<And>x. Q x \<Longrightarrow> P x) \<Longrightarrow> post P m"
  by (simp add: post_def)

lemma post_prod: "(\<And>a b. x = (a, b) \<Longrightarrow> post P (f a b)) \<Longrightarrow> post P (case x of (a, b) \<Rightarrow> f a b)"
  by (cases x) simp

lemma post_option: "(x = None \<Longrightarrow> post P a) \<Longrightarrow> (\<And>y. x = Some y \<Longrightarrow> post P (f y)) \<Longrightarrow> post P (case x of None \<Rightarrow> a | Some y \<Rightarrow> f y)"
  by (cases x) simp_all

lemma post_sum: "(\<And>y. x = Inl y \<Longrightarrow> post P (f y)) \<Longrightarrow> (\<And>y. x = Inr y \<Longrightarrow> post P (g y)) \<Longrightarrow>
  post P (case x of Inl y \<Rightarrow> f y | Inr y \<Rightarrow> g y)"
  by (cases x) simp_all

lemma post_if: "(b \<Longrightarrow> post P x) \<Longrightarrow> (\<not> b \<Longrightarrow> post P y) \<Longrightarrow> post P (if b then x else y)"
  by simp

lemma postD: "post P m \<Longrightarrow> m = Some x \<Longrightarrow> P x"
  by (simp add: post_def)

section \<open>Buffers\<close>

text \<open>Two states that differ in nothing but the contents of buffers.\<close>

definition bufs_only :: "p2p \<Rightarrow> p2p \<Rightarrow> bool" where
  "bufs_only w w' \<longleftrightarrow> w' = w\<lparr> skts := skts w' \<rparr> \<and>
     (\<forall>s. skts w' s = (skts w s)\<lparr> conn_of := conn_of (skts w' s) \<rparr> \<and>
       (conn_of (skts w' s) = None \<longleftrightarrow> conn_of (skts w s) = None) \<and>
       (s \<in> live w \<longrightarrow> c_pool (the (conn_of (skts w' s))) = c_pool (the (conn_of (skts w s)))))"

lemma bufs_only_refl [simp]: "bufs_only w w"
  by (simp add: bufs_only_def)

lemma bufs_only_fields:
  assumes "bufs_only w w'"
  shows "ts_mem w' = ts_mem w" "ts_links w' = ts_links w" "ts_set w' = ts_set w" "links w' = links w"
    "timer_heap w' = timer_heap w" "sock_cache_n w' = sock_cache_n w" "current_conns w' = current_conns w"
    "current_time w' = current_time w" "live w' = live w"
    "app_ctx (skts w' s) = app_ctx (skts w s)" "on_timeout (skts w' s) = on_timeout (skts w s)"
    "do_read (skts w' s) = do_read (skts w s)"
proof -
  have r: "w' = w\<lparr> skts := skts w' \<rparr>" and k: "skts w' s = (skts w s)\<lparr> conn_of := conn_of (skts w' s) \<rparr>"
    using assms by (auto simp: bufs_only_def)
  show "ts_mem w' = ts_mem w" by (subst r) simp
  show "ts_links w' = ts_links w" by (subst r) simp
  show "ts_set w' = ts_set w" by (subst r) simp
  show "links w' = links w" by (subst r) simp
  show "timer_heap w' = timer_heap w" by (subst r) simp
  show "sock_cache_n w' = sock_cache_n w" by (subst r) simp
  show "current_conns w' = current_conns w" by (subst r) simp
  show "current_time w' = current_time w" by (subst r) simp
  show "live w' = live w" by (rule live_cong) (use assms in \<open>simp add: bufs_only_def\<close>)
  show "app_ctx (skts w' s) = app_ctx (skts w s)" by (subst k) simp
  show "on_timeout (skts w' s) = on_timeout (skts w s)" by (subst k) simp
  show "do_read (skts w' s) = do_read (skts w s)" by (subst k) simp
qed

lemma bufs_only_set: "bufs_only w (set_sbuf s b w)" "bufs_only w (set_rbuf s b w)"
  by (auto simp: bufs_only_def set_sbuf_def set_rbuf_def upd_skt_def live_def)

lemma send_rsp_bufs: "post (\<lambda>(h', w'). bufs_only w w' \<and> s \<in> live w) (send_rsp e kvs s h w)"
  unfolding send_rsp_def Let_def
  by (intro post_any post_prod) (simp add: bufs_only_set live_def)

lemma make_simple_rsp_bufs: "post (\<lambda>(h', w'). bufs_only w w' \<and> s \<in> live w) (make_simple_rsp e no msg s h w)"
  unfolding make_simple_rsp_def by (rule send_rsp_bufs)

section \<open>The joint invariant\<close>

definition conns_ok :: "p2p \<Rightarrow> (addr \<Rightarrow> addr list) \<Rightarrow> bool" where
  "conns_ok w G \<longleftrightarrow> (\<forall>ts\<in>set (G s_ts_uselst). ts_conn (ts_mem w ts) \<noteq> 0 \<longrightarrow>
     ts_conn (ts_mem w ts) \<in> live w \<and> app_ctx (skts w (ts_conn (ts_mem w ts))) = ts)"

definition base_inv :: "p2p \<Rightarrow> (addr \<Rightarrow> addr list) \<Rightarrow> (addr \<Rightarrow> addr list) \<Rightarrow> bool" where
  "base_inv w F G \<longleftrightarrow> net_inv w F {} \<and> sessions_ok w G \<and> current_conns w < 2 ^ 63"

definition p2p_inv :: "p2p \<Rightarrow> (addr \<Rightarrow> addr list) \<Rightarrow> (addr \<Rightarrow> addr list) \<Rightarrow> bool" where
  "p2p_inv w F G \<longleftrightarrow> base_inv w F G \<and> conns_ok w G"

lemma base_inv_bufs: "base_inv w F G \<Longrightarrow> bufs_only w w' \<Longrightarrow> base_inv w' F G"
proof -
  assume i: "base_inv w F G" and b: "bufs_only w w'"
  note f = bufs_only_fields [OF b]
  have "net_inv w' F {}"
    by (rule net_inv_cong [of w]) (use i b in \<open>simp_all add: base_inv_def f bufs_only_def\<close>)
  then show ?thesis using i by (simp add: base_inv_def sessions_ok_def f)
qed

lemma conns_ok_bufs: "conns_ok w G \<Longrightarrow> bufs_only w w' \<Longrightarrow> conns_ok w' G"
  using bufs_only_fields [of w w'] by (simp add: conns_ok_def)

lemma p2p_inv_bufs: "p2p_inv w F G \<Longrightarrow> bufs_only w w' \<Longrightarrow> p2p_inv w' F G"
  using base_inv_bufs conns_ok_bufs by (auto simp: p2p_inv_def)

section \<open>Kicking\<close>

lemma net_inv_rearm:
  assumes i: "net_inv w F {}" and s: "s \<in> live w" and c: "current_conns w < 2 ^ 63"
  shows "\<exists>h. timer_reset_retry s t (timer_heap w) = Some h \<and> net_inv (w\<lparr> timer_heap := h \<rparr>) F {}"
proof -
  let ?h = "timer_heap w"
  have t: "timers_ok w {}" using i by (simp add: net_inv_def)
  then have r: "rbmap_inv ?h" "ran (rbmap_dict ?h) \<subseteq> live w" by (simp_all add: timers_ok_def)
  have own: "rbmap_dict ?h (rm_key ?h x) = Some x" if "x \<in> live w" for x using t that by (simp add: timers_ok_def)
  note fin = net_inv_live(5) [OF i s]
  have "card (dom (rbmap_dict ?h)) \<le> card (live w)" by (rule card_dict [OF r fin])
  moreover have "int (card (live w)) < 2 ^ 63" using i c by (simp add: net_inv_def)
  then have "card (live w) < 2 ^ 63" by simp
  ultimately have "card (dom (rbmap_dict ?h)) < 2 ^ 64" by simp
  moreover have "timer_ok ?h s" using r own [OF s] net_inv_live(1) [OF i s] s by (simp add: timer_ok_def)
  ultimately obtain h k where h: "timer_reset_retry s t ?h = Some h" "rbmap_inv h" "without ?h s k = None"
      "rbmap_dict h = (without ?h s)(k \<mapsto> s)" "rm_key h = (rm_key ?h)(s := k)"
    using timer_reset_retry_total by blast
  have "ran (rbmap_dict h) \<subseteq> live w" using r(2) s unfolding h(4) by (fastforce simp: ran_def without_def split: if_splits)
  moreover have "rbmap_dict h (rm_key h x) = Some x" if x: "x \<in> live w" for x
  proof (cases "x = s")
    case False
    then have "without ?h s (rm_key ?h x) = Some x" using own [OF x] by (simp add: without_def)
    then show ?thesis using False h(3) unfolding h(4,5) by auto
  qed (simp add: h(4,5))
  moreover have lv: "live (w\<lparr> timer_heap := h \<rparr>) = live w" by (simp add: live_def)
  ultimately have "timers_ok (w\<lparr> timer_heap := h \<rparr>) {}" using h(2) by (simp add: timers_ok_def)
  then have "net_inv (w\<lparr> timer_heap := h \<rparr>) F {}" using i lv by (simp add: net_inv_def sock_lists_def special_ok_def special_def)
  then show ?thesis using h(1) by blast
qed

text \<open>Kicking a connected socket succeeds and changes only the timers.\<close>

lemma kick_correct:
  assumes "base_inv w F G" and "s \<in> live w"
  shows "\<exists>h. kick s w = Some (w\<lparr> timer_heap := h \<rparr>) \<and> base_inv (w\<lparr> timer_heap := h \<rparr>) F G"
  using net_inv_rearm [of w F s 0] assms by (fastforce simp: base_inv_def kick_def sessions_ok_def)

lemma conns_ok_timer [simp]: "conns_ok (w\<lparr> timer_heap := h \<rparr>) G = conns_ok w G" "live (w\<lparr> timer_heap := h \<rparr>) = live w"
  by (simp_all add: conns_ok_def live_def)

lemma kick_post:
  assumes "p2p_inv w F G" and "s \<in> live w"
  shows "post (\<lambda>w'. p2p_inv w' F G \<and> live w' = live w \<and> skts w' = skts w \<and> ts_mem w' = ts_mem w \<and> ts_set w' = ts_set w) (kick s w)"
  using kick_correct [of w F G s] assms by (auto simp: p2p_inv_def)

section \<open>Requests\<close>

text \<open>The socket has two sessions.\<close>

definition two_sessions :: "p2p \<Rightarrow> (addr \<Rightarrow> addr list) \<Rightarrow> addr \<Rightarrow> bool" where
  "two_sessions w G s \<longleftrightarrow> (\<exists>t\<in>set (G s_ts_uselst). \<exists>t'\<in>set (G s_ts_uselst). t \<noteq> t' \<and>
     ts_conn (ts_mem w t) = s \<and> ts_conn (ts_mem w t') = s)"

definition served :: "p2p \<Rightarrow> addr \<Rightarrow> p2p \<Rightarrow> bool" where
  "served w s w' \<longleftrightarrow> live w' = live w \<and> (\<exists>F G. base_inv w' F G \<and> (conns_ok w' G \<or> two_sessions w' G s))"

lemma served_bufs: "served w s w1 \<Longrightarrow> bufs_only w1 w2 \<Longrightarrow> served w s w2"
proof -
  assume a: "served w s w1" and b: "bufs_only w1 w2"
  then obtain F G where "base_inv w1 F G" "conns_ok w1 G \<or> two_sessions w1 G s" "live w1 = live w" by (auto simp: served_def)
  then have "base_inv w2 F G" "conns_ok w2 G \<or> two_sessions w2 G s" "live w2 = live w"
    using b base_inv_bufs conns_ok_bufs bufs_only_fields [OF b] by (auto simp: two_sessions_def)
  then show ?thesis by (auto simp: served_def)
qed

lemma served_inv: "p2p_inv w F G \<Longrightarrow> live w = live w0 \<Longrightarrow> served w0 s w"
  by (auto simp: served_def p2p_inv_def)

lemma served_rsp:
  assumes "served w0 s0 w"
  shows "post (\<lambda>(h', w'). served w0 s0 w') (send_rsp e kvs s h w)" "post (\<lambda>(h', w'). served w0 s0 w') (make_simple_rsp e no msg s h w)"
  using send_rsp_bufs [of w s e kvs h] make_simple_rsp_bufs [of w s e no msg h] served_bufs [OF assms]
  by (auto simp: post_def)

lemma find_used:
  assumes "sessions_ok w G" and "find_ts_by_auth auth w = Some ts" and "ts \<noteq> 0"
  shows "ts \<in> set (G s_ts_uselst)" "rbmap_dict (ts_set w) (hash33 auth) = Some ts"
proof -
  have i: "rbmap_inv (ts_set w)" "ran (rbmap_dict (ts_set w)) = set (G s_ts_uselst)" using assms(1) by (auto simp: sessions_ok_def)
  show "rbmap_dict (ts_set w) (hash33 auth) = Some ts"
    using assms(2,3) find_ts_by_auth_eq [OF i(1), of auth] by (simp split: option.splits)
  then show "ts \<in> set (G s_ts_uselst)" using i(2) by (metis ranI)
qed

lemma find_unused:
  assumes "sessions_ok w G" and "find_ts_by_auth auth w = Some 0"
  shows "rbmap_dict (ts_set w) (hash33 auth) = None"
proof -
  have i: "rbmap_inv (ts_set w)" "ran (rbmap_dict (ts_set w)) = set (G s_ts_uselst)" "0 \<notin> cells ts_heads G"
    using assms(1) by (auto simp: sessions_ok_def)
  have "rbmap_dict (ts_set w) (hash33 auth) \<noteq> Some 0"
  proof
    assume "rbmap_dict (ts_set w) (hash33 auth) = Some 0"
    then have "0 \<in> set (G s_ts_uselst)" using i(2) by (metis ranI)
    then show False using i(3) by (auto simp: cells_def)
  qed
  then show ?thesis using assms(2) find_ts_by_auth_eq [OF i(1), of auth] by (auto split: option.splits)
qed

lemma free_used_disjoint:
  assumes "sessions_ok w G" and "ts \<in> set (G s_ts_cachelst)"
  shows "ts \<notin> set (G s_ts_uselst)"
  using assms by (auto simp: sessions_ok_def lists_in_def)

text \<open>Attaching a session to a socket.\<close>

lemma base_inv_change_skt:
  assumes "base_inv w F G"
  shows "base_inv (ts_change_skt ts s w) F G" "live (ts_change_skt ts s w) = live w"
proof -
  show "live (ts_change_skt ts s w) = live w" by (rule live_cong) simp
  have "current_conns (ts_change_skt ts s w) = current_conns w" "sock_cache_n (ts_change_skt ts s w) = sock_cache_n w"
    by (simp_all add: ts_change_skt_def)
  moreover have "net_inv (ts_change_skt ts s w) F {}"
    by (rule net_inv_cong [of w]) (use assms in \<open>auto simp: base_inv_def ts_change_skt_def\<close>)
  moreover have "sessions_ok (ts_change_skt ts s w) G" using assms by (simp add: base_inv_def sessions_ok_def)
  ultimately show "base_inv (ts_change_skt ts s w) F G" using assms by (simp add: base_inv_def)
qed

lemma change_skt_conns:
  assumes "conns_ok w G" and "s \<in> live w" and "ts \<in> set (G s_ts_uselst)"
  shows "conns_ok (ts_change_skt ts s w) G \<or> two_sessions (ts_change_skt ts s w) G s"
proof (cases "\<exists>t\<in>set (G s_ts_uselst). t \<noteq> ts \<and> ts_conn (ts_mem w t) = s")
  case True
  then show ?thesis using assms(3) by (auto simp: two_sessions_def)
next
  case False
  have "live (ts_change_skt ts s w) = live w" by (rule live_cong) simp
  then have "conns_ok (ts_change_skt ts s w) G" using assms False by (auto simp: conns_ok_def)
  then show ?thesis ..
qed

lemma served_change_skt:
  assumes "p2p_inv w F G" and "live w = live w0" and "s \<in> live w" and "ts \<in> set (G s_ts_uselst)"
  shows "served w0 s (ts_change_skt ts s w)"
  using base_inv_change_skt [of w F G ts s] change_skt_conns [of w G s ts] assms by (auto simp: served_def p2p_inv_def)

lemma alloc_new:
  assumes so: "sessions_ok w G" and f: "find_ts_by_auth auth w = Some 0"
    and a: "alloc_ts_instance pg mem s auth w = Some (ts, w1)" "ts \<noteq> 0"
  obtains m where "lts_rbmap_add (ts_set w1) ts = Some (0, m)" "sessions_ok (w1\<lparr> ts_set := m \<rparr>) (moved s_ts_uselst ts G)"
      "rbmap_dict m = (rbmap_dict (ts_set w))(hash33 auth \<mapsto> ts)"
      "ts_mem w1 = (ts_mem w)(ts := fresh_session auth s)" "skts w1 = (skts w)(s := (skts w s)\<lparr> app_ctx := ts \<rparr>)"
      "links w1 = links w" "timer_heap w1 = timer_heap w" "sock_cache_n w1 = sock_cache_n w" "current_conns w1 = current_conns w"
      "ts \<notin> set (G s_ts_uselst)"
proof -
  obtain x fs where g: "G s_ts_cachelst = x # fs"
    using alloc_none [OF so] a by (cases "G s_ts_cachelst") auto
  have "clone_token pg mem auth = Some auth"
  proof -
    have "dlist_in (ts_links w) s_ts_cachelst (x # fs)" using so g by (metis insertI1 lists_in_def sessions_ok_def)
    then have "\<not> dlist_empty s_ts_cachelst (ts_links w)" using dlist_empty_correct by blast
    then obtain t where "clone_token pg mem auth = Some t"
      using a by (auto simp: alloc_ts_instance_def tcp_session_init_def Let_def bind_eq_Some_conv)
    then show ?thesis by (auto simp: clone_token_def bind_eq_Some_conv split: if_splits)
  qed
  from session_login [OF so g this find_unused [OF so f], of s] obtain w1' m where x: "alloc_ts_instance pg mem s auth w = Some (x, w1')" and
    m: "lts_rbmap_add (ts_set w1') x = Some (0, m)" "sessions_ok (w1'\<lparr> ts_set := m \<rparr>) (moved s_ts_uselst x G)"
      "rbmap_dict m = (rbmap_dict (ts_set w))(hash33 auth \<mapsto> x)"
      "ts_mem w1' = (ts_mem w)(x := fresh_session auth s)" "skts w1' = (skts w)(s := (skts w s)\<lparr> app_ctx := x \<rparr>)"
      "links w1' = links w" "timer_heap w1' = timer_heap w" "sock_cache_n w1' = sock_cache_n w" "current_conns w1' = current_conns w"
    by blast
  have "x = ts" "w1' = w1" using x a by simp_all
  then show thesis using that m free_used_disjoint [OF so] g by (metis list.set_intros(1))
qed

lemma served_new_session:
  assumes i: "p2p_inv w F G" and s: "s \<in> live w" and f: "find_ts_by_auth auth w = Some 0"
    and a: "alloc_ts_instance pg mem s auth w = Some (ts, w1)" "ts \<noteq> 0"
  shows "\<exists>m. lts_rbmap_add (ts_set w1) ts = Some (0, m) \<and> served w s (w1\<lparr> ts_set := m \<rparr>)"
proof -
  have so: "sessions_ok w G" and b: "base_inv w F G" and c: "conns_ok w G" using i by (auto simp: p2p_inv_def base_inv_def)
  obtain m where m: "lts_rbmap_add (ts_set w1) ts = Some (0, m)" "sessions_ok (w1\<lparr> ts_set := m \<rparr>) (moved s_ts_uselst ts G)"
      "ts_mem w1 = (ts_mem w)(ts := fresh_session auth s)" "skts w1 = (skts w)(s := (skts w s)\<lparr> app_ctx := ts \<rparr>)"
      "links w1 = links w" "timer_heap w1 = timer_heap w" "sock_cache_n w1 = sock_cache_n w" "current_conns w1 = current_conns w"
    and n: "ts \<notin> set (G s_ts_uselst)"
    using alloc_new [OF so f a] by metis
  let ?w = "w1\<lparr> ts_set := m \<rparr>" and ?G = "moved s_ts_uselst ts G"
  have lv: "live ?w = live w" by (rule live_cong) (simp add: m(4))
  have "net_inv ?w F {}" by (rule net_inv_cong [of w]) (use b m in \<open>auto simp: base_inv_def\<close>)
  then have base: "base_inv ?w F ?G" using b m by (simp add: base_inv_def)
  have u: "set (?G s_ts_uselst) = insert ts (set (G s_ts_uselst))" by (auto simp: moved_def)
  have "conns_ok ?w ?G \<or> two_sessions ?w ?G s"
  proof (cases "\<exists>t\<in>set (G s_ts_uselst). ts_conn (ts_mem w t) = s")
    case True
    then show ?thesis using n unfolding two_sessions_def u by (auto simp: m(3) fresh_session_def)
  next
    case False
    have "conns_ok ?w ?G" unfolding conns_ok_def lv u
      using c s False n by (auto simp: conns_ok_def m(3,4) fresh_session_def)
    then show ?thesis ..
  qed
  then show ?thesis using m(1) base lv by (auto simp: served_def)
qed

lemma alloc_zero:
  assumes so: "sessions_ok w G" and a: "alloc_ts_instance pg mem s auth w = Some (0, w1)"
  shows "w1 = w"
proof (cases "G s_ts_cachelst")
  case Nil
  then show ?thesis using alloc_none [OF so Nil] a by simp
next
  case (Cons x fs)
  have "dlist_in (ts_links w) s_ts_cachelst (x # fs)" using so Cons by (metis insertI1 lists_in_def sessions_ok_def)
  from dlist_empty_correct [OF this] dlist_next [OF this]
  have "\<not> dlist_empty s_ts_cachelst (ts_links w)" "mp_next (ts_links w) s_ts_cachelst = x" by auto
  moreover have "x \<noteq> 0" using so Cons by (auto simp: sessions_ok_def cells_def)
  ultimately show ?thesis using a by (auto simp: alloc_ts_instance_def Let_def bind_eq_Some_conv)
qed

lemma login_served:
  assumes i: "p2p_inv w F G" and s: "s \<in> live w"
  shows "post (\<lambda>(ts, w'). served w s w') (login_session e s auth w)"
proof -
  have so: "sessions_ok w G" and c: "conns_ok w G" using i by (auto simp: p2p_inv_def base_inv_def)
  show ?thesis unfolding login_session_def
  proof (intro post_any, goal_cases)
    case (1 ts)
    show ?case
    proof (cases "ts = 0")
      case True
      show ?thesis unfolding True
      proof (simp, intro post_any post_prod, goal_cases)
        case (1 x t w1)
        show ?case
        proof (cases "t = 0")
          case True
          then have "alloc_ts_instance (rq_pagesize e) (rq_session_mem e) s auth w = Some (0, w1)" using 1 by simp
          from alloc_zero [OF so this] True show ?thesis using served_inv [OF i refl] by simp
        next
          case False
          then show ?thesis using served_new_session [OF i s] \<open>find_ts_by_auth auth w = Some ts\<close> \<open>ts = 0\<close> 1 by fastforce
        qed
      qed
    next
      case False
      note u = find_used(1) [OF so 1 False]
      have k: "ts_conn (ts_mem w ts) \<noteq> 0 \<Longrightarrow> ts_conn (ts_mem w ts) \<in> live w" using c u by (auto simp: conns_ok_def)
      have kk: "served w s (ts_change_skt ts s w1)" if "ts_conn (ts_mem w ts) \<noteq> 0" "kick (ts_conn (ts_mem w ts)) w = Some w1" for w1
      proof -
        have "p2p_inv w1 F G" "live w1 = live w" using kick_post [OF i k] that by (auto simp: post_def)
        then show ?thesis using served_change_skt [of w1 F G w s ts] s u by simp
      qed
      have "served w s w" by (rule served_inv [OF i refl])
      then show ?thesis using False served_change_skt [OF i refl s u] kk by (auto intro!: post_any)
    qed
  qed
qed


text \<open>The argument lookups only write the memory of the request.\<close>

lemma served_dispatch_rsp:
  assumes "p2p_inv w F G" and "live w = live w0"
  shows "post (\<lambda>(h', w'). served w0 s0 w') (send_rsp e kvs s h w)" "post (\<lambda>(h', w'). served w0 s0 w') (make_simple_rsp e no msg s h w)"
  using served_rsp [OF served_inv [OF assms]] .

lemma srv_login_served:
  assumes i: "p2p_inv w F G" and s: "s \<in> live w"
  shows "post (\<lambda>(h', w'). served w s w') (srv_login conf e s sjson h w)"
  unfolding srv_login_def
proof (intro post_any post_prod post_option served_dispatch_rsp(2) [OF i refl])
  fix x h1 auth1 auth p ts w1
  assume "login_session e s auth w = Some p" and p: "p = (ts, w1)"
  then have "served w s w1" using login_served [OF i s, of e auth] by (auto simp: post_def)
  then show "post (\<lambda>(h', w'). served w s w') (if ts = 0 then make_simple_rsp e E_SERVER_FAILED (lit ''server failed'') s h1 w1
    else send_rsp e [(K_ERRNO, E_SUCCESS), (K_ERRMSG, lit ''success''), (lit ''retinue_master'', conf_retinue_master conf),
      (lit ''retinue_vice'', conf_retinue_vice conf)] (ts_conn (ts_mem w1 ts)) h1 w1)"
    using served_rsp by (simp split: if_split)
qed

lemma soft_event_served:
  assumes i: "p2p_inv w F G" and s: "s \<in> live w"
  shows "p2p_inv (snd (lts_soft_event s b w)) (moved lts_post_list s F) G \<and> live (snd (lts_soft_event s b w)) = live w"
proof -
  have n: "net_inv w F {}" using i by (simp add: p2p_inv_def base_inv_def)
  let ?w1 = "upd_skt s (\<lambda>k. k\<lparr> writable := b \<rparr>) w"
  have e: "snd (lts_soft_event s b w) = list_move lts_post_list s ?w1"
    using s by (auto simp: lts_soft_event_def live_def lts_post_list_add_def)
  have lv: "live (list_move lts_post_list s ?w1) = live w" by (rule live_cong) simp
  have "net_inv ?w1 F {}" by (rule net_inv_upd [OF n]) simp_all
  then have "net_inv (list_move lts_post_list s ?w1) (moved lts_post_list s F) {}"
    by (rule net_inv_move) (use net_inv_live [OF n s] in auto)
  moreover have "current_conns (list_move lts_post_list s ?w1) = current_conns w" "ts_mem (list_move lts_post_list s ?w1) = ts_mem w"
     "ts_links (list_move lts_post_list s ?w1) = ts_links w" "ts_set (list_move lts_post_list s ?w1) = ts_set w"
    by (simp_all add: list_move_def upd_links_def upd_skt_def)
  ultimately show ?thesis using i lv unfolding e by (auto simp: p2p_inv_def base_inv_def sessions_ok_def conns_ok_def)
qed

lemma srv_talkto_served:
  assumes i: "p2p_inv w F G" and s: "s \<in> live w"
  shows "post (\<lambda>(h', w'). served w s w') (srv_talkto e s sjson h w)"
  unfolding srv_talkto_def Let_def
proof (intro post_any post_prod post_option post_sum served_dispatch_rsp(2) [OF i refl], goal_cases)
  case (1 _ _ h1 auth _ _ h2 peerauth _ _ h3 msg r ts' ts peer _ str_msg h4 y h5 w1 z w2)
  let ?p = "ts_conn (ts_mem w peer)"
  have b: "bufs_only w w1" "?p \<in> live w" using 1 send_rsp_bufs [of w ?p e] by (auto simp: post_def)
  note w1 = p2p_inv_bufs [OF i b(1)] bufs_only_fields(9) [OF b(1)]
  from soft_event_served [OF w1(1), of ?p True] b(2) w1(2) 1
  have "p2p_inv w2 (moved lts_post_list ?p F) G" "live w2 = live w" by auto
  then show ?case by (rule served_dispatch_rsp)
qed

lemma srv_getlinkinfo_served:
  assumes i: "p2p_inv w F G" and s: "s \<in> live w"
  shows "post (\<lambda>(h', w'). served w s w') (srv_getlinkinfo e s sjson h w)"
  unfolding srv_getlinkinfo_def Let_def
  by (intro post_any post_prod post_option post_sum post_if served_dispatch_rsp [OF i refl])

lemma srv_logout_served:
  assumes i: "p2p_inv w F G" and s: "s \<in> live w"
  shows "post (\<lambda>(h', w'). served w s w') (srv_logout e s sjson h w)"
  unfolding srv_logout_def Let_def
proof (intro post_any post_prod post_option post_if served_dispatch_rsp(2) [OF i refl], goal_cases)
  case (1 _ _ h1 auth ts w1 _ _ m _ _ h2)
  have so: "sessions_ok w G" using i by (simp add: p2p_inv_def base_inv_def)
  have u: "ts \<in> set (G s_ts_uselst)" using find_used(1) [OF so] 1 by auto
  have w1: "p2p_inv w1 F G" "live w1 = live w" using 1 kick_post [OF i, of s] s by (auto simp: post_def)
  let ?w = "free_ts_instance ts (w1\<lparr> ts_set := m \<rparr>)" and ?G = "moved s_ts_cachelst ts G"
  have so1: "sessions_ok w1 G" "net_inv w1 F {}" "conns_ok w1 G" "current_conns w1 < 2 ^ 63" using w1 by (auto simp: p2p_inv_def base_inv_def)
  have f: "skts ?w = skts w1" "links ?w = links w1" "timer_heap ?w = timer_heap w1" "sock_cache_n ?w = sock_cache_n w1"
    "current_conns ?w = current_conns w1" "ts_conn (ts_mem ?w x) = ts_conn (ts_mem w1 x)" for x
    by (simp_all add: free_ts_instance_def tcp_session_release_def Let_def upd_ts_def)
  have lv: "live ?w = live w1" by (simp add: live_def f)
  have "net_inv ?w F {}" by (rule net_inv_cong [OF so1(2)]) (simp_all add: f)
  moreover have "sessions_ok ?w ?G" using session_logout [OF so1(1) u] 1 by auto
  moreover have "set (?G s_ts_uselst) \<subseteq> set (G s_ts_uselst)" by (auto simp: moved_def)
  then have "conns_ok ?w ?G" using so1(3) unfolding conns_ok_def lv f by blast
  ultimately have "p2p_inv ?w F ?G" using so1(4) by (simp add: p2p_inv_def base_inv_def f)
  then show ?case using lv w1(2) by (intro served_dispatch_rsp) auto
qed

lemma dispatch_served:
  assumes i: "p2p_inv w F G" and s: "s \<in> live w"
  shows "post (served w s) (dispatch_request conf e s sjson h w)"
  unfolding dispatch_request_def srv_heartbeat_def
proof (intro post_any post_prod post_option, goal_cases)
  case (2 _ _ h1 itfc p h2 w1)
  have "post (\<lambda>(h', w'). served w s w') (if lts_str_compare itfc (lit ''heartbeat'') = 0 then make_simple_rsp e E_SUCCESS (lit ''success'') s h1 w
           else if lts_str_compare itfc (lit ''login'') = 0 then srv_login conf e s sjson h1 w
           else if lts_str_compare itfc (lit ''talkto'') = 0 then srv_talkto e s sjson h1 w
           else if lts_str_compare itfc (lit ''getlinkinfo'') = 0 then srv_getlinkinfo e s sjson h1 w
           else if lts_str_compare itfc (lit ''logout'') = 0 then srv_logout e s sjson h1 w
           else make_simple_rsp e E_NOT_SUPPORT (lit ''unsupport interface'') s h1 w)"
    by (intro post_if served_dispatch_rsp [OF i refl] srv_login_served [OF i s] srv_talkto_served [OF i s]
        srv_getlinkinfo_served [OF i s] srv_logout_served [OF i s])
  from postD [OF this] 2 show ?case by auto
qed simp

lemma service_served:
  assumes i: "p2p_inv w F G" and s: "s \<in> live w"
  shows "post (served w s) (p2p_fsm_service conf e s w)"
  unfolding p2p_fsm_service_def Let_def
proof (intro post_any post_prod post_if, goal_cases)
  case (1 c pool p sjson y rb h)
  note b = bufs_only_set(2) [of w s rb]
  have "post (\<lambda>w'. p2p_inv w' F G \<and> live w' = live (set_rbuf s rb w)) (kick s (set_rbuf s rb w))"
    by (rule post_weaken [OF kick_post [OF p2p_inv_bufs [OF i b]]]) (use s bufs_only_fields(9) [OF b] in auto)
  then show ?case using bufs_only_fields(9) [OF b] by (elim post_weaken) (auto intro: served_inv)
next
  case (2 c pool p sjson y rb h)
  note b = bufs_only_set(2) [of w s rb]
  have "post (served (set_rbuf s rb w) s) (dispatch_request conf e s sjson h (set_rbuf s rb w))"
    by (rule dispatch_served [OF p2p_inv_bufs [OF i b]]) (use s bufs_only_fields(9) [OF b] in simp)
  then show ?case using bufs_only_fields(9) [OF b] by (auto simp: served_def post_def)
qed


section \<open>Closing\<close>

lemma on_closing_app_only: "\<exists>w'. callback (on_closing (p2p_fsm_itfc conf env)) s w = Some w' \<and> app_only w w'"
  by (simp add: p2p_fsm_itfc_def callback_def p2p_fsm_on_closing_def Let_def app_only_def)

lemma on_closing_clears:
  assumes c: "conns_ok w G" and r: "p2p_fsm_on_closing s w = Some w'" and s: "s \<noteq> 0" and z: "0 \<notin> set (G s_ts_uselst)"
  shows "\<forall>ts\<in>set (G s_ts_uselst). ts_conn (ts_mem w' ts) \<noteq> 0 \<longrightarrow> ts_conn (ts_mem w' ts) \<noteq> s \<and>
    ts_conn (ts_mem w' ts) \<in> live w \<and> app_ctx (skts w' (ts_conn (ts_mem w' ts))) = ts"
    "ts_links w' = ts_links w" "ts_set w' = ts_set w" "auth_token (ts_mem w' ts) = auth_token (ts_mem w ts)"
  using c s z unfolding r [unfolded p2p_fsm_on_closing_def Let_def, simplified, symmetric] conns_ok_def
  by (auto split: if_splits)

lemma p2p_more: "net.more w' = net.more w \<Longrightarrow> ts_mem w' = ts_mem w \<and> ts_links w' = ts_links w \<and> ts_set w' = ts_set (w :: p2p)"
  by (cases w; cases w') simp

text \<open>Closing a connection detaches its session; afterwards no session points to the socket.\<close>

lemma close_keeps_p2p:
  assumes i: "p2p_inv w F G" and s: "s \<in> live w" and ka: "0 < ka"
  shows "\<exists>w'. lts_close_conn (p2p_fsm_itfc conf env) ka s w = Some w' \<and> live w' = live w - {s} \<and>
    p2p_inv w' (moved lts_sock_list s F) G \<and> (\<forall>ts\<in>set (G s_ts_uselst). ts_conn (ts_mem w' ts) \<noteq> s)"
proof -
  have n: "net_inv w F {}" and so: "sessions_ok w G" and c: "conns_ok w G" and b: "current_conns w < 2 ^ 63"
    using i by (auto simp: p2p_inv_def base_inv_def)
  have s0: "s \<noteq> 0" by (rule net_inv_live(1) [OF n s])
  obtain w1 where w1: "callback (on_closing (p2p_fsm_itfc conf env)) s w = Some w1" "app_only w w1"
    using on_closing_app_only by blast
  then have r: "p2p_fsm_on_closing s w = Some w1" by (simp add: callback_def p2p_fsm_itfc_def)
  have "0 \<notin> set (G s_ts_uselst)" using so by (auto simp: sessions_ok_def cells_def)
  note cl = on_closing_clears [OF c r s0 this]
  from lts_close_conn_correct [OF n ka s empty_subsetI _ w1] obtain w' where w':
      "lts_close_conn (p2p_fsm_itfc conf env) ka s w = Some w'" "net_inv w' (moved lts_sock_list s F) {}" "live w' = live w - {s}"
      "\<forall>x. x \<noteq> s \<longrightarrow> skts w' x = skts w1 x" "net.more w' = net.more w1" by auto
  note m = p2p_more [OF w'(5)]
  have "finite (live w)" by (rule net_inv_live(5) [OF n s])
  then have "current_conns w' \<le> current_conns w" using w'(2,3) n by (simp add: net_inv_def card_mono)
  moreover have "sessions_ok w' G" using so cl(2-4) m by (simp add: sessions_ok_def)
  moreover have cc: "\<forall>ts\<in>set (G s_ts_uselst). ts_conn (ts_mem w' ts) \<noteq> 0 \<longrightarrow> ts_conn (ts_mem w' ts) \<noteq> s \<and>
    ts_conn (ts_mem w' ts) \<in> live w \<and> app_ctx (skts w' (ts_conn (ts_mem w' ts))) = ts"
    using cl(1) m w'(4) by metis
  then have "conns_ok w' G" unfolding conns_ok_def w'(3) by blast
  ultimately have "p2p_inv w' (moved lts_sock_list s F) G" using w'(2) b by (simp add: p2p_inv_def base_inv_def)
  then show ?thesis using w'(1,3) cc s0 by metis
qed


section \<open>Two logins on one socket\<close>

text \<open>What a login leaves behind: the session of the token has the socket, all others are as before.\<close>

lemma login_attaches:
  assumes i: "p2p_inv w F G" and s: "s \<in> live w" and l: "login_session e s auth w = Some (b, w1)" "b \<noteq> 0"
  shows "ts_conn (ts_mem w1 b) = s" "app_ctx (skts w1 s) = b" "\<forall>t. t \<noteq> b \<longrightarrow> ts_mem w1 t = ts_mem w t"
    "find_ts_by_auth a w = Some x \<Longrightarrow> x \<noteq> 0 \<Longrightarrow> find_ts_by_auth a w1 = Some x"
proof -
  have so: "sessions_ok w G" and c: "conns_ok w G" and r: "rbmap_inv (ts_set w)" using i by (auto simp: p2p_inv_def base_inv_def sessions_ok_def)
  have "ts_conn (ts_mem w1 b) = s \<and> app_ctx (skts w1 s) = b \<and> (\<forall>t. t \<noteq> b \<longrightarrow> ts_mem w1 t = ts_mem w t) \<and>
    (find_ts_by_auth a w = Some x \<longrightarrow> x \<noteq> 0 \<longrightarrow> find_ts_by_auth a w1 = Some x)"
  proof -
    obtain ts where ts: "find_ts_by_auth auth w = Some ts" using l(1) by (auto simp: login_session_def bind_eq_Some_conv)
    show ?thesis
    proof (cases "ts = 0")
      case True
      then obtain w0 where al: "alloc_ts_instance (rq_pagesize e) (rq_session_mem e) s auth w = Some (b, w0)"
        using l ts by (auto simp: login_session_def bind_eq_Some_conv split: if_splits)
      note f = ts [unfolded True]
      obtain m where m: "lts_rbmap_add (ts_set w0) b = Some (0, m)" "sessions_ok (w0\<lparr> ts_set := m \<rparr>) (moved s_ts_uselst b G)"
        "rbmap_dict m = (rbmap_dict (ts_set w))(hash33 auth \<mapsto> b)"
        "ts_mem w0 = (ts_mem w)(b := fresh_session auth s)" "skts w0 = (skts w)(s := (skts w s)\<lparr> app_ctx := b \<rparr>)"
        using alloc_new [OF so f al l(2)] by metis
      have w1: "w1 = w0\<lparr> ts_set := m \<rparr>" using l ts True al m(1) by (simp add: login_session_def)
      have r1: "rbmap_inv (ts_set w1)" using m(2) unfolding w1 by (simp add: sessions_ok_def)
      have "find_ts_by_auth a w1 = Some x" if a: "find_ts_by_auth a w = Some x" "x \<noteq> 0"
      proof -
        have "hash33 a \<noteq> hash33 auth" using find_used(2) [OF so a] find_unused [OF so f] by auto
        then have "rbmap_dict (ts_set w1) (hash33 a) = Some x" using find_used(2) [OF so a] m(3) w1 by simp
        then show ?thesis using find_ts_by_auth_eq [OF r1, of a] by simp
      qed
      then show ?thesis using m(4,5) w1 by (simp add: fresh_session_def)
    next
      case False
      note u = find_used(1) [OF so ts False]
      have d: "find_ts_by_auth a w' = find_ts_by_auth a w" if "ts_set w' = ts_set w" for w' :: p2p
        using that by (simp add: find_ts_by_auth_def)
      show ?thesis
      proof (cases "ts_conn (ts_mem w ts) = s")
        case True
        then have "w1 = w" "b = ts" using l ts False net_inv_live(1) [of w F "{}" s] i s
          by (auto simp: login_session_def p2p_inv_def base_inv_def)
        then show ?thesis using True c u net_inv_live(1) [of w F "{}" s] i s by (auto simp: conns_ok_def p2p_inv_def base_inv_def)
      next
        case neq: False
        have "\<exists>h. w1 = ts_change_skt ts s (w\<lparr> timer_heap := h \<rparr>) \<and> b = ts"
        proof (cases "ts_conn (ts_mem w ts) = 0")
          case True
          then show ?thesis using l ts False by (intro exI [of _ "timer_heap w"]) (auto simp: login_session_def)
        next
          case k: False
          then show ?thesis using l ts False neq by (auto simp: login_session_def bind_eq_Some_conv kick_def)
        qed
        then obtain h where w1: "w1 = ts_change_skt ts s (w\<lparr> timer_heap := h \<rparr>)" "b = ts" by blast
        then show ?thesis using d [of w1] by simp
      qed
    qed
  qed
  then show "ts_conn (ts_mem w1 b) = s" "app_ctx (skts w1 s) = b" "\<forall>t. t \<noteq> b \<longrightarrow> ts_mem w1 t = ts_mem w t"
    "find_ts_by_auth a w = Some x \<Longrightarrow> x \<noteq> 0 \<Longrightarrow> find_ts_by_auth a w1 = Some x" by blast+
qed

lemma second_login_dangles:
  assumes i: "p2p_inv w F G" and s: "s \<in> live w" and ka: "0 < ka"
    and a: "find_ts_by_auth tok w = Some a" "a \<noteq> 0" "ts_conn (ts_mem w a) = s"
    and l: "login_session e s tok' w = Some (b, w1)" "b \<noteq> 0" "b \<noteq> a"
  shows "\<exists>w2. lts_close_conn (p2p_fsm_itfc conf env) ka s w1 = Some w2 \<and> find_ts_by_auth tok w2 = Some a \<and>
    ts_conn (ts_mem w2 a) = s \<and> (\<forall>e kvs h. send_rsp e kvs (ts_conn (ts_mem w2 a)) h w2 = None)"
proof -
  note at = login_attaches [OF i s l(1,2)]
  have "served w s w1" using postD [OF login_served [OF i s] l(1)] by simp
  then obtain F1 G1 where w1: "base_inv w1 F1 G1" "s \<in> live w1" using s by (auto simp: served_def)
  then have n: "net_inv w1 F1 {}" and s0: "s \<noteq> 0" using net_inv_live(1) [of w1 F1 "{}" s] by (auto simp: base_inv_def)
  obtain w1' where w1': "callback (on_closing (p2p_fsm_itfc conf env)) s w1 = Some w1'" "app_only w1 w1'"
    using on_closing_app_only by blast
  then have r: "p2p_fsm_on_closing s w1 = Some w1'" by (simp add: callback_def p2p_fsm_itfc_def)
  then have w1'': "ts_mem w1' a = ts_mem w1 a" "ts_set w1' = ts_set w1" "ts_conn (ts_mem w1 a) = s"
    using at l(3) a(3) s0 by (auto simp: p2p_fsm_on_closing_def Let_def split: if_splits)
  from lts_close_conn_correct [OF n ka w1(2) empty_subsetI _ w1'] obtain w2 where w2:
      "lts_close_conn (p2p_fsm_itfc conf env) ka s w1 = Some w2" "live w2 = live w1 - {s}" "net.more w2 = net.more w1'" by auto
  note m = p2p_more [OF w2(3)]
  have "find_ts_by_auth tok w2 = Some a" using at(4) [OF a(1,2)] m w1''(2) by (simp add: find_ts_by_auth_def)
  moreover have "ts_conn (ts_mem w2 a) = s" using m w1'' by simp
  moreover have "conn_of (skts w2 s) = None" using w2(2) by (auto simp: live_def)
  ultimately show ?thesis using w2(1) by (auto simp: send_rsp_def)
qed

end
