(* ===== verification/P2pProps.thy ===== *)
theory P2pProps
  imports P2pInv ServerProps
begin

text \<open>
  What a client of the P2P server sees: the response a request gets, and what logging in, logging out
  and closing do to the sessions.

  The packets are those of \<open>ProtoSjsonb\<close>; a response is described by its JSON text.  The addresses
  \<open>rq_tmp\<close> and \<open>rq_rsp\<close> are those of objects on the stack, below the memory the requests allocate.
\<close>

section \<open>Responses\<close>

text \<open>The object that \<open>add_kvs\<close> builds: keys and values are C strings, the first value of a key wins.\<close>

definition rsp_obj :: "(bstr \<times> bstr) list \<Rightarrow> (bstr \<times> json) list \<Rightarrow> (bstr \<times> json) list" where
  "rsp_obj kvs o0 = fold (\<lambda>(k, v). ins_kv (cstr k) (JStr (cstr v))) kvs o0"

lemma cstr_no_nul: "0 \<notin> set (cstr s)"
  by (auto simp: cstr_def dest: set_takeWhileD)

lemma length_cstr: "length (cstr s) \<le> length s"
  by (simp add: cstr_def length_takeWhile_le)

lemma add_kvs_correct:
  assumes "obj_rep h ob ns o0" and "sorted_kvs o0" and "ob < jh_next h" and "pool_grants h lim" and "64 \<le> lim"
    and "\<forall>(k, v)\<in>set kvs. int (length k) < lim \<and> int (length v) < lim"
  shows "\<exists>h' ns'. add_kvs ob kvs h = Some h' \<and> obj_rep h' ob ns' (rsp_obj kvs o0) \<and> sorted_kvs (rsp_obj kvs o0) \<and>
    pool_grants h' lim"
  using assms
proof (induction kvs arbitrary: h ns o0)
  case Nil
  then show ?case by (auto simp: rsp_obj_def)
next
  case (Cons kv kvs)
  obtain k v where kv: "kv = (k, v)" by (cases kv)
  have l: "int (length (cstr k)) < lim" "int (length (cstr v)) < lim"
    using Cons.prems(6) length_cstr [of k] length_cstr [of v] by (auto simp: kv)
  let ?o = "ins_kv (cstr k) (JStr (cstr v)) o0"
  obtain a h1 ns1 where h1: "lts_sjson_add_kv2 ob (cstr k) (cstr v) h = Some (a, h1)" "obj_rep h1 ob ns1 ?o"
      "frame_obj ob h h1" "pool_grants h1 lim"
    using lts_sjson_add_kv2_correct [OF Cons.prems(1-5) l cstr_no_nul] by blast
  have "ob < jh_next h1" using h1(3) Cons.prems(3) by (auto simp: frame_obj_def)
  from Cons.IH [OF h1(2) ins_kv_sorted [OF Cons.prems(2) cstr_no_nul] this h1(4) Cons.prems(5)] Cons.prems(6) h1(1)
  show ?case by (simp add: kv lts_sjson_add_kv_def rsp_obj_def)
qed

definition rsp_text :: "(bstr \<times> bstr) list \<Rightarrow> bstr" where
  "rsp_text kvs = jtext (JObj (rsp_obj kvs []))"

text \<open>Memory and room for a response.\<close>

definition rsp_fits :: "p2p_env \<Rightarrow> (bstr \<times> bstr) list \<Rightarrow> int \<Rightarrow> conn \<Rightarrow> bool" where
  "rsp_fits e kvs lim c \<longleftrightarrow> 64 \<le> lim \<and> int (length (rsp_text kvs)) < lim \<and> (\<forall>(k, v)\<in>set kvs. int (length k) < lim \<and> int (length v) < lim) \<and>
     buffer_ok (sbuf c) \<and> LEN_HEADER + int (length (rsp_text kvs)) \<le> lts_buffer_space (sbuf c)"

lemma send_rsp_correct:
  assumes c: "conn_of (skts w s) = Some c" and r: "rq_rsp e < jh_next h" and g: "pool_grants h lim" and f: "rsp_fits e kvs lim c"
  shows "\<exists>h' sb. send_rsp e kvs s h w = Some (h', set_sbuf s sb w) \<and> buffer_ok sb \<and> pending sb = pending (sbuf c) @ packet (rsp_text kvs)"
proof -
  let ?h = "lts_empty_sjson (rq_rsp e) h"
  have h: "obj_rep ?h (rq_rsp e) [] []" "jh_next ?h = jh_next h" "jh_pool ?h = jh_pool h"
    by (rule empty_obj) (simp_all add: lts_empty_sjson_def lts_key_sjson_def)
  have "pool_grants ?h lim" "rq_rsp e < jh_next ?h" using g r h by (simp_all add: pool_grants_def)
  then obtain h1 ns where h1: "add_kvs (rq_rsp e) kvs ?h = Some h1" "obj_rep h1 (rq_rsp e) ns (rsp_obj kvs [])" "pool_grants h1 lim"
    using add_kvs_correct [OF h(1) sorted_kvs_Nil, of lim kvs] f by (auto simp: rsp_fits_def)
  then have j: "jrep (JObj (rsp_obj kvs [])) h1 (rq_rsp e)" using jrep_obj_rep by blast
  have m: "jh_next h1 \<noteq> 0" "jh_pool h1 (jh_next h1 + 1) (int (length (jtext (JObj (rsp_obj kvs [])))) + 1)"
    using h1(3) f by (auto simp: pool_grants_def rsp_fits_def rsp_text_def)
  obtain sb where "lts_proto_sjsonb_encode (rq_base e) (rq_pagesize e) (rq_mem e) (rq_junk e) (rq_rsp e) (sbuf c) h1 =
      Some (0, sb, h1\<lparr> jh_next := jh_next h1 + 2 \<rparr>)" "buffer_ok sb" "pending sb = pending (sbuf c) @ packet (rsp_text kvs)"
    using lts_proto_sjsonb_encode_correct [OF j m, of "sbuf c"] f unfolding rsp_fits_def rsp_text_def by blast
  then show ?thesis using c h1(1) by (intro exI [of _ "h1\<lparr> jh_next := jh_next h1 + 2 \<rparr>"] exI [of _ sb]) (simp add: send_rsp_def)
qed

section \<open>Requests\<close>

lemma get_arg_correct:
  assumes r: "obj_rep h ob ns kvs" and s: "sorted_kvs kvs" and t: "rq_tmp e < ob" and k: "map_of kvs k = Some (JStr v)" "0 \<notin> set k"
    and n: "ob < jh_next h"
  shows "\<exists>h'. get_arg e ob k h = Some (Some v, h') \<and> jh_next h' = jh_next h \<and> jh_pool h' = jh_pool h \<and>
    (\<exists>ns'. obj_rep h' ob ns' kvs)"
proof -
  have tree: "obj_tree (jh_tree h ob) ns" and b: "\<forall>a\<in>set ns. ob < a \<and> a < jh_next h" and m: "members h ns kvs" using r by (auto simp: obj_rep_def)
  have tn: "rq_tmp e \<notin> set ns" using b t by auto
  let ?h = "h\<lparr> jh_key := (jh_key h)(rq_tmp e := k) \<rparr>"
  have "\<exists>a. find (\<lambda>a. jh_key h a = k) ns = Some a \<and> a \<in> set ns \<and> jrep (JStr v) h a"
    using m k(1) by (induction rule: list_all2_induct) (fastforce split: if_splits)+
  then obtain a where a: "find (\<lambda>a. jh_key h a = k) ns = Some a" "a \<in> set ns" "jh_type h a = STRING_VALUE" "jh_str h a = v" by auto
  have "lts_sjson_get_obj_node (rq_tmp e) ob k h = Some (a, ?h)"
    using get_obj_node_correct [OF tree obj_rep_keys [OF r s] tn k(2)] a(1) by auto
  moreover have "a \<noteq> 0" using b a(2) by auto
  moreover have "jrep (JObj kvs) ?h ob" 
  proof -
    have "jrep (JObj kvs) h ob" using r jrep_obj_rep by blast
    then show ?thesis by (rule jrep_frame) (use t tn in \<open>auto simp: same_cell_def\<close>)
  qed
  then have "\<exists>ns'. obj_rep ?h ob ns' kvs" using jrep_obj_rep by blast
  ultimately show ?thesis using a(3,4) by (simp add: get_arg_def)
qed

text \<open>A request: a packet with the object \<open>kvs\<close> is next in the receive buffer of \<open>s\<close>, \<open>rest\<close> follows, and
  there is memory to decode it.\<close>

definition request :: "p2p_env \<Rightarrow> int \<Rightarrow> addr \<Rightarrow> (bstr \<times> json) list \<Rightarrow> bstr \<Rightarrow> p2p \<Rightarrow> bool" where
  "request e lim s kvs rest w \<longleftrightarrow> (\<exists>c. conn_of (skts w s) = Some c \<and> rq_pool e \<and> buffer_ok (rbuf c) \<and>
     pending (rbuf c) = packet (jtext (JObj kvs)) @ rest \<and> int (length (pending (rbuf c))) < 2 ^ 31 \<and>
     jgood (JObj kvs) \<and> (\<forall>x\<in>set (jtext (JObj kvs)). x \<notin> set sjson_invisible) \<and> length (jtext (JObj kvs)) \<le> 4096 \<and>
     pool_grants (rq_heap e) lim \<and> 72 \<le> lim \<and> rq_tmp e < jh_next (rq_heap e) \<and> rq_rsp e < jh_next (rq_heap e))"

lemma request_decoded:
  assumes r: "request e lim s kvs rest w" and n: "norm (JObj kvs) = JObj nkvs"
  shows "\<exists>rb h ns. p2p_fsm_service conf e s w = dispatch_request conf e s (jh_next (rq_heap e)) h (set_rbuf s rb w) \<and>
    obj_rep h (jh_next (rq_heap e)) ns nkvs \<and> sorted_kvs nkvs \<and> pool_grants h lim \<and> jh_next (rq_heap e) < jh_next h \<and>
    pending rb = rest \<and> buffer_ok rb"
proof -
  obtain c where c: "conn_of (skts w s) = Some c" "rq_pool e" "buffer_ok (rbuf c)" "pending (rbuf c) = packet (jtext (JObj kvs)) @ rest"
      "int (length (pending (rbuf c))) < 2 ^ 31" "jgood (JObj kvs)" "\<forall>x\<in>set (jtext (JObj kvs)). x \<notin> set sjson_invisible"
      "length (jtext (JObj kvs)) \<le> 4096" "pool_grants (rq_heap e) lim" "72 \<le> lim"
    using r by (auto simp: request_def)
  define t where "t = jtext (JObj kvs)"
  have t: "filter (\<lambda>c. c \<notin> set sjson_invisible) t = jtext (JObj kvs)" "2 \<le> length t" "length t \<le> 4096"
    using c(7,8) by (simp_all add: t_def filter_id_conv)
  have p: "pending (rbuf c) = [] @ header_bytes (json_header (length t)) @ [] @ t @ rest" using c(4) by (simp add: packet_def t_def)
  have hd: "unat (content_len (json_header (length t))) = length t" "magic_no (json_header (length t)) = MAGIC_NO"
    "proto_ver (json_header (length t)) = PROTO_VER" "unat (content_ofst (json_header (length t))) = 20 + length ([] :: bstr)"
    using content_len_json t(3) by (simp_all add: json_header_def)
  have g: "pool_grants (rq_heap e) 72" "jh_next (rq_heap e) \<noteq> 0" using c(9,10) by (auto simp: pool_grants_def)
  obtain rb h ns nkvs' where d: "lts_proto_sjsonb_decode (rbuf c) (rq_heap e) = Some (jh_next (rq_heap e), rb, h)"
      "norm (JObj kvs) = JObj nkvs'" "obj_rep h (jh_next (rq_heap e)) ns nkvs'" "sorted_kvs nkvs'"
      "jh_next (rq_heap e) < jh_next h" "jh_pool h = jh_pool (rq_heap e)" "buffer_ok rb" "drop (length ([] :: bstr)) (pending rb) = rest"
    using lts_proto_sjsonb_decode_obj [OF c(3) p c(5) _ hd(2-4,1) t(2,3,1) c(6) g(1)] by auto
  have "pool_grants h lim" using d(5,6) c(9) by (simp add: pool_grants_def)
  moreover have "\<exists>pool. lts_create_pool (rq_pool e) 4096 = Some pool" using c(2) by (simp add: lts_create_pool_def Let_def)
  moreover have "nkvs' = nkvs" using d(2) n by simp
  ultimately show ?thesis using c(1) d g(2)
    by (intro exI [of _ rb] exI [of _ h] exI [of _ ns]) (auto simp: p2p_fsm_service_def)
qed

text \<open>The part of the dispatch that all interfaces share.\<close>

lemma dispatched:
  assumes o: "obj_rep h ob ns kvs" "sorted_kvs kvs" "rq_tmp e < ob" "ob < jh_next h"
    and k: "map_of kvs (lit ''interface'') = Some (JStr itfc)"
  shows "\<exists>h' ns'. jh_next h' = jh_next h \<and> jh_pool h' = jh_pool h \<and> obj_rep h' ob ns' kvs \<and>
    dispatch_request conf e s ob h w = do {
      (_, w) \<leftarrow> (if lts_str_compare itfc (lit ''heartbeat'') = 0 then srv_heartbeat e s h' w
           else if lts_str_compare itfc (lit ''login'') = 0 then srv_login conf e s ob h' w
           else if lts_str_compare itfc (lit ''talkto'') = 0 then srv_talkto e s ob h' w
           else if lts_str_compare itfc (lit ''getlinkinfo'') = 0 then srv_getlinkinfo e s ob h' w
           else if lts_str_compare itfc (lit ''logout'') = 0 then srv_logout e s ob h' w
           else make_simple_rsp e E_NOT_SUPPORT (lit ''unsupport interface'') s h' w);
      Some w }"
proof -
  have "0 \<notin> set (lit ''interface'')" by (simp add: lit_def)
  from get_arg_correct [OF o(1-3) k this o(4)] obtain h' ns' where
    "get_arg e ob (lit ''interface'') h = Some (Some itfc, h')" "jh_next h' = jh_next h" "jh_pool h' = jh_pool h" "obj_rep h' ob ns' kvs"
    by blast
  then show ?thesis by (intro exI [of _ h'] exI [of _ ns']) (simp add: dispatch_request_def)
qed

section \<open>Answers\<close>

definition ok_rsp :: "(bstr \<times> bstr) list" where
  "ok_rsp = [(K_ERRNO, E_SUCCESS), (K_ERRMSG, lit ''success'')]"

definition login_rsp :: "lts_conf_p2p_fsm \<Rightarrow> (bstr \<times> bstr) list" where
  "login_rsp conf = [(K_ERRNO, E_SUCCESS), (K_ERRMSG, lit ''success''),
     (lit ''retinue_master'', conf_retinue_master conf), (lit ''retinue_vice'', conf_retinue_vice conf)]"

text \<open>The request is consumed and the response is pending on the socket.\<close>

definition answered :: "p2p \<Rightarrow> addr \<Rightarrow> bstr \<Rightarrow> (bstr \<times> bstr) list \<Rightarrow> p2p \<Rightarrow> bool" where
  "answered w s rest kvs w' \<longleftrightarrow> (\<exists>c c'. conn_of (skts w s) = Some c \<and> conn_of (skts w' s) = Some c' \<and> pending (rbuf c') = rest \<and>
     pending (sbuf c') = pending (sbuf c) @ packet (rsp_text kvs))"

lemma lit_compare [simp]:
  "lts_str_compare (lit ''heartbeat'') (lit ''heartbeat'') = 0" "lts_str_compare (lit ''login'') (lit ''login'') = 0"
  "lts_str_compare (lit ''login'') (lit ''heartbeat'') \<noteq> 0"
  by code_simp+

lemma heartbeat_response:
  assumes r: "request e lim s kvs rest w" and n: "norm (JObj kvs) = JObj nkvs"
    and k: "map_of nkvs (lit ''interface'') = Some (JStr (lit ''heartbeat''))"
    and f: "conn_of (skts w s) = Some c" "rsp_fits e ok_rsp lim c"
  shows "\<exists>w'. p2p_fsm_service conf e s w = Some w' \<and> answered w s rest ok_rsp w' \<and> bufs_only w w'"
proof -
  obtain rb h ns where d: "p2p_fsm_service conf e s w = dispatch_request conf e s (jh_next (rq_heap e)) h (set_rbuf s rb w)"
      "obj_rep h (jh_next (rq_heap e)) ns nkvs" "sorted_kvs nkvs" "pool_grants h lim" "jh_next (rq_heap e) < jh_next h"
      "pending rb = rest"
    using request_decoded [OF r n] by blast
  have t: "rq_tmp e < jh_next (rq_heap e)" "rq_rsp e < jh_next (rq_heap e)" using r by (auto simp: request_def)
  obtain h' where h': "jh_next h' = jh_next h" "jh_pool h' = jh_pool h"
      "p2p_fsm_service conf e s w = do { (_, w) \<leftarrow> srv_heartbeat e s h' (set_rbuf s rb w); Some w }"
    using dispatched [OF d(2,3) t(1) d(5) k, of conf s "set_rbuf s rb w"] d(1) by auto
  have c: "conn_of (skts (set_rbuf s rb w) s) = Some (c\<lparr> rbuf := rb \<rparr>)" using f(1) by (simp add: set_rbuf_def)
  have "rq_rsp e < jh_next h'" "pool_grants h' lim" using t(2) d(4,5) h'(1,2) by (simp_all add: pool_grants_def)
  moreover have "rsp_fits e ok_rsp lim (c\<lparr> rbuf := rb \<rparr>)" using f(2) by (simp add: rsp_fits_def)
  ultimately obtain h2 sb where "send_rsp e ok_rsp s h' (set_rbuf s rb w) = Some (h2, set_sbuf s sb (set_rbuf s rb w))"
      "pending sb = pending (sbuf c) @ packet (rsp_text ok_rsp)"
    using send_rsp_correct [OF c] by fastforce
  then have "p2p_fsm_service conf e s w = Some (set_sbuf s sb (set_rbuf s rb w))" "answered w s rest ok_rsp (set_sbuf s sb (set_rbuf s rb w))"
    using h'(3) f(1) d(6) by (simp_all add: srv_heartbeat_def make_simple_rsp_def ok_rsp_def answered_def set_sbuf_def set_rbuf_def)
  moreover have "bufs_only w (set_sbuf s sb (set_rbuf s rb w))"
    unfolding set_sbuf_def set_rbuf_def bufs_only_def by (auto simp: live_def option.map_sel)
  ultimately show ?thesis by blast
qed

text \<open>Sending a response changes only the buffer, so the sessions stay as they are.\<close>

lemma set_buf_p2p [simp]:
  "ts_mem (set_sbuf s b w) = ts_mem w" "ts_links (set_sbuf s b w) = ts_links w" "ts_set (set_sbuf s b w) = ts_set w"
  "ts_mem (set_rbuf s b w) = ts_mem w" "ts_links (set_rbuf s b w) = ts_links w" "ts_set (set_rbuf s b w) = ts_set w"
  "app_ctx (skts (set_sbuf s b w) x) = app_ctx (skts w x)" "app_ctx (skts (set_rbuf s b w) x) = app_ctx (skts w x)"
  by (simp_all add: set_sbuf_def set_rbuf_def upd_skt_def)

lemma new_login:
  assumes i: "sessions_ok w G" "G s_ts_cachelst = ts # fs" and n: "find_ts_by_auth tok w = Some 0"
    and c: "clone_token (rq_pagesize e) (rq_session_mem e) tok = Some tok"
  shows "\<exists>w'. login_session e s tok w = Some (ts, w') \<and> ts \<noteq> 0 \<and> sessions_ok w' (moved s_ts_uselst ts G) \<and>
    ts_mem w' = (ts_mem w)(ts := fresh_session tok s) \<and> skts w' = (skts w)(s := (skts w s)\<lparr> app_ctx := ts \<rparr>) \<and>
    find_ts_by_auth tok w' = Some ts"
proof -
  have "rbmap_dict (ts_set w) (hash33 tok) = None" by (rule find_unused [OF i(1) n])
  from session_login [OF i c this] obtain w1 m where
    w1: "alloc_ts_instance (rq_pagesize e) (rq_session_mem e) s tok w = Some (ts, w1)" "lts_rbmap_add (ts_set w1) ts = Some (0, m)"
      "ts \<noteq> 0" "sessions_ok (w1\<lparr> ts_set := m \<rparr>) (moved s_ts_uselst ts G)" "rbmap_dict m = (rbmap_dict (ts_set w))(hash33 tok \<mapsto> ts)"
      "ts_mem w1 = (ts_mem w)(ts := fresh_session tok s)" "skts w1 = (skts w)(s := (skts w s)\<lparr> app_ctx := ts \<rparr>)"
    by blast
  let ?w' = "w1\<lparr> ts_set := m \<rparr>"
  have "rbmap_inv (ts_set ?w')" using w1(4) by (simp add: sessions_ok_def)
  then have "find_ts_by_auth tok ?w' = Some ts" using w1(5) by (simp add: find_ts_by_auth_eq)
  then show ?thesis using n w1 by (intro exI [of _ ?w']) (simp add: login_session_def)
qed

lemma login_response:
  assumes r: "request e lim s kvs rest w" and n: "norm (JObj kvs) = JObj nkvs"
    and k: "map_of nkvs (lit ''interface'') = Some (JStr (lit ''login''))" "map_of nkvs (lit ''auth'') = Some (JStr tok)"
    and i: "sessions_ok w G" "G s_ts_cachelst = ts # fs" and nl: "find_ts_by_auth tok w = Some 0"
    and c: "clone_token (rq_pagesize e) (rq_session_mem e) tok = Some tok"
    and f: "conn_of (skts w s) = Some cn" "rsp_fits e (login_rsp conf) lim cn"
  shows "\<exists>w'. p2p_fsm_service conf e s w = Some w' \<and> answered w s rest (login_rsp conf) w' \<and>
    sessions_ok w' (moved s_ts_uselst ts G) \<and> find_ts_by_auth tok w' = Some ts \<and> ts_mem w' ts = fresh_session tok s \<and>
    app_ctx (skts w' s) = ts"
proof -
  obtain rb h ns where d: "p2p_fsm_service conf e s w = dispatch_request conf e s (jh_next (rq_heap e)) h (set_rbuf s rb w)"
      "obj_rep h (jh_next (rq_heap e)) ns nkvs" "sorted_kvs nkvs" "pool_grants h lim" "jh_next (rq_heap e) < jh_next h"
      "pending rb = rest"
    using request_decoded [OF r n] by blast
  let ?w = "set_rbuf s rb w" and ?ob = "jh_next (rq_heap e)"
  have t: "rq_tmp e < ?ob" "rq_rsp e < ?ob" using r by (auto simp: request_def)
  obtain h1 ns1 where h1: "jh_next h1 = jh_next h" "jh_pool h1 = jh_pool h" "obj_rep h1 ?ob ns1 nkvs"
      "p2p_fsm_service conf e s w = do { (_, w) \<leftarrow> srv_login conf e s ?ob h1 ?w; Some w }"
    using dispatched [OF d(2,3) t(1) d(5) k(1), of conf s ?w] d(1) by auto
  have "0 \<notin> set (lit ''auth'')" "?ob < jh_next h1" using d(5) h1(1) by (simp_all add: lit_def)
  from get_arg_correct [OF h1(3) d(3) t(1) k(2) this] obtain h2 where
    h2: "get_arg e ?ob (lit ''auth'') h1 = Some (Some tok, h2)" "jh_next h2 = jh_next h1" "jh_pool h2 = jh_pool h1" by blast
  have so: "sessions_ok ?w G" and nl': "find_ts_by_auth tok ?w = Some 0" using i(1) nl by (simp_all add: sessions_ok_def find_ts_by_auth_def)
  from new_login [OF so i(2) nl' c, of s] obtain w2 where
    w2: "login_session e s tok ?w = Some (ts, w2)" "ts \<noteq> 0" "sessions_ok w2 (moved s_ts_uselst ts G)"
      "ts_mem w2 = (ts_mem ?w)(ts := fresh_session tok s)" "skts w2 = (skts ?w)(s := (skts ?w s)\<lparr> app_ctx := ts \<rparr>)"
      "find_ts_by_auth tok w2 = Some ts" by blast
  have c2: "conn_of (skts w2 s) = Some (cn\<lparr> rbuf := rb \<rparr>)" using f(1) w2(5) by (simp add: set_rbuf_def)
  have cs: "ts_conn (ts_mem w2 ts) = s" using w2(4) by (simp add: fresh_session_def)
  have "rq_rsp e < jh_next h2" "pool_grants h2 lim" using t(2) d(4,5) h1(1,2) h2(2,3) by (simp_all add: pool_grants_def)
  moreover have "rsp_fits e (login_rsp conf) lim (cn\<lparr> rbuf := rb \<rparr>)" using f(2) by (simp add: rsp_fits_def)
  ultimately obtain h3 sb where sr: "send_rsp e (login_rsp conf) s h2 w2 = Some (h3, set_sbuf s sb w2)"
      "pending sb = pending (sbuf cn) @ packet (rsp_text (login_rsp conf))"
    using send_rsp_correct [OF c2] by fastforce
  let ?w' = "set_sbuf s sb w2"
  have "p2p_fsm_service conf e s w = Some ?w'"
    using h1(4) h2(1) w2(1,2) sr(1) cs by (simp add: srv_login_def login_rsp_def)
  moreover have "conn_of (skts ?w' s) = Some (cn\<lparr> rbuf := rb, sbuf := sb \<rparr>)" using c2 by (simp add: set_sbuf_def)
  then have "answered w s rest (login_rsp conf) ?w'" using f(1) sr(2) d(6) by (simp add: answered_def)
  moreover have "sessions_ok ?w' (moved s_ts_uselst ts G)" "find_ts_by_auth tok ?w' = Some ts"
    using w2(3,6) by (simp_all add: sessions_ok_def find_ts_by_auth_def)
  ultimately show ?thesis using w2(4,5) by simp
qed

section \<open>The start of the module\<close>

lemma empty_map_any: "rbmap_inv (lts_rbmap_entity mem keys)" "rbmap_dict (lts_rbmap_entity mem keys) = Map.empty"
proof -
  have r: "rep (lts_rbmap_entity mem keys) Lf" by (simp add: rep_def lts_rbmap_entity_def zip_in_def)
  then show "rbmap_inv (lts_rbmap_entity mem keys)" by (auto simp: rbmap_inv_def)
  show "rbmap_dict (lts_rbmap_entity mem keys) = Map.empty" using rep_dict [OF r] by (auto simp: find_key_def)
qed

lemma init_sessions_correct:
  assumes "0 < sz" and "s_ts_uselst < ats"
  shows "sessions_ok (init_sessions n ats sz w) ((\<lambda>_. [])(s_ts_cachelst := map (\<lambda>i. ats + i * sz) [0..<n]))"
    "net_inv w F {} \<Longrightarrow> net_inv (init_sessions n ats sz w) F {}" "skts (init_sessions n ats sz w) = skts w"
    "rbmap_dict (ts_set (init_sessions n ats sz w)) = Map.empty"
proof -
  let ?w = "init_sessions n ats sz w" and ?G = "\<lambda>_::addr. [] :: addr list" and ?m = "dlist_init s_ts_uselst (dlist_init s_ts_cachelst (ts_links w))"
  have e: "?G(l := []) = ?G" for l by (rule ext) simp
  have 1: "lists_in (dlist_init s_ts_cachelst (ts_links w)) {s_ts_cachelst} ?G"
    using lists_in_insert [OF no_heads(1) [of _ ?G], of s_ts_cachelst] by (simp add: no_heads(2) e)
  have "s_ts_uselst \<notin> cells {s_ts_cachelst} ?G" by (simp add: cells_def)
  from lists_in_insert [OF 1 this] have L: "lists_in ?m ts_heads ?G" by (simp add: e insert_commute)
  have b: "\<forall>i < n. ats + i * sz \<notin> cells ts_heads ?G" using assms(2) by (auto simp: cells_def)
  have "lists_in (ts_links ?w) ts_heads (?G(s_ts_cachelst := map (\<lambda>i. ats + i * sz) [0..<n]))"
    using cache_loop_correct [OF L _ b assms(1)] by (simp add: init_sessions_def Let_def)
  moreover have r: "rbmap_inv (ts_set ?w)" "rbmap_dict (ts_set ?w) = Map.empty"
    using empty_map_any [of "rb_mem (rm_tree (ts_set w))" "rm_key (ts_set w)"] by (simp_all add: init_sessions_def Let_def)
  moreover have "0 \<notin> cells ts_heads (?G(s_ts_cachelst := map (\<lambda>i. ats + i * sz) [0..<n]))" using assms(2) by (auto simp: cells_def)
  ultimately show "sessions_ok ?w ((\<lambda>_. [])(s_ts_cachelst := map (\<lambda>i. ats + i * sz) [0..<n]))"
    by (simp add: sessions_ok_def)
  show "rbmap_dict (ts_set ?w) = Map.empty" by (rule r(2))
  show "skts ?w = skts w" by (simp add: init_sessions_def Let_def)
  show "net_inv w F {} \<Longrightarrow> net_inv ?w F {}" by (erule net_inv_cong) (simp_all add: init_sessions_def Let_def)
qed

section \<open>Concrete requests\<close>

definition sample_env :: p2p_env where
  "sample_env = \<lparr> rq_pool = True, rq_heap = heap0, rq_base = (\<lambda>_. 0), rq_pagesize = 4096, rq_mem = True, rq_junk = (\<lambda>_. 0),
     rq_tmp = 30, rq_rsp = 40, rq_session_mem = True \<rparr>"

text \<open>A server with two free sessions and one client that has sent the bytes \<open>p\<close>.\<close>

lemma client_state:
  assumes "length p \<le> 400"
  shows "\<exists>(w :: p2p) F G c. p2p_inv w F G \<and> live w = {1008} \<and> conn_of (skts w 1008) = Some c \<and>
    rbuf c = buffer_with p 400 \<and> sbuf c = buffer_with [] 400 \<and> G s_ts_cachelst = [2000, 2008] \<and> G s_ts_uselst = [] \<and>
    rbmap_dict (ts_set w) = Map.empty"
proof -
  obtain w0 :: p2p and F c where w0: "net_inv w0 F {}" "live w0 = {1008}" "conn_of (skts w0 1008) = Some c"
    using server_with_client by blast
  let ?w1 = "init_sessions 2 2000 8 w0" and ?G = "(\<lambda>_. [])(s_ts_cachelst := map (\<lambda>i. 2000 + i * 8) [0..<2])"
  have 1: "sessions_ok ?w1 ?G" "net_inv ?w1 F {}" "skts ?w1 = skts w0" "rbmap_dict (ts_set ?w1) = Map.empty"
    using init_sessions_correct [where sz = 8 and ats = 2000 and n = 2 and w = w0] w0(1) by simp_all
  let ?w = "set_sbuf 1008 (buffer_with [] 400) (set_rbuf 1008 (buffer_with p 400) ?w1)"
  have n: "net_inv ?w F {}" and lv: "live ?w = live ?w1" using net_inv_set_bufs [OF net_inv_set_bufs(1) [OF 1(2)]] net_inv_set_bufs(3) [OF 1(2)] by auto
  have l1: "live ?w1 = {1008}" using w0(2) 1(3) by (simp add: live_def)
  have "current_conns ?w = 1" using n lv l1 by (simp add: net_inv_def)
  moreover have "sessions_ok ?w ?G" using 1(1) by (simp add: sessions_ok_def)
  ultimately have "p2p_inv ?w F ?G" using n by (simp add: p2p_inv_def base_inv_def conns_ok_def)
  moreover have "conn_of (skts ?w 1008) = Some (c\<lparr> rbuf := buffer_with p 400, sbuf := buffer_with [] 400 \<rparr>)"
    using w0(3) 1(3) by (simp add: set_sbuf_def set_rbuf_def)
  moreover have "?G s_ts_cachelst = [2000, 2008]" by (simp add: numeral_2_eq_2)
  ultimately show ?thesis using lv l1 1(4) by (intro exI [of _ ?w] exI [of _ F] exI [of _ ?G]) auto
qed

definition heartbeat_req :: "(bstr \<times> json) list" where
  "heartbeat_req = [(lit ''interface'', JStr (lit ''heartbeat''))]"

definition login_req :: "bstr \<Rightarrow> (bstr \<times> json) list" where
  "login_req tok = [(lit ''interface'', JStr (lit ''login'')), (lit ''auth'', JStr tok)]"

definition sample_conf :: lts_conf_p2p_fsm where
  "sample_conf = \<lparr> redis_host = [], redis_port = 0, redis_auth = [], conf_retinue_master = lit ''m'', conf_retinue_vice = lit ''v'' \<rparr>"

lemma heartbeat_req_ok:
  "norm (JObj heartbeat_req) = JObj heartbeat_req" "map_of heartbeat_req (lit ''interface'') = Some (JStr (lit ''heartbeat''))"
  "jgood (JObj heartbeat_req)" "\<forall>x\<in>set (jtext (JObj heartbeat_req)). x \<notin> set sjson_invisible"
  "length (packet (jtext (JObj heartbeat_req))) \<le> 400"
  by code_simp+

lemma login_req_ok:
  "norm (JObj (login_req [0x61])) = JObj (rev (login_req [0x61]))" 
  "map_of (rev (login_req [0x61])) (lit ''interface'') = Some (JStr (lit ''login''))"
  "map_of (rev (login_req [0x61])) (lit ''auth'') = Some (JStr [0x61])"
  "jgood (JObj (login_req [0x61]))" "\<forall>x\<in>set (jtext (JObj (login_req [0x61]))). x \<notin> set sjson_invisible"
  "length (packet (jtext (JObj (login_req [0x61])))) \<le> 400"
  by code_simp+

lemma rsp_lengths: "length (rsp_text ok_rsp) \<le> 300" "length (rsp_text (login_rsp sample_conf)) \<le> 300"
  by code_simp+

text \<open>The sample environment serves both.\<close>

lemma sample_request:
  assumes "conn_of (skts w s) = Some c" and "rbuf c = buffer_with (packet (jtext (JObj kvs))) 400" and "length (packet (jtext (JObj kvs))) \<le> 400"
    and "jgood (JObj kvs)" and "\<forall>x\<in>set (jtext (JObj kvs)). x \<notin> set sjson_invisible"
  shows "request sample_env 5000 s kvs [] w"
proof -
  have "length (jtext (JObj kvs)) \<le> 400" using assms(3) by (simp add: packet_def)
  moreover note buffer_with_ok [of "packet (jtext (JObj kvs))" 400]
  ultimately show ?thesis using assms unfolding request_def by (simp add: sample_env_def)
qed

lemma sample_rsp:
  assumes "sbuf c = buffer_with [] 400" and "length (rsp_text kvs) \<le> 300" and "\<forall>(k, v)\<in>set kvs. length k < 100 \<and> length v < 100"
  shows "rsp_fits sample_env kvs 5000 c"
  using assms buffer_with_ok [of "[]" 400] by (fastforce simp: rsp_fits_def)

section \<open>Properties\<close>

text \<open>C7. A heartbeat is answered: when a packet with the interface \<open>heartbeat\<close> is next in the receive buffer and
  there is memory and room for the response, the service consumes it and appends one packet with error
  number 200 to the send buffer of the same connection; nothing but the two buffers changes.\<close>

theorem heartbeat_answered:
  assumes "request e lim s kvs rest w" and "norm (JObj kvs) = JObj nkvs"
    and "map_of nkvs (lit ''interface'') = Some (JStr (lit ''heartbeat''))"
    and "conn_of (skts w s) = Some c" and "rsp_fits e ok_rsp lim c"
  shows "\<exists>w'. p2p_fsm_service conf e s w = Some w' \<and> answered w s rest ok_rsp w' \<and> bufs_only w w'"
  by (rule heartbeat_response [OF assms])

theorem heartbeat_answered_witness:
  "\<exists>w w' c'. p2p_fsm_service sample_conf sample_env 1008 w = Some w' \<and> conn_of (skts w' 1008) = Some c' \<and>
     pending (sbuf c') = packet (rsp_text ok_rsp)"
proof -
  obtain w :: p2p and c where w: "conn_of (skts w 1008) = Some c" "rbuf c = buffer_with (packet (jtext (JObj heartbeat_req))) 400"
      "sbuf c = buffer_with [] 400"
    using client_state [OF heartbeat_req_ok(5)] by blast
  have "pending (sbuf c) = []" using w(3) buffer_with_ok [of "[]" 400] by simp
  moreover have "rsp_fits sample_env ok_rsp 5000 c" by (rule sample_rsp [OF w(3) rsp_lengths(1)]) code_simp
  ultimately show ?thesis
    using heartbeat_answered [OF sample_request [OF w(1,2) heartbeat_req_ok(5,3,4)] heartbeat_req_ok(1,2) w(1), of sample_conf] w(1)
    by (auto simp: answered_def)
qed



text \<open>C3. Whatever a client sends, a request that is served opens and closes no connection and keeps the
  sockets, timers, session lists and the session map intact.  Every session that has a connection is
  tied to an open socket that points back to it, unless the request has tied a second session to its
  socket.\<close>

theorem requests_keep_sessions:
  assumes "p2p_inv w F G" and "s \<in> live w" and "p2p_fsm_service conf e s w = Some w'"
  shows "live w' = live w \<and> (\<exists>F' G'. net_inv w' F' {} \<and> sessions_ok w' G' \<and> (conns_ok w' G' \<or> two_sessions w' G' s))"
  using postD [OF service_served [OF assms(1,2)] assms(3)] by (auto simp: served_def base_inv_def)

theorem requests_keep_sessions_witness:
  "\<exists>(w :: p2p) w'. p2p_fsm_service sample_conf sample_env 1008 w = Some w' \<and> live w' = {1008}"
proof -
  obtain w :: p2p and F G c where w: "conn_of (skts w 1008) = Some c" "rbuf c = buffer_with (packet (jtext (JObj heartbeat_req))) 400"
      "sbuf c = buffer_with [] 400" "p2p_inv w F G" "live w = {1008}"
    using client_state [OF heartbeat_req_ok(5)] by blast
  have "rsp_fits sample_env ok_rsp 5000 c" by (rule sample_rsp [OF w(3) rsp_lengths(1)]) code_simp
  from heartbeat_response [OF sample_request [OF w(1,2) heartbeat_req_ok(5,3,4)] heartbeat_req_ok(1,2) w(1) this, of sample_conf]
  obtain w' where r: "p2p_fsm_service sample_conf sample_env 1008 w = Some w'" by blast
  have "1008 \<in> live w" using w(5) by simp
  from requests_keep_sessions [OF w(4) this r] r w(5) show ?thesis by auto
qed



text \<open>C34. A second login on the same socket leaves the first session behind: when the connection is closed
  only the second session is untied.  The first is still found under its token with the closed socket as
  its connection, and every response to it (\<open>talkto\<close> of a peer sends one) follows a NULL pointer.\<close>

theorem double_login_dangles:
  assumes "p2p_inv w F G" and "s \<in> live w" and "0 < keepalive"
    and "find_ts_by_auth tok w = Some a" and "a \<noteq> 0" and "ts_conn (ts_mem w a) = s"
    and "login_session e s tok' w = Some (b, w1)" and "b \<noteq> 0" and "b \<noteq> a"
  shows "\<exists>w2. lts_close_conn (p2p_fsm_itfc conf env) keepalive s w1 = Some w2 \<and> find_ts_by_auth tok w2 = Some a \<and>
    ts_conn (ts_mem w2 a) = s \<and> (\<forall>e kvs h. send_rsp e kvs (ts_conn (ts_mem w2 a)) h w2 = None)"
  by (rule second_login_dangles [OF assms])

theorem double_login_dangles_witness:
  "\<exists>(w :: p2p) w1 w2. login_session sample_env 1008 [0x62] w = Some (2008, w1) \<and>
     lts_close_conn (p2p_fsm_itfc sample_conf (\<lambda>_ _. sample_env)) 60 1008 w1 = Some w2 \<and>
     find_ts_by_auth [0x61] w2 = Some 2000 \<and> send_rsp sample_env [] (ts_conn (ts_mem w2 2000)) heap0 w2 = None"
proof -
  obtain w :: p2p and F G where w: "p2p_inv w F G" "live w = {1008}" "G s_ts_cachelst = [2000, 2008]" "G s_ts_uselst = []"
      "rbmap_dict (ts_set w) = Map.empty"
    using client_state [of "[]"] by auto
  have so: "sessions_ok w G" and l: "1008 \<in> live w" using w(1,2) by (auto simp: p2p_inv_def base_inv_def)
  have cl: "clone_token (rq_pagesize sample_env) (rq_session_mem sample_env) [0x61] = Some [0x61]"
    "clone_token (rq_pagesize sample_env) (rq_session_mem sample_env) [0x62] = Some [0x62]" by code_simp+
  have nl: "find_ts_by_auth [0x61] w = Some 0" using so w(5) by (simp add: sessions_ok_def find_ts_by_auth_eq)
  obtain w1 where w1: "login_session sample_env 1008 [0x61] w = Some (2000, w1)" "sessions_ok w1 (moved s_ts_uselst 2000 G)"
      "ts_mem w1 = (ts_mem w)(2000 := fresh_session [0x61] 1008)" "find_ts_by_auth [0x61] w1 = Some 2000"
    using new_login [OF so w(3) nl cl(1), of 1008] by blast
  let ?G = "moved s_ts_uselst 2000 G"
  have u: "set (?G s_ts_uselst) = {2000}" "?G s_ts_cachelst = [2008]" using w(3,4) by (simp_all add: moved_def)
  obtain F1 G1 where b1: "base_inv w1 F1 G1" "conns_ok w1 G1 \<or> two_sessions w1 G1 1008" "live w1 = {1008}"
    using postD [OF login_served [OF w(1) l] w1(1)] w(2) by (auto simp: served_def)
  have "set (G1 s_ts_uselst) = {2000}" using b1(1) w1(2) u(1) by (simp add: base_inv_def sessions_ok_def)
  then have i1: "p2p_inv w1 F1 G1" using b1 by (auto simp: p2p_inv_def two_sessions_def)
  have "find_ts_by_auth [0x62] w1 = Some 0"
    by (rule sessions_find_none [OF w1(2)]) (simp add: u(1) w1(3) fresh_session_def, code_simp)
  from new_login [OF w1(2) u(2) this cl(2), of 1008] obtain w2 where w2: "login_session sample_env 1008 [0x62] w1 = Some (2008, w2)" by blast
  have "ts_conn (ts_mem w1 2000) = 1008" using w1(3) by (simp add: fresh_session_def)
  from double_login_dangles [OF i1 _ _ w1(4) _ this w2, of 60 sample_conf "\<lambda>_ _. sample_env"] b1(3)
  obtain w3 where "lts_close_conn (p2p_fsm_itfc sample_conf (\<lambda>_ _. sample_env)) 60 1008 w2 = Some w3" "find_ts_by_auth [0x61] w3 = Some 2000"
      "send_rsp sample_env [] (ts_conn (ts_mem w3 2000)) heap0 w3 = None" by auto
  then show ?thesis using w2 by blast
qed

end
