(* ===== verification/P2pServer.thy ===== *)
theory P2pServer
  imports P2pProps
begin

text \<open>
  The P2P module in the event loop: the start of the module (\<open>init_p2p_fsm_module\<close> of
  \<open>src/modules/mod_app_p2p_fsm.c\<close>), its channels to the threads, and what a worker that runs it keeps,
  round after round.

  The invariant of the module, \<open>keep_sessions\<close>, is that of the sessions and of their ties to the sockets.
  A second login on one connection breaks it (\<open>P2pProps.double_login_dangles\<close>), so the runs considered are
  those of clients that log in at most once on a connection: \<open>one_login\<close> stops at a second one.
\<close>

section \<open>The start of the module\<close>

text \<open>What the calls of the start yield: the pool, the connection to redis, the two pairs of sockets (their
  first descriptor), the threads, and the memory of the sessions (0 is NULL).\<close>

record p2p_start_env =
  ps_pool :: bool
  ps_redis :: bool
  ps_sub :: "int option"
  ps_udp :: "int option"
  ps_sub_thread :: bool
  ps_udp_thread :: bool
  ps_ats :: addr

abbreviation TS_SIZE :: nat where "TS_SIZE \<equiv> 65535"

text \<open>A channel socket; a NULL socket is written to.\<close>

definition alloc_channel :: "int \<Rightarrow> handler \<Rightarrow> 'a net_scheme \<Rightarrow> 'a net_scheme option" where
  "alloc_channel chan h w = do {
     (s, w) \<leftarrow> lts_alloc_socket w;
     if s = 0 then None
     else do {
       let w = upd_skt s (\<lambda>k. k\<lparr> fd := chan, ev_mask := or EPOLLIN EPOLLET, conn_of := None, do_read := h, do_write := NoHandler \<rparr>) w;
       w \<leftarrow> skt_timer_init s 0 False w;
       Some (epoll_event_add s w) } }"

text \<open>\<open>sz\<close> is the size of a session struct.  The configuration is loaded in between (\<open>ConfMain\<close>); when that
  fails the start goes on.\<close>

definition init_p2p_fsm_module :: "p2p_start_env \<Rightarrow> nat \<Rightarrow> p2p \<Rightarrow> (int \<times> p2p) option" where
  "init_p2p_fsm_module e sz w =
     (if \<not> ps_pool e \<or> \<not> ps_redis e then Some (-1, w)
      else case ps_sub e of None \<Rightarrow> Some (-1, w)
      | Some chan_sub \<Rightarrow> do {
          w \<leftarrow> alloc_channel chan_sub Do_sub w;
          case ps_udp e of None \<Rightarrow> Some (-1, w)
          | Some chan_udp \<Rightarrow> do {
              w \<leftarrow> alloc_channel chan_udp Do_udp w;
              if \<not> ps_sub_thread e \<or> \<not> ps_udp_thread e then Some (-1, w)
              else if ps_ats e = 0 then Some (-1, init_sessions 0 0 sz w)
              else Some (0, init_sessions TS_SIZE (ps_ats e) sz w) } })"

section \<open>The channels\<close>

text \<open>The handlers of the two channels; \<open>subs\<close> and \<open>udps\<close> are the messages that wait there.\<close>

definition p2p_channels :: "(nat \<Rightarrow> sub_chanpack option) \<Rightarrow> (nat \<Rightarrow> udp_chanpack option) \<Rightarrow> p2p runner" where
  "p2p_channels subs udps k h s w = (case h of
     Do_sub \<Rightarrow> on_channel_sub (subs k) s w
   | Do_udp \<Rightarrow> on_channel_udp (udps k) s w
   | _ \<Rightarrow> None)"

section \<open>The invariant of the module\<close>

definition keep_sessions :: "p2p \<Rightarrow> bool" where
  "keep_sessions w \<longleftrightarrow> (\<exists>G. sessions_ok w G \<and> conns_ok w G)"

lemma p2p_inv_iff: "net_inv w F {} \<and> current_conns w < 2 ^ 63 \<and> keep_sessions w \<longleftrightarrow> (\<exists>G. p2p_inv w F G)"
  by (auto simp: p2p_inv_def base_inv_def keep_sessions_def)

lemma sessions_more: "net.more w' = net.more w \<Longrightarrow> sessions_ok w' G = sessions_ok (w :: p2p) G"
  using p2p_more [of w' w] by (simp add: sessions_ok_def)

lemma keep_unrelated: "keep_sessions w \<Longrightarrow> unrelated w w' \<Longrightarrow> keep_sessions w'"
proof -
  assume k: "keep_sessions w" and u: "unrelated w w'"
  then obtain G where G: "sessions_ok w G" "conns_ok w G" by (auto simp: keep_sessions_def)
  have m: "net.more w' = net.more w" using u by (simp add: unrelated_def)
  have "conns_ok w' G" using G(2) u p2p_more [OF m] by (auto simp: conns_ok_def unrelated_def)
  then show ?thesis using G(1) sessions_more [OF m] by (auto simp: keep_sessions_def)
qed

lemma closing_keeps:
  assumes k: "keep_sessions w" and s: "s \<in> live w" "s \<noteq> 0" and c: "p2p_fsm_on_closing s w = Some w1" "app_only w w1"
    and d: "dropped s w1 w2"
  shows "keep_sessions w2"
proof -
  obtain G where G: "sessions_ok w G" "conns_ok w G" using k by (auto simp: keep_sessions_def)
  have "0 \<notin> set (G s_ts_uselst)" using G(1) by (auto simp: sessions_ok_def cells_def)
  note cl = on_closing_clears [OF G(2) c(1) s(2) this]
  have m: "net.more w2 = net.more w1" and lv: "live w2 = live w - {s}" "\<And>x. app_ctx (skts w2 x) = app_ctx (skts w1 x)"
    using d app_only_skt(1) [OF c(2)] by (simp_all add: dropped_def live_def)
  have "sessions_ok w1 G" using G(1) cl(2-4) by (simp add: sessions_ok_def)
  then have "sessions_ok w2 G" using sessions_more [OF m] by simp
  moreover have "conns_ok w2 G" using cl(1) p2p_more [OF m] by (simp add: conns_ok_def lv)
  ultimately show ?thesis by (auto simp: keep_sessions_def)
qed

text \<open>Two sessions in use have the same connection.\<close>

definition shares_socket :: "addr \<Rightarrow> p2p \<Rightarrow> bool" where
  "shares_socket s w \<longleftrightarrow> (\<exists>t\<in>ran (rbmap_dict (ts_set w)). \<exists>t'\<in>ran (rbmap_dict (ts_set w)). t \<noteq> t' \<and>
     ts_conn (ts_mem w t) = s \<and> ts_conn (ts_mem w t') = s)"

definition one_login :: "p2p app_itfc \<Rightarrow> p2p app_itfc" where
  "one_login app = app\<lparr> service := (\<lambda>s w. do { w \<leftarrow> service app s w; if shares_socket s w then None else Some w }) \<rparr>"

lemma service_keeps:
  assumes i: "net_inv w F {}" "current_conns w < 2 ^ 63" "keep_sessions w" and s: "s \<in> live w"
    and r: "service (one_login (p2p_fsm_itfc conf env)) s w = Some w'"
  shows "(\<exists>F'. net_inv w' F' {}) \<and> live w' = live w \<and> keep_sessions w'"
proof -
  obtain G where p: "p2p_inv w F G" using i p2p_inv_iff by blast
  have r': "p2p_fsm_service conf (env s w) s w = Some w'" and n: "\<not> shares_socket s w'"
    using r by (auto simp: one_login_def p2p_fsm_itfc_def bind_eq_Some_conv split: if_splits)
  from postD [OF service_served [OF p s] r'] obtain F1 G1 where
    b: "live w' = live w" "base_inv w' F1 G1" "conns_ok w' G1 \<or> two_sessions w' G1 s" by (auto simp: served_def)
  then have "\<not> two_sessions w' G1 s" using n by (auto simp: shares_socket_def two_sessions_def base_inv_def sessions_ok_def)
  then show ?thesis using b by (auto simp: base_inv_def keep_sessions_def)
qed

interpretation p2p_server: net_app "one_login (p2p_fsm_itfc conf env)" keep_sessions for conf env
proof
  fix w w' :: p2p and s F X
  show "keep_sessions w'" if "keep_sessions w" "unrelated w w'" using keep_unrelated [OF that] .
  show "\<exists>w'. callback (on_closing (one_login (p2p_fsm_itfc conf env))) s w = Some w' \<and> app_only w w' \<and>
      (\<forall>w''. dropped s w' w'' \<longrightarrow> keep_sessions w'')"
    if "net_inv w F X" "s \<in> live w" "keep_sessions w"
  proof -
    obtain w1 where w1: "callback (on_closing (p2p_fsm_itfc conf env)) s w = Some w1" "app_only w w1"
      using on_closing_app_only by blast
    then have "p2p_fsm_on_closing s w = Some w1" by (simp add: callback_def p2p_fsm_itfc_def)
    from closing_keeps [OF that(3,2) net_inv_live(1) [OF that(1,2)] this w1(2)] w1 show ?thesis by (auto simp: one_login_def)
  qed
  show "(\<exists>F'. net_inv w' F' {}) \<and> live w' = live w \<and> keep_sessions w'"
    if "service (one_login (p2p_fsm_itfc conf env)) s w = Some w'" "net_inv w F {}" "s \<in> live w" "keep_sessions w" "current_conns w < 2 ^ 63"
    using service_keeps [OF that(2,5,4,3,1)] .
  show "(\<exists>F'. net_inv w' F' {}) \<and> live w' = live w \<and> keep_sessions w'"
    if "send_more (one_login (p2p_fsm_itfc conf env)) s w = Some w'" "net_inv w F {}" "keep_sessions w"
    using that by (auto simp: one_login_def p2p_fsm_itfc_def p2p_fsm_send_more_def)
  show "(\<exists>F'. net_inv w' F' {}) \<and> live w' = live w \<and> keep_sessions w'"
    if "callback (on_connected (one_login (p2p_fsm_itfc conf env))) s w = Some w'" "net_inv w F {}" "keep_sessions w"
    using that by (auto simp: one_login_def p2p_fsm_itfc_def callback_def p2p_fsm_on_connected_def)
qed

section \<open>The channels keep the invariant\<close>

text \<open>A change of a session that leaves its token and its connection alone.\<close>

lemma upd_ts_keeps:
  assumes i: "loop_inv keep_sessions n w" and f: "auth_token (f (ts_mem w ts)) = auth_token (ts_mem w ts)" "ts_conn (f (ts_mem w ts)) = ts_conn (ts_mem w ts)"
  shows "loop_inv keep_sessions n (upd_ts ts f w)"
proof -
  obtain F G where n: "net_inv w F {}" "current_conns w \<le> n" and G: "sessions_ok w G" "conns_ok w G"
    using i by (auto simp: loop_inv_def keep_sessions_def)
  have "net_inv (upd_ts ts f w) F {}" by (rule net_inv_cong [OF n(1)]) simp_all
  moreover have "sessions_ok (upd_ts ts f w) G" using G(1) f(1) by (simp add: sessions_ok_def)
  moreover have "live (upd_ts ts f w) = live w" by (simp add: live_def)
  then have "conns_ok (upd_ts ts f w) G" using G(2) f(2) by (simp add: conns_ok_def)
  ultimately show ?thesis using n(2) by (auto simp: loop_inv_def keep_sessions_def)
qed

lemma nat_fsm_only: "nat_fsm d t = Some t' \<Longrightarrow> auth_token t' = auth_token t \<and> ts_conn t' = ts_conn t"
  by (auto simp: nat_fsm_def nat_classify_def Let_def split: if_splits)

lemma channel_quiet_keeps:
  "loop_inv keep_sessions n w \<Longrightarrow> loop_inv keep_sessions n (upd_skt s (\<lambda>k. k\<lparr> readable := False \<rparr>) w)"
proof -
  assume i: "loop_inv keep_sessions n w"
  let ?w = "upd_skt s (\<lambda>k. k\<lparr> readable := False \<rparr>) w"
  obtain F where n: "net_inv w F {}" "current_conns w \<le> n" "keep_sessions w" using i by (auto simp: loop_inv_def)
  have "net_inv ?w F {}" by (rule net_inv_upd [OF n(1)]) simp_all
  moreover have "keep_sessions ?w" by (rule keep_unrelated [OF n(3)]) (simp add: unrelated_upd)
  ultimately show ?thesis using n(2) by (auto simp: loop_inv_def)
qed

lemma channels_keep: "other_ok keep_sessions n (p2p_channels subs udps)"
  unfolding other_ok_def
proof (intro allI impI)
  fix k h s w w'
  assume r: "p2p_channels subs udps k h s w = Some w'" and i: "loop_inv keep_sessions n w"
  note q = channel_quiet_keeps [OF i, of s]
  consider "on_channel_sub (subs k) s w = Some w'" | "on_channel_udp (udps k) s w = Some w'"
    using r by (cases h) (simp_all add: p2p_channels_def)
  then show "loop_inv keep_sessions n w'"
  proof cases
    case 1
    show ?thesis
    proof (cases "subs k")
      case (Some d)
      then obtain ts where "find_ts_by_auth (chars (sub_auth d)) w = Some ts"
          "(if ts = 0 then Some w else do { t \<leftarrow> nat_fsm d (ts_mem w ts); Some (upd_ts ts (\<lambda>_. t) w) }) = Some w'"
        using 1 by (auto simp: on_channel_sub_def bind_eq_Some_conv)
      then show ?thesis using i nat_fsm_only by (auto simp: bind_eq_Some_conv intro!: upd_ts_keeps split: if_splits)
    qed (use 1 q in \<open>simp add: on_channel_sub_def\<close>)
  next
    case 2
    show ?thesis
    proof (cases "udps k")
      case (Some d)
      then obtain ts where "w' = (if ts \<noteq> 0 then upd_ts ts (\<lambda>t. t\<lparr> ts_hole := peer_hole d \<rparr>) w else w)"
        using 2 by (auto simp: on_channel_udp_def bind_eq_Some_conv)
      then show ?thesis using i upd_ts_keeps by simp
    qed (use 2 q in \<open>simp add: on_channel_udp_def\<close>)
  qed
qed

section \<open>The start\<close>

lemma alloc_channel_correct:
  assumes i: "net_inv w F {}" and f: "F lts_sock_list = s # fs" and h: "h \<in> {Do_sub, Do_udp}"
  shows "\<exists>w'. alloc_channel chan h w = Some w' \<and> net_inv w' (F(lts_sock_list := fs)) {} \<and> live w' = live w \<and>
    special w' = insert s (special w) \<and> current_conns w' = current_conns w \<and> channel_signal w' = channel_signal w"
proof -
  let ?d = "rbmap_dict (timer_heap w)" and ?F = "F(lts_sock_list := fs)"
  have L: "sock_lists w F" and t: "timers_ok w {}" and so: "special_ok w F" using i by (auto simp: net_inv_def)
  have sl: "s \<notin> live w" using net_inv_live(2) [OF i, of s] f by auto
  have ti: "rbmap_inv (timer_heap w)" "s \<notin> ran ?d" using t sl by (auto simp: timers_ok_def)
  obtain w1 where w1: "lts_alloc_socket w = Some (s, w1)" "sock_lists w1 ?F" "s \<notin> cells heads ?F" "s \<noteq> 0" "self_linked (links w1) s"
      "skts w1 = (skts w)(s := fresh_skt (current_time w) (skts w s))" "rbmap_inv (timer_heap w1)" "rbmap_dict (timer_heap w1) = ?d"
      "\<And>x. x \<noteq> s \<Longrightarrow> movable (links w) heads F x \<Longrightarrow> movable (links w1) heads ?F x" "current_conns w1 = current_conns w"
      "channel_signal w1 = channel_signal w"
    using alloc_socket_some [OF L f ti] by auto
  obtain hp where hp: "lts_rbmap_node_init s 0 (timer_heap w1) = Some hp" "rbmap_inv hp" "rbmap_dict hp = ?d"
    using rbmap_node_init_law [OF w1(7,4), of 0] ti(2) w1(8) by auto
  let ?w = "epoll_event_add s (upd_skt s (\<lambda>k. k\<lparr> on_timeout := False \<rparr>) ((upd_skt s (\<lambda>k. k\<lparr> fd := chan, ev_mask := or EPOLLIN EPOLLET,
    conn_of := None, do_read := h, do_write := NoHandler \<rparr>) w1)\<lparr> timer_heap := hp \<rparr>))"
  have r: "alloc_channel chan h w = Some ?w"
    using w1(1,4) hp(1) by (simp add: alloc_channel_def skt_timer_init_def lts_timer_node_init_def)
  have eq: "links ?w = links w1" "timer_heap ?w = hp" "sock_cache_n ?w = sock_cache_n w1" "current_conns ?w = current_conns w"
      "channel_signal ?w = channel_signal w" "\<And>x. x \<noteq> s \<Longrightarrow> skts ?w x = skts w x" "conn_of (skts ?w s) = None" "do_read (skts ?w s) = h"
    using w1(6,10,11) by (simp_all add: epoll_event_add_def Let_def)
  from r eq obtain w' where r: "alloc_channel chan h w = Some w'" and
    eq: "links w' = links w1" "timer_heap w' = hp" "sock_cache_n w' = sock_cache_n w1" "current_conns w' = current_conns w"
      "channel_signal w' = channel_signal w" "\<And>x. x \<noteq> s \<Longrightarrow> skts w' x = skts w x" "conn_of (skts w' s) = None" "do_read (skts w' s) = h"
    by blast
  have nc: "conn_of (skts w s) = None" using sl by (simp add: live_def)
  have lv: "live w' = live w" by (rule live_cong) (use eq(6,7) nc in metis)
  have "x \<in> special w' \<longleftrightarrow> x = s \<or> x \<in> special w" for x using eq(6,8) h by (cases "x = s") (auto simp: special_def)
  then have sp: "special w' = insert s (special w)" by blast
  have "rbmap_dict hp (rm_key hp x) = Some x" if "x \<in> live w" for x
  proof -
    have d: "?d (rm_key (timer_heap w) x) = Some x" using t that by (simp add: timers_ok_def)
    then show ?thesis using rbm.dict_key [OF hp(2), of _ x] hp(3) by auto
  qed
  then have "timers_ok w' {}" using t hp(2,3) lv eq(2) by (simp add: timers_ok_def)
  moreover have "sock_lists w' ?F" using w1(2) eq by (simp add: sock_lists_def)
  moreover have "\<forall>x\<in>live w. x \<noteq> s" using sl by auto
  then have "\<forall>x\<in>live w'. c_pool (the (conn_of (skts w' x))) \<and> on_timeout (skts w' x) \<and> do_read (skts w' x) = Do_recv"
    using i eq(6) unfolding lv by (simp add: net_inv_def)
  moreover have "special_ok w' ?F" unfolding special_ok_def sp
  proof
    fix x assume x: "x \<in> insert s (special w)"
    show "x \<noteq> 0 \<and> x \<notin> set (?F lts_sock_list) \<and> movable (links w') heads ?F x"
    proof (cases "x = s")
      case True
      then show ?thesis using w1(3-5) eq(1) by (auto simp: movable_def cells_def)
    next
      case False
      then have "x \<noteq> 0" "x \<notin> set (F lts_sock_list)" "movable (links w) heads F x" using x so by (auto simp: special_ok_def)
      then show ?thesis using w1(9) [OF False] eq(1) f by auto
    qed
  qed
  ultimately have "net_inv w' ?F {}" using i lv eq by (simp add: net_inv_def)
  then show ?thesis using r lv sp eq(4,5) by blast
qed

text \<open>When every call of the start succeeds.\<close>

definition p2p_start_ok :: "p2p_start_env \<Rightarrow> bool" where
  "p2p_start_ok e \<longleftrightarrow> ps_pool e \<and> ps_redis e \<and> ps_sub e \<noteq> None \<and> ps_udp e \<noteq> None \<and> ps_sub_thread e \<and> ps_udp_thread e \<and> ps_ats e \<noteq> 0"

lemma init_p2p_module_correct:
  assumes i: "net_inv w F {}" "live w = {}" and f: "F lts_sock_list = s1 # s2 # fs" and a: "s_ts_uselst < ps_ats e" "0 < sz"
    and e: "p2p_start_ok e"
  shows "\<exists>w'. init_p2p_fsm_module e sz w = Some (0, w') \<and> net_inv w' (F(lts_sock_list := fs)) {} \<and> live w' = {} \<and>
    special w' = insert s2 (insert s1 (special w)) \<and> keep_sessions w' \<and> channel_signal w' = channel_signal w"
proof -
  obtain cs cu where c: "ps_sub e = Some cs" "ps_udp e = Some cu" using e by (auto simp: p2p_start_ok_def)
  obtain wa where wa: "alloc_channel cs Do_sub w = Some wa" "net_inv wa (F(lts_sock_list := s2 # fs)) {}" "live wa = {}"
      "special wa = insert s1 (special w)" "channel_signal wa = channel_signal w"
    using alloc_channel_correct [OF i(1) f, of Do_sub cs] i(2) by auto
  obtain wb where wb: "alloc_channel cu Do_udp wa = Some wb" "net_inv wb (F(lts_sock_list := fs)) {}" "live wb = {}"
      "special wb = insert s2 (insert s1 (special w))" "channel_signal wb = channel_signal w"
    using alloc_channel_correct [OF wa(2), of s2 fs Do_udp cu] wa(3-5) by auto
  let ?w = "init_sessions TS_SIZE (ps_ats e) sz wb"
  have w': "init_p2p_fsm_module e sz w = Some (0, ?w)" using e c wa(1) wb(1) by (simp add: init_p2p_fsm_module_def p2p_start_ok_def)
  note ini = init_sessions_correct [where n = TS_SIZE and w = wb, OF a(2,1)]
  have "live ?w = {}" using wb(3) ini(3) by (simp add: live_def)
  moreover have "special ?w = special wb" by (rule special_cong) (simp add: ini(3))
  moreover have "conns_ok ?w ((\<lambda>_. [])(s_ts_cachelst := map (\<lambda>i. ps_ats e + i * sz) [0..<TS_SIZE]))" by (simp add: conns_ok_def)
  then have "keep_sessions ?w" using ini(1) unfolding keep_sessions_def by blast
  moreover have "channel_signal ?w = channel_signal wb" by (simp add: init_sessions_def Let_def)
  ultimately show ?thesis using w' ini(2) [OF wb(2)] wb(4,5) by simp
qed

lemma init_p2p_module_ok: "init_p2p_fsm_module e sz w = Some (0, w') \<Longrightarrow> p2p_start_ok e"
  by (auto simp: init_p2p_fsm_module_def p2p_start_ok_def bind_eq_Some_conv split: if_splits option.splits)

text \<open>Sockets are left for the channels.\<close>

lemma two_cached: "\<exists>s1 s2 fs. map f [1..<n + 64] = s1 # s2 # fs"
proof -
  have "2 \<le> length (map f [1..<n + 64])" by simp
  then show ?thesis by (metis Suc_le_length_iff numeral_2_eq_2)
qed

section \<open>Runs\<close>

text \<open>Every round finds other messages and other memory.\<close>

inductive p2p_reach :: "bool \<Rightarrow> lts_conf_p2p_fsm \<Rightarrow> int \<Rightarrow> int \<Rightarrow> worker \<times> p2p \<Rightarrow> worker \<times> p2p \<Rightarrow> bool"
  for lock conf keepalive maxc lw where
  start: "p2p_reach lock conf keepalive maxc lw lw"
| round: "p2p_reach lock conf keepalive maxc lw lw1 \<Longrightarrow> events_ok e (snd lw1) \<Longrightarrow>
    event_round lock (one_login (p2p_fsm_itfc conf env)) keepalive maxc (p2p_channels subs udps) e lw1 = Some (go, lw2) \<Longrightarrow>
    p2p_reach lock conf keepalive maxc lw lw2"

inductive_cases p2p_reachE: "p2p_reach lock conf keepalive maxc lw lw'"

lemma p2p_run_keeps:
  assumes "p2p_reach lock conf keepalive maxc lw0 lw" and "loop_inv keep_sessions n (snd lw0)" and "\<not> lock_hold (fst lw0)"
    and "0 < keepalive" and "maxc < 2 ^ 31" "maxc \<le> n" "n < 2 ^ 63"
  shows "loop_inv keep_sessions n (snd lw) \<and> \<not> lock_hold (fst lw)"
  using assms(1)
proof (induction rule: p2p_reach.induct)
  case start
  then show ?case using assms by simp
next
  case (round lw1 e env subs udps go lw2)
  obtain lp w lp' w' where lw: "lw1 = (lp, w)" "lw2 = (lp', w')" by (cases lw1; cases lw2) auto
  have "loop_inv keep_sessions n w" "\<not> lock_hold lp" "events_ok e w" using round.IH round.hyps(2) lw by simp_all
  from p2p_server.event_round_keeps [OF round.hyps(3) [unfolded lw] this(1,3) assms(4-7) channels_keep this(2)] show ?case
    using lw by simp
qed

lemma p2p_server_correct:
  assumes "fresh_memory w0" and "max_conn_ok maxc" and "apart rs base sz (nat (maxc + 64))"
    and "alloc_listen_sockets (Some rs) True maxc base sz w0 = Some (0, ls, w1)"
    and "init_event_core_worker fd0 w1 = Some (chan, w2)"
    and "init_p2p_fsm_module e tsz w2 = Some (0, w3)" and "s_ts_uselst < ps_ats e" and "0 < tsz" and "0 < keepalive"
    and "p2p_reach lock conf keepalive maxc (new_worker ls, w3) (lp, w)"
  shows "loop_inv keep_sessions maxc w \<and> \<not> lock_hold lp"
proof -
  have m: "maxc < 2 ^ 31" "0 < maxc" "maxc < 2 ^ 63" using assms(2) by (auto simp: max_conn_ok_def)
  let ?xs = "map (\<lambda>i. base + i * sz) [1..<nat maxc + 64]"
  have "net_inv w2 ((\<lambda>_. [])(lts_sock_list := ?xs)) {}" "live w2 = {}"
    using server_start_correct [OF assms(1-4), of fd0] assms(5) by auto
  moreover obtain s1 s2 fs where "?xs = s1 # s2 # fs" using two_cached by metis
  ultimately obtain F3 where F3: "net_inv w3 F3 {}" "live w3 = {}" "keep_sessions w3"
    using init_p2p_module_correct [OF _ _ _ assms(7,8) init_p2p_module_ok [OF assms(6)]] assms(6) by fastforce
  then have i: "loop_inv keep_sessions maxc (snd (new_worker ls, w3))" using m(2) by (auto simp: loop_inv_def net_inv_def)
  have "\<not> lock_hold (fst (new_worker ls, w3))" by (simp add: new_worker_def)
  from p2p_run_keeps [OF assms(10) i this assms(9) m(1) order_refl m(3)] show ?thesis by simp
qed

section \<open>Stopping a run\<close>

text \<open>An application that answers fewer requests: its rounds are rounds of the full one.\<close>

definition answers_less :: "'a net_scheme app_itfc \<Rightarrow> 'a net_scheme app_itfc \<Rightarrow> bool" where
  "answers_less app app' \<longleftrightarrow> on_connected app = on_connected app' \<and> send_more app = send_more app' \<and> on_closing app = on_closing app' \<and>
     (\<forall>s w w'. service app s w = Some w' \<longrightarrow> service app' s w = Some w')"

lemma one_login_less: "answers_less (one_login app) app"
  by (auto simp: answers_less_def one_login_def bind_eq_Some_conv split: if_splits)

lemma less_close: "answers_less app app' \<Longrightarrow> lts_close_conn app = lts_close_conn app'" "answers_less app app' \<Longrightarrow> lts_timeout app = lts_timeout app'"
  "answers_less app app' \<Longrightarrow> lts_accept app = lts_accept app'" "answers_less app app' \<Longrightarrow> lts_send app = lts_send app'"
  by (intro ext, simp add: answers_less_def lts_close_conn_def lts_timeout_def lts_accept_def lts_send_def send_done_def cong: if_cong option.case_cong sum.case_cong)+

lemma less_recv_result:
  assumes l: "answers_less app app'" and r: "recv_result app ka rx cs buf w = Some w'"
  shows "recv_result app' ka rx cs buf w = Some w'"
proof (cases "\<exists>err. rx = Inl err \<and> (err = E_AGAIN \<or> err = E_WOULDBLOCK)")
  case True
  let ?w = "upd_skt cs (\<lambda>k. k\<lparr> readable := False \<rparr>) w"
  obtain w1 where "service app cs ?w = Some w1" using r True by (cases "service app cs ?w") (auto simp: recv_result_def)
  moreover then have "service app' cs ?w = Some w1" using l by (simp add: answers_less_def)
  ultimately show ?thesis using r True by (auto simp: recv_result_def)
next
  case False
  then show ?thesis using r less_close(1) [OF l] by (auto simp: recv_result_def split: sum.splits)
qed

lemma less_recv:
  assumes l: "answers_less app app'" and r: "lts_recv app ka rx cs w = Some w'"
  shows "lts_recv app' ka rx cs w = Some w'"
proof -
  obtain c where c: "conn_of (skts w cs) = Some c" using r by (cases "conn_of (skts w cs)") (simp_all add: lts_recv_def)
  obtain buf where b: "(if lts_buffer_full (rbuf c) then lts_buffer_drop_accessed (rbuf c) else Some (rbuf c)) = Some buf"
    using r c by (cases "if lts_buffer_full (rbuf c) then lts_buffer_drop_accessed (rbuf c) else Some (rbuf c)") (simp_all add: lts_recv_def)
  then have "\<not> lts_buffer_full buf" "recv_result app ka rx cs buf (set_rbuf cs buf w) = Some w'"
    using r c by (simp_all add: lts_recv_def Let_def split: if_split_asm)
  then show ?thesis using less_recv_result [OF l] b c by (simp add: lts_recv_def Let_def)
qed

lemma less_handler:
  "answers_less app app' \<Longrightarrow> run_handler app ka maxc other he k h s w = Some w' \<Longrightarrow> run_handler app' ka maxc other he k h s w = Some w'"
  using less_recv by (cases h) (auto simp: run_handler_def less_close)

lemma post_loop_less:
  assumes "post_loop d k pos nx w = Some w'" and "\<And>k h s w w'. d k h s w = Some w' \<Longrightarrow> d' k h s w = Some w'"
  shows "post_loop d' k pos nx w = Some w'"
proof -
  have "(\<forall>k h s w w'. d k h s w = Some w' \<longrightarrow> d' k h s w = Some w') \<longrightarrow> post_loop d' k pos nx w = Some w'"
    using assms(1)
  proof (induction rule: post_loop.raw_induct [rotated, where P = "\<lambda>d k pos nx w w'.
      (\<forall>k h s w w'. d k h s w = Some w' \<longrightarrow> d' k h s w = Some w') \<longrightarrow> post_loop d' k pos nx w = Some w'", consumes 1, case_names step])
    case (step pl d k pos nx w w')
    show ?case
    proof
      assume l: "\<forall>k h s w w'. d k h s w = Some w' \<longrightarrow> d' k h s w = Some w'"
      show "post_loop d' k pos nx w = Some w'"
      proof (cases "pos = lts_post_list")
        case True
        then show ?thesis using step.hyps by (subst post_loop.simps) simp
      next
        case False
        with step.hyps obtain w1 w2 where
          1: "(if readable (skts w pos) \<and> do_read (skts w pos) \<noteq> NoHandler then d k (do_read (skts w pos)) pos w else Some w) = Some w1"
          and 2: "(if writable (skts w1 pos) \<and> do_write (skts w1 pos) \<noteq> NoHandler then d k (do_write (skts w1 pos)) pos w1 else Some w1) = Some w2"
          and 3: "pl d (k + 1) nx (mp_next (links w2) nx) w2 = Some w'"
          by (auto simp: bind_eq_Some_conv)
        have "(if readable (skts w pos) \<and> do_read (skts w pos) \<noteq> NoHandler then d' k (do_read (skts w pos)) pos w else Some w) = Some w1"
          using 1 l by (auto split: if_splits)
        moreover have "(if writable (skts w1 pos) \<and> do_write (skts w1 pos) \<noteq> NoHandler then d' k (do_write (skts w1 pos)) pos w1 else Some w1) = Some w2"
          using 2 l by (auto split: if_splits)
        moreover have "post_loop d' (k + 1) nx (mp_next (links w2) nx) w2 = Some w'" using step.IH [OF 3] l by blast
        ultimately show ?thesis using False by (subst post_loop.simps) (simp only: if_False bind.bind_lunit)
      qed
    qed
  qed
  then show ?thesis using assms(2) by blast
qed

lemma less_post_list:
  assumes l: "answers_less app app'" and p: "process_post_list (run_handler app ka maxc other he) w = Some w'"
  shows "process_post_list (run_handler app' ka maxc other he) w = Some w'"
proof -
  let ?f = "mp_next (links w) lts_post_list"
  obtain w1 where w1: "post_loop (run_handler app ka maxc other he) 0 ?f (mp_next (links w) ?f) w = Some w1"
      "post_clean (mp_next (links w1) lts_post_list) (mp_next (links w1) (mp_next (links w1) lts_post_list)) w1 = Some w'"
    using p by (auto simp: process_post_list_def Let_def bind_eq_Some_conv)
  show ?thesis using post_loop_less [OF w1(1) less_handler [OF l]] w1(2) by (simp add: process_post_list_def)
qed

text \<open>The expiry loops only use the callback for closing.\<close>

lemma less_expire_single: "answers_less app app' \<Longrightarrow> expire_timers_single app ka w = Some w' \<Longrightarrow> expire_timers_single app' ka w = Some w'"
proof -
  assume l: "answers_less app app'" and e: "expire_timers_single app ka w = Some w'"
  have "answers_less app app' \<longrightarrow> expire_timers_single app' ka w = Some w'"
    using e
  proof (induction rule: expire_timers_single.raw_induct [rotated, where P = "\<lambda>app ka w w'. answers_less app app' \<longrightarrow>
      expire_timers_single app' ka w = Some w'", consumes 1, case_names step])
    case (step et app ka w w')
    show ?case
    proof
      assume l: "answers_less app app'"
      obtain m where m: "lts_timer_min (timer_heap w) = Some m" using step.hyps by (auto simp: bind_eq_Some_conv)
      show "expire_timers_single app' ka w = Some w'"
      proof (cases "m = 0 \<or> of_int (current_time w) < rm_key (timer_heap w) m")
        case True
        then show ?thesis using step.hyps m by (subst expire_timers_single.simps) auto
      next
        case False
        obtain ok h where d: "lts_timer_del (timer_heap w) m = Some (ok, h)"
          using step.hyps m False by (cases "lts_timer_del (timer_heap w) m") auto
        let ?t = "\<lambda>app. if on_timeout (skts w m) then lts_timeout app ka m (w\<lparr> timer_heap := h \<rparr>) else Some (w\<lparr> timer_heap := h \<rparr>)"
        have "?t app \<bind> et app ka = Some w'" using step.hyps m False d by (simp add: Let_def split del: if_split)
        from this [unfolded bind_eq_Some_conv] obtain w1 where w1: "?t app = Some w1" "et app ka w1 = Some w'" by blast
        have "?t app' = Some w1" using w1(1) unfolding less_close(2) [OF l] .
        then show ?thesis using False m d step.IH [OF w1(2)] l by (subst expire_timers_single.simps) simp
      qed
    qed
  qed
  then show ?thesis using l by blast
qed

lemma less_expire: "answers_less app app' \<Longrightarrow> expire_timers app ka w = Some w' \<Longrightarrow> expire_timers app' ka w = Some w'"
proof -
  assume l: "answers_less app app'" and e: "expire_timers app ka w = Some w'"
  have "answers_less app app' \<longrightarrow> expire_timers app' ka w = Some w'"
    using e
  proof (induction rule: expire_timers.raw_induct [rotated, where P = "\<lambda>app ka w w'. answers_less app app' \<longrightarrow>
      expire_timers app' ka w = Some w'", consumes 1, case_names step])
    case (step et app ka w w')
    show ?case
    proof
      assume l: "answers_less app app'"
      obtain m where m: "lts_timer_min (timer_heap w) = Some m" using step.hyps by (auto simp: bind_eq_Some_conv)
      show "expire_timers app' ka w = Some w'"
      proof (cases "m = 0 \<or> of_int (current_time w) < rm_key (timer_heap w) m")
        case True
        then show ?thesis using step.hyps m by (subst expire_timers.simps) auto
      next
        case False
        obtain ok h where d: "lts_timer_del (timer_heap w) m = Some (ok, h)"
          using step.hyps m False by (cases "lts_timer_del (timer_heap w) m") auto
        let ?t = "\<lambda>app. if on_timeout (skts w m) then lts_timeout app ka m (w\<lparr> timer_heap := h \<rparr>) else Some (w\<lparr> timer_heap := h \<rparr>)"
        have ok: "ok" using d step.hyps m False by (cases ok) simp_all
        have "?t app \<bind> et app ka = Some w'" using step.hyps m False d ok by (simp add: Let_def split del: if_split)
        from this [unfolded bind_eq_Some_conv] obtain w1 where w1: "?t app = Some w1" "et app ka w1 = Some w'" by blast
        have "?t app' = Some w1" using w1(1) unfolding less_close(2) [OF l] .
        then show ?thesis using False m d ok step.IH [OF w1(2)] l by (subst expire_timers.simps) simp
      qed
    qed
  qed
  then show ?thesis using l by blast
qed

lemma less_tail:
  assumes l: "answers_less app app'" and f: "\<And>w w'. f w = Some w' \<Longrightarrow> f' w = Some w'"
    and r: "(if q \<noteq> (0 :: int) then x else do { w \<leftarrow> process_post_list (run_handler app ka maxc other he) w; w \<leftarrow> f w; g w }) = Some r"
  shows "(if q \<noteq> 0 then x else do { w \<leftarrow> process_post_list (run_handler app' ka maxc other he) w; w \<leftarrow> f' w; g w }) = Some r"
proof (cases "q = 0")
  case True
  then obtain w1 w2 where w: "process_post_list (run_handler app ka maxc other he) w = Some w1" "f w1 = Some w2" "g w2 = Some r"
    using r by (auto simp: bind_eq_Some_conv)
  show ?thesis using True less_post_list [OF l w(1)] f [OF w(2)] w(3) by simp
qed (use r in simp)

lemma less_round:
  assumes l: "answers_less app app'" and r: "event_round lock app ka maxc other e lw = Some r"
  shows "event_round lock app' ka maxc other e lw = Some r"
proof -
  obtain lp w where lw: "lw = (lp, w)" by (cases lw) auto
  show ?thesis
  proof (cases "channel_signal w = LTS_CHANNEL_SIGEXIT \<or> \<not> re_parent e")
    case True
    then show ?thesis using r lw by (cases lock) (simp_all add: event_round_def multi_round_def single_round_def)
  next
    case go: False
    show ?thesis
    proof (cases lock)
      case True
      obtain lp1 w1 where t: "try_accept maxc (re_lock e) lp w = (lp1, w1)" by (cases "try_accept maxc (re_lock e) lp w") auto
      obtain q w2 where p: "epoll_process_events (re_tick e) (re_events e) w1 = Some (q, w2)"
        using r True go t lw by (auto simp: event_round_def multi_round_def Let_def bind_eq_Some_conv)
      let ?lp = "lp1\<lparr> rslt := Some q \<rparr>"
      obtain lp3 w3 where d: "(if lock_hold ?lp then disable_accept_events ?lp w2 else (?lp, w2)) = (lp3, w3)"
        by (cases "if lock_hold ?lp then disable_accept_events ?lp w2 else (?lp, w2)") auto
      have "(if q \<noteq> 0 then Some (False, lp3, w3)
        else do { w \<leftarrow> process_post_list (run_handler app ka maxc other (re_handlers e)) w3; w \<leftarrow> expire_timers app ka w; Some (True, lp3, w) }) = Some r"
        using r True go t p d lw by (simp add: event_round_def multi_round_def Let_def)
      from less_tail [OF l less_expire [OF l] this] show ?thesis
        using True go t p d lw by (simp add: event_round_def multi_round_def Let_def)
    next
      case False
      obtain q w2 where p: "epoll_process_events (re_tick e) (re_events e) w = Some (q, w2)"
        using r False go lw by (auto simp: event_round_def single_round_def Let_def bind_eq_Some_conv)
      let ?lp = "lp\<lparr> rslt := Some q \<rparr>"
      have "(if q \<noteq> 0 then Some (False, ?lp, w2)
        else do { w \<leftarrow> process_post_list (run_handler app ka maxc other (re_handlers e)) w2; w \<leftarrow> expire_timers_single app ka w; Some (True, ?lp, w) }) = Some r"
        using r False go p lw by (simp add: event_round_def single_round_def Let_def)
      from less_tail [OF l less_expire_single [OF l] this] show ?thesis
        using False go p lw by (simp add: event_round_def single_round_def Let_def)
    qed
  qed
qed

text \<open>A run that \<open>one_login\<close> has not stopped is a run of the module itself.\<close>

lemma one_login_round:
  "event_round lock (one_login app) ka maxc other e lw = Some r \<Longrightarrow> event_round lock app ka maxc other e lw = Some r"
  by (rule less_round [OF one_login_less])

section \<open>The property\<close>

text \<open>C1. Safety of the P2P server.  From its start on, after any number of rounds of either event loop, whatever
  the system calls answer, the clients send and the threads post on the channels, a worker has intact socket
  lists and timers, at most \<open>max_connections\<close> connections, counted correctly, and does not hold the accept lock
  between two rounds; the sessions in use are exactly those in the map, and a session that has a connection is
  tied to an open socket that points back to it.  The runs are those in which no client logs in a second
  time on a connection.\<close>

theorem p2p_server_keeps_sessions:
  assumes "fresh_memory w0" and "max_conn_ok maxc" and "apart rs base sz (nat (maxc + 64))"
    and "alloc_listen_sockets (Some rs) True maxc base sz w0 = Some (0, ls, w1)"
    and "init_event_core_worker fd0 w1 = Some (chan, w2)"
    and "init_p2p_fsm_module e tsz w2 = Some (0, w3)" and "s_ts_uselst < ps_ats e" and "0 < tsz" and "0 < keepalive"
    and "p2p_reach lock conf keepalive maxc (new_worker ls, w3) (lp, w)"
  shows "(\<exists>F. net_inv w F {}) \<and> current_conns w = int (card (live w)) \<and> current_conns w \<le> maxc \<and> \<not> lock_hold lp \<and>
    (\<exists>G. sessions_ok w G \<and> conns_ok w G)"
  using p2p_server_correct [OF assms] by (auto simp: loop_inv_def net_inv_def keep_sessions_def)

definition sample_start :: p2p_start_env where
  "sample_start = \<lparr> ps_pool = True, ps_redis = True, ps_sub = Some 8, ps_udp = Some 9, ps_sub_thread = True, ps_udp_thread = True,
     ps_ats = 2000 \<rparr>"

theorem p2p_server_keeps_sessions_witness:
  "\<exists>w1 w2 w3 lp (w :: p2p) G. alloc_listen_sockets (Some [one_record]) True 1 1000 8 (zero_net undefined) = Some (0, [40], w1) \<and>
     init_event_core_worker 6 w1 = Some (1000, w2) \<and> init_p2p_fsm_module sample_start 8 w2 = Some (0, w3) \<and>
     event_round True (one_login (p2p_fsm_itfc sample_conf (\<lambda>_ _. sample_env))) 60 1 (p2p_channels (\<lambda>_. None) (\<lambda>_. None))
       (quiet None undefined) (new_worker [40], w3) = Some (True, lp, w) \<and>
     current_conns w \<le> 1 \<and> \<not> lock_hold lp \<and> sessions_ok w G"
proof -
  let ?w0 = "zero_net undefined :: p2p" and ?app = "one_login (p2p_fsm_itfc sample_conf (\<lambda>_ _. sample_env))"
  obtain w1 where w1: "alloc_listen_sockets (Some [one_record]) True 1 1000 8 ?w0 = Some (0, [40], w1)"
    using one_record_listens [of undefined] by (elim exE)
  have m: "max_conn_ok 1" by (simp add: max_conn_ok_def)
  let ?F = "(\<lambda>_. [])(lts_sock_list := map (\<lambda>i. 1000 + i * 8) [1..<nat 1 + 64])"
  obtain w2 where w2: "init_event_core_worker 6 w1 = Some (1000, w2)" "net_inv w2 ?F {}" "live w2 = {}" "channel_signal w2 = 0"
    using server_start_correct [OF zero_net_fresh m one_record_apart w1, of 6] by blast
  obtain s1 s2 fs where f: "?F lts_sock_list = s1 # s2 # fs" using two_cached [of "\<lambda>i. 1000 + i * 8" "nat 1"] by auto
  have e: "s_ts_uselst < ps_ats sample_start" "p2p_start_ok sample_start" by (simp_all add: sample_start_def p2p_start_ok_def)
  obtain w3 where w3: "init_p2p_fsm_module sample_start 8 w2 = Some (0, w3)" "net_inv w3 (?F(lts_sock_list := fs)) {}"
      "keep_sessions w3" "channel_signal w3 = channel_signal w2"
    using init_p2p_module_correct [OF w2(2,3) f e(1) _ e(2), of 8] by (metis zero_less_numeral)
  obtain w where ex: "expire_timers ?app 60 (ticked None w3) = Some w"
    using p2p_server.expire_closes_due [OF ticked_keeps(1) [OF w3(2), of None], where keepalive = 60] w3(3)
    by (fastforce simp: ticked_def)
  obtain lp where r: "multi_round ?app 60 1 (p2p_channels (\<lambda>_. None) (\<lambda>_. None)) (quiet None undefined) (new_worker [40], w3) = Some (True, lp, w)"
    using quiet_round [OF w3(2) _ _ _ ex, of "new_worker [40]" 1 "p2p_channels (\<lambda>_. None) (\<lambda>_. None)" undefined] w3(4) w2(4)
    by (auto simp: new_worker_def)
  then have r': "event_round True ?app 60 1 (p2p_channels (\<lambda>_. None) (\<lambda>_. None)) (quiet None undefined) (new_worker [40], w3) = Some (True, lp, w)"
    by (simp add: event_round_def)
  have ev: "events_ok (quiet None undefined) (snd (new_worker [40], w3))" by (simp add: events_ok_def quiet_def)
  have "p2p_reach True sample_conf 60 1 (new_worker [40], w3) (lp, w)" by (rule p2p_reach.round [OF p2p_reach.start ev r'])
  from p2p_server_keeps_sessions [OF zero_net_fresh m one_record_apart w1 w2(1) w3(1) e(1) _ _ this]
  obtain G where "current_conns w \<le> 1" "\<not> lock_hold lp" "sessions_ok w G" by auto
  then show ?thesis using w1 w2(1) w3(1) r' by blast
qed

end
