(* ===== verification/ConfFile.thy ===== *)
theory ConfFile
  imports JsonProps
begin

text \<open>
  \<open>src/conf.c\<close>: a configuration file is mapped into memory, its comments are cut out in place, the
  rest is decoded as JSON, and every member with a string value is handed to the handler of the
  item with its name.

  The items of a configuration are the parameter of \<open>parse_conf\<close>; the locale \<open>conf_table\<close> says
  what the parser relies on, and what follows for the configuration it fills.
\<close>

section \<open>The file\<close>

text \<open>What the system calls give: whether the file opens, its size if \<open>fstat\<close> succeeds, the mapping if
  \<open>mmap\<close> succeeds, and whether \<open>munmap\<close> does.\<close>

record conf_file =
  cf_opens :: bool
  cf_size :: "nat option"
  cf_map :: "byte list option"

definition MAX_CONF_SIZE :: nat where
  "MAX_CONF_SIZE = 65535"

text \<open>The return value, the mapping with its size, and whether the descriptor is open.\<close>

definition load_conf_file :: "conf_file \<Rightarrow> int \<times> lts_str option \<times> bool" where
  "load_conf_file f =
     (if \<not> cf_opens f then (-1, None, False)
      else case cf_size f of
        None \<Rightarrow> (-1, None, False)
      | Some st_size \<Rightarrow>
          if st_size > MAX_CONF_SIZE then (-1, None, False)
          else case cf_map f of
            None \<Rightarrow> (-1, None, False)
          | Some D \<Rightarrow> (0, Some \<lparr> s_data = D, s_len = st_size \<rparr>, True))"

section \<open>Comments\<close>

text \<open>The loop at the head of \<open>parse_conf\<close>.\<close>

partial_function (option) strip_loop :: "lts_str \<Rightarrow> nat \<Rightarrow> lts_str option" where
  "strip_loop s i =
     (if i < s_len s then do {
        c \<leftarrow> rd (s_data s) i;
        if c \<noteq> c_hash then strip_loop s (i + 1)
        else do {
          n \<leftarrow> scan (\<lambda>b. b = c_nl) (s_data s) (s_len s) (i + 1);
          s \<leftarrow> lts_str_hollow s (int i) (int n - int i);
          strip_loop s (i + 1) } }
      else Some s)"

declare strip_loop.simps [code]

text \<open>The text without its comments: a \<open>#\<close> removes the rest of its line, wherever it stands.\<close>

function strip :: "bstr \<Rightarrow> bstr" where
  "strip [] = []"
| "strip (c # cs) =
     (if c = c_hash then case dropWhile (\<lambda>b. b \<noteq> c_nl) cs of [] \<Rightarrow> [] | n # r \<Rightarrow> n # strip r
      else c # strip cs)"
  by pat_completeness auto
termination
proof (relation "measure length")
  fix c :: byte and cs n r
  assume "dropWhile (\<lambda>b. b \<noteq> c_nl) cs = n # r"
  then show "(r, c # cs) \<in> measure length"
    using length_dropWhile_le [of "\<lambda>b. b \<noteq> c_nl" cs] by simp
qed auto

lemma strip_id: "c_hash \<notin> set t \<Longrightarrow> strip t = t"
  by (induction t) auto

lemma strip_line: "c_hash \<notin> set t \<Longrightarrow> c_nl \<notin> set x \<Longrightarrow> strip (t @ c_hash # x @ c_nl # r) = t @ c_nl # strip r"
  by (induction t) (auto simp: dropWhile_append)

lemma strip_loop_correct:
  assumes "str_ok s" and "chars s = A @ B" and "length A = i"
  shows "\<exists>s'. strip_loop s i = Some s' \<and> str_ok s' \<and> chars s' = A @ strip B"
  using assms
proof (induction B arbitrary: s A i rule: strip.induct)
  case 1
  then have "\<not> i < s_len s" using length_chars [of s] by simp
  then show ?case using 1 by (subst strip_loop.simps) simp
next
  case (2 c cs)
  have len: "s_len s = length A + 1 + length cs" using length_chars [OF "2.prems"(1)] "2.prems"(2) by simp
  have D: "s_data s = A @ c # cs @ drop (s_len s) (s_data s)"
    using str_split [of s] "2.prems"(2) by simp
  have il: "i < s_len s" using len "2.prems"(3) by simp
  have rdc: "rd (s_data s) i = Some c"
    using rd_append [of A c "cs @ drop (s_len s) (s_data s)"] D [symmetric] "2.prems"(3) by metis
  show ?case
  proof (cases "c = c_hash")
    case False
    have "\<exists>s'. strip_loop s (i + 1) = Some s' \<and> str_ok s' \<and> chars s' = (A @ [c]) @ strip cs"
      by (rule "2.IH"(2) [OF False "2.prems"(1)]) (use "2.prems" in simp_all)
    then show ?thesis using il rdc False by (subst strip_loop.simps) simp
  next
    case True
    define t where "t = takeWhile (\<lambda>b. b \<noteq> c_nl) cs"
    have sc: "scan (\<lambda>b. b = c_nl) (s_data s) (s_len s) (i + 1) = Some (i + 1 + length t)"
      using scan_app [of "\<lambda>b. b = c_nl" "A @ [c]" cs "drop (s_len s) (s_data s)"] D [symmetric] len "2.prems"(3)
      by (simp add: t_def)
    have tl: "length t \<le> length cs" by (simp add: t_def length_takeWhile_le)
    obtain s1 where s1: "lts_str_hollow s (int i) (int (1 + length t)) = Some s1" "str_ok s1"
        "chars s1 = take i (chars s) @ drop (i + (1 + length t)) (chars s)"
      using lts_str_hollow_correct [OF "2.prems"(1), of i "1 + length t"] len tl "2.prems"(3) by auto
    have c1: "chars s1 = A @ dropWhile (\<lambda>b. b \<noteq> c_nl) cs"
      using s1(3) "2.prems"(2,3) by (simp add: t_def dropWhile_eq_drop)
    have e: "strip_loop s i = strip_loop s1 (i + 1)"
      using il rdc True sc s1(1) by (subst strip_loop.simps) (simp add: algebra_simps)
    show ?thesis
    proof (cases "dropWhile (\<lambda>b. b \<noteq> c_nl) cs")
      case Nil
      have cA: "chars s1 = A" using c1 unfolding Nil by simp
      then have "\<not> i + 1 < s_len s1" using length_chars [OF s1(2)] "2.prems"(3) by simp
      then show ?thesis unfolding e strip.simps Nil using cA True s1(2) by (subst strip_loop.simps) simp
    next
      case (Cons n r)
      have "\<exists>s'. strip_loop s1 (i + 1) = Some s' \<and> str_ok s' \<and> chars s' = (A @ [n]) @ strip r"
        by (rule "2.IH"(1) [OF True Cons s1(2)]) (use c1 Cons "2.prems"(3) in simp_all)
      then show ?thesis unfolding e using Cons True by simp
    qed
  qed
qed

section \<open>Items and members\<close>

text \<open>A handler gets the configuration, the key, the value and the pool.\<close>

type_synonym 'c conf_handler = "bstr \<Rightarrow> bstr \<Rightarrow> 'c \<Rightarrow> jheap \<Rightarrow> ('c \<times> jheap) option"

record 'c conf_item =
  ci_name :: bstr
  ci_handler :: "'c conf_handler option"

text \<open>The inner loop; an item without handler aborts.\<close>

fun match_items :: "'c conf_item list \<Rightarrow> 'c conf_handler" where
  "match_items [] key val conf h = Some (conf, h)"
| "match_items (it # its) key val conf h =
     (if lts_str_compare (ci_name it) key \<noteq> 0 then match_items its key val conf h
      else case ci_handler it of Some f \<Rightarrow> f key val conf h | None \<Rightarrow> None)"

partial_function (option) conf_members_loop ::
  "'c conf_item list \<Rightarrow> addr \<Rightarrow> addr \<Rightarrow> 'c \<Rightarrow> jheap \<Rightarrow> ('c \<times> jheap) option" where
  "conf_members_loop items ob iter conf h =
     (if iter = 0 then Some (conf, h)
      else do {
        (conf, h) \<leftarrow> (if jh_type h iter \<noteq> STRING_VALUE then Some (conf, h)
                     else match_items items (jh_key h iter) (jh_str h iter) conf h);
        iter \<leftarrow> lts_sjson_next ob iter h;
        conf_members_loop items ob iter conf h })"

declare conf_members_loop.simps [code]

text \<open>\<open>out\<close> is the address of the local \<open>conf_json\<close>.  The result is the return value, the configuration
  and the pool; after a decoding error the heap is not used any more.\<close>

definition parse_conf :: "lts_str \<Rightarrow> 'c conf_item list \<Rightarrow> addr \<Rightarrow> 'c \<Rightarrow> jheap \<Rightarrow> (int \<times> 'c \<times> jheap) option" where
  "parse_conf conf_text items out conf h = do {
     let h = lts_empty_sjson out h;
     conf_text \<leftarrow> strip_loop conf_text 0;
     (r, _) \<leftarrow> lts_sjson_decode conf_text out h;
     case r of
       Inl _ \<Rightarrow> Some (-1, conf, h)
     | Inr h \<Rightarrow> do {
         iter \<leftarrow> lts_sjson_first out h;
         (conf, h) \<leftarrow> conf_members_loop items out iter conf h;
         Some (0, conf, h) } }"

text \<open>The three steps every loader of a configuration has; \<open>out\<close> as above.\<close>

definition load_config :: "conf_file \<Rightarrow> 'c conf_item list \<Rightarrow> addr \<Rightarrow> 'c \<Rightarrow> jheap \<Rightarrow> (int \<times> 'c \<times> jheap) option" where
  "load_config f items out conf h =
     (case load_conf_file f of
        (_, Some text, _) \<Rightarrow> parse_conf text items out conf h
      | (_, None, _) \<Rightarrow> Some (-1, conf, h))"

section \<open>After decoding\<close>

text \<open>The decoder does not change what the pool grants, and on success the object is a tree of nodes.\<close>

lemma search_pool: "lts_sjson_search ob n l h = Some (r, h') \<Longrightarrow> jh_pool h' = jh_pool h"
  by (auto simp: lts_sjson_search_def bind_eq_Some_conv split: if_splits)

lemma attach_pool: "attach out n d = Some d' \<Longrightarrow> jh_pool (jh d') = jh_pool (jh d)"
  by (auto simp: attach_def bind_eq_Some_conv dest: search_pool)

lemma pop_pool: "pop_obj d = Some d' \<Longrightarrow> jh_pool (jh d') = jh_pool (jh d)"
  by (auto simp: pop_obj_def bind_eq_Some_conv)

lemma close_list_pool: "close_list out d = Some (Inr d') \<Longrightarrow> jh_pool (jh d') = jh_pool (jh d)"
  by (auto simp: close_list_def bind_eq_Some_conv dest: attach_pool)

lemma exp_v_start_pool: "exp_v_start out c d = Some (Inr d') \<Longrightarrow> jh_pool (jh d') = jh_pool (jh d)"
  by (auto simp: exp_v_start_def start_kv_def start_list_def start_obj_def jalloc_def Let_def bind_eq_Some_conv
      dest!: attach_pool split: if_splits)

lemma exp_v_quot_end_pool: "exp_v_quot_end out c d = Some (Inr d') \<Longrightarrow> jh_pool (jh d') = jh_pool (jh d)"
  by (auto simp: exp_v_quot_end_def grow_val_def bind_eq_Some_conv dest!: attach_pool split: if_splits)

lemmas step_parts = exp_start_def exp_k_quot_start_or_end_def exp_k_quot_start_def exp_k_quot_end_def exp_colon_def
  exp_v_quot_start_or_bracket_end_def exp_comma_or_bracket_end_def exp_comma_or_end_def

lemma sjson_step_pool: "sjson_step out c d = Some (Inr d') \<Longrightarrow> jh_pool (jh d') = jh_pool (jh d)"
  by (cases "current_stat d")
    (auto simp: sjson_step_def step_parts jalloc_def Let_def bind_eq_Some_conv
      dest!: pop_pool close_list_pool exp_v_start_pool exp_v_quot_end_pool split: if_splits)

lemma run_pool: "run out cs d = Some (Inr d') \<Longrightarrow> jh_pool (jh d') = jh_pool (jh d)"
proof (induction cs arbitrary: d)
  case (Cons c cs)
  then obtain d1 where d1: "sjson_step out c d = Some (Inr d1)" "run out cs d1 = Some (Inr d')"
    by (auto simp: bind_eq_Some_conv split: sum.splits) (metis obj_sumE)
  then show ?case using Cons.IH [OF d1(2)] sjson_step_pool [OF d1(1)] by simp
qed simp

lemma decode_leaves_tree:
  assumes "str_ok src" and "obj_tree (jh_tree h out) []" and "out < jh_next h"
  shows "\<exists>r src'. lts_sjson_decode src out h = Some (r, src') \<and>
    (\<forall>h'. r = Inr h' \<longrightarrow> (\<exists>ns. obj_tree (jh_tree h' out) ns) \<and> jh_pool h' = jh_pool h \<and> out < jh_next h')"
proof -
  obtain src' n where f: "lts_str_filter_multi src sjson_invisible = Some (src', n)" "str_ok src'"
    using filter_core_correct [OF assms(1), of "charmap_isset (charmap_of sjson_invisible)"]
    by (auto simp: lts_str_filter_multi_def)
  have "stack_ok out [] h 0" using assms(2,3) by (auto simp: stack_ok_def)
  then have "dec_inv out (dec_start h)" using assms(3)
    unfolding dec_inv_def by (intro exI [of _ "[]"]) (simp add: dec_start_def pend_node_def phase_ok_def)
  from run_safe [OF this, of "chars src'"]
  obtain x where x: "run out (chars src') (dec_start h) = Some x" "\<forall>d. x = Inr d \<longrightarrow> dec_inv out d" by blast
  have "(\<exists>ns. obj_tree (jh_tree (jh d) out) ns) \<and> jh_pool (jh d) = jh_pool h \<and> out < jh_next (jh d)" if "x = Inr d" for d
    using that x run_pool [of out "chars src'" "dec_start h" d]
    by (auto simp: dec_inv_def stack_ok_def dec_start_def)
  then show ?thesis
    using f x(1) decode_chars_run [OF f(2), of 0 out "dec_start h"]
    by (cases x) (auto simp: lts_sjson_decode_def)
qed

section \<open>What the parser relies on\<close>

text \<open>A pool that is never exhausted: a configuration file has at most 65535 bytes, the pools of the
  callers 64 megabytes.\<close>

definition plenty :: "jheap \<Rightarrow> bool" where
  "plenty h \<longleftrightarrow> 0 < jh_next h \<and> (\<forall>i n. 0 < i \<longrightarrow> jh_pool h i n)"

lemma plenty_grants: "plenty h \<Longrightarrow> pool_grants h lim"
  by (simp add: plenty_def pool_grants_def)

lemma plenty_next: "plenty h \<Longrightarrow> jh_next h \<le> n \<Longrightarrow> plenty (h\<lparr> jh_next := n \<rparr>)"
  by (simp add: plenty_def)

text \<open>The items of a configuration: matching a member has the effect \<open>effect\<close> on the configuration and only
  allocates from the pool, and \<open>ok\<close> is an invariant of the effects.\<close>

locale conf_table =
  fixes items :: "'c conf_item list" and effect :: "bstr \<Rightarrow> bstr \<Rightarrow> 'c \<Rightarrow> 'c" and ok :: "'c \<Rightarrow> bool"
  assumes matched: "plenty h \<Longrightarrow> ok c \<Longrightarrow>
      \<exists>n \<ge> jh_next h. match_items items k v c h = Some (effect k v c, h\<lparr> jh_next := n \<rparr>)"
    and keeps_ok: "ok c \<Longrightarrow> ok (effect k v c)"
begin

text \<open>The members of a tree, and the value the configuration ends with.\<close>

definition member_effect :: "jheap \<Rightarrow> addr \<Rightarrow> 'c \<Rightarrow> 'c" where
  "member_effect h a = (if jh_type h a = STRING_VALUE then effect (jh_key h a) (jh_str h a) else id)"

lemma members_loop:
  assumes "obj_tree (jh_tree h ob) (xs @ ys)" and "plenty h" and "ok c"
  shows "\<exists>n \<ge> jh_next h. conf_members_loop items ob (hd_or0 ys) c h = Some (fold (member_effect h) ys c, h\<lparr> jh_next := n \<rparr>) \<and>
    ok (fold (member_effect h) ys c)"
  using assms
proof (induction ys arbitrary: xs c h)
  case Nil
  then show ?case by (subst conf_members_loop.simps) (auto simp: hd_or0_def intro!: exI [of _ "jh_next h"])
next
  case (Cons a ys)
  have a: "a \<noteq> 0" using obj_tree_facts [OF Cons.prems(1)] by auto
  have "\<exists>n \<ge> jh_next h. (if jh_type h a \<noteq> STRING_VALUE then Some (c, h)
      else match_items items (jh_key h a) (jh_str h a) c h) = Some (member_effect h a c, h\<lparr> jh_next := n \<rparr>)"
    using matched [OF Cons.prems(2,3), of "jh_key h a" "jh_str h a"]
    by (cases "jh_type h a = STRING_VALUE") (auto simp: member_effect_def intro!: exI [of _ "jh_next h"])
  then obtain n where n: "jh_next h \<le> n" "(if jh_type h a \<noteq> STRING_VALUE then Some (c, h)
      else match_items items (jh_key h a) (jh_str h a) c h) = Some (member_effect h a c, h\<lparr> jh_next := n \<rparr>)" by blast
  let ?h = "h\<lparr> jh_next := n \<rparr>"
  have ok: "ok (member_effect h a c)" using keeps_ok [OF Cons.prems(3)] Cons.prems(3) by (simp add: member_effect_def)
  have t: "obj_tree (jh_tree ?h ob) ((xs @ [a]) @ ys)" using Cons.prems(1) by simp
  have eq: "member_effect ?h = member_effect h" by (simp add: member_effect_def fun_eq_iff)
  obtain m where m: "jh_next ?h \<le> m"
      "conf_members_loop items ob (hd_or0 ys) (member_effect h a c) ?h = Some (fold (member_effect h) ys (member_effect h a c), ?h\<lparr> jh_next := m \<rparr>)"
      "ok (fold (member_effect h) ys (member_effect h a c))"
    using Cons.IH [OF t plenty_next [OF Cons.prems(2) n(1)] ok] unfolding eq by blast
  have nx: "lts_sjson_next ob a ?h = Some (hd_or0 ys)"
    using obj_tree_next(1) [OF Cons.prems(1)] by (simp add: lts_sjson_next_def)
  have "conf_members_loop items ob (hd_or0 (a # ys)) c h = Some (fold (member_effect h) (a # ys) c, h\<lparr> jh_next := m \<rparr>)"
    by (subst conf_members_loop.simps, simp only: n(2) hd_or0_def list.case)
      (use a nx m(2) in \<open>simp add: hd_or0_def\<close>)
  then show ?case using m(1,3) n(1) by (intro exI [of _ m]) simp
qed

text \<open>The effect of decoded members, in the order of their keys.\<close>

definition effects :: "(bstr \<times> json) list \<Rightarrow> 'c \<Rightarrow> 'c" where
  "effects = fold (\<lambda>(k, j). case j of JStr v \<Rightarrow> effect k v | _ \<Rightarrow> id)"

lemma member_effects: "members h ns kvs \<Longrightarrow> fold (member_effect h) ns c = effects kvs c"
proof (induction arbitrary: c rule: list_all2_induct)
  case (Cons a ns kv kvs)
  then have "member_effect h a = (\<lambda>(k, j). case j of JStr v \<Rightarrow> effect k v | _ \<Rightarrow> id) kv"
    by (auto simp: member_effect_def fun_eq_iff split: json.splits)
  then show ?case using Cons by (simp add: effects_def)
qed (simp add: effects_def)

lemma parse_conf_total:
  assumes "str_ok s" and "plenty h" and "out < jh_next h" and "ok c"
  shows "\<exists>r c' h'. parse_conf s items out c h = Some (r, c', h') \<and> ok c'"
proof -
  let ?h = "lts_empty_sjson out h"
  obtain s' where s': "strip_loop s 0 = Some s'" "str_ok s'"
    using strip_loop_correct [OF assms(1), of "[]"] by auto
  have e: "obj_tree (jh_tree ?h out) []" "out < jh_next ?h" "jh_pool ?h = jh_pool h"
    using assms(3) by (simp_all add: lts_empty_sjson_def lts_key_sjson_def)
  obtain r src' where d: "lts_sjson_decode s' out ?h = Some (r, src')"
      "\<forall>h'. r = Inr h' \<longrightarrow> (\<exists>ns. obj_tree (jh_tree h' out) ns) \<and> jh_pool h' = jh_pool ?h \<and> out < jh_next h'"
    using decode_leaves_tree [OF s'(2) e(1,2)] by blast
  show ?thesis
  proof (cases r)
    case (Inl x)
    then show ?thesis using s'(1) d(1) assms(4) by (simp add: parse_conf_def Let_def)
  next
    case (Inr h1)
    then obtain ns where ns: "obj_tree (jh_tree h1 out) ([] @ ns)" "plenty h1"
      using d(2) e(3) assms(2) by (fastforce simp: plenty_def)
    have "lts_sjson_first out h1 = Some (hd_or0 ns)"
      using obj_tree_first [of _ ns] ns(1) by (simp add: lts_sjson_first_def)
    then show ?thesis
      using members_loop [OF ns assms(4)] s'(1) d(1) Inr by (auto simp: parse_conf_def Let_def)
  qed
qed

lemma parse_conf_text:
  assumes "str_ok s" and "filter (\<lambda>c. c \<notin> set sjson_invisible) (strip (chars s)) = jtext (JObj kvs)" and "jgood (JObj kvs)"
    and "plenty h" and "out < jh_next h" and "ok c"
  shows "\<exists>h' nkvs. norm (JObj kvs) = JObj nkvs \<and> parse_conf s items out c h = Some (0, effects nkvs c, h')"
proof -
  let ?h = "lts_empty_sjson out h"
  obtain s' where s': "strip_loop s 0 = Some s'" "str_ok s'" "chars s' = strip (chars s)"
    using strip_loop_correct [OF assms(1), of "[]"] by auto
  have e: "obj_rep ?h out [] []" "out < jh_next ?h" "pool_grants ?h 72" "jh_pool ?h = jh_pool h"
    using assms(5) plenty_grants [OF assms(4)]
    by (simp_all add: lts_empty_sjson_def lts_key_sjson_def obj_rep_def pool_grants_def)
  obtain h1 src' ns nkvs where d: "lts_sjson_decode s' out ?h = Some (Inr h1, src')" "norm (JObj kvs) = JObj nkvs"
      "obj_rep h1 out ns nkvs" "frame_obj out ?h h1"
    using lts_sjson_decode_obj [OF s'(2) _ assms(3) e(1-3)] assms(2) unfolding s'(3) by blast
  have t: "obj_tree (jh_tree h1 out) ([] @ ns)" and m: "members h1 ns nkvs" using d(3) by (simp_all add: obj_rep_def)
  have p: "plenty h1" using d(4) e(2,4) assms(4) by (auto simp: plenty_def frame_obj_def)
  have "lts_sjson_first out h1 = Some (hd_or0 ns)"
    using obj_tree_first [of _ ns] t by (simp add: lts_sjson_first_def)
  then show ?thesis
    using members_loop [OF t p assms(6)] s'(1) d(1,2) member_effects [OF m, of c] by (auto simp: parse_conf_def Let_def)
qed

end

end
