(* ===== verification/ConfMain.thy ===== *)
theory ConfMain
  imports ConfFile P2pService
begin

text \<open>
  The two configurations of the server: \<open>src/modules/conf_main.c\<close> (\<open>lts_conf_t\<close>) and
  \<open>src/modules/conf_p2p_fsm.c\<close> (\<open>lts_conf_p2p_fsm_t\<close>), with the handlers of their items.

  A handler copies the value into a buffer of the pool and adds a NUL; \<open>junk\<close> is what the buffer held
  before.
\<close>

section \<open>The main configuration\<close>

record lts_conf =
  mc_daemon :: int
  mc_port :: lts_str
  mc_workers :: int
  mc_max_connections :: int
  mc_keepalive :: int
  mc_pid_file :: lts_str
  mc_log_file :: lts_str
  mc_app_mod_conf :: lts_str

definition MAX_KEEPALIVE :: int where
  "MAX_KEEPALIVE = 24 * 60 * 60"

text \<open>\<open>lts_string\<close>: a literal and its length without the NUL.\<close>

definition lts_string :: "string \<Rightarrow> lts_str" where
  "lts_string s = \<lparr> s_data = lit s @ [0], s_len = length s \<rparr>"

definition lts_main_conf :: lts_conf where
  "lts_main_conf = \<lparr> mc_daemon = 0, mc_port = lts_string ''6742'', mc_workers = 1, mc_max_connections = 1024,
     mc_keepalive = 60, mc_pid_file = lts_string ''run/latasia.pid'', mc_log_file = lts_string ''run/latasia.log'',
     mc_app_mod_conf = lts_string ''conf/mod_app.conf'' \<rparr>"

text \<open>The common start of the handlers.\<close>

definition item_buf :: "(nat \<Rightarrow> byte) \<Rightarrow> bstr \<Rightarrow> jheap \<Rightarrow> (byte list \<times> jheap) option" where
  "item_buf junk v h =
     (let item_buf_size = max (length v) 8 + 1;
          (p, h) = jalloc (int item_buf_size) h
      in if p = 0 then None
         else do {
           D \<leftarrow> wrn (map junk [0..<item_buf_size]) 0 v;
           D \<leftarrow> wr D (length v) 0;
           Some (D, h) })"

definition cb_daemon_match :: "(nat \<Rightarrow> byte) \<Rightarrow> lts_conf conf_handler" where
  "cb_daemon_match junk k v conf h = do {
     (item_buf, h) \<leftarrow> item_buf junk v h;
     Some (conf\<lparr> mc_daemon := atoi (cstr item_buf) \<rparr>, h) }"

definition cb_port_match :: "(nat \<Rightarrow> byte) \<Rightarrow> lts_conf conf_handler" where
  "cb_port_match junk k v conf h = do {
     (port_buf, h) \<leftarrow> item_buf junk v h;
     let nport = atoi (cstr port_buf);
     let nport = (if nport < 1 \<or> nport > 65535 then 6742 else nport);
     let port = lts_str_init port_buf (max (length v) 8 + 1 - 1);
     (r, port) \<leftarrow> lts_l2str port nport;
     if r = 0 then Some (conf\<lparr> mc_port := port \<rparr>, h) else None }"

definition cb_pid_file_match :: "(nat \<Rightarrow> byte) \<Rightarrow> lts_conf conf_handler" where
  "cb_pid_file_match junk k v conf h = do {
     (pid_file_buf, h) \<leftarrow> item_buf junk v h;
     Some (conf\<lparr> mc_pid_file := lts_str_init pid_file_buf (length v) \<rparr>, h) }"

definition cb_log_file_match :: "(nat \<Rightarrow> byte) \<Rightarrow> lts_conf conf_handler" where
  "cb_log_file_match junk k v conf h = do {
     (log_file_buf, h) \<leftarrow> item_buf junk v h;
     Some (conf\<lparr> mc_log_file := lts_str_init log_file_buf (length v) \<rparr>, h) }"

definition cb_workers_match :: "(nat \<Rightarrow> byte) \<Rightarrow> lts_conf conf_handler" where
  "cb_workers_match junk k v conf h = do {
     (item_buf, h) \<leftarrow> item_buf junk v h;
     let nworkers = atoi (cstr item_buf);
     let nworkers = (if nworkers < 1 \<or> nworkers > 512 then 1 else nworkers);
     Some (conf\<lparr> mc_workers := nworkers \<rparr>, h) }"

definition cb_keepalive_match :: "(nat \<Rightarrow> byte) \<Rightarrow> lts_conf conf_handler" where
  "cb_keepalive_match junk k v conf h = do {
     (item_buf, h) \<leftarrow> item_buf junk v h;
     let nkeepalive = atoi (cstr item_buf);
     let nkeepalive = (if nkeepalive < 0 \<or> nkeepalive > MAX_KEEPALIVE then MAX_KEEPALIVE else nkeepalive);
     Some (conf\<lparr> mc_keepalive := nkeepalive \<rparr>, h) }"

definition cb_max_connections_match :: "(nat \<Rightarrow> byte) \<Rightarrow> lts_conf conf_handler" where
  "cb_max_connections_match junk k v conf h = do {
     (item_buf, h) \<leftarrow> item_buf junk v h;
     let max_connections = atoi (cstr item_buf);
     let max_connections = (if max_connections < 1 then 1 else max_connections);
     Some (conf\<lparr> mc_max_connections := max_connections \<rparr>, h) }"

definition cb_app_mod_conf_match :: "(nat \<Rightarrow> byte) \<Rightarrow> lts_conf conf_handler" where
  "cb_app_mod_conf_match junk k v conf h = do {
     (item_buf, h) \<leftarrow> item_buf junk v h;
     Some (conf\<lparr> mc_app_mod_conf := lts_str_init item_buf (length v) \<rparr>, h) }"

definition lts_conf_main_items :: "(nat \<Rightarrow> byte) \<Rightarrow> lts_conf conf_item list" where
  "lts_conf_main_items junk =
     [\<lparr> ci_name = lit ''daemon'', ci_handler = Some (cb_daemon_match junk) \<rparr>,
      \<lparr> ci_name = lit ''port'', ci_handler = Some (cb_port_match junk) \<rparr>,
      \<lparr> ci_name = lit ''workers'', ci_handler = Some (cb_workers_match junk) \<rparr>,
      \<lparr> ci_name = lit ''pid_file'', ci_handler = Some (cb_pid_file_match junk) \<rparr>,
      \<lparr> ci_name = lit ''log_file'', ci_handler = Some (cb_log_file_match junk) \<rparr>,
      \<lparr> ci_name = lit ''keepalive'', ci_handler = Some (cb_keepalive_match junk) \<rparr>,
      \<lparr> ci_name = lit ''max_connections'', ci_handler = Some (cb_max_connections_match junk) \<rparr>,
      \<lparr> ci_name = lit ''app_mod_conf'', ci_handler = Some (cb_app_mod_conf_match junk) \<rparr>]"

text \<open>\<open>load_main_config\<close> of \<open>src/modules/mod_core.c\<close>.\<close>

definition load_main_config :: "(nat \<Rightarrow> byte) \<Rightarrow> conf_file \<Rightarrow> addr \<Rightarrow> lts_conf \<Rightarrow> jheap \<Rightarrow> (int \<times> lts_conf \<times> jheap) option" where
  "load_main_config junk f out conf h = load_config f (lts_conf_main_items junk) out conf h"

section \<open>The configuration of the P2P module\<close>

text \<open>The handlers write the global configuration, whatever \<open>conf\<close> they get; the only caller passes it.\<close>

definition p2p_buf :: "bstr \<Rightarrow> jheap \<Rightarrow> (byte list \<times> jheap) option" where
  "p2p_buf v h =
     (let (p, h) = jalloc (int (length v + 1)) h
      in if p = 0 then None else Some (v @ [0], h))"

definition lts_p2p_fsm_conf :: lts_conf_p2p_fsm where
  "lts_p2p_fsm_conf = \<lparr> redis_host = lit ''127.0.0.1'', redis_port = 6379, redis_auth = [],
     conf_retinue_master = lit ''127.0.0.1'', conf_retinue_vice = lit ''127.0.0.1'' \<rparr>"

definition cb_host_match :: "lts_conf_p2p_fsm conf_handler" where
  "cb_host_match k v c h = do { (host, h) \<leftarrow> p2p_buf v h; Some (c\<lparr> redis_host := cstr host \<rparr>, h) }"

definition cb_redis_port_match :: "lts_conf_p2p_fsm conf_handler" where
  "cb_redis_port_match k v c h = do { (port, h) \<leftarrow> p2p_buf v h; Some (c\<lparr> redis_port := atoi (cstr port) \<rparr>, h) }"

definition cb_auth_match :: "lts_conf_p2p_fsm conf_handler" where
  "cb_auth_match k v c h = do { (auth, h) \<leftarrow> p2p_buf v h; Some (c\<lparr> redis_auth := cstr auth \<rparr>, h) }"

definition cb_retinue_master_match :: "lts_conf_p2p_fsm conf_handler" where
  "cb_retinue_master_match k v c h = do { (host, h) \<leftarrow> p2p_buf v h; Some (c\<lparr> conf_retinue_master := cstr host \<rparr>, h) }"

definition cb_retinue_vice_match :: "lts_conf_p2p_fsm conf_handler" where
  "cb_retinue_vice_match k v c h = do { (host, h) \<leftarrow> p2p_buf v h; Some (c\<lparr> conf_retinue_vice := cstr host \<rparr>, h) }"

definition lts_conf_p2p_fsm_items :: "lts_conf_p2p_fsm conf_item list" where
  "lts_conf_p2p_fsm_items =
     [\<lparr> ci_name = lit ''redis_host'', ci_handler = Some cb_host_match \<rparr>,
      \<lparr> ci_name = lit ''redis_port'', ci_handler = Some cb_redis_port_match \<rparr>,
      \<lparr> ci_name = lit ''redis_auth'', ci_handler = Some cb_auth_match \<rparr>,
      \<lparr> ci_name = lit ''retinue_master'', ci_handler = Some cb_retinue_master_match \<rparr>,
      \<lparr> ci_name = lit ''retinue_vice'', ci_handler = Some cb_retinue_vice_match \<rparr>]"

definition load_p2p_fsm_config :: "conf_file \<Rightarrow> addr \<Rightarrow> lts_conf_p2p_fsm \<Rightarrow> jheap \<Rightarrow> (int \<times> lts_conf_p2p_fsm \<times> jheap) option" where
  "load_p2p_fsm_config f out conf h = load_config f lts_conf_p2p_fsm_items out conf h"

section \<open>The effect of an item\<close>

definition pick :: "int \<Rightarrow> int \<Rightarrow> int \<Rightarrow> int \<Rightarrow> int" where
  "pick lo hi d n = (if n < lo \<or> hi < n then d else n)"

text \<open>What a handler leaves of a value: the bytes with a NUL, then junk.\<close>

definition item_mem :: "(nat \<Rightarrow> byte) \<Rightarrow> bstr \<Rightarrow> byte list" where
  "item_mem junk v = v @ 0 # map junk [length v + 1..<max (length v) 8 + 1]"

definition path_of :: "(nat \<Rightarrow> byte) \<Rightarrow> bstr \<Rightarrow> lts_str" where
  "path_of junk v = \<lparr> s_data = item_mem junk v, s_len = length v \<rparr>"

definition port_of :: "(nat \<Rightarrow> byte) \<Rightarrow> bstr \<Rightarrow> lts_str" where
  "port_of junk v = (let p = sdec (pick 1 65535 6742 (atoi (cstr v)))
     in \<lparr> s_data = p @ 0 # drop (length p + 1) (item_mem junk v), s_len = length p \<rparr>)"

definition main_effect :: "(nat \<Rightarrow> byte) \<Rightarrow> bstr \<Rightarrow> bstr \<Rightarrow> lts_conf \<Rightarrow> lts_conf" where
  "main_effect junk k v c =
     (let has = (\<lambda>s. lts_str_compare (lit s) k = 0); n = atoi (cstr v) in
      if has ''daemon'' then c\<lparr> mc_daemon := n \<rparr>
      else if has ''port'' then c\<lparr> mc_port := port_of junk v \<rparr>
      else if has ''workers'' then c\<lparr> mc_workers := pick 1 512 1 n \<rparr>
      else if has ''pid_file'' then c\<lparr> mc_pid_file := path_of junk v \<rparr>
      else if has ''log_file'' then c\<lparr> mc_log_file := path_of junk v \<rparr>
      else if has ''keepalive'' then c\<lparr> mc_keepalive := pick 0 MAX_KEEPALIVE MAX_KEEPALIVE n \<rparr>
      else if has ''max_connections'' then c\<lparr> mc_max_connections := max 1 n \<rparr>
      else if has ''app_mod_conf'' then c\<lparr> mc_app_mod_conf := path_of junk v \<rparr>
      else c)"

definition p2p_effect :: "bstr \<Rightarrow> bstr \<Rightarrow> lts_conf_p2p_fsm \<Rightarrow> lts_conf_p2p_fsm" where
  "p2p_effect k v c =
     (let has = (\<lambda>s. lts_str_compare (lit s) k = 0) in
      if has ''redis_host'' then c\<lparr> redis_host := cstr v \<rparr>
      else if has ''redis_port'' then c\<lparr> redis_port := atoi (cstr v) \<rparr>
      else if has ''redis_auth'' then c\<lparr> redis_auth := cstr v \<rparr>
      else if has ''retinue_master'' then c\<lparr> conf_retinue_master := cstr v \<rparr>
      else if has ''retinue_vice'' then c\<lparr> conf_retinue_vice := cstr v \<rparr>
      else c)"

text \<open>A configuration the server can run with: the port is the decimal text of a port number, the numbers
  are in their ranges and the paths are C strings.\<close>

definition path_str_ok :: "lts_str \<Rightarrow> bool" where
  "path_str_ok s \<longleftrightarrow> s_len s < length (s_data s) \<and> s_data s ! s_len s = 0"

definition port_ok :: "lts_str \<Rightarrow> bool" where
  "port_ok s \<longleftrightarrow> (\<exists>n. 1 \<le> n \<and> n \<le> 65535 \<and> chars s = dec n) \<and> path_str_ok s"

definition conf_ok :: "lts_conf \<Rightarrow> bool" where
  "conf_ok c \<longleftrightarrow> port_ok (mc_port c) \<and> mc_workers c \<in> {1..512} \<and> mc_max_connections c \<in> {1..<2 ^ 31} \<and>
     mc_keepalive c \<in> {0..86400} \<and> path_str_ok (mc_pid_file c) \<and> path_str_ok (mc_log_file c) \<and> path_str_ok (mc_app_mod_conf c)"

section \<open>The handlers\<close>

lemma cstr_item [simp]: "cstr (xs @ 0 # ys) = cstr xs"
  unfolding cstr_def by (induction xs) auto

lemma item_buf_correct:
  assumes "plenty h"
  shows "item_buf junk v h = Some (item_mem junk v, h\<lparr> jh_next := jh_next h + 1 \<rparr>)"
proof -
  let ?n = "max (length v) 8 + 1"
  have "wrn (map junk [0..<?n]) 0 v = Some (v @ map junk [length v..<?n])"
    by (simp add: wrn_def drop_map)
  moreover have "map junk [length v..<?n] = junk (length v) # map junk [length v + 1..<?n]"
    by (subst upt_conv_Cons) simp_all
  moreover have "jh_pool h (jh_next h) n" "0 < jh_next h" for n using assms by (simp_all add: plenty_def)
  ultimately show ?thesis
    by (simp add: item_buf_def jalloc_def Let_def item_mem_def wr_append del: upt_Suc)
qed

lemma p2p_buf_correct: "plenty h \<Longrightarrow> p2p_buf v h = Some (v @ [0], h\<lparr> jh_next := jh_next h + 1 \<rparr>)"
  by (simp add: p2p_buf_def jalloc_def plenty_def Let_def)

lemma pick_range: "lo \<le> d \<Longrightarrow> d \<le> hi \<Longrightarrow> lo \<le> pick lo hi d n \<and> pick lo hi d n \<le> hi"
  by (auto simp: pick_def)

lemma length_item_mem: "length (item_mem junk v) = max (length v) 8 + 1"
  by (auto simp: item_mem_def simp del: upt_Suc)

lemma path_of_ok: "path_str_ok (path_of junk v)"
  by (simp add: path_str_ok_def path_of_def item_mem_def del: upt_Suc)

lemma sdec_nat: "0 \<le> n \<Longrightarrow> sdec n = dec (nat n)"
  by (simp add: sdec_def)

lemma dec_short: "n < 100000 \<Longrightarrow> length (dec n) \<le> 5"
  using rdec_length [of n 5] by (simp add: dec_def)

lemma port_of_correct:
  assumes "p = pick 1 65535 6742 (atoi (cstr v))"
  shows "lts_l2str (lts_str_init (item_mem junk v) (max (length v) 8 + 1 - 1)) p = Some (0, port_of junk v)"
proof -
  have p: "1 \<le> p" "p \<le> 65535" using pick_range [of 1 6742 65535] assms by simp_all
  have l: "length (sdec p) \<le> 5" using dec_short [of "nat p"] p by (simp add: sdec_nat)
  show ?thesis
    using lts_l2str_correct [of p "lts_str_init (item_mem junk v) (max (length v) 8 + 1 - 1)"] p l length_item_mem [of junk v]
    by (simp add: lts_str_init_def port_of_def assms Let_def)
qed

lemma port_of_ok: "port_ok (port_of junk v)"
proof -
  let ?p = "pick 1 65535 6742 (atoi (cstr v))"
  have p: "1 \<le> ?p" "?p \<le> 65535" using pick_range [of 1 6742 65535] by simp_all
  then obtain n where n: "?p = int n" "1 \<le> n" "n \<le> 65535" using zero_le_imp_eq_int [of ?p] by auto
  then have "\<exists>n. 1 \<le> n \<and> n \<le> 65535 \<and> chars (port_of junk v) = dec n"
    by (intro exI [of _ n]) (simp add: port_of_def chars_def sdec_nat Let_def)
  then show ?thesis by (simp add: port_ok_def path_str_ok_def port_of_def Let_def)
qed

lemmas handler_defs = cb_daemon_match_def cb_port_match_def cb_workers_match_def cb_pid_file_match_def cb_log_file_match_def
  cb_keepalive_match_def cb_max_connections_match_def cb_app_mod_conf_match_def

interpretation main_table: conf_table "lts_conf_main_items junk" "main_effect junk" conf_ok for junk
proof
  fix h c k v
  assume p: "plenty h" and "conf_ok c"
  note b = item_buf_correct [OF p]
  have c: "cstr (item_mem junk v) = cstr v" by (simp add: item_mem_def)
  have port: "cb_port_match junk k v c h = Some (c\<lparr> mc_port := port_of junk v \<rparr>, h\<lparr> jh_next := jh_next h + 1 \<rparr>)"
    using port_of_correct [OF refl, of junk v] by (simp add: cb_port_match_def b c Let_def flip: pick_def)
  have "match_items (lts_conf_main_items junk) k v c h = Some (main_effect junk k v c, h\<lparr> jh_next := jh_next h + 1 \<rparr>) \<or>
      match_items (lts_conf_main_items junk) k v c h = Some (main_effect junk k v c, h)"
    by (simp add: lts_conf_main_items_def main_effect_def Let_def port)
      (simp add: handler_defs b c pick_def path_of_def lts_str_init_def max_def)
  then show "\<exists>n \<ge> jh_next h. match_items (lts_conf_main_items junk) k v c h = Some (main_effect junk k v c, h\<lparr> jh_next := n \<rparr>)"
    by (elim disjE) (intro exI [of _ "jh_next h + 1"] exI [of _ "jh_next h"]; simp)+
next
  fix c k v
  assume "conf_ok c"
  then show "conf_ok (main_effect junk k v c)"
    using atoi_range [of "cstr v"] pick_range [of 1 1 512 "atoi (cstr v)"] pick_range [of 0 86400 86400 "atoi (cstr v)"]
    by (auto simp: conf_ok_def main_effect_def Let_def path_of_ok port_of_ok MAX_KEEPALIVE_def)
qed

interpretation p2p_table: conf_table lts_conf_p2p_fsm_items p2p_effect "\<lambda>_. True"
proof
  fix h c k v
  assume p: "plenty h"
  have "match_items lts_conf_p2p_fsm_items k v c h = Some (p2p_effect k v c, h\<lparr> jh_next := jh_next h + 1 \<rparr>) \<or>
      match_items lts_conf_p2p_fsm_items k v c h = Some (p2p_effect k v c, h)"
    by (simp add: lts_conf_p2p_fsm_items_def p2p_effect_def Let_def cb_host_match_def cb_redis_port_match_def cb_auth_match_def
        cb_retinue_master_match_def cb_retinue_vice_match_def p2p_buf_correct [OF p])
  then show "\<exists>n \<ge> jh_next h. match_items lts_conf_p2p_fsm_items k v c h = Some (p2p_effect k v c, h\<lparr> jh_next := n \<rparr>)"
    by (elim disjE) (intro exI [of _ "jh_next h + 1"] exI [of _ "jh_next h"]; simp)+
qed simp

section \<open>Properties\<close>

lemma default_ok: "conf_ok lts_main_conf"
  by (auto simp: conf_ok_def lts_main_conf_def port_ok_def path_str_ok_def lts_string_def lit_def chars_def dec_def rdec_pos
      intro!: exI [of _ 6742])

text \<open>C15. Whatever the configuration file holds, \<open>load_main_config\<close> returns and leaves a configuration the
  server can run with: a port between 1 and 65535 in decimal, 1 to 512 workers, a positive number of
  connections, at most a day of keepalive, and paths that are C strings.  No byte of the file makes the
  comment loop, the decoder or the ASSERT of the port handler fail.\<close>

theorem main_conf_always_valid:
  assumes "\<And>D n. cf_map f = Some D \<Longrightarrow> cf_size f = Some n \<Longrightarrow> n \<le> length D" and "plenty h" and "out < jh_next h"
  shows "\<exists>r c h'. load_main_config junk f out lts_main_conf h = Some (r, c, h') \<and> conf_ok c"
proof -
  obtain r t b where l: "load_conf_file f = (r, t, b)" by (cases "load_conf_file f")
  have t: "str_ok s" if "t = Some s" for s
    using l that assms(1) by (auto simp: load_conf_file_def str_ok_def split: if_splits option.splits)
  show ?thesis
    using main_table.parse_conf_total [OF t assms(2,3) default_ok, where junk = junk] l default_ok
    by (cases t) (simp_all add: load_main_config_def load_config_def)
qed

lemma main_conf_always_valid_witness:
  "\<exists>r c h'. load_main_config (\<lambda>_. 7) \<lparr> cf_opens = True, cf_size = Some 9, cf_map = Some (lit ''{#[]}}''@[0x0A,0x7B,0xFF]) \<rparr> 40
     lts_main_conf heap0 = Some (r, c, h') \<and> conf_ok c"
  by (rule main_conf_always_valid) (auto simp: lit_def plenty_def)

text \<open>C24. A file that without its comments and white space is the text of a JSON object sets the items its
  members name: every member with a string value, in the order of the keys, the first of equal keys.  Members
  of other kinds and unknown names are ignored, and no item is set otherwise.\<close>

theorem main_conf_sets_members:
  assumes "load_conf_file f = (0, Some text, True)" and "str_ok text"
    and "filter (\<lambda>c. c \<notin> set sjson_invisible) (strip (chars text)) = jtext (JObj kvs)" and "jgood (JObj kvs)"
    and "norm (JObj kvs) = JObj nkvs" and "plenty h" and "out < jh_next h" and "conf_ok c"
  shows "\<exists>h'. load_main_config junk f out c h =
    Some (0, fold (\<lambda>(k, j). case j of JStr v \<Rightarrow> main_effect junk k v | _ \<Rightarrow> id) nkvs c, h')"
  using main_table.parse_conf_text [OF assms(2-4,6-8), where junk = junk] assms(1,5)
  by (auto simp: load_main_config_def load_config_def main_table.effects_def)

text \<open>The text \<open># port\n{"workers": "4", "port": "8080"} #\<close>.\<close>

definition conf_text1 :: bstr where
  "conf_text1 = [c_hash, 0x70, c_nl, c_lbrace, c_quot, 0x77, 0x6F, 0x72, 0x6B, 0x65, 0x72, 0x73, c_quot, c_colon, c_space, c_quot, 0x34,
     c_quot, c_comma, c_quot, 0x70, 0x6F, 0x72, 0x74, c_quot, c_colon, c_quot, 0x38, 0x30, 0x38, 0x30, c_quot, c_rbrace, c_hash]"

lemma main_conf_sets_members_witness:
  "\<exists>c h'. load_main_config (\<lambda>_. 7) \<lparr> cf_opens = True, cf_size = Some 34, cf_map = Some conf_text1 \<rparr> 40 lts_main_conf heap0 =
     Some (0, c, h') \<and> mc_workers c = 4 \<and> chars (mc_port c) = lit ''8080'' \<and> mc_keepalive c = 60"
proof -
  let ?f = "\<lparr> cf_opens = True, cf_size = Some 34, cf_map = Some conf_text1 \<rparr>" and ?s = "\<lparr> s_data = conf_text1, s_len = 34 \<rparr>"
  let ?w = "[0x77, 0x6F, 0x72, 0x6B, 0x65, 0x72, 0x73] :: bstr" and ?p = "[0x70, 0x6F, 0x72, 0x74] :: bstr"
  let ?kvs = "[(?w, JStr [0x34]), (?p, JStr [0x38, 0x30, 0x38, 0x30])]"
  have f: "load_conf_file ?f = (0, Some ?s, True)" by (simp add: load_conf_file_def MAX_CONF_SIZE_def)
  have t: "str_ok ?s" "filter (\<lambda>c. c \<notin> set sjson_invisible) (strip (chars ?s)) = jtext (JObj ?kvs)"
    by (simp_all add: str_ok_def conf_text1_def sjson_invisible_def quoted_def chars_def)
  have n: "norm (JObj ?kvs) = JObj [(?p, JStr [0x38, 0x30, 0x38, 0x30]), (?w, JStr [0x34])]"
    by (simp add: ins_all_def ins_kv.simps)
  have a: "atoi (cstr [0x34]) = 4" "atoi (cstr [0x38, 0x30, 0x38, 0x30]) = 8080" by code_simp+
  have e: "main_effect (\<lambda>_. 7) ?w [0x34] (main_effect (\<lambda>_. 7) ?p [0x38, 0x30, 0x38, 0x30] lts_main_conf) =
    lts_main_conf\<lparr> mc_port := port_of (\<lambda>_. 7) [0x38, 0x30, 0x38, 0x30], mc_workers := 4 \<rparr>"
    by (simp add: main_effect_def lit_def Let_def a pick_def)
  have "chars (port_of (\<lambda>_. 7) [0x38, 0x30, 0x38, 0x30]) = lit ''8080''"
    by (simp add: port_of_def a pick_def chars_def Let_def sdec_def dec_def rdec_pos lit_def)
  then show ?thesis
    using main_conf_sets_members [OF f t _ n, of heap0 40 lts_main_conf "\<lambda>_. 7"] default_ok e
    by (auto simp: plenty_def lts_main_conf_def)
qed

end
