(* ===== verification/RetinueThreads.thy ===== *)
theory RetinueThreads
  imports P2pProps ConfMain
begin

text \<open>
  The two threads beside the event loop of the P2P module: \<open>subscribe_thread.c\<close> turns the messages the
  retinue servers publish through redis into reports, \<open>udp_thread.c\<close> turns the datagrams of the clients
  into hole addresses.  Both post a pointer on a channel that the event loop reads (\<open>on_channel_sub\<close>,
  \<open>on_channel_udp\<close> in \<open>P2pSession\<close>).

  A message is decoded in a pool of its own: \<open>th_heap\<close> is that pool's memory, \<open>th_out\<close> and \<open>th_tmp\<close> are the
  addresses of the local object and of the local node of a lookup.
\<close>

record thread_env =
  th_pool :: bool
  th_heap :: jheap
  th_out :: addr
  th_tmp :: addr

section \<open>Messages of the retinue servers\<close>

text \<open>The answer of redis: a decoded array, or any other type.\<close>

datatype redis_reply = REDIS_REPLY_ARRAY "bstr list" | OTHER_REPLY

definition TITLE_MASTER :: bstr where "TITLE_MASTER = lit ''p2p.retinue.master''"
definition TITLE_VICE :: bstr where "TITLE_VICE = lit ''p2p.retinue.vice''"
definition STR_TRUE :: bstr where "STR_TRUE = lit ''true''"
definition auth_k :: bstr where "auth_k = lit ''auth''"
definition port_restricted_k :: bstr where "port_restricted_k = lit ''port_restricted''"
definition udp_port_k :: bstr where "udp_port_k = lit ''udp_port''"

text \<open>A member that must be a string: its node, or \<open>None\<close> for the return after \<open>lts_destroy_pool\<close>.\<close>

definition string_member :: "thread_env \<Rightarrow> bstr \<Rightarrow> jheap \<Rightarrow> (addr option \<times> jheap) option" where
  "string_member e k h = do {
     (obj_node, h) \<leftarrow> lts_sjson_get_obj_node (th_tmp e) (th_out e) k h;
     Some (if obj_node = 0 \<or> jh_type h obj_node \<noteq> STRING_VALUE then None else Some obj_node, h) }"

text \<open>A clone owns its bytes and a NUL.\<close>

definition clone_str :: "bstr \<Rightarrow> jheap \<Rightarrow> (lts_str \<times> jheap) option" where
  "clone_str v h = do { (s, h) \<leftarrow> jclone v h; Some (lts_str_init (s @ [0]) (length s), h) }"

text \<open>The report a message becomes, \<open>Some None\<close> when the message is dropped.\<close>

definition handle_title_master :: "thread_env \<Rightarrow> bstr \<Rightarrow> sub_chanpack option option" where
  "handle_title_master e msg =
     (if \<not> th_pool e then Some None
      else do {
        let h = lts_empty_sjson (th_out e) (th_heap e);
        let (data_ptr, h) = jalloc 32 h;
        (r, _) \<leftarrow> lts_sjson_decode (lts_str_init msg (length msg)) (th_out e) h;
        case r of Inl _ \<Rightarrow> Some None
        | Inr h \<Rightarrow> if data_ptr = 0 then None else do {
            (n, h) \<leftarrow> string_member e auth_k h;
            case n of None \<Rightarrow> Some None
            | Some n \<Rightarrow> do {
                (auth, h) \<leftarrow> clone_str (jh_str h n) h;
                (n, h) \<leftarrow> string_member e port_restricted_k h;
                case n of None \<Rightarrow> Some None
                | Some n \<Rightarrow> do {
                    v \<leftarrow> lts_str_lowercase (lts_str_init (jh_str h n) (length (jh_str h n)));
                    let h = h\<lparr> jh_str := (jh_str h)(n := chars v) \<rparr>;
                    let restr = (lts_str_compare STR_TRUE (jh_str h n) = 0);
                    (n, h) \<leftarrow> string_member e udp_port_k h;
                    case n of None \<Rightarrow> Some None
                    | Some n \<Rightarrow> do {
                        (prt, h) \<leftarrow> clone_str (jh_str h n) h;
                        Some (Some \<lparr> retinue_master = True, sub_auth = auth, port_restricted = restr,
                                     udp_port = atoi (cstr (s_data prt)) \<rparr>) } } } } })"

text \<open>A vice says nothing about \<open>port_restricted\<close>; \<open>junk\<close> is what its memory held.\<close>

definition handle_title_vice :: "thread_env \<Rightarrow> bool \<Rightarrow> bstr \<Rightarrow> sub_chanpack option option" where
  "handle_title_vice e junk msg =
     (if \<not> th_pool e then Some None
      else do {
        let h = lts_empty_sjson (th_out e) (th_heap e);
        let (data_ptr, h) = jalloc 32 h;
        (r, _) \<leftarrow> lts_sjson_decode (lts_str_init msg (length msg)) (th_out e) h;
        case r of Inl _ \<Rightarrow> Some None
        | Inr h \<Rightarrow> if data_ptr = 0 then None else do {
            (n, h) \<leftarrow> string_member e auth_k h;
            case n of None \<Rightarrow> Some None
            | Some n \<Rightarrow> do {
                (auth, h) \<leftarrow> clone_str (jh_str h n) h;
                (n, h) \<leftarrow> string_member e udp_port_k h;
                case n of None \<Rightarrow> Some None
                | Some n \<Rightarrow> do {
                    (prt, h) \<leftarrow> clone_str (jh_str h n) h;
                    Some (Some \<lparr> retinue_master = False, sub_auth = auth, port_restricted = junk,
                                 udp_port = atoi (cstr (s_data prt)) \<rparr>) } } } })"

text \<open>The body of the inner loop of \<open>subscribe_thread\<close>: the reports on the channel so far.  An array without a
  second or third element is read outside.\<close>

definition on_reply :: "thread_env \<Rightarrow> bool \<Rightarrow> redis_reply \<Rightarrow> sub_chanpack list \<Rightarrow> sub_chanpack list option" where
  "on_reply e junk reply chan = (case reply of
     OTHER_REPLY \<Rightarrow> Some chan
   | REDIS_REPLY_ARRAY element \<Rightarrow> do {
       title \<leftarrow> rd element 1;
       if cstr title = TITLE_MASTER then do {
         msg \<leftarrow> rd element 2; d \<leftarrow> handle_title_master e msg; Some (case d of Some d \<Rightarrow> chan @ [d] | None \<Rightarrow> chan) }
       else if cstr title = TITLE_VICE then do {
         msg \<leftarrow> rd element 2; d \<leftarrow> handle_title_vice e junk msg; Some (case d of Some d \<Rightarrow> chan @ [d] | None \<Rightarrow> chan) }
       else Some chan })"

text \<open>The inner loop ends when \<open>redisGetReply\<close> fails: the list of replies until then.\<close>

fun reply_loop :: "(thread_env \<times> bool \<times> redis_reply) list \<Rightarrow> sub_chanpack list \<Rightarrow> sub_chanpack list option" where
  "reply_loop [] chan = Some chan"
| "reply_loop ((e, junk, reply) # rs) chan = do { chan \<leftarrow> on_reply e junk reply chan; reply_loop rs chan }"

text \<open>One round of the outer loop: whether \<open>s_rds\<close> is set, whether a connection can be made, whether it is
  alive, and the replies, of which the first two answer the subscription.\<close>

definition subscribe_round :: "bool \<Rightarrow> bool \<Rightarrow> (thread_env \<times> bool \<times> redis_reply) list \<Rightarrow> bool \<Rightarrow> sub_chanpack list \<Rightarrow>
    (bool \<times> sub_chanpack list) option" where
  "subscribe_round get alive replies s_rds chan =
     (let s_rds = (if \<not> s_rds then get else s_rds)
      in if \<not> s_rds then Some (s_rds, chan)
         else if \<not> alive then Some (False, chan)
         else do { chan \<leftarrow> reply_loop (drop 2 replies) chan; Some (s_rds, chan) })"

section \<open>Datagrams of the clients\<close>

text \<open>\<open>htons\<close> and \<open>htonl\<close> on a little endian machine.\<close>

definition htons_w :: "16 word \<Rightarrow> 16 word" where
  "htons_w x = push_bit 8 x + drop_bit 8 x"

definition htonl_w :: "32 word \<Rightarrow> 32 word" where
  "htonl_w x = push_bit 24 x + push_bit 16 (drop_bit 8 x mod 256) + push_bit 8 (drop_bit 16 x mod 256) + drop_bit 24 x"

record datagram =
  dg_addr :: "32 word"
  dg_port :: "16 word"
  dg_data :: bstr

text \<open>The body of the loop of \<open>udp_thread\<close>: \<open>None\<close> is an error of \<open>recvfrom\<close>, which cuts a datagram to the 512
  bytes of \<open>buf\<close>; \<open>dg_addr\<close> and \<open>dg_port\<close> are the source in network byte order.  The node of \<open>auth\<close> is not
  asked for its type: without an \<open>auth\<close> the string is what the memory behind the local node holds.\<close>

definition udp_datagram :: "thread_env \<Rightarrow> datagram option \<Rightarrow> udp_chanpack list \<Rightarrow> udp_chanpack list option" where
  "udp_datagram e rcv chan = (case rcv of
     None \<Rightarrow> Some chan
   | Some dg \<Rightarrow>
       let buf = take 512 (dg_data dg)
       in if length buf < 1 \<or> \<not> th_pool e then Some chan
          else do {
            let h = lts_empty_sjson (th_out e) (th_heap e);
            (r, _) \<leftarrow> lts_sjson_decode (lts_str_init buf (length buf)) (th_out e) h;
            case r of Inl _ \<Rightarrow> Some chan
            | Inr h \<Rightarrow> do {
                (objnode, h) \<leftarrow> lts_sjson_get_obj_node (th_tmp e) (th_out e) auth_k h;
                if objnode = 0 then Some chan
                else do {
                  let (data_ptr, h) = jalloc 24 h;
                  if data_ptr = 0 then None else do {
                    (auth, h) \<leftarrow> jclone (jh_str h objnode) h;
                    Some (chan @ [\<lparr> peer_hole = \<lparr> ip = htonl_w (dg_addr dg), port = htons_w (dg_port dg) \<rparr>, udp_auth = auth \<rparr>]) } } } })"

section \<open>Messages that are objects\<close>

text \<open>The message \<open>msg\<close> is the text of an object, white space apart, with the members \<open>nkvs\<close>, and the pool has
  the memory to decode it.\<close>

definition message :: "thread_env \<Rightarrow> bstr \<Rightarrow> (bstr \<times> json) list \<Rightarrow> bool" where
  "message e msg nkvs \<longleftrightarrow> (\<exists>kvs. filter (\<lambda>c. c \<notin> set sjson_invisible) msg = jtext (JObj kvs) \<and> jgood (JObj kvs) \<and>
     norm (JObj kvs) = JObj nkvs) \<and> th_pool e \<and> plenty (th_heap e) \<and> th_tmp e < th_out e \<and> th_out e < jh_next (th_heap e)"

text \<open>An object in memory, seen through its nodes: \<open>a\<close> has the key \<open>k\<close> and the string \<open>v\<close>.\<close>

definition nodes_ok :: "thread_env \<Rightarrow> jheap \<Rightarrow> addr list \<Rightarrow> bool" where
  "nodes_ok e h ns \<longleftrightarrow> obj_tree (jh_tree h (th_out e)) ns \<and> keys_ok (jh_key h) ns \<and> th_tmp e \<notin> set ns \<and> 0 \<notin> set ns \<and> plenty h"

lemma string_member_found:
  assumes "nodes_ok e h ns" and "a \<in> set ns" and "jh_key h a = k" and "jh_type h a = STRING_VALUE" and "0 \<notin> set k"
  shows "string_member e k h = Some (Some a, h\<lparr> jh_key := (jh_key h)(th_tmp e := k) \<rparr>)"
    and "nodes_ok e (h\<lparr> jh_key := (jh_key h)(th_tmp e := k) \<rparr>) ns"
proof -
  have n: "obj_tree (jh_tree h (th_out e)) ns" "keys_ok (jh_key h) ns" "th_tmp e \<notin> set ns" "0 \<notin> set ns"
    using assms(1) by (simp_all add: nodes_ok_def)
  have az: "a \<noteq> 0" using assms(2) n(4) by metis
  obtain xs ys where ns: "ns = xs @ a # ys" using split_list [OF assms(2)] by blast
  have "\<forall>x\<in>set xs. jh_key h x \<noteq> k"
    using n(2) assms(3) keys_ok_append [of "jh_key h" xs a ys] lex_less_irrefl unfolding ns by metis
  then have "find (\<lambda>a. jh_key h a = k) ns = Some a" unfolding ns using assms(3) by (simp add: find_mid)
  then show "string_member e k h = Some (Some a, h\<lparr> jh_key := (jh_key h)(th_tmp e := k) \<rparr>)"
    using get_obj_node_correct [OF n(1-3) assms(5)] assms(3,4) az by (auto simp: string_member_def)
  have "map ((jh_key h)(th_tmp e := k)) ns = map (jh_key h) ns" using n(3) by auto
  then have "keys_ok ((jh_key h)(th_tmp e := k)) ns" using n(2,3) unfolding keys_ok_def by auto
  then show "nodes_ok e (h\<lparr> jh_key := (jh_key h)(th_tmp e := k) \<rparr>) ns"
    using assms(1) by (simp add: nodes_ok_def plenty_def)
qed

lemma clone_str_correct:
  assumes "plenty h"
  shows "clone_str v h = Some (\<lparr> s_data = v @ [0], s_len = length v \<rparr>, h\<lparr> jh_next := jh_next h + 2 \<rparr>)"
  using assms by (simp add: clone_str_def jclone_def jalloc_def plenty_def lts_str_init_def Let_def)

lemma message_decoded:
  assumes m: "message e msg nkvs" and h: "h = (lts_empty_sjson (th_out e) (th_heap e))\<lparr> jh_next := n \<rparr>" "jh_next (th_heap e) \<le> n"
  shows "\<exists>h' src ns. lts_sjson_decode (lts_str_init msg (length msg)) (th_out e) h = Some (Inr h', src) \<and> nodes_ok e h' ns \<and>
    (\<forall>k v. map_of nkvs k = Some (JStr v) \<longrightarrow> (\<exists>a\<in>set ns. jh_key h' a = k \<and> jh_type h' a = STRING_VALUE \<and> jh_str h' a = v))"
proof -
  obtain kvs where kvs: "filter (\<lambda>c. c \<notin> set sjson_invisible) msg = jtext (JObj kvs)" "jgood (JObj kvs)" "norm (JObj kvs) = JObj nkvs"
    using m by (auto simp: message_def)
  have e: "th_pool e" "plenty (th_heap e)" "th_tmp e < th_out e" "th_out e < jh_next (th_heap e)" using m by (auto simp: message_def)
  have o: "obj_rep h (th_out e) [] []" "th_out e < jh_next h" "pool_grants h 72" "jh_pool h = jh_pool (th_heap e)"
    using e(4) plenty_grants [OF e(2)] h by (simp_all add: lts_empty_sjson_def lts_key_sjson_def obj_rep_def pool_grants_def)
  have s: "str_ok (lts_str_init msg (length msg))" "chars (lts_str_init msg (length msg)) = msg"
    by (simp_all add: str_ok_def chars_def lts_str_init_def)
  obtain h' src ns nkvs' where d: "lts_sjson_decode (lts_str_init msg (length msg)) (th_out e) h = Some (Inr h', src)"
      "norm (JObj kvs) = JObj nkvs'" "obj_rep h' (th_out e) ns nkvs'" "sorted_kvs nkvs'" "frame_obj (th_out e) h h'"
    using lts_sjson_decode_obj [OF s(1) _ kvs(2) o(1-3)] kvs(1) unfolding s(2) by blast
  have nk: "nkvs' = nkvs" using d(2) kvs(3) by simp
  have r: "obj_tree (jh_tree h' (th_out e)) ns" "\<forall>a\<in>set ns. th_out e < a" "members h' ns nkvs"
    using d(3) unfolding nk by (auto simp: obj_rep_def)
  have "plenty h'" using d(5) o(2,4) e(2) by (auto simp: plenty_def frame_obj_def)
  then have "nodes_ok e h' ns" using r(1,2) obj_rep_keys [OF d(3,4)] e(3) by (auto simp: nodes_ok_def)
  moreover have "\<exists>a\<in>set ns. jh_key h' a = k \<and> jh_type h' a = STRING_VALUE \<and> jh_str h' a = v" if "map_of nkvs k = Some (JStr v)" for k v
    using r(3) that by (induction rule: list_all2_induct) (auto split: if_splits)
  ultimately show ?thesis using d(1) by blast
qed

lemma nodes_ok_next: "nodes_ok e h ns \<Longrightarrow> jh_next h \<le> n \<Longrightarrow> nodes_ok e (h\<lparr> jh_next := n \<rparr>) ns"
  by (simp add: nodes_ok_def plenty_next)

lemma nodes_ok_str: "nodes_ok e h ns \<Longrightarrow> nodes_ok e (h\<lparr> jh_str := m \<rparr>) ns"
  by (simp add: nodes_ok_def plenty_def)

text \<open>One member that is read: lookup, then clone.\<close>

lemma cloned_member:
  assumes "nodes_ok e h ns" and "a \<in> set ns" and "jh_key h a = k" and "jh_type h a = STRING_VALUE" and "0 \<notin> set k"
  shows "\<exists>h1 h2. string_member e k h = Some (Some a, h1) \<and> jh_str h1 = jh_str h \<and>
    (\<forall>v. clone_str v h1 = Some (\<lparr> s_data = v @ [0], s_len = length v \<rparr>, h2)) \<and>
    nodes_ok e h2 ns \<and> (\<forall>b\<in>set ns. jh_key h2 b = jh_key h b) \<and> jh_type h2 = jh_type h \<and> jh_str h2 = jh_str h"
proof -
  let ?h1 = "h\<lparr> jh_key := (jh_key h)(th_tmp e := k) \<rparr>"
  note s = string_member_found [OF assms]
  have "plenty ?h1" using s(2) by (simp add: nodes_ok_def)
  then have c: "clone_str v ?h1 = Some (\<lparr> s_data = v @ [0], s_len = length v \<rparr>, ?h1\<lparr> jh_next := jh_next ?h1 + 2 \<rparr>)" for v
    by (rule clone_str_correct)
  have "nodes_ok e (?h1\<lparr> jh_next := jh_next ?h1 + 2 \<rparr>) ns" by (rule nodes_ok_next [OF s(2)]) simp
  moreover have "th_tmp e \<notin> set ns" using assms(1) by (simp add: nodes_ok_def)
  ultimately show ?thesis using s(1) c
    by (intro exI [of _ ?h1] exI [of _ "?h1\<lparr> jh_next := jh_next ?h1 + 2 \<rparr>"]) auto
qed

lemma keys_distinct: "auth_k \<noteq> port_restricted_k" "auth_k \<noteq> udp_port_k" "port_restricted_k \<noteq> udp_port_k"
  "0 \<notin> set auth_k" "0 \<notin> set port_restricted_k" "0 \<notin> set udp_port_k"
  by (simp_all add: auth_k_def port_restricted_k_def udp_port_k_def lit_def)

lemma start_heap: "th_pool e \<Longrightarrow> plenty (th_heap e) \<Longrightarrow>
    jalloc n (lts_empty_sjson (th_out e) (th_heap e)) =
      (jh_next (th_heap e), (lts_empty_sjson (th_out e) (th_heap e))\<lparr> jh_next := jh_next (th_heap e) + 1 \<rparr>)"
  by (simp add: jalloc_def lts_empty_sjson_def lts_key_sjson_def plenty_def)

definition cell :: "bstr \<Rightarrow> lts_str" where
  "cell v = \<lparr> s_data = v @ [0], s_len = length v \<rparr>"

lemma handle_title_vice_correct:
  assumes m: "message e msg nkvs" and k: "map_of nkvs auth_k = Some (JStr tok)" "map_of nkvs udp_port_k = Some (JStr p)"
  shows "handle_title_vice e junk msg =
    Some (Some \<lparr> retinue_master = False, sub_auth = cell tok, port_restricted = junk, udp_port = atoi (cstr p) \<rparr>)"
proof -
  have e: "th_pool e" "plenty (th_heap e)" using m by (auto simp: message_def)
  then have n0: "0 < jh_next (th_heap e)" by (simp add: plenty_def)
  let ?h = "(lts_empty_sjson (th_out e) (th_heap e))\<lparr> jh_next := jh_next (th_heap e) + 1 \<rparr>"
  obtain h src ns where d: "lts_sjson_decode (lts_str_init msg (length msg)) (th_out e) ?h = Some (Inr h, src)" "nodes_ok e h ns"
      "\<And>k v. map_of nkvs k = Some (JStr v) \<Longrightarrow> \<exists>a\<in>set ns. jh_key h a = k \<and> jh_type h a = STRING_VALUE \<and> jh_str h a = v"
    using message_decoded [OF m refl, of "jh_next (th_heap e) + 1"] by auto
  obtain a where a: "a \<in> set ns" "jh_key h a = auth_k" "jh_type h a = STRING_VALUE" "jh_str h a = tok" using d(3) [OF k(1)] by blast
  obtain b where b: "b \<in> set ns" "jh_key h b = udp_port_k" "jh_type h b = STRING_VALUE" "jh_str h b = p" using d(3) [OF k(2)] by blast
  obtain h1 h2 where h2: "string_member e auth_k h = Some (Some a, h1)" "jh_str h1 = jh_str h"
      "\<And>v. clone_str v h1 = Some (cell v, h2)" "nodes_ok e h2 ns" "\<forall>b\<in>set ns. jh_key h2 b = jh_key h b"
      "jh_type h2 = jh_type h" "jh_str h2 = jh_str h"
    using cloned_member [OF d(2) a(1-3) keys_distinct(4)] unfolding cell_def by blast
  obtain h3 h4 where h4: "string_member e udp_port_k h2 = Some (Some b, h3)" "jh_str h3 = jh_str h2"
      "\<And>v. clone_str v h3 = Some (cell v, h4)"
    using cloned_member [OF h2(4) b(1) _ _ keys_distinct(6)] b(1-3) h2(5,6) unfolding cell_def by auto
  show ?thesis
    using e n0 d(1) h2(1-3,7) h4 a(4) b(4)
    by (simp add: handle_title_vice_def start_heap Let_def) (simp add: cell_def)
qed

lemma handle_title_master_correct:
  assumes m: "message e msg nkvs" and k: "map_of nkvs auth_k = Some (JStr tok)" "map_of nkvs port_restricted_k = Some (JStr r)"
    "map_of nkvs udp_port_k = Some (JStr p)"
  shows "handle_title_master e msg = Some (Some \<lparr> retinue_master = True, sub_auth = cell tok,
    port_restricted = (lts_str_compare STR_TRUE (map lower_byte r) = 0), udp_port = atoi (cstr p) \<rparr>)"
proof -
  have e: "th_pool e" "plenty (th_heap e)" using m by (auto simp: message_def)
  then have n0: "0 < jh_next (th_heap e)" by (simp add: plenty_def)
  let ?h = "(lts_empty_sjson (th_out e) (th_heap e))\<lparr> jh_next := jh_next (th_heap e) + 1 \<rparr>"
  obtain h src ns where d: "lts_sjson_decode (lts_str_init msg (length msg)) (th_out e) ?h = Some (Inr h, src)" "nodes_ok e h ns"
      "\<And>k v. map_of nkvs k = Some (JStr v) \<Longrightarrow> \<exists>a\<in>set ns. jh_key h a = k \<and> jh_type h a = STRING_VALUE \<and> jh_str h a = v"
    using message_decoded [OF m refl, of "jh_next (th_heap e) + 1"] by auto
  obtain a where a: "a \<in> set ns" "jh_key h a = auth_k" "jh_type h a = STRING_VALUE" "jh_str h a = tok" using d(3) [OF k(1)] by blast
  obtain c where c: "c \<in> set ns" "jh_key h c = port_restricted_k" "jh_type h c = STRING_VALUE" "jh_str h c = r" using d(3) [OF k(2)] by blast
  obtain b where b: "b \<in> set ns" "jh_key h b = udp_port_k" "jh_type h b = STRING_VALUE" "jh_str h b = p" using d(3) [OF k(3)] by blast
  have cb: "c \<noteq> b" using c(2) b(2) keys_distinct(3) by auto
  obtain h1 h2 where h2: "string_member e auth_k h = Some (Some a, h1)" "jh_str h1 = jh_str h"
      "\<And>v. clone_str v h1 = Some (cell v, h2)" "nodes_ok e h2 ns" "\<forall>b\<in>set ns. jh_key h2 b = jh_key h b"
      "jh_type h2 = jh_type h" "jh_str h2 = jh_str h"
    using cloned_member [OF d(2) a(1-3) keys_distinct(4)] unfolding cell_def by blast
  have ck: "jh_key h2 c = port_restricted_k" "jh_type h2 c = STRING_VALUE" using c h2(5,6) by simp_all
  let ?h3 = "h2\<lparr> jh_key := (jh_key h2)(th_tmp e := port_restricted_k) \<rparr>"
  note h3 = string_member_found [OF h2(4) c(1) ck keys_distinct(5)]
  let ?h4 = "?h3\<lparr> jh_str := (jh_str h2)(c := map lower_byte r) \<rparr>"
  have low: "lts_str_lowercase (lts_str_init r (length r)) = Some (lts_str_init (map lower_byte r) (length r))"
    using lts_str_lowercase_correct [of "lts_str_init r (length r)"] by (simp add: str_ok_def chars_def lts_str_init_def)
  have "th_tmp e \<notin> set ns" using d(2) by (simp add: nodes_ok_def)
  then have bk: "jh_key ?h4 b = udp_port_k" "jh_type ?h4 b = STRING_VALUE" using b h2(5,6) by auto
  obtain h5 h6 where h6: "string_member e udp_port_k ?h4 = Some (Some b, h5)" "jh_str h5 = jh_str ?h4"
      "\<And>v. clone_str v h5 = Some (cell v, h6)"
    using cloned_member [OF nodes_ok_str [OF h3(2)] b(1) bk keys_distinct(6)] unfolding cell_def by blast
  show ?thesis
    using e n0 d(1) h2(1-3,7) h3(1) h6 a(4) b(4) c(4) low cb
    by (simp add: handle_title_master_def start_heap Let_def) (simp add: cell_def chars_def lts_str_init_def)
qed

section \<open>From messages to the verdict\<close>

lemma titles: "cstr TITLE_MASTER = TITLE_MASTER" "cstr TITLE_VICE = TITLE_VICE" "TITLE_VICE \<noteq> TITLE_MASTER"
  by code_simp+

lemma on_reply_master: "handle_title_master e msg = Some (Some d) \<Longrightarrow>
    on_reply e junk (REDIS_REPLY_ARRAY [x, TITLE_MASTER, msg]) chan = Some (chan @ [d])"
  by (simp add: on_reply_def rd_def titles)

lemma on_reply_vice: "handle_title_vice e junk msg = Some (Some d) \<Longrightarrow>
    on_reply e junk (REDIS_REPLY_ARRAY [x, TITLE_VICE, msg]) chan = Some (chan @ [d])"
  by (simp add: on_reply_def rd_def titles)

lemma chars_cell [simp]: "chars (cell v) = v"
  by (simp add: chars_def cell_def)

lemma find_ts_mem [simp]: "find_ts_by_auth tok (w\<lparr> ts_mem := m \<rparr>) = find_ts_by_auth tok w"
  by (simp add: find_ts_by_auth_def)

lemma two_reports:
  assumes f: "find_ts_by_auth tok w = Some ts" "ts \<noteq> 0" and i: "fsm_stat (ts_mem w ts) = FSM_IDLE"
    and d: "retinue_master d" "\<not> retinue_master d'" "chars (sub_auth d) = tok" "chars (sub_auth d') = tok"
  shows "do { w \<leftarrow> on_channel_sub (Some d) cs w; on_channel_sub (Some d') cs w } =
    (if udp_port d = 0 then None else Some (upd_ts ts (\<lambda>t. t\<lparr> nat_type := kind_of (udp_port d' = udp_port d) (port_restricted d),
       ts_port_restricted := port_restricted d, pre_udp_port := 0 \<rparr>) w))"
proof -
  have run: "nat_run [d, d'] (ts_mem w ts) = (if udp_port d = 0 then None else Some ((ts_mem w ts)\<lparr>
      nat_type := kind_of (udp_port d' = udp_port d) (port_restricted d), ts_port_restricted := port_restricted d, pre_udp_port := 0 \<rparr>))"
    using nat_round [OF i, of d "[]" True d'] d(1,2) by simp
  obtain t where t: "nat_fsm d (ts_mem w ts) = Some t" using nat_fsm_idle [OF i] by simp
  then have "nat_fsm d' t = nat_run [d, d'] (ts_mem w ts)" by (cases "nat_fsm d' t") simp_all
  then show ?thesis using run f d(3,4) t by (simp add: on_channel_sub_def upd_ts_def)
qed

section \<open>Properties\<close>

text \<open>C4. From redis to the session: the messages a master and a vice publish about a client, with any
  white space, the members in any order and others between them, become two reports, and when the event
  loop reads these on an idle session it knows the NAT: symmetric when the two retinues saw different
  ports, otherwise a cone that is port restricted as the master says, in any spelling of \<open>true\<close>.  A master
  that reports the port 0 kills the server.\<close>

theorem retinue_messages_decide_nat:
  assumes "message e1 m1 kvs1" and "map_of kvs1 auth_k = Some (JStr tok)" and "map_of kvs1 port_restricted_k = Some (JStr r)"
    and "map_of kvs1 udp_port_k = Some (JStr p1)"
    and "message e2 m2 kvs2" and "map_of kvs2 auth_k = Some (JStr tok)" and "map_of kvs2 udp_port_k = Some (JStr p2)"
    and "find_ts_by_auth tok w = Some ts" and "ts \<noteq> 0" and "fsm_stat (ts_mem w ts) = FSM_IDLE"
  shows "\<exists>d1 d2. reply_loop [(e1, j1, REDIS_REPLY_ARRAY [x, TITLE_MASTER, m1]), (e2, j2, REDIS_REPLY_ARRAY [y, TITLE_VICE, m2])] [] =
      Some [d1, d2] \<and>
    do { w \<leftarrow> on_channel_sub (Some d1) cs w; on_channel_sub (Some d2) cs w } =
      (if atoi (cstr p1) = 0 then None
       else Some (upd_ts ts (\<lambda>t. t\<lparr>
         nat_type := (if atoi (cstr p2) \<noteq> atoi (cstr p1) then NAT_SYMMETIC
                      else if lts_str_compare (lit ''true'') (map lower_byte r) = 0 then NAT_PORT_RESTRICTED_CONE else NAT_RESTRICTED_CONE),
         ts_port_restricted := (lts_str_compare (lit ''true'') (map lower_byte r) = 0), pre_udp_port := 0 \<rparr>) w))"
proof -
  note h1 = handle_title_master_correct [OF assms(1-4)] and h2 = handle_title_vice_correct [OF assms(5-7), of j2]
  let ?d1 = "\<lparr> retinue_master = True, sub_auth = cell tok,
    port_restricted = (lts_str_compare STR_TRUE (map lower_byte r) = 0), udp_port = atoi (cstr p1) \<rparr>"
  let ?d2 = "\<lparr> retinue_master = False, sub_auth = cell tok, port_restricted = j2, udp_port = atoi (cstr p2) \<rparr>"
  have "reply_loop [(e1, j1, REDIS_REPLY_ARRAY [x, TITLE_MASTER, m1]), (e2, j2, REDIS_REPLY_ARRAY [y, TITLE_VICE, m2])] [] = Some [?d1, ?d2]"
    using on_reply_master [OF h1, of j1 x "[]"] on_reply_vice [OF h2, of y "[?d1]"] by simp
  then show ?thesis
    using two_reports [OF assms(8-10), of ?d1 ?d2 cs] by (intro exI [of _ ?d1] exI [of _ ?d2]) (simp add: kind_of_def STR_TRUE_def)
qed

text \<open>The pool of the threads, and the messages \<open>{"auth":"a","port_restricted":"True","udp_port":"7"}\<close> and
  \<open>{"udp_port":"7","auth":"a"}\<close>.\<close>

definition sample_thread :: thread_env where
  "sample_thread = \<lparr> th_pool = True, th_heap = heap0, th_out = 40, th_tmp = 30 \<rparr>"

definition master_msg :: "(bstr \<times> json) list" where
  "master_msg = [(auth_k, JStr [0x61]), (port_restricted_k, JStr [0x54, 0x72, 0x75, 0x65]), (udp_port_k, JStr [0x37])]"

definition vice_msg :: "(bstr \<times> json) list" where
  "vice_msg = [(udp_port_k, JStr [0x37]), (auth_k, JStr [0x61])]"

lemma sample_message:
  assumes "jgood (JObj kvs)" and "\<forall>c\<in>set (jtext (JObj kvs)). c \<notin> set sjson_invisible" and "norm (JObj kvs) = JObj nkvs"
  shows "message sample_thread (jtext (JObj kvs)) nkvs"
proof -
  have f: "filter (\<lambda>c. c \<notin> set sjson_invisible) (jtext (JObj kvs)) = jtext (JObj kvs)" using assms(2) by (simp only: filter_id_conv)
  have e: "th_pool sample_thread" "plenty (th_heap sample_thread)" "th_tmp sample_thread < th_out sample_thread"
      "th_out sample_thread < jh_next (th_heap sample_thread)"
    by (simp_all add: sample_thread_def plenty_def)
  show ?thesis unfolding message_def using f assms(1,3) e by blast
qed

lemma retinue_messages_decide_nat_witness:
  "\<exists>(w :: p2p) d1 d2. reply_loop [(sample_thread, False, REDIS_REPLY_ARRAY [[], TITLE_MASTER, jtext (JObj master_msg)]),
       (sample_thread, True, REDIS_REPLY_ARRAY [[], TITLE_VICE, jtext (JObj vice_msg)])] [] = Some [d1, d2] \<and>
     map_option (\<lambda>w. nat_type (ts_mem w 2000)) (do { w \<leftarrow> on_channel_sub (Some d1) 5 w; on_channel_sub (Some d2) 5 w }) =
       Some NAT_PORT_RESTRICTED_CONE"
proof -
  obtain w :: p2p and F G where w: "p2p_inv w F G" "G s_ts_cachelst = [2000, 2008]" "rbmap_dict (ts_set w) = Map.empty"
    using client_state [of "[]"] by auto
  have so: "sessions_ok w G" using w(1) by (auto simp: p2p_inv_def base_inv_def)
  have cl: "clone_token (rq_pagesize sample_env) (rq_session_mem sample_env) [0x61] = Some [0x61]" by code_simp
  have nl: "find_ts_by_auth [0x61] w = Some 0" using so w(3) by (simp add: sessions_ok_def find_ts_by_auth_eq)
  obtain w1 where w1: "ts_mem w1 = (ts_mem w)(2000 := fresh_session [0x61] 1008)" "find_ts_by_auth [0x61] w1 = Some 2000"
    using new_login [OF so w(2) nl cl, of 1008] by blast
  have idle: "fsm_stat (ts_mem w1 2000) = FSM_IDLE" using w1(1) by (simp add: fresh_session_def)
  have m1: "message sample_thread (jtext (JObj master_msg)) master_msg" by (rule sample_message) code_simp+
  have m2: "message sample_thread (jtext (JObj vice_msg)) (rev vice_msg)" by (rule sample_message) code_simp+
  have k: "map_of master_msg auth_k = Some (JStr [0x61])" "map_of master_msg port_restricted_k = Some (JStr [0x54, 0x72, 0x75, 0x65])"
    "map_of master_msg udp_port_k = Some (JStr [0x37])" "map_of (rev vice_msg) auth_k = Some (JStr [0x61])"
    "map_of (rev vice_msg) udp_port_k = Some (JStr [0x37])"
    using keys_distinct by (simp_all add: master_msg_def vice_msg_def)
  have v: "atoi (cstr [0x37]) = 7" "lts_str_compare (lit ''true'') (map lower_byte [0x54, 0x72, 0x75, 0x65]) = 0" by code_simp+
  from retinue_messages_decide_nat [OF m1 k(1-3) m2 k(4,5) w1(2) _ idle, of False "[]" True "[]" 5]
  obtain d1 d2 where d: "reply_loop [(sample_thread, False, REDIS_REPLY_ARRAY [[], TITLE_MASTER, jtext (JObj master_msg)]),
       (sample_thread, True, REDIS_REPLY_ARRAY [[], TITLE_VICE, jtext (JObj vice_msg)])] [] = Some [d1, d2]"
     "map_option (\<lambda>w. nat_type (ts_mem w 2000)) (do { w \<leftarrow> on_channel_sub (Some d1) 5 w1; on_channel_sub (Some d2) 5 w }) =
       Some NAT_PORT_RESTRICTED_CONE"
    unfolding v by (auto simp: upd_ts_def simp del: reply_loop.simps jtext.simps)
  then show ?thesis by blast
qed

text \<open>A datagram with an \<open>auth\<close> member gives its session the address it came from, in host byte order, as the
  hole other peers are told.\<close>

theorem datagram_sets_hole:
  assumes m: "message e (take 512 (dg_data dg)) nkvs" and k: "map_of nkvs auth_k = Some (JStr tok)"
    and f: "find_ts_by_auth tok w = Some ts" "ts \<noteq> 0"
  shows "\<exists>d. udp_datagram e (Some dg) chan = Some (chan @ [d]) \<and>
    on_channel_udp (Some d) cs w =
      Some (upd_ts ts (\<lambda>t. t\<lparr> ts_hole := \<lparr> ip = htonl_w (dg_addr dg), port = htons_w (dg_port dg) \<rparr> \<rparr>) w)"
proof -
  let ?b = "take 512 (dg_data dg)"
  have e: "th_pool e" "plenty (th_heap e)" using m by (auto simp: message_def)
  have ne: "?b \<noteq> []" using m by (auto simp: message_def)
  have h: "lts_empty_sjson (th_out e) (th_heap e) = (lts_empty_sjson (th_out e) (th_heap e))\<lparr> jh_next := jh_next (th_heap e) \<rparr>"
    by (simp add: lts_empty_sjson_def lts_key_sjson_def)
  obtain h1 src ns where d: "lts_sjson_decode (lts_str_init ?b (length ?b)) (th_out e) (lts_empty_sjson (th_out e) (th_heap e)) = Some (Inr h1, src)"
      "nodes_ok e h1 ns"
      "\<And>k v. map_of nkvs k = Some (JStr v) \<Longrightarrow> \<exists>a\<in>set ns. jh_key h1 a = k \<and> jh_type h1 a = STRING_VALUE \<and> jh_str h1 a = v"
    using message_decoded [OF m h] by blast
  obtain a where a: "a \<in> set ns" "jh_key h1 a = auth_k" "jh_type h1 a = STRING_VALUE" "jh_str h1 a = tok" using d(3) [OF k] by blast
  let ?h2 = "h1\<lparr> jh_key := (jh_key h1)(th_tmp e := auth_k) \<rparr>"
  note s = string_member_found [OF d(2) a(1-3) keys_distinct(4)]
  have "plenty ?h2" using s(2) by (simp add: nodes_ok_def)
  moreover have az: "a \<noteq> 0" using a(1) d(2) by (metis nodes_ok_def)
  moreover have "lts_sjson_get_obj_node (th_tmp e) (th_out e) auth_k h1 = Some (a, ?h2)"
    using s(1) by (auto simp: string_member_def bind_eq_Some_conv split: if_splits)
  ultimately have "udp_datagram e (Some dg) chan = Some (chan @
      [\<lparr> peer_hole = \<lparr> ip = htonl_w (dg_addr dg), port = htons_w (dg_port dg) \<rparr>, udp_auth = tok \<rparr>])"
    using e(1) ne d(1) a(4) by (simp add: udp_datagram_def jalloc_def jclone_def plenty_def Let_def)
  then show ?thesis using f by (intro exI) (auto simp: on_channel_udp_def)
qed

end
