(* ===== verification/AcceptLock.thy ===== *)
theory AcceptLock
  imports LtsPrelude
begin

text \<open>
  The locks of \<open>src/modules/latasia.c\<close> and \<open>include/common.h\<close>.

  The accept lock is one word of memory shared by the workers; the top bit says that it is held.  The
  operations are atomic reads and compare-and-swaps, so the workers are modelled as an interleaving of
  these: \<open>lock_step\<close> is one atomic step of one worker, and a worker can be killed between any two of its
  steps.
\<close>

unbundle bit_operations_syntax

section \<open>Operations\<close>

definition lts_atomic_cmp_set :: "32 word \<Rightarrow> 32 word \<Rightarrow> 32 word \<Rightarrow> bool \<times> 32 word" where
  "lts_atomic_cmp_set lock old new = (if lock = old then (True, new) else (False, lock))"

abbreviation LOCK_BIT :: "32 word" where "LOCK_BIT \<equiv> 0x80000000"

text \<open>\<open>lts_shmtx_trylock\<close> after it has read \<open>val\<close>: the result and the lock.\<close>

definition shmtx_try :: "32 word \<Rightarrow> 32 word \<Rightarrow> bool \<times> 32 word" where
  "shmtx_try val lock = (if val AND LOCK_BIT = 0 then lts_atomic_cmp_set lock val (val OR LOCK_BIT) else (False, lock))"

text \<open>A turn of the loop of \<open>lts_shmtx_unlock\<close> after it has read \<open>old\<close>.\<close>

definition shmtx_release :: "32 word \<Rightarrow> 32 word \<Rightarrow> bool \<times> 32 word" where
  "shmtx_release old lock =
     (let wait = old AND 0x7fffffff; val = (if wait \<noteq> 0 then wait - 1 else 0) in lts_atomic_cmp_set lock old val)"

text \<open>The spin lock: the exchange is one atomic step.\<close>

definition lts_spin_trylock :: "32 word \<Rightarrow> bool \<times> 32 word" where
  "lts_spin_trylock v = (v = 0, 1)"

definition lts_spin_unlock :: "32 word \<Rightarrow> 32 word" where
  "lts_spin_unlock v = 0"

text \<open>\<open>lts_spin_lock\<close>: \<open>vs\<close> are the values the lock has when the turns of the loop look at it; \<open>None\<close> when
  the loop is still waiting at the end of \<open>vs\<close>.\<close>

fun lts_spin_lock :: "32 word list \<Rightarrow> nat option" where
  "lts_spin_lock [] = None"
| "lts_spin_lock (v # vs) = (if fst (lts_spin_trylock v) then Some 0 else map_option Suc (lts_spin_lock vs))"

section \<open>Workers\<close>

text \<open>Where a worker is: outside, after the read of \<open>trylock\<close>, holding the lock, after the read of \<open>unlock\<close>, or
  killed, with or without the lock.\<close>

datatype pc = Outside | Trying "32 word" | Inside | Leaving "32 word" | Killed bool

fun holds :: "pc \<Rightarrow> bool" where
  "holds Inside = True"
| "holds (Leaving old) = True"
| "holds (Killed held) = held"
| "holds pc = False"

record lock_state =
  lock_word :: "32 word"
  pc_of :: "nat \<Rightarrow> pc"

definition at :: "nat \<Rightarrow> pc \<Rightarrow> lock_state \<Rightarrow> lock_state" where
  "at i p l = l\<lparr> pc_of := (pc_of l)(i := p) \<rparr>"

inductive lock_step :: "nat \<Rightarrow> lock_state \<Rightarrow> lock_state \<Rightarrow> bool" where
  try_read: "pc_of l i = Outside \<Longrightarrow> lock_step i l (at i (Trying (lock_word l)) l)"
| try_swap: "pc_of l i = Trying v \<Longrightarrow> shmtx_try v (lock_word l) = (ok, n) \<Longrightarrow>
    lock_step i l (at i (if ok then Inside else Outside) (l\<lparr> lock_word := n \<rparr>))"
| unlock_read: "pc_of l i = Inside \<Longrightarrow> lock_step i l (at i (Leaving (lock_word l)) l)"
| unlock_swap: "pc_of l i = Leaving v \<Longrightarrow> shmtx_release v (lock_word l) = (ok, n) \<Longrightarrow>
    lock_step i l (at i (if ok then Outside else Inside) (l\<lparr> lock_word := n \<rparr>))"
| kill: "pc_of l i \<noteq> Killed b \<Longrightarrow> lock_step i l (at i (Killed (holds (pc_of l i))) l)"

inductive_cases lock_stepE: "lock_step i l l'"

text \<open>From the zeroed shared memory and workers outside; \<open>lock_runs l l'\<close>: some workers take steps.\<close>

definition lock_init :: "lock_state" where
  "lock_init = \<lparr> lock_word = 0, pc_of = (\<lambda>_. Outside) \<rparr>"

inductive lock_runs :: "lock_state \<Rightarrow> lock_state \<Rightarrow> bool" where
  none: "lock_runs l l"
| more: "lock_runs l l1 \<Longrightarrow> lock_step i l1 l2 \<Longrightarrow> lock_runs l l2"

section \<open>The invariant\<close>

text \<open>The lock word is 0 or the lock bit alone; the bit is set exactly when somebody holds the lock, and at
  most one does.  A worker that has read an unlock value has read the lock bit.\<close>

definition lock_inv :: "lock_state \<Rightarrow> bool" where
  "lock_inv l \<longleftrightarrow> lock_word l \<in> {0, LOCK_BIT} \<and> (lock_word l = LOCK_BIT \<longleftrightarrow> (\<exists>i. holds (pc_of l i))) \<and>
     (\<forall>i j. holds (pc_of l i) \<longrightarrow> holds (pc_of l j) \<longrightarrow> i = j) \<and>
     (\<forall>i v. pc_of l i = Leaving v \<longrightarrow> v = LOCK_BIT) \<and> (\<forall>i v. pc_of l i = Trying v \<longrightarrow> v \<in> {0, LOCK_BIT})"

lemma lock_values:
  "shmtx_try 0 0 = (True, LOCK_BIT)" "shmtx_try LOCK_BIT w = (False, w)" "shmtx_try 0 LOCK_BIT = (False, LOCK_BIT)"
  "shmtx_release LOCK_BIT LOCK_BIT = (True, 0)"
  by (simp_all add: shmtx_try_def shmtx_release_def lts_atomic_cmp_set_def)

lemma at_simps [simp]: "pc_of (at i p l) = (pc_of l)(i := p)" "lock_word (at i p l) = lock_word l"
  by (simp_all add: at_def)

lemma lock_inv_init: "lock_inv lock_init"
  by (simp add: lock_inv_def lock_init_def)

lemma lock_invD:
  assumes "lock_inv l"
  shows "lock_word l \<in> {0, LOCK_BIT}" "holds (pc_of l i) \<Longrightarrow> lock_word l = LOCK_BIT"
    "lock_word l = LOCK_BIT \<Longrightarrow> \<exists>i. holds (pc_of l i)" "holds (pc_of l i) \<Longrightarrow> holds (pc_of l j) \<Longrightarrow> i = j"
    "pc_of l i = Leaving v \<Longrightarrow> v = LOCK_BIT" "pc_of l i = Trying v \<Longrightarrow> v \<in> {0, LOCK_BIT}"
  using assms unfolding lock_inv_def by blast+

lemma lock_invI:
  assumes "lock_word l \<in> {0, LOCK_BIT}" and "lock_word l = LOCK_BIT \<longleftrightarrow> (\<exists>i. holds (pc_of l i))"
    and "\<And>i j. holds (pc_of l i) \<Longrightarrow> holds (pc_of l j) \<Longrightarrow> i = j" and "\<And>i v. pc_of l i = Leaving v \<Longrightarrow> v = LOCK_BIT"
    and "\<And>i v. pc_of l i = Trying v \<Longrightarrow> v \<in> {0, LOCK_BIT}"
  shows "lock_inv l"
  using assms unfolding lock_inv_def by blast

text \<open>A step that leaves the lock alone, and one that takes or frees it.\<close>

lemma lock_inv_move:
  assumes i: "lock_inv l" and h: "holds p = holds (pc_of l i)"
    and p: "\<And>v. p = Leaving v \<Longrightarrow> v = LOCK_BIT" "\<And>v. p = Trying v \<Longrightarrow> v \<in> {0, LOCK_BIT}"
  shows "lock_inv (at i p l)"
proof -
  have "holds (pc_of (at i p l) j) = holds (pc_of l j)" for j using h by simp
  moreover have "pc_of (at i p l) j = Leaving v \<Longrightarrow> v = LOCK_BIT" "pc_of (at i p l) j = Trying v \<Longrightarrow> v \<in> {0, LOCK_BIT}" for j v
    using lock_invD(5,6) [OF i, of j v] p [of v] by (simp_all split: if_splits)
  ultimately show ?thesis using i unfolding lock_inv_def at_simps by blast
qed

lemma lock_inv_change:
  assumes i: "lock_inv l" and o: "\<And>j. j \<noteq> i \<Longrightarrow> \<not> holds (pc_of l j)"
  shows "lock_inv (at i Inside (l\<lparr> lock_word := LOCK_BIT \<rparr>))" "lock_inv (at i Outside (l\<lparr> lock_word := 0 \<rparr>))"
proof -
  let ?a = "at i Inside (l\<lparr> lock_word := LOCK_BIT \<rparr>)" and ?b = "at i Outside (l\<lparr> lock_word := 0 \<rparr>)"
  have va: "pc_of ?a j = Leaving v \<Longrightarrow> v = LOCK_BIT" "pc_of ?a j = Trying v \<Longrightarrow> v \<in> {0, LOCK_BIT}" for j v
    using lock_invD(5,6) [OF i, of j v] by (auto split: if_splits)
  have vb: "pc_of ?b j = Leaving v \<Longrightarrow> v = LOCK_BIT" "pc_of ?b j = Trying v \<Longrightarrow> v \<in> {0, LOCK_BIT}" for j v
    using lock_invD(5,6) [OF i, of j v] by (auto split: if_splits)
  have h: "holds (pc_of ?a j) \<longleftrightarrow> j = i" for j using o [of j] by auto
  show "lock_inv ?a"
  proof (rule lock_invI)
    show "lock_word ?a = LOCK_BIT \<longleftrightarrow> (\<exists>j. holds (pc_of ?a j))" using h by (simp del: at_simps(1))
    show "j = k" if "holds (pc_of ?a j)" "holds (pc_of ?a k)" for j k using that unfolding h by simp
  qed (simp, fact+)
  have n: "\<not> holds (pc_of ?b j)" for j using o [of j] by auto
  show "lock_inv ?b"
  proof (rule lock_invI)
    show "lock_word ?b = LOCK_BIT \<longleftrightarrow> (\<exists>j. holds (pc_of ?b j))" using n by (simp del: at_simps(1))
    show "j = k" if "holds (pc_of ?b j)" for j k using that n by blast
  qed (simp, fact+)
qed

lemma lock_inv_step:
  assumes i: "lock_inv l" and s: "lock_step i l l'"
  shows "lock_inv l'"
  using s
proof (cases rule: lock_step.cases)
  case try_read
  then show ?thesis using lock_inv_move [OF i, of "Trying (lock_word l)" i] lock_invD(1) [OF i] by simp
next
  case (try_swap v ok n)
  show ?thesis
  proof (cases "v = 0 \<and> lock_word l = 0")
    case True
    then have "ok" "n = LOCK_BIT" using try_swap by (simp_all add: lock_values)
    moreover have "\<not> holds (pc_of l j)" for j using lock_invD(2) [OF i, of j] True by auto
    ultimately show ?thesis using lock_inv_change(1) [OF i, of i] try_swap(1) by simp
  next
    case False
    then have "\<not> ok" "n = lock_word l"
      using try_swap lock_invD(1) [OF i] lock_invD(6) [OF i try_swap(2)] by (auto simp: lock_values)
    then show ?thesis using lock_inv_move [OF i, of Outside i] try_swap(1,2) by simp
  qed
next
  case unlock_read
  then have "lock_word l = LOCK_BIT" using lock_invD(2) [OF i, of i] by simp
  then have "lock_inv (at i (Leaving (lock_word l)) l)" by (intro lock_inv_move [OF i]) (simp_all add: unlock_read)
  then show ?thesis using unlock_read by simp
next
  case (unlock_swap v ok n)
  have "v = LOCK_BIT" "lock_word l = LOCK_BIT" using lock_invD(5) [OF i unlock_swap(2)] lock_invD(2) [OF i, of i] unlock_swap(2) by auto
  then have "ok" "n = 0" using unlock_swap by (simp_all add: lock_values)
  moreover have "\<not> holds (pc_of l j)" if "j \<noteq> i" for j using lock_invD(4) [OF i, of i j] that unlock_swap(2) by auto
  ultimately show ?thesis using lock_inv_change(2) [OF i, of i] unlock_swap(1) by simp
next
  case kill
  then show ?thesis using lock_inv_move [OF i, of "Killed (holds (pc_of l i))" i] by simp
qed

lemma lock_inv_runs: "lock_runs l l' \<Longrightarrow> lock_inv l \<Longrightarrow> lock_inv l'"
  by (induction rule: lock_runs.induct) (auto intro: lock_inv_step)

lemma dead_stays:
  assumes "lock_runs l l'" and "pc_of l i = Killed True"
  shows "pc_of l' i = Killed True"
  using assms
proof (induction rule: lock_runs.induct)
  case (more l l1 j l2)
  then have k: "pc_of l1 i = Killed True" by simp
  from more.hyps(2) show ?case by (cases rule: lock_step.cases) (use k in auto)
qed simp

section \<open>Properties\<close>

text \<open>C12. Mutual exclusion: in every interleaving of the workers' atomic steps, kills included, at most one
  worker holds the accept lock, the lock word has no bit but the lock bit, and whoever holds the lock
  gives it back with the first compare-and-swap of \<open>lts_shmtx_unlock\<close>.\<close>

theorem accept_lock_exclusive:
  assumes "lock_runs lock_init l"
  shows "(holds (pc_of l i) \<longrightarrow> holds (pc_of l j) \<longrightarrow> i = j) \<and> lock_word l AND 0x7fffffff = 0 \<and>
    (pc_of l i = Leaving v \<longrightarrow> shmtx_release v (lock_word l) = (True, 0))"
proof -
  have i: "lock_inv l" by (rule lock_inv_runs [OF assms lock_inv_init])
  have "lock_word l AND 0x7fffffff = 0" using lock_invD(1) [OF i] by auto
  moreover have "shmtx_release v (lock_word l) = (True, 0)" if "pc_of l i = Leaving v"
    using lock_invD(5) [OF i that] lock_invD(2) [OF i, of i] that by (simp add: lock_values)
  ultimately show ?thesis using lock_invD(4) [OF i] by blast
qed

text \<open>Two workers contend: the second reads before the first has swapped, and fails.\<close>

definition contended :: lock_state where
  "contended = at 1 Outside (at 0 Inside (at 1 (Trying 0) (at 0 (Trying 0) lock_init)\<lparr> lock_word := LOCK_BIT \<rparr>))"

lemma contended_runs: "lock_runs lock_init contended"
proof -
  let ?l0 = "at 0 (Trying 0) lock_init" let ?l1 = "at 1 (Trying 0) ?l0" let ?l2 = "at 0 Inside (?l1\<lparr> lock_word := LOCK_BIT \<rparr>)"
  have "lock_step 0 lock_init ?l0" using try_read [of lock_init 0] by (simp add: lock_init_def)
  moreover have "lock_step 1 ?l0 ?l1" using try_read [of ?l0 1] by (simp add: lock_init_def)
  moreover have "lock_step 0 ?l1 ?l2" using try_swap [of ?l1 0 0 True LOCK_BIT] by (simp add: lock_init_def lock_values)
  moreover have "lock_step 1 ?l2 contended" using try_swap [of ?l2 1 0 False LOCK_BIT] by (simp add: contended_def at_def lock_values)
  ultimately show ?thesis by (meson lock_runs.intros)
qed

theorem accept_lock_exclusive_witness:
  "lock_runs lock_init contended \<and> holds (pc_of contended 0) \<and> \<not> holds (pc_of contended 1) \<and> lock_word contended = LOCK_BIT"
  using accept_lock_exclusive [OF contended_runs, of 0 1] contended_runs by (simp add: contended_def)

text \<open>C25. The lock is never lost while its holders live: whenever no worker holds it, any worker outside gets
  it with its own next two steps.\<close>

theorem accept_lock_obtainable:
  assumes "lock_runs lock_init l" and "\<forall>j. \<not> holds (pc_of l j)" and "pc_of l i = Outside"
  shows "\<exists>l1 l2. lock_step i l l1 \<and> lock_step i l1 l2 \<and> pc_of l2 i = Inside"
proof -
  have i: "lock_inv l" by (rule lock_inv_runs [OF assms(1) lock_inv_init])
  then have w: "lock_word l = 0" using lock_invD(1,3) [OF i] assms(2) by blast
  let ?l1 = "at i (Trying 0) l"
  have "lock_step i l ?l1" using try_read [OF assms(3)] w by simp
  moreover have "lock_step i ?l1 (at i Inside (?l1\<lparr> lock_word := LOCK_BIT \<rparr>))"
    using try_swap [of ?l1 i 0 True LOCK_BIT] w by (simp add: lock_values)
  ultimately show ?thesis by (intro exI conjI) (assumption | simp)+
qed

theorem accept_lock_obtainable_witness: "\<exists>l1 l2. lock_step 3 lock_init l1 \<and> lock_step 3 l1 l2 \<and> pc_of l2 3 = Inside"
  by (rule accept_lock_obtainable [OF lock_runs.none]) (simp_all add: lock_init_def)

text \<open>C35. A worker that is killed while it holds the lock blocks all others for ever: whatever they do
  afterwards, none of them gets the lock again, so no listening socket is watched any more.\<close>

theorem killed_holder_blocks_all:
  assumes "lock_runs lock_init l" and "pc_of l i = Killed True" and "lock_runs l l'" and "j \<noteq> i"
  shows "\<not> holds (pc_of l' j) \<and> lock_word l' = LOCK_BIT"
proof -
  have i: "lock_inv l'" by (rule lock_inv_runs [OF assms(3) lock_inv_runs [OF assms(1) lock_inv_init]])
  have "holds (pc_of l' i)" using dead_stays [OF assms(3,2)] by simp
  then show ?thesis using lock_invD(2,4) [OF i] assms(4) by blast
qed

theorem killed_holder_blocks_all_witness:
  "\<not> holds (pc_of (at 0 (Killed True) contended) 1) \<and> lock_word (at 0 (Killed True) contended) = LOCK_BIT"
proof -
  have "lock_step 0 contended (at 0 (Killed True) contended)"
    using kill [of contended 0 True] by (simp add: contended_def)
  from killed_holder_blocks_all [OF lock_runs.more [OF contended_runs this] _ lock_runs.none, of 0 1] show ?thesis by simp
qed

end
