(* ===== verification/Supervisor.thy ===== *)
theory Supervisor
  imports LtsPrelude
begin

text \<open>
  The master process: \<open>master_main\<close> and \<open>wait_children\<close> of \<open>src/modules/latasia.c\<close>, and the signal handlers of
  \<open>src/vsignal.c\<close>.

  The master keeps one slot per worker and restarts the workers that have exited.  The children the
  operating system knows (running, or dead and not yet waited for) are part of the state; whether
  \<open>socketpair\<close> and \<open>fork\<close> succeed is an argument.  \<open>None\<close> is \<open>abort()\<close> or a failed ASSERT.
\<close>

section \<open>Signals\<close>

abbreviation LTS_MASK_SIGEXIT :: "32 word" where "LTS_MASK_SIGEXIT \<equiv> 1"
abbreviation LTS_MASK_SIGCHLD :: "32 word" where "LTS_MASK_SIGCHLD \<equiv> 2"
abbreviation LTS_MASK_SIGPIPE :: "32 word" where "LTS_MASK_SIGPIPE \<equiv> 4"
abbreviation LTS_MASK_SIGALRM :: "32 word" where "LTS_MASK_SIGALRM \<equiv> 8"

datatype signo = SIGINT | SIGTERM | SIGCHLD | SIGPIPE | SIGALRM | SIGSEGV
datatype role = LTS_MASTER | LTS_SLAVE

text \<open>The effect of a signal on \<open>lts_signals_mask\<close>, by the table of the role.\<close>

fun sig_deliver :: "role \<Rightarrow> signo \<Rightarrow> 32 word \<Rightarrow> 32 word option" where
  "sig_deliver LTS_MASTER SIGINT m = Some (or m LTS_MASK_SIGEXIT)"
| "sig_deliver LTS_MASTER SIGTERM m = Some (or m LTS_MASK_SIGEXIT)"
| "sig_deliver LTS_MASTER SIGCHLD m = Some (or m LTS_MASK_SIGCHLD)"
| "sig_deliver LTS_MASTER SIGPIPE m = None"
| "sig_deliver LTS_MASTER SIGALRM m = Some m"
| "sig_deliver LTS_SLAVE SIGINT m = Some m"
| "sig_deliver LTS_SLAVE SIGTERM m = Some m"
| "sig_deliver LTS_SLAVE SIGCHLD m = Some (or m LTS_MASK_SIGCHLD)"
| "sig_deliver LTS_SLAVE SIGPIPE m = Some m"
| "sig_deliver LTS_SLAVE SIGALRM m = Some (or m LTS_MASK_SIGALRM)"
| "sig_deliver role SIGSEGV m = None"

fun sig_all :: "role \<Rightarrow> signo list \<Rightarrow> 32 word \<Rightarrow> 32 word option" where
  "sig_all r [] m = Some m"
| "sig_all r (s # ss) m = do { m \<leftarrow> sig_deliver r s m; sig_all r ss m }"

section \<open>State\<close>

record slot =
  pid :: int
  domain_enabled :: bool

record master =
  slots :: "slot list"
  workers :: int
  sig_mask :: "32 word"
  kids :: "int list"
  zombies :: "int list"
  told :: "int list"

section \<open>Waiting\<close>

text \<open>\<open>waitpid(p, ..., WNOHANG)\<close>: the pid -1 stands for any child.\<close>

definition waitpid :: "int \<Rightarrow> master \<Rightarrow> int \<times> master" where
  "waitpid p w =
     (if p = -1 then (case zombies w of z # zs \<Rightarrow> (z, w\<lparr> zombies := zs \<rparr>) | [] \<Rightarrow> (if kids w = [] then -1 else 0, w))
      else if p \<in> set (zombies w) then (p, w\<lparr> zombies := removeAll p (zombies w) \<rparr>)
      else (if p \<in> set (kids w) then 0 else -1, w))"

definition set_pid :: "nat \<Rightarrow> int \<Rightarrow> master \<Rightarrow> master" where
  "set_pid s p w = w\<lparr> slots := (slots w)[s := (slots w ! s)\<lparr> pid := p \<rparr>] \<rparr>"

fun wait_loop :: "nat list \<Rightarrow> int \<Rightarrow> master \<Rightarrow> (int \<times> master) option" where
  "wait_loop [] nexit w = Some (nexit, w)"
| "wait_loop (s # ss) nexit w =
     (let (child, w) = waitpid (pid (slots w ! s)) w
      in if child = 0 then wait_loop ss nexit w
         else if child = -1 then None
         else wait_loop ss (nexit + 1) (set_pid s (-1) w))"

definition wait_children :: "master \<Rightarrow> (int \<times> master) option" where
  "wait_children w = wait_loop [0..<length (slots w)] 0 w"

section \<open>Starting workers\<close>

definition free_slot :: "master \<Rightarrow> nat option" where
  "free_slot w = find (\<lambda>s. pid (slots w ! s) = -1) [0..<length (slots w)]"

text \<open>The \<open>k\<close>th turn of the loop: whether \<open>socketpair\<close> succeeds, and what \<open>fork\<close> returns to the master.\<close>

function refill :: "(nat \<Rightarrow> bool \<times> int) \<Rightarrow> nat \<Rightarrow> master \<Rightarrow> master option" where
  "refill os k w =
     (if workers w < int (length (slots w)) then
        (case free_slot w of None \<Rightarrow> None
         | Some s \<Rightarrow>
             let (sp, p) = os k;
                 w = w\<lparr> slots := (slots w)[s := (slots w ! s)\<lparr> domain_enabled := sp \<rparr>] \<rparr>
             in if p = -1 then Some w
                else refill os (k + 1) ((set_pid s p w)\<lparr> workers := workers w + 1, kids := p # kids w \<rparr>))
      else Some w)"
  by pat_completeness auto
termination
  by (relation "measure (\<lambda>(os, k, w). nat (int (length (slots w)) - workers w))") (auto simp: set_pid_def)

declare refill.simps [simp del]

section \<open>A round of the master\<close>

text \<open>While the master sleeps in \<open>sigsuspend\<close> some workers exit and some signals arrive.\<close>

record master_env =
  me_os :: "nat \<Rightarrow> bool \<times> int"
  me_exits :: "int list"
  me_signals :: "signo list"

definition child_exit :: "int \<Rightarrow> master \<Rightarrow> master" where
  "child_exit p w = (if p \<in> set (kids w) then w\<lparr> kids := removeAll p (kids w), zombies := zombies w @ [p] \<rparr> else w)"

definition tell_exit :: "master \<Rightarrow> master" where
  "tell_exit w = w\<lparr> told := told w @ filter (\<lambda>p. p \<noteq> -1) (map pid (slots w)) \<rparr>"

definition master_round :: "master_env \<Rightarrow> master \<Rightarrow> (bool \<times> master) option" where
  "master_round e w = do {
     w \<leftarrow> (if and (sig_mask w) LTS_MASK_SIGEXIT = 0 then refill (me_os e) 0 w else Some w);
     let w = fold child_exit (me_exits e) w;
     m \<leftarrow> sig_all LTS_MASTER (me_signals e) (sig_mask w);
     let exiting = (and m LTS_MASK_SIGEXIT \<noteq> 0);
     m \<leftarrow> (if exiting then sig_deliver LTS_MASTER SIGCHLD m else Some m);
     let w = (if exiting then tell_exit w else w)\<lparr> sig_mask := m \<rparr>;
     if and m LTS_MASK_SIGCHLD \<noteq> 0 then do {
       (n, w) \<leftarrow> wait_children w;
       Some (\<not> exiting, w\<lparr> workers := workers w - n \<rparr>) }
     else Some (True, w) }"

text \<open>\<open>master_main\<close> for a given sequence of rounds; it starts with free slots (\<open>init_core_master\<close>).\<close>

fun master_run :: "master_env list \<Rightarrow> master \<Rightarrow> (bool \<times> master) option" where
  "master_run [] w = Some (True, w)"
| "master_run (e # es) w = do { (go, w) \<leftarrow> master_round e w; if go then master_run es w else Some (False, w) }"

definition master_start :: "nat \<Rightarrow> master" where
  "master_start n = \<lparr> slots = replicate n \<lparr> pid = -1, domain_enabled = False \<rparr>, workers = 0, sig_mask = 0, kids = [], zombies = [], told = [] \<rparr>"

definition master_main :: "nat \<Rightarrow> master_env list \<Rightarrow> (bool \<times> master) option" where
  "master_main n es = master_run es (master_start n)"

section \<open>The invariant\<close>

definition pids :: "master \<Rightarrow> int list" where
  "pids w = filter (\<lambda>p. p \<noteq> -1) (map pid (slots w))"

text \<open>The counter counts the occupied slots; these hold exactly the children that were not waited for.\<close>

definition kids_ok :: "master \<Rightarrow> bool" where
  "kids_ok w \<longleftrightarrow> distinct (pids w) \<and> (\<forall>p\<in>set (pids w). 0 < p) \<and> distinct (kids w @ zombies w) \<and>
     set (kids w) \<union> set (zombies w) = set (pids w)"

definition master_inv :: "master \<Rightarrow> bool" where
  "master_inv w \<longleftrightarrow> workers w = int (length (pids w)) \<and> kids_ok w"

lemma kids_ok_simps [simp]:
  "pids (w\<lparr> workers := n \<rparr>) = pids w" "kids_ok (w\<lparr> workers := n \<rparr>) = kids_ok w" "pids (w\<lparr> sig_mask := m \<rparr>) = pids w"
  "kids_ok (w\<lparr> sig_mask := m \<rparr>) = kids_ok w" "pids (tell_exit w) = pids w" "kids_ok (tell_exit w) = kids_ok w"
  by (simp_all add: pids_def kids_ok_def tell_exit_def)

lemma master_start_inv: "master_inv (master_start n)"
  by (simp add: master_inv_def kids_ok_def master_start_def pids_def filter_empty_conv)

section \<open>Waiting for all\<close>

text \<open>The loop over slots none of which is empty: the dead children are reaped, no ASSERT fails.\<close>

definition reap :: "nat set \<Rightarrow> master \<Rightarrow> nat \<Rightarrow> slot" where
  "reap ss w i = (if i \<in> ss \<and> pid (slots w ! i) \<in> set (zombies w) then (slots w ! i)\<lparr> pid := -1 \<rparr> else slots w ! i)"

definition pid_at :: "master \<Rightarrow> nat \<Rightarrow> int" where
  "pid_at w s = pid (slots w ! s)"

lemma wait_loop_full:
  assumes "distinct ss" and "inj_on (pid_at w) (set ss)" and "set (kids w) \<inter> set (zombies w) = {}"
    and "\<forall>s\<in>set ss. s < length (slots w) \<and> 0 < pid_at w s \<and> pid_at w s \<in> set (kids w) \<union> set (zombies w)"
  shows "\<exists>sl z. wait_loop ss n w = Some (n + int (length (filter (\<lambda>s. pid_at w s \<in> set (zombies w)) ss)), w\<lparr> slots := sl, zombies := z \<rparr>) \<and>
    z = filter (\<lambda>p. p \<notin> pid_at w ` set ss) (zombies w) \<and> sl = map (reap (set ss) w) [0..<length (slots w)]"
  using assms
proof (induction ss arbitrary: n w)
  case Nil
  have "map (reap {} w) [0..<length (slots w)] = slots w" by (rule nth_equalityI) (simp_all add: reap_def)
  then show ?case by (intro exI [of _ "slots w"] exI [of _ "zombies w"]) simp
next
  case (Cons s ss)
  let ?p = "pid_at w s"
  have s: "s < length (slots w)" "0 < ?p" "?p \<in> set (kids w) \<union> set (zombies w)" "s \<notin> set ss" using Cons.prems by auto
  show ?case
  proof (cases "?p \<in> set (zombies w)")
    case False
    have w: "waitpid (pid (slots w ! s)) w = (0, w)" using s(2,3) False by (simp add: waitpid_def pid_at_def)
    have r: "reap (set (s # ss)) w i = reap (set ss) w i" for i using False by (auto simp: reap_def pid_at_def)
    have f: "filter (\<lambda>p. p \<notin> pid_at w ` set (s # ss)) (zombies w) = filter (\<lambda>p. p \<notin> pid_at w ` set ss) (zombies w)"
      by (rule filter_cong) (use False in auto)
    from Cons.IH [of w n] Cons.prems show ?thesis unfolding r f using w False by simp
  next
    case True
    let ?w1 = "set_pid s (-1) (w\<lparr> zombies := removeAll ?p (zombies w) \<rparr>)"
    have w: "waitpid (pid (slots w ! s)) w = (?p, w\<lparr> zombies := removeAll ?p (zombies w) \<rparr>)"
      using s(2) True by (simp add: waitpid_def pid_at_def)
    have at: "pid_at ?w1 t = pid_at w t" if "t \<in> set ss" for t
    proof -
      have "s \<noteq> t" using that s(4) by auto
      then show ?thesis by (simp add: set_pid_def pid_at_def)
    qed
    have ne: "pid_at w t \<noteq> ?p" if "t \<in> set ss" for t using that Cons.prems(2) s(4) unfolding inj_on_def by (metis list.set_intros)
    have k1: "kids ?w1 = kids w" "zombies ?w1 = removeAll ?p (zombies w)" "length (slots ?w1) = length (slots w)" by (simp_all add: set_pid_def)
    have inj: "inj_on (pid_at ?w1) (set ss)" using Cons.prems(2) at by (simp add: inj_on_def)
    have "\<forall>t\<in>set ss. t < length (slots ?w1) \<and> 0 < pid_at ?w1 t \<and> pid_at ?w1 t \<in> set (kids ?w1) \<union> set (zombies ?w1)"
      using Cons.prems(4) at ne k1 by auto
    from Cons.IH [OF _ inj _ this, of "n + 1"] Cons.prems(1,3) k1
    have ih: "wait_loop ss (n + 1) ?w1 = Some (n + 1 + int (length (filter (\<lambda>t. pid_at ?w1 t \<in> set (zombies ?w1)) ss)),
        ?w1\<lparr> slots := map (reap (set ss) ?w1) [0..<length (slots w)], zombies := filter (\<lambda>q. q \<notin> pid_at ?w1 ` set ss) (zombies ?w1) \<rparr>)"
      by auto
    have c: "filter (\<lambda>t. pid_at ?w1 t \<in> set (zombies ?w1)) ss = filter (\<lambda>t. pid_at w t \<in> set (zombies w)) ss"
      by (rule filter_cong) (use at ne k1 in auto)
    have z: "filter (\<lambda>q. q \<notin> pid_at ?w1 ` set ss) (zombies ?w1) = filter (\<lambda>q. q \<notin> pid_at w ` set (s # ss)) (zombies w)"
    proof -
      have im: "pid_at ?w1 ` set ss = pid_at w ` set ss" by (rule image_cong) (use at in auto)
      have "removeAll ?p (zombies w) = filter (\<lambda>q. q \<noteq> ?p) (zombies w)" unfolding removeAll_filter_not_eq by (rule filter_cong) auto
      then show ?thesis unfolding im k1(2) by (simp only: filter_filter) (rule filter_cong, auto)
    qed
    have r: "reap (set ss) ?w1 i = reap (set (s # ss)) w i" if "i < length (slots w)" for i
    proof (cases "i = s")
      case False
      then have "slots ?w1 ! i = slots w ! i" by (simp add: set_pid_def)
      then show ?thesis using ne [of i] False k1(2) by (auto simp: reap_def pid_at_def)
    qed (use s(1,4) True in \<open>simp add: reap_def set_pid_def pid_at_def\<close>)
    then have sl: "map (reap (set ss) ?w1) [0..<length (slots w)] = map (reap (set (s # ss)) w) [0..<length (slots w)]" by simp
    have "wait_loop (s # ss) n w = wait_loop ss (n + 1) ?w1" using w s(2) by (simp add: Let_def)
    then show ?thesis unfolding ih c z sl using True by (simp add: set_pid_def)
  qed
qed

text \<open>With no empty slot.\<close>

definition all_busy :: "master \<Rightarrow> bool" where
  "all_busy w \<longleftrightarrow> -1 \<notin> pid ` set (slots w)"

lemma busy_pids: "all_busy w \<Longrightarrow> pids w = map (pid_at w) [0..<length (slots w)]"
proof -
  assume "all_busy w"
  then have "pids w = map pid (slots w)" by (force simp: pids_def all_busy_def filter_id_conv)
  also have "\<dots> = map (pid_at w) [0..<length (slots w)]" by (rule nth_equalityI) (simp_all add: pid_at_def)
  finally show ?thesis .
qed

lemma filter_reaped:
  "\<forall>x\<in>set xs. g x \<noteq> -1 \<Longrightarrow>
   filter (\<lambda>p. p \<noteq> -1) (map (\<lambda>x. if g x \<in> Z then -1 else g x) xs) = filter (\<lambda>q. q \<notin> Z) (map (g :: nat \<Rightarrow> int) xs)"
  by (induction xs) auto

lemma wait_children_busy:
  assumes i: "master_inv w" and b: "all_busy w"
  shows "\<exists>w'. wait_children w = Some (int (length (zombies w)), w') \<and> kids w' = kids w \<and> zombies w' = [] \<and>
    master_inv (w'\<lparr> workers := workers w' - int (length (zombies w)) \<rparr>) \<and> length (slots w') = length (slots w) \<and> sig_mask w' = sig_mask w"
proof -
  let ?ss = "[0..<length (slots w)]" and ?z = "zombies w"
  have p: "pids w = map (pid_at w) ?ss" by (rule busy_pids [OF b])
  have k: "distinct (pids w)" "\<forall>p\<in>set (pids w). 0 < p" "distinct (kids w @ ?z)" "set (kids w) \<union> set ?z = set (pids w)"
      "workers w = int (length (pids w))"
    using i by (auto simp: master_inv_def kids_ok_def)
  have inj: "inj_on (pid_at w) (set ?ss)" using k(1) unfolding p by (simp add: distinct_map)
  have im: "pid_at w ` set ?ss = set (pids w)" by (simp add: p)
  have pos: "\<forall>s\<in>set ?ss. s < length (slots w) \<and> 0 < pid_at w s \<and> pid_at w s \<in> set (kids w) \<union> set ?z"
    using k(2,4) im by auto
  let ?sl = "map (reap (set ?ss) w) ?ss"
  obtain w' where w': "wait_children w = Some (int (length (filter (\<lambda>s. pid_at w s \<in> set ?z) ?ss)), w')"
      "w' = w\<lparr> slots := ?sl, zombies := [] \<rparr>"
  proof -
    have "filter (\<lambda>p. p \<notin> pid_at w ` set ?ss) ?z = []" using k(4) im by (auto simp: filter_empty_conv)
    then show thesis using that wait_loop_full [OF _ inj _ pos, of 0] k(3) unfolding wait_children_def by auto
  qed
  have cnt: "length (filter (\<lambda>s. pid_at w s \<in> set ?z) ?ss) = length ?z"
  proof -
    have "filter (\<lambda>q. q \<in> set ?z) (pids w) = map (pid_at w) (filter (\<lambda>s. pid_at w s \<in> set ?z) ?ss)" by (simp add: p filter_map comp_def)
    moreover have "set (filter (\<lambda>q. q \<in> set ?z) (pids w)) = set ?z" using k(4) by auto
    then have "length (filter (\<lambda>q. q \<in> set ?z) (pids w)) = length ?z"
      using k(1,3) by (metis distinct_append distinct_card distinct_filter)
    ultimately show ?thesis by simp
  qed
  have ne: "\<forall>s\<in>set ?ss. pid_at w s \<noteq> -1" using pos by fastforce
  have "pids w' = filter (\<lambda>p. p \<noteq> -1) (map (\<lambda>s. if pid_at w s \<in> set ?z then -1 else pid_at w s) ?ss)"
  proof -
    have "map pid ?sl = map (\<lambda>s. if pid_at w s \<in> set ?z then -1 else pid_at w s) ?ss" by (simp add: reap_def pid_at_def)
    moreover have "pids w' = filter (\<lambda>p. p \<noteq> -1) (map pid ?sl)" by (simp add: w'(2) pids_def)
    ultimately show ?thesis by (simp only:)
  qed
  then have pw: "pids w' = filter (\<lambda>q. q \<notin> set ?z) (pids w)" unfolding p filter_reaped [OF ne] .
  moreover have "length (filter (\<lambda>q. q \<in> set ?z) (pids w)) = length ?z" using cnt by (simp add: p filter_map comp_def)
  moreover note sum_length_filter_compl [of "\<lambda>q. q \<in> set ?z" "pids w"]
  ultimately have "int (length (pids w')) = workers w - int (length ?z)" using k(5) by simp
  moreover have "kids_ok w'"
    unfolding kids_ok_def pw using k(1-4) w'(2) by auto
  moreover have "kids w' = kids w" "zombies w' = []" "workers w' = workers w" "length (slots w') = length (slots w)" "sig_mask w' = sig_mask w"
    by (simp_all add: w'(2))
  ultimately show ?thesis using w'(1) cnt by (intro exI [of _ w']) (simp add: master_inv_def)
qed

section \<open>Refilling\<close>

text \<open>\<open>fork\<close> returns -1 or a new pid.\<close>

definition fork_ok :: "(nat \<Rightarrow> bool \<times> int) \<Rightarrow> nat \<Rightarrow> master \<Rightarrow> bool" where
  "fork_ok os k w \<longleftrightarrow> (\<forall>j\<ge>k. snd (os j) = -1 \<or> 0 < snd (os j) \<and> snd (os j) \<notin> set (pids w)) \<and>
     (\<forall>i\<ge>k. \<forall>j\<ge>k. snd (os i) = snd (os j) \<longrightarrow> snd (os i) \<noteq> -1 \<longrightarrow> i = j)"

lemma free_slot_found:
  assumes "master_inv w" and "workers w < int (length (slots w))"
  shows "\<exists>s < length (slots w). free_slot w = Some s \<and> pid (slots w ! s) = -1"
proof -
  have "length (pids w) < length (slots w)" using assms by (simp add: master_inv_def)
  have "\<exists>x\<in>set (slots w). pid x = -1"
  proof (rule ccontr)
    assume "\<not> (\<exists>x\<in>set (slots w). pid x = -1)"
    then have "pids w = map pid (slots w)" by (simp add: pids_def filter_id_conv)
    then show False using \<open>length (pids w) < length (slots w)\<close> by simp
  qed
  then have "find (\<lambda>s. pid (slots w ! s) = -1) [0..<length (slots w)] \<noteq> None"
    unfolding find_None_iff by (auto simp: in_set_conv_nth)
  then obtain s where s: "free_slot w = Some s" by (auto simp: free_slot_def)
  then have "s < length (slots w)" "pid (slots w ! s) = -1" by (auto simp: free_slot_def find_Some_iff)
  then show ?thesis using s by blast
qed

lemma pids_update:
  assumes "s < length (slots w)" and "pid (slots w ! s) = -1" and "p \<noteq> -1"
  shows "set (pids (set_pid s p w)) = insert p (set (pids w))" "length (pids (set_pid s p w)) = Suc (length (pids w))"
    "p \<notin> set (pids w) \<Longrightarrow> distinct (pids w) \<Longrightarrow> distinct (pids (set_pid s p w))"
proof -
  have sl: "slots w = take s (slots w) @ slots w ! s # drop (Suc s) (slots w)" by (rule id_take_nth_drop [OF assms(1)])
  let ?f = "\<lambda>xs. filter (\<lambda>p. p \<noteq> -1) (map pid xs)"
  have a: "pids w = ?f (take s (slots w)) @ ?f (drop (Suc s) (slots w))"
    unfolding pids_def by (subst sl) (simp add: assms(2))
  have b: "pids (set_pid s p w) = ?f (take s (slots w)) @ p # ?f (drop (Suc s) (slots w))"
    using assms(1,3) by (simp add: pids_def set_pid_def upd_conv_take_nth_drop)
  show "set (pids (set_pid s p w)) = insert p (set (pids w))" "length (pids (set_pid s p w)) = Suc (length (pids w))"
    "p \<notin> set (pids w) \<Longrightarrow> distinct (pids w) \<Longrightarrow> distinct (pids (set_pid s p w))"
    unfolding a b by auto
qed

lemma refill_correct:
  assumes "master_inv w" and "fork_ok os k w"
  shows "\<exists>w'. refill os k w = Some w' \<and> master_inv w' \<and> length (slots w') = length (slots w) \<and> zombies w' = zombies w \<and>
    set (kids w) \<subseteq> set (kids w') \<and> sig_mask w' = sig_mask w \<and> ((\<forall>j. snd (os j) \<noteq> -1) \<longrightarrow> workers w' = int (length (slots w)))"
  using assms
proof (induction os k w rule: refill.induct)
  case (1 os k w)
  have le: "workers w \<le> int (length (slots w))"
    using 1(2) length_filter_le [of "\<lambda>p. p \<noteq> -1" "map pid (slots w)"] by (simp add: master_inv_def pids_def)
  show ?case
  proof (cases "workers w < int (length (slots w))")
    case False
    then show ?thesis using 1(2) le by (subst refill.simps) auto
  next
    case True
    then obtain s where s: "s < length (slots w)" "free_slot w = Some s" "pid (slots w ! s) = -1"
      using free_slot_found [OF 1(2)] by blast
    obtain sp p where os: "os k = (sp, p)" by (cases "os k")
    let ?w1 = "w\<lparr> slots := (slots w)[s := (slots w ! s)\<lparr> domain_enabled := sp \<rparr>] \<rparr>"
    have "map pid (slots ?w1) = map pid (slots w)" using s(1) by (simp add: list_eq_iff_nth_eq nth_list_update)
    then have p1: "pids ?w1 = pids w" by (simp add: pids_def)
    then have i1: "master_inv ?w1" using 1(2) by (simp add: master_inv_def kids_ok_def)
    show ?thesis
    proof (cases "p = -1")
      case neg: True
      have "refill os k w = Some ?w1" using True s(2) os neg by (subst refill.simps) simp
      moreover have "snd (os k) = -1" using os neg by simp
      then have "\<not> (\<forall>j. snd (os j) \<noteq> -1)" by blast
      ultimately show ?thesis using i1 by (intro exI [of _ ?w1]) auto
    next
      case False
      have fr: "0 < p" "p \<notin> set (pids w)" using 1(3) os False by (fastforce simp: fork_ok_def)+
      let ?w2 = "(set_pid s p ?w1)\<lparr> workers := workers ?w1 + 1, kids := p # kids ?w1 \<rparr>"
      have s1: "s < length (slots ?w1)" "pid (slots ?w1 ! s) = -1" using s by simp_all
      note pu = pids_update [OF s1 False, unfolded p1]
      have p2: "pids ?w2 = pids (set_pid s p ?w1)" by (simp add: pids_def)
      have kz: "set (kids w) \<union> set (zombies w) = set (pids w)" "distinct (kids w @ zombies w)" "distinct (pids w)" "\<forall>p\<in>set (pids w). 0 < p"
        using 1(2) by (auto simp: master_inv_def kids_ok_def)
      have "kids ?w2 = p # kids w" "zombies ?w2 = zombies w" "workers ?w2 = workers w + 1" by (simp_all add: set_pid_def)
      then have i2: "master_inv ?w2"
        using pu kz fr 1(2) unfolding master_inv_def kids_ok_def p2 by auto
      have "fork_ok os (k + 1) ?w2"
        using 1(3) os pu(1) False unfolding fork_ok_def p2 by (metis Suc_eq_plus1 Suc_leD insertE n_not_Suc_n not_less_eq_eq snd_conv order_refl)
      moreover have "refill os k w = refill os (k + 1) ?w2" using True s(2) os False by (subst refill.simps) simp
      moreover have "length (slots ?w2) = length (slots w)" "zombies ?w2 = zombies w" "set (kids w) \<subseteq> set (kids ?w2)" "sig_mask ?w2 = sig_mask w"
        by (auto simp: set_pid_def)
      ultimately show ?thesis using 1(1) [OF True s(2) os [symmetric] refl refl False i2] by (metis (no_types, lifting) subset_trans)
    qed
  qed
qed

section \<open>Rounds\<close>

lemma child_exit_keeps:
  "master_inv w \<Longrightarrow> master_inv (fold child_exit ps w)" "slots (fold child_exit ps w) = slots w" "sig_mask (fold child_exit ps w) = sig_mask w"
proof (induction ps arbitrary: w)
  case (Cons p ps)
  { case 1
    have "pids (child_exit p w) = pids w" by (simp add: child_exit_def pids_def)
    then have "master_inv (child_exit p w)"
      using 1 by (auto simp: master_inv_def kids_ok_def child_exit_def distinct_removeAll)
    then show ?case using Cons by simp }
  { case 2 show ?case using Cons.IH(2) [of "child_exit p w"] by (simp add: child_exit_def) }
  { case 3 show ?case using Cons.IH(3) [of "child_exit p w"] by (simp add: child_exit_def) }
qed simp_all

text \<open>The forks of a round succeed, and nothing kills the master.\<close>

definition env_ok :: "master_env \<Rightarrow> master \<Rightarrow> bool" where
  "env_ok e w \<longleftrightarrow> fork_ok (me_os e) 0 w \<and> (\<forall>j. snd (me_os e j) \<noteq> -1) \<and> set (me_signals e) \<subseteq> {SIGINT, SIGTERM, SIGCHLD, SIGALRM}"

lemma sig_all_total: "set ss \<subseteq> {SIGINT, SIGTERM, SIGCHLD, SIGALRM} \<Longrightarrow> \<exists>m'. sig_all LTS_MASTER ss m = Some m'"
  by (induction ss arbitrary: m) auto

lemma busy_full: "master_inv w \<Longrightarrow> workers w = int (length (slots w)) \<Longrightarrow> all_busy w"
proof -
  assume i: "master_inv w" "workers w = int (length (slots w))"
  then have "length (filter (\<lambda>p. p \<noteq> -1) (map pid (slots w))) = length (map pid (slots w))" by (simp add: master_inv_def pids_def)
  then have "filter (\<lambda>p. p \<noteq> -1) (map pid (slots w)) = map pid (slots w)"
    by (metis filter_True length_filter_less less_irrefl)
  then show ?thesis by (auto simp: all_busy_def filter_id_conv)
qed

lemma master_round_correct:
  assumes i: "master_inv w" and e: "env_ok e w" and m: "and (sig_mask w) LTS_MASK_SIGEXIT = 0"
  shows "\<exists>go w'. master_round e w = Some (go, w') \<and> master_inv w' \<and> length (slots w') = length (slots w) \<and>
    (go \<longrightarrow> and (sig_mask w') LTS_MASK_SIGEXIT = 0) \<and> (and (sig_mask w') LTS_MASK_SIGCHLD \<noteq> 0 \<longrightarrow> zombies w' = [])"
proof -
  obtain w1 where w1: "refill (me_os e) 0 w = Some w1" "master_inv w1" "length (slots w1) = length (slots w)"
      "workers w1 = int (length (slots w))"
    using refill_correct [OF i, of "me_os e" 0] e by (auto simp: env_ok_def)
  let ?w2 = "fold child_exit (me_exits e) w1"
  have w2: "master_inv ?w2" "slots ?w2 = slots w1" "all_busy ?w2"
    using child_exit_keeps [where w = w1 and ps = "me_exits e"] w1 busy_full [of w1] by (auto simp: all_busy_def)
  obtain m1 where m1: "sig_all LTS_MASTER (me_signals e) (sig_mask ?w2) = Some m1" using sig_all_total e unfolding env_ok_def by blast
  define exiting where "exiting \<longleftrightarrow> and m1 LTS_MASK_SIGEXIT \<noteq> 0"
  define m2 where "m2 = (if exiting then or m1 LTS_MASK_SIGCHLD else m1)"
  let ?w3 = "(if exiting then tell_exit ?w2 else ?w2)\<lparr> sig_mask := m2 \<rparr>"
  have t: "slots (tell_exit w) = slots w" "workers (tell_exit w) = workers w" "zombies (tell_exit w) = zombies w" "kids (tell_exit w) = kids w" for w
    by (simp_all add: tell_exit_def)
  have w3: "master_inv ?w3" "all_busy ?w3" "slots ?w3 = slots w1" "sig_mask ?w3 = m2"
    using w2 t by (simp_all add: master_inv_def all_busy_def)
  have r: "master_round e w = (if and m2 LTS_MASK_SIGCHLD \<noteq> 0
      then do { (n, w) \<leftarrow> wait_children ?w3; Some (\<not> exiting, w\<lparr> workers := workers w - n \<rparr>) } else Some (True, ?w3))"
    using m w1(1) m1 by (simp add: master_round_def Let_def exiting_def m2_def)
  have ex: "and m2 LTS_MASK_SIGEXIT = and m1 LTS_MASK_SIGEXIT" "exiting \<longrightarrow> and m2 LTS_MASK_SIGCHLD \<noteq> 0"
    by (simp_all add: m2_def bit.conj_disj_distrib2 or_eq_0_iff)
  show ?thesis
  proof (cases "and m2 LTS_MASK_SIGCHLD \<noteq> 0")
    case True
    from wait_children_busy [OF w3(1,2)] obtain w4 where w4: "wait_children ?w3 = Some (int (length (zombies ?w3)), w4)" "zombies w4 = []"
        "master_inv (w4\<lparr> workers := workers w4 - int (length (zombies ?w3)) \<rparr>)" "length (slots w4) = length (slots ?w3)" "sig_mask w4 = m2"
      using w3(4) by auto
    show ?thesis unfolding r using True w4 w1(3) w3(3) ex(1)
      by (intro exI [of _ "\<not> exiting"] exI [of _ "w4\<lparr> workers := workers w4 - int (length (zombies ?w3)) \<rparr>"]) (simp add: exiting_def)
  next
    case False
    then show ?thesis unfolding r using w3 w1(3) ex by (intro exI [of _ True] exI [of _ ?w3]) (simp add: exiting_def)
  qed
qed

text \<open>The states of the master between rounds.\<close>

inductive master_reach :: "nat \<Rightarrow> master \<Rightarrow> bool" for n where
  start: "master_reach n (master_start n)"
| round: "master_reach n w \<Longrightarrow> env_ok e w \<Longrightarrow> master_round e w = Some (True, w') \<Longrightarrow> master_reach n w'"

lemma master_reach_inv: "master_reach n w \<Longrightarrow> master_inv w \<and> length (slots w) = n \<and> and (sig_mask w) LTS_MASK_SIGEXIT = 0"
proof (induction rule: master_reach.induct)
  case start
  show ?case using master_start_inv by (simp add: master_start_def)
next
  case (round w e w')
  then show ?case using master_round_correct [of w e] by auto
qed

section \<open>A slot that stays empty\<close>

lemma wait_loop_unknown:
  assumes "zombies w = []" and "j \<in> set ss" and "pid (slots w ! j) \<notin> set (-1 # kids w)"
  shows "wait_loop ss n w = None"
  using assms
proof (induction ss arbitrary: n)
  case (Cons s ss)
  have "waitpid (pid (slots w ! s)) w = (0, w) \<or> waitpid (pid (slots w ! s)) w = (-1, w)"
    using Cons.prems(1) by (simp add: waitpid_def)
  then show ?case using Cons by (auto simp: waitpid_def split: if_splits)
qed simp

lemma wait_loop_running:
  "\<forall>s\<in>set ss. pid (slots w ! s) \<noteq> -1 \<and> pid (slots w ! s) \<in> set (kids w) - set (zombies w) \<Longrightarrow>
   wait_loop (ss @ ts) n w = wait_loop ts n w"
  by (induction ss) (auto simp: waitpid_def)

lemma empty_slot_steals:
  assumes "i < j" and "j < length (slots w)" and "pid (slots w ! i) = -1" and "zombies w = [z]" and "pid (slots w ! j) = z"
    and "0 < z" and "z \<notin> set (kids w)" and "\<forall>s < i. pid (slots w ! s) \<noteq> -1 \<and> pid (slots w ! s) \<in> set (kids w)"
  shows "wait_children w = None"
proof -
  have sp: "[0..<length (slots w)] = [0..<i] @ i # [Suc i..<length (slots w)]"
    using assms(1,2) by (metis le_add_diff_inverse less_trans less_or_eq_imp_le upt_add_eq_append upt_conv_Cons zero_le)
  have "\<forall>s\<in>set [0..<i]. pid (slots w ! s) \<noteq> -1 \<and> pid (slots w ! s) \<in> set (kids w) - set (zombies w)"
    using assms(4,7,8) by auto
  then have "wait_children w = wait_loop (i # [Suc i..<length (slots w)]) 0 w"
    unfolding wait_children_def sp by (rule wait_loop_running)
  also have "\<dots> = wait_loop [Suc i..<length (slots w)] 1 (set_pid i (-1) (w\<lparr> zombies := [] \<rparr>))"
    using assms(3,4,6) by (simp add: waitpid_def)
  also have "\<dots> = None"
    by (rule wait_loop_unknown [where j = j]) (use assms in \<open>auto simp: set_pid_def\<close>)
  finally show ?thesis .
qed

section \<open>Properties\<close>


definition forks_ok :: master_env where
  "forks_ok = \<lparr> me_os = (\<lambda>k. (True, int k + 100)), me_exits = [101], me_signals = [SIGCHLD] \<rparr>"



definition half_started :: master where
  "half_started = \<lparr> slots = [\<lparr> pid = -1, domain_enabled = True \<rparr>, \<lparr> pid = 100, domain_enabled = True \<rparr>], workers = 1, sig_mask = 0,
     kids = [], zombies = [100], told = [] \<rparr>"


end
