(* ===== verification/Lifecycle.thy ===== *)
theory Lifecycle
  imports LtsPrelude
begin

text \<open>
  The life of the modules: \<open>main\<close> and \<open>worker_main\<close> of \<open>src/modules/latasia.c\<close>.

  A process initialises modules, pushing each on a stack, runs its loop, and calls the exit functions
  while it pops the stack.  The result is the list of the calls it makes and its exit status; \<open>None\<close> is
  \<open>abort()\<close>.  What an init function returns is part of the module.
\<close>

section \<open>Modules\<close>

datatype module_type = LTS_CORE_MODULE | LTS_EVENT_MODULE | LTS_PROTO_MODULE | LTS_APP_MODULE

text \<open>\<open>NULL\<close> callbacks are \<open>None\<close> and \<open>False\<close>; an init function returns 0 or another number.\<close>

record lts_module =
  mod_name :: bstr
  mod_type :: module_type
  init_master :: "int option"
  init_worker :: "int option"
  exit_master :: bool
  exit_worker :: bool

datatype call = Init lts_module bool | Exit lts_module | Loop

section \<open>The loops\<close>

text \<open>The loop over the core modules: the flag, the stack and the calls.\<close>

fun init_core :: "(lts_module \<Rightarrow> int option) \<Rightarrow> lts_module list \<Rightarrow> lts_module list \<Rightarrow> bool \<times> lts_module list \<times> call list" where
  "init_core f [] stk = (True, stk, [])"
| "init_core f (m # ms) stk =
     (if mod_type m \<noteq> LTS_CORE_MODULE then init_core f ms stk
      else case f m of
        None \<Rightarrow> init_core f ms stk
      | Some r \<Rightarrow> if r \<noteq> 0 then (False, stk, [Init m False])
                 else let (ok, stk, cs) = init_core f ms (m # stk) in (ok, stk, Init m True # cs))"

text \<open>The loops over the event and the app modules end with the first that has an init function.\<close>

fun init_first :: "module_type \<Rightarrow> lts_module list \<Rightarrow> lts_module list \<Rightarrow> bool \<times> lts_module option \<times> lts_module list \<times> call list" where
  "init_first t [] stk = (True, None, stk, [])"
| "init_first t (m # ms) stk =
     (if mod_type m \<noteq> t then init_first t ms stk
      else case init_worker m of
        None \<Rightarrow> init_first t ms stk
      | Some r \<Rightarrow> if r = 0 then (True, Some m, m # stk, [Init m True]) else (False, None, stk, [Init m False]))"

fun exit_all :: "(lts_module \<Rightarrow> bool) \<Rightarrow> lts_module list \<Rightarrow> call list" where
  "exit_all f [] = []"
| "exit_all f (m # stk) = (if f m then Exit m # exit_all f stk else exit_all f stk)"

section \<open>A worker\<close>

abbreviation EXIT_SUCCESS :: int where "EXIT_SUCCESS \<equiv> 0"
abbreviation EXIT_FAILURE :: int where "EXIT_FAILURE \<equiv> 1"

definition worker_main :: "lts_module list \<Rightarrow> (int \<times> call list) option" where
  "worker_main mods =
     (let (ok, stk, c1) = init_core init_worker mods []
      in if \<not> ok then Some (EXIT_FAILURE, c1 @ exit_all exit_worker stk)
         else let (ok, ev, stk, c2) = init_first LTS_EVENT_MODULE mods stk
              in if \<not> ok then Some (EXIT_FAILURE, c1 @ c2 @ exit_all exit_worker stk)
                 else let (ok, app, stk, c3) = init_first LTS_APP_MODULE mods stk
                      in if \<not> ok then Some (EXIT_FAILURE, c1 @ c2 @ c3 @ exit_all exit_worker stk)
                         else if app = None then None
                         else Some (EXIT_SUCCESS, c1 @ c2 @ c3 @ Loop # exit_all exit_worker stk))"

section \<open>The master\<close>

text \<open>\<open>junk\<close> is what \<open>rslt\<close> holds when no loop has set it; \<open>master\<close> is the result of \<open>master_main\<close>.\<close>

definition lts_main :: "int \<Rightarrow> int \<Rightarrow> lts_module list \<Rightarrow> int \<times> call list" where
  "lts_main junk master mods =
     (let (ok, stk, cs) = init_core init_master mods [];
          rslt = (if ok then junk else -1)
      in if rslt = -1 then (EXIT_FAILURE, cs @ exit_all exit_master stk)
         else (if master = 0 then EXIT_SUCCESS else EXIT_FAILURE, cs @ Loop # exit_all exit_master stk))"

section \<open>Facts\<close>

text \<open>The modules a list of calls has initialised, in order.\<close>

fun inited :: "call list \<Rightarrow> lts_module list" where
  "inited [] = []"
| "inited (Init m ok # cs) = (if ok then m # inited cs else inited cs)"
| "inited (c # cs) = inited cs"

lemma inited_append [simp]: "inited (cs @ ds) = inited cs @ inited ds"
  by (induction cs rule: inited.induct) auto

fun inits_only :: "call list \<Rightarrow> bool" where
  "inits_only [] = True"
| "inits_only (Init m ok # cs) = inits_only cs"
| "inits_only (c # cs) = False"

lemma inits_only_append [simp]: "inits_only (cs @ ds) = (inits_only cs \<and> inits_only ds)"
  by (induction cs rule: inits_only.induct) auto

lemma inits_only_loop: "inits_only cs \<Longrightarrow> Loop \<notin> set cs"
  by (induction cs rule: inits_only.induct) auto

lemma inited_exits [simp]: "inited (map Exit xs) = []"
  by (induction xs) auto

lemma exit_all_eq: "exit_all f stk = map Exit (filter f stk)"
  by (induction stk) auto

lemma init_core_correct:
  "init_core f ms stk = (ok, stk', cs) \<Longrightarrow> stk' = rev (inited cs) @ stk \<and> inits_only cs \<and>
     (ok \<longrightarrow> inited cs = filter (\<lambda>m. mod_type m = LTS_CORE_MODULE \<and> f m \<noteq> None) ms)"
proof (induction ms arbitrary: stk ok stk' cs)
  case (Cons m ms)
  show ?case
  proof (cases "mod_type m = LTS_CORE_MODULE \<and> f m = Some 0")
    case True
    obtain ok1 stk1 cs1 where r: "init_core f ms (m # stk) = (ok1, stk1, cs1)" by (cases "init_core f ms (m # stk)") auto
    then show ?thesis using Cons.IH [OF r] Cons.prems True by auto
  next
    case False
    then show ?thesis using Cons by (auto split: if_splits option.splits)
  qed
qed simp

lemma init_first_correct:
  "init_first t ms stk = (ok, r, stk', cs) \<Longrightarrow> stk' = rev (inited cs) @ stk \<and> inits_only cs \<and>
     (ok \<longrightarrow> r = find (\<lambda>m. mod_type m = t \<and> init_worker m \<noteq> None) ms \<and> inited cs = (case r of None \<Rightarrow> [] | Some m \<Rightarrow> [m]))"
  by (induction ms) (auto split: if_splits option.splits)

section \<open>Properties\<close>

text \<open>C26. A worker that does not abort exits, in the reverse order, exactly the modules it has initialised (those
  that have an exit function), whether it ran its event loop or an init function failed; and it runs the
  loop only after every core module, an event module if there is one, and an app module are initialised.\<close>

theorem worker_exits_what_it_inits:
  assumes "worker_main mods = Some (code, cs)"
  shows "\<exists>js. inits_only js \<and> cs = js @ (if code = EXIT_SUCCESS then [Loop] else []) @ map Exit (filter exit_worker (rev (inited js))) \<and>
    (code = EXIT_SUCCESS \<longrightarrow> (\<exists>app. find (\<lambda>m. mod_type m = LTS_APP_MODULE \<and> init_worker m \<noteq> None) mods = Some app \<and>
       inited js = filter (\<lambda>m. mod_type m = LTS_CORE_MODULE \<and> init_worker m \<noteq> None) mods @
         (case find (\<lambda>m. mod_type m = LTS_EVENT_MODULE \<and> init_worker m \<noteq> None) mods of None \<Rightarrow> [] | Some m \<Rightarrow> [m]) @ [app]))"
proof -
  obtain ok1 s1 c1 where 1: "init_core init_worker mods [] = (ok1, s1, c1)" by (cases "init_core init_worker mods []") auto
  obtain ok2 ev s2 c2 where 2: "init_first LTS_EVENT_MODULE mods s1 = (ok2, ev, s2, c2)" by (cases "init_first LTS_EVENT_MODULE mods s1") auto
  obtain ok3 app s3 c3 where 3: "init_first LTS_APP_MODULE mods s2 = (ok3, app, s3, c3)" by (cases "init_first LTS_APP_MODULE mods s2") auto
  note f = init_core_correct [OF 1] init_first_correct [OF 2] init_first_correct [OF 3]
  have r: "Some (code, cs) = (if \<not> ok1 then Some (EXIT_FAILURE, c1 @ exit_all exit_worker s1)
      else if \<not> ok2 then Some (EXIT_FAILURE, c1 @ c2 @ exit_all exit_worker s2)
      else if \<not> ok3 then Some (EXIT_FAILURE, c1 @ c2 @ c3 @ exit_all exit_worker s3)
      else if app = None then None else Some (EXIT_SUCCESS, c1 @ c2 @ c3 @ Loop # exit_all exit_worker s3))"
    unfolding assms [symmetric] by (simp add: worker_main_def 1 2 3)
  consider (core) "\<not> ok1" | (event) "ok1" "\<not> ok2" | (app) "ok1" "ok2" "\<not> ok3" | (run) "ok1" "ok2" "ok3" "app \<noteq> None"
    using r by (cases ok1; cases ok2; cases ok3; cases "app = None") simp_all
  then show ?thesis
  proof cases
    case core
    then show ?thesis using r f by (intro exI [of _ c1]) (auto simp: exit_all_eq)
  next
    case event
    then show ?thesis using r f by (intro exI [of _ "c1 @ c2"]) (auto simp: exit_all_eq)
  next
    case app
    then show ?thesis using r f by (intro exI [of _ "c1 @ c2 @ c3"]) (auto simp: exit_all_eq)
  next
    case run
    then show ?thesis using r f by (intro exI [of _ "c1 @ c2 @ c3"]) (auto simp: exit_all_eq)
  qed
qed

definition sample_module :: "bstr \<Rightarrow> module_type \<Rightarrow> int \<Rightarrow> lts_module" where
  "sample_module n t r = \<lparr> mod_name = n, mod_type = t, init_master = Some 0, init_worker = Some r, exit_master = True, exit_worker = True \<rparr>"

theorem worker_exits_what_it_inits_witness:
  "\<exists>js. worker_main [sample_module [1] LTS_CORE_MODULE 0, sample_module [2] LTS_EVENT_MODULE (-1)] =
     Some (EXIT_FAILURE, js @ map Exit (filter exit_worker (rev (inited js)))) \<and> inits_only js"
proof -
  obtain cs where r: "worker_main [sample_module [1] LTS_CORE_MODULE 0, sample_module [2] LTS_EVENT_MODULE (-1)] = Some (EXIT_FAILURE, cs)"
    by (simp add: worker_main_def sample_module_def)
  from worker_exits_what_it_inits [OF this] obtain js where "inits_only js" "cs = js @ map Exit (filter exit_worker (rev (inited js)))"
    by auto
  then show ?thesis using r by blast
qed

text \<open>\<open>main\<close> tests a variable that nobody has set: when every core module is initialised but \<open>rslt\<close> happens
  to hold -1, the server takes its own start for a failure and exits without running the master.\<close>

theorem uninitialised_result_stops_server:
  assumes "\<forall>m\<in>set mods. init_master m = None \<or> init_master m = Some 0"
  shows "\<exists>cs. lts_main (-1) master mods = (EXIT_FAILURE, cs) \<and> Loop \<notin> set cs \<and>
    inited cs = filter (\<lambda>m. mod_type m = LTS_CORE_MODULE \<and> init_master m \<noteq> None) mods"
proof -
  obtain ok stk cs where 1: "init_core init_master mods [] = (ok, stk, cs)" by (cases "init_core init_master mods []") auto
  have ok
  proof -
    have "init_core init_master ms s = (ok, stk, cs) \<Longrightarrow> \<forall>m\<in>set ms. init_master m = None \<or> init_master m = Some 0 \<Longrightarrow> ok" for ms s ok stk cs
      by (induction ms arbitrary: s ok stk cs) (auto split: if_splits option.splits prod.splits)
    then show ?thesis using 1 assms by blast
  qed
  then have "lts_main (-1) master mods = (EXIT_FAILURE, cs @ exit_all exit_master stk)" by (simp add: lts_main_def 1)
  moreover have "Loop \<notin> set (cs @ exit_all exit_master stk)"
    using init_core_correct [OF 1] inits_only_loop by (auto simp: exit_all_eq)
  ultimately show ?thesis using init_core_correct [OF 1] \<open>ok\<close> by (simp add: exit_all_eq)
qed

theorem uninitialised_result_stops_server_witness:
  "\<exists>cs. lts_main (-1) 0 [sample_module [1] LTS_CORE_MODULE 0] = (EXIT_FAILURE, cs) \<and> Loop \<notin> set cs"
  using uninitialised_result_stops_server [of "[sample_module [1] LTS_CORE_MODULE 0]" 0] by (auto simp: sample_module_def)

end
