(* ===== verification/FileIO.thy ===== *)
theory FileIO
  imports AdvNumber
begin

text \<open>
  \<open>src/file.c\<close> and \<open>src/shmem.c\<close>: files with a position for reading and one for writing, and the shared
  page.

  The operating system is a \<open>disk\<close>: names, the bytes of the files behind them, and the open descriptors.
  A name that is removed leaves the bytes to the descriptors that are open.  What may be opened
  is a predicate of the disk.
\<close>

section \<open>The operating system\<close>

datatype file_errno = EEXIST | ENOENT | EACCES | EBADF | EISDIR

record open_flags =
  o_write :: bool
  o_creat :: bool
  o_excl :: bool
  o_append :: bool

text \<open>\<open>d_dir\<close>, \<open>d_data\<close>, \<open>d_isdir\<close>: the inode of a name, the bytes of an inode, the inodes of directories;
  \<open>d_fds\<close>: the inode of a descriptor and whether it was opened for appending; the next free numbers.\<close>

record disk =
  d_dir :: "bstr \<Rightarrow> nat option"
  d_data :: "nat \<Rightarrow> bstr"
  d_isdir :: "nat \<Rightarrow> bool"
  d_fds :: "int \<Rightarrow> (nat \<times> bool) option"
  d_inode :: nat
  d_fd :: int
  d_access :: "bstr \<Rightarrow> bool"
  d_parent :: "bstr \<Rightarrow> bool"

definition new_fd :: "nat \<Rightarrow> bool \<Rightarrow> disk \<Rightarrow> int \<times> disk" where
  "new_fd i app d = (d_fd d, d\<lparr> d_fds := (d_fds d)(d_fd d \<mapsto> (i, app)), d_fd := d_fd d + 1 \<rparr>)"

definition sys_open :: "open_flags \<Rightarrow> bstr \<Rightarrow> disk \<Rightarrow> (file_errno + int) \<times> disk" where
  "sys_open fl name d = (case d_dir d name of
     Some i \<Rightarrow>
       if o_creat fl \<and> o_excl fl then (Inl EEXIST, d)
       else if d_isdir d i \<and> o_write fl then (Inl EISDIR, d)
       else if \<not> d_access d name then (Inl EACCES, d)
       else let (f, d) = new_fd i (o_append fl) d in (Inr f, d)
   | None \<Rightarrow>
       if \<not> o_creat fl \<or> \<not> d_parent d name then (Inl ENOENT, d)
       else if \<not> d_access d name then (Inl EACCES, d)
       else let i = d_inode d;
                d = d\<lparr> d_dir := (d_dir d)(name \<mapsto> i), d_data := (d_data d)(i := []), d_isdir := (d_isdir d)(i := False), d_inode := i + 1 \<rparr>;
                (f, d) = new_fd i (o_append fl) d
            in (Inr f, d))"

definition sys_pread :: "int \<Rightarrow> nat \<Rightarrow> nat \<Rightarrow> disk \<Rightarrow> file_errno + bstr" where
  "sys_pread f n ofst d = (case d_fds d f of
     None \<Rightarrow> Inl EBADF
   | Some (i, _) \<Rightarrow> if d_isdir d i then Inl EISDIR else Inr (take n (drop ofst (d_data d i))))"

text \<open>A write behind the end fills the gap with zeros; a file that was opened for appending ignores the
  offset.\<close>

definition overwrite :: "nat \<Rightarrow> bstr \<Rightarrow> bstr \<Rightarrow> bstr" where
  "overwrite ofst data xs = take ofst xs @ replicate (ofst - length xs) 0 @ data @ drop (ofst + length data) xs"

definition sys_pwrite :: "int \<Rightarrow> bstr \<Rightarrow> nat \<Rightarrow> disk \<Rightarrow> (file_errno + nat) \<times> disk" where
  "sys_pwrite f data ofst d = (case d_fds d f of
     None \<Rightarrow> (Inl EBADF, d)
   | Some (i, app) \<Rightarrow>
       (Inr (length data), d\<lparr> d_data := (d_data d)(i := if app then d_data d i @ data else overwrite ofst data (d_data d i)) \<rparr>))"

definition sys_close :: "int \<Rightarrow> disk \<Rightarrow> disk" where
  "sys_close f d = d\<lparr> d_fds := (d_fds d)(f := None) \<rparr>"

definition sys_unlink :: "bstr \<Rightarrow> disk \<Rightarrow> int \<times> disk" where
  "sys_unlink name d = (if d_dir d name = None then (-1, d) else (0, d\<lparr> d_dir := (d_dir d)(name := None) \<rparr>))"

text \<open>The bytes of a name.\<close>

definition file_of :: "bstr \<Rightarrow> disk \<Rightarrow> bstr option" where
  "file_of name d = map_option (d_data d) (d_dir d name)"

section \<open>Files\<close>

record lts_file =
  f_fd :: int
  f_name :: lts_str
  f_rseek :: nat
  f_wseek :: nat

definition define_file :: "lts_str \<Rightarrow> lts_file" where
  "define_file name = \<lparr> f_fd = -1, f_name = name, f_rseek = 0, f_wseek = 0 \<rparr>"

definition lts_file_rseek :: "lts_file \<Rightarrow> nat \<Rightarrow> lts_file" where
  "lts_file_rseek file ofst = file\<lparr> f_rseek := ofst \<rparr>"

definition lts_file_wseek :: "lts_file \<Rightarrow> nat \<Rightarrow> lts_file" where
  "lts_file_wseek file ofst = file\<lparr> f_wseek := ofst \<rparr>"

text \<open>The name is copied into fresh memory; \<open>mem\<close>: whether \<open>malloc\<close> succeeds, which nobody checks.  Both
  assignments of the code set \<open>rseek\<close>, none \<open>wseek\<close>.  The result also has the error, for \<open>errno\<close>.\<close>

definition lts_file_open :: "bool \<Rightarrow> open_flags \<Rightarrow> lts_file \<Rightarrow> disk \<Rightarrow> ((file_errno option) \<times> lts_file \<times> disk) option" where
  "lts_file_open mem fl file d = do {
     nm \<leftarrow> rdn (s_data (f_name file)) 0 (int (s_len (f_name file)));
     if \<not> mem then None
     else Some (case sys_open fl (cstr (nm @ [0])) d of
         (Inl err, d) \<Rightarrow> (Some err, file\<lparr> f_fd := -1 \<rparr>, d)
       | (Inr f, d) \<Rightarrow> (None, file\<lparr> f_fd := f, f_rseek := 0 \<rparr>, d)) }"

text \<open>The position advances by the size asked for, whatever was read.\<close>

definition lts_file_read :: "lts_file \<Rightarrow> nat \<Rightarrow> disk \<Rightarrow> (file_errno + bstr) \<times> lts_file" where
  "lts_file_read file sz d = (case sys_pread (f_fd file) sz (f_rseek file) d of
     Inl err \<Rightarrow> (Inl err, file)
   | Inr data \<Rightarrow> (Inr data, file\<lparr> f_rseek := f_rseek file + sz \<rparr>))"

definition lts_file_write :: "lts_file \<Rightarrow> bstr \<Rightarrow> disk \<Rightarrow> (file_errno + nat) \<times> lts_file \<times> disk" where
  "lts_file_write file buf d = (case sys_pwrite (f_fd file) buf (f_wseek file) d of
     (Inl err, d) \<Rightarrow> (Inl err, file, d)
   | (Inr n, d) \<Rightarrow> (Inr n, file\<lparr> f_wseek := f_wseek file + length buf \<rparr>, d))"

definition lts_file_close :: "lts_file \<Rightarrow> disk \<Rightarrow> disk" where
  "lts_file_close file d = sys_close (f_fd file) d"

section \<open>Shared memory\<close>

text \<open>The address \<open>mmap\<close> returns, \<open>None\<close> for \<open>MAP_FAILED\<close>.\<close>

record lts_shm =
  shm_addr :: "int option"
  shm_size :: nat

definition lts_shm_alloc :: "int option \<Rightarrow> lts_shm \<Rightarrow> int \<times> lts_shm" where
  "lts_shm_alloc mmap shm = (let shm = shm\<lparr> shm_addr := mmap \<rparr> in (if shm_addr shm = None then -1 else 0, shm))"

section \<open>Reading a file to its end\<close>

text \<open>Pieces of \<open>n\<close> bytes until nothing comes: what a caller gets.\<close>

function read_all :: "nat \<Rightarrow> lts_file \<Rightarrow> disk \<Rightarrow> bstr" where
  "read_all n file d = (case lts_file_read file n d of
     (Inr data, file') \<Rightarrow> if data = [] \<or> n = 0 then [] else data @ read_all n file' d
   | (Inl _, _) \<Rightarrow> [])"
  by auto
termination
  by (relation "measure (\<lambda>(n, file, d). (case d_fds d (f_fd file) of None \<Rightarrow> 0 | Some (i, _) \<Rightarrow> length (d_data d i)) - f_rseek file)")
    (auto simp: lts_file_read_def sys_pread_def split: option.splits if_splits)

lemma read_all_reads:
  assumes "d_fds d (f_fd fi) = Some (i, app)" and "\<not> d_isdir d i" and "0 < n"
  shows "read_all n fi d = drop (f_rseek fi) (d_data d i)"
  using assms
proof (induction n fi d rule: read_all.induct)
  case (1 n fi d)
  let ?x = "take n (drop (f_rseek fi) (d_data d i))" and ?fi = "fi\<lparr> f_rseek := f_rseek fi + n \<rparr>"
  have r: "lts_file_read fi n d = (Inr ?x, ?fi)" using 1(2,3) by (simp add: lts_file_read_def sys_pread_def)
  show ?case
  proof (cases "?x = []")
    case True
    then show ?thesis using 1(4) r by (subst read_all.simps) simp
  next
    case False
    have "read_all n ?fi d = drop (f_rseek ?fi) (d_data d i)"
      using 1(1) [of "Inr ?x" ?fi ?x] r False 1(2-4) by simp
    then have "read_all n fi d = ?x @ drop n (drop (f_rseek fi) (d_data d i))"
      using False 1(4) r by (subst read_all.simps) (simp add: add.commute)
    then show ?thesis by (simp only: append_take_drop_id)
  qed
qed

lemma file_write_then_read:
  assumes "d_fds d (f_fd fi) = Some (i, False)" and "\<not> d_isdir d i" and "lts_file_write fi buf d = (r, fi', d')"
  shows "r = Inr (length buf) \<and> f_wseek fi' = f_wseek fi + length buf \<and>
    fst (lts_file_read (lts_file_rseek fi' (f_wseek fi)) (length buf) d') = Inr buf"
  using assms by (auto simp: lts_file_write_def sys_pwrite_def lts_file_read_def lts_file_rseek_def sys_pread_def overwrite_def)

text \<open>Opening a name exclusively succeeds only when nothing has that name.\<close>

lemma open_exclusive:
  assumes "sys_open fl name d = (Inr f, d')" and "o_creat fl" and "o_excl fl"
  shows "d_dir d name = None \<and> file_of name d' = Some [] \<and> d_fds d' f = Some (d_inode d, o_append fl) \<and> d_dir d' name = Some (d_inode d)"
  using assms by (auto simp: sys_open_def new_fd_def file_of_def Let_def split: option.splits if_splits)

section \<open>What the calls keep\<close>

text \<open>The numbers that are given out next are new, and no inode has two names.\<close>

definition disk_ok :: "disk \<Rightarrow> bool" where
  "disk_ok d \<longleftrightarrow> (\<forall>n i. d_dir d n = Some i \<longrightarrow> i < d_inode d) \<and> (\<forall>n m i. d_dir d n = Some i \<longrightarrow> d_dir d m = Some i \<longrightarrow> n = m) \<and>
     (\<forall>f. d_fd d \<le> f \<longrightarrow> d_fds d f = None)"

text \<open>What opening or creating a file asks of its name.\<close>

definition openable :: "bstr \<Rightarrow> disk \<Rightarrow> bool" where
  "openable name d \<longleftrightarrow> d_access d name \<and> d_parent d name \<and> (\<forall>i. d_dir d name = Some i \<longrightarrow> \<not> d_isdir d i)"

lemma open_keeps:
  assumes "sys_open fl name d = (r, d')" and "disk_ok d"
  shows "disk_ok d'" and "n \<noteq> name \<Longrightarrow> d_dir d' n = d_dir d n" and "n \<noteq> name \<Longrightarrow> file_of n d' = file_of n d"
    and "d_dir d name = Some i \<Longrightarrow> d_dir d' name = Some i \<and> file_of name d' = file_of name d"
    and "d_fds d f = Some x \<Longrightarrow> d_fds d' f = Some x" and "d_access d' = d_access d" and "d_parent d' = d_parent d"
    and "r = Inl err \<Longrightarrow> d' = d"
    and "r = Inr f \<Longrightarrow> \<exists>i. d_dir d' name = Some i \<and> d_fds d' f = Some (i, o_append fl)"
    and "o_creat fl \<Longrightarrow> openable name d \<Longrightarrow> \<not> o_excl fl \<or> d_dir d name = None \<Longrightarrow> \<exists>f. r = Inr f"
proof -
  note f = sys_open_def new_fd_def file_of_def disk_ok_def Let_def
  show "disk_ok d'" using assms by (auto simp: f less_Suc_eq split: option.splits if_splits) fastforce+
  show "n \<noteq> name \<Longrightarrow> d_dir d' n = d_dir d n" using assms(1) by (auto simp: f split: option.splits if_splits)
  have "d_dir d n \<noteq> Some (d_inode d)" using assms(2) by (auto simp: disk_ok_def)
  then show "n \<noteq> name \<Longrightarrow> file_of n d' = file_of n d"
    using assms(1) by (cases "d_dir d n") (auto simp: f split: option.splits if_splits)
  show "d_dir d name = Some i \<Longrightarrow> d_dir d' name = Some i \<and> file_of name d' = file_of name d"
    using assms(1) by (auto simp: f split: option.splits if_splits)
  show "d_fds d f = Some x \<Longrightarrow> d_fds d' f = Some x" for f x
    using assms by (cases "f = d_fd d") (auto simp: f split: option.splits if_splits)
  show "d_access d' = d_access d" "d_parent d' = d_parent d" "r = Inl err \<Longrightarrow> d' = d"
    using assms(1) by (auto simp: f split: option.splits if_splits)
  show "r = Inr f \<Longrightarrow> \<exists>i. d_dir d' name = Some i \<and> d_fds d' f = Some (i, o_append fl)" for f
    using assms(1) by (auto simp: f split: option.splits if_splits)
  show "o_creat fl \<Longrightarrow> openable name d \<Longrightarrow> \<not> o_excl fl \<or> d_dir d name = None \<Longrightarrow> \<exists>f. r = Inr f"
    using assms(1) by (auto simp: f openable_def split: option.splits if_splits)
qed

text \<open>A write changes the file behind the descriptor and no other.\<close>

lemma pwrite_keeps:
  assumes "d_fds d f = Some (i, app)" and "disk_ok d" and "d_dir d name = Some i"
  shows "\<exists>x. sys_pwrite f data ofst d = (Inr (length data), d\<lparr> d_data := (d_data d)(i := x) \<rparr>) \<and>
      disk_ok (d\<lparr> d_data := (d_data d)(i := x) \<rparr>) \<and> (\<forall>n. n \<noteq> name \<longrightarrow> file_of n (d\<lparr> d_data := (d_data d)(i := x) \<rparr>) = file_of n d) \<and>
      x = (if app then d_data d i @ data else overwrite ofst data (d_data d i))"
  using assms by (auto simp: sys_pwrite_def disk_ok_def file_of_def map_option_case split: option.splits)

end
