(* ===== verification/Logger.thy ===== *)
theory Logger
  imports AdvNumber
begin

text \<open>
  \<open>src/logger.c\<close>: a log line is formatted into 4096 bytes on the stack and written in one piece.

  The message is the text the arguments format to.  \<open>snprintf\<close> and \<open>vsnprintf\<close> store what fits and return
  the length of the whole text; the code takes the sum of the two lengths as the size of the line.
\<close>

section \<open>Time\<close>

definition leap_year :: "nat \<Rightarrow> bool" where
  "leap_year y \<longleftrightarrow> 4 dvd y \<and> (\<not> 100 dvd y \<or> 400 dvd y)"

definition month_days :: "nat \<Rightarrow> nat list" where
  "month_days y = [31, if leap_year y then 29 else 28, 31, 30, 31, 30, 31, 31, 30, 31, 30, 31]"

definition year_days :: "nat \<Rightarrow> nat" where
  "year_days y = (if leap_year y then 366 else 365)"

record tm =
  tm_year :: nat
  tm_mon :: nat
  tm_mday :: nat
  tm_hour :: nat
  tm_min :: nat
  tm_sec :: nat

text \<open>The year and the month of a day, counted from the first of January of a year.\<close>

function split_year :: "nat \<Rightarrow> nat \<Rightarrow> nat \<times> nat" where
  "split_year y d = (if d < year_days y then (y, d) else split_year (Suc y) (d - year_days y))"
  by auto
termination by (relation "measure snd") (auto simp: year_days_def)

declare split_year.simps [simp del]

fun split_month :: "nat list \<Rightarrow> nat \<Rightarrow> nat \<Rightarrow> nat \<times> nat" where
  "split_month [] m d = (m, d)"
| "split_month (l # ls) m d = (if d < l then (m, d) else split_month ls (Suc m) (d - l))"

text \<open>\<open>gmtime_r\<close> of a time since 1970.\<close>

definition gmtime :: "nat \<Rightarrow> tm" where
  "gmtime t = (let (y, yd) = split_year 1970 (t div 86400); (m, md) = split_month (month_days y) 0 yd; s = t mod 86400
     in \<lparr> tm_year = y - 1900, tm_mon = m, tm_mday = md + 1, tm_hour = s div 3600, tm_min = s mod 3600 div 60, tm_sec = s mod 60 \<rparr>)"

section \<open>Formatting\<close>

abbreviation LOG_BUF :: nat where "LOG_BUF \<equiv> 4096"

definition snprintf :: "byte list \<Rightarrow> nat \<Rightarrow> nat \<Rightarrow> bstr \<Rightarrow> (nat \<times> byte list) option" where
  "snprintf buf ofst n txt =
     (if n = 0 then Some (length txt, buf)
      else do { buf \<leftarrow> wrn buf (int ofst) (take (n - 1) txt @ [0]); Some (length txt, buf) })"

text \<open>\<open>%02d\<close>\<close>

definition dec02 :: "nat \<Rightarrow> bstr" where
  "dec02 n = (if n < 10 then c_zero # dec n else dec n)"

definition LTS_LOG_PREFIXES :: "nat \<Rightarrow> bstr option" where
  "LTS_LOG_PREFIXES level = (case level of
     Suc 0 \<Rightarrow> Some (lit ''DEBUG'') | Suc (Suc 0) \<Rightarrow> Some (lit ''INFO'') | Suc (Suc (Suc 0)) \<Rightarrow> Some (lit ''NOTICE'')
   | Suc (Suc (Suc (Suc 0))) \<Rightarrow> Some (lit ''WARN'') | Suc (Suc (Suc (Suc (Suc 0)))) \<Rightarrow> Some (lit ''ERROR'')
   | Suc (Suc (Suc (Suc (Suc (Suc 0))))) \<Rightarrow> Some (lit ''CRIT'') | Suc (Suc (Suc (Suc (Suc (Suc (Suc 0)))))) \<Rightarrow> Some (lit ''ALERT'')
   | Suc (Suc (Suc (Suc (Suc (Suc (Suc (Suc 0))))))) \<Rightarrow> Some (lit ''EMERGE'') | _ \<Rightarrow> None)"

definition log_prefix :: "tm \<Rightarrow> int \<Rightarrow> bstr \<Rightarrow> bstr" where
  "log_prefix t pid level =
     dec (1900 + tm_year t) @ lit ''.'' @ dec02 (1 + tm_mon t) @ lit ''.'' @ dec02 (tm_mday t) @ lit '' '' @
     dec02 (tm_hour t) @ lit '':'' @ dec02 (tm_min t) @ lit '':'' @ dec02 (tm_sec t) @ lit '' ['' @ sdec pid @ lit ''] ['' @ level @ lit ''] ''"

text \<open>\<open>write\<close> of the line: the number of bytes it reports or \<open>None\<close> for -1, which is \<open>abort()\<close>.\<close>

definition lts_write_logger_fd :: "(bstr \<Rightarrow> nat option) \<Rightarrow> bstr \<Rightarrow> (int \<times> bstr) option" where
  "lts_write_logger_fd sys_write buf = (case sys_write buf of None \<Rightarrow> None | Some n \<Rightarrow> Some (int n, buf))"

text \<open>The result and the bytes handed to \<open>write\<close>; \<open>now\<close> is \<open>lts_current_time\<close>, \<open>junk\<close> what the stack holds.\<close>

definition lts_write_logger ::
  "(bstr \<Rightarrow> nat option) \<Rightarrow> (nat \<Rightarrow> byte) \<Rightarrow> nat \<Rightarrow> int \<Rightarrow> nat \<Rightarrow> nat \<Rightarrow> bstr \<Rightarrow> (int \<times> bstr) option" where
  "lts_write_logger sys_write junk now lts_pid log_level level msg =
     (if level < log_level then Some (0, [])
      else do {
        let buf = map junk [0..<LOG_BUF];
        prefix \<leftarrow> LTS_LOG_PREFIXES level;
        (len, buf) \<leftarrow> snprintf buf 0 LOG_BUF (log_prefix (gmtime (now div 10)) lts_pid prefix);
        if LOG_BUF < len then None
        else do {
          (mlen, buf) \<leftarrow> snprintf buf len (LOG_BUF - len) msg;
          if mlen > 0 then do { line \<leftarrow> rdn buf 0 (int (len + mlen)); lts_write_logger_fd sys_write line }
          else Some (-1, []) } })"

section \<open>The calendar\<close>

definition days_before :: "nat \<Rightarrow> nat" where
  "days_before y = (\<Sum>i\<in>{1970..<y}. year_days i)"

lemma split_year_correct:
  assumes "split_year y d = (y', d')" and "1970 \<le> y"
  shows "y \<le> y' \<and> d' < year_days y' \<and> days_before y' + d' = days_before y + d"
  using assms
proof (induction y d rule: split_year.induct)
  case (1 y d)
  show ?case
  proof (cases "d < year_days y")
    case True
    then show ?thesis using 1(2) by (simp add: split_year.simps [of y d])
  next
    case False
    then have "split_year (Suc y) (d - year_days y) = (y', d')" using 1(2) by (simp add: split_year.simps [of y d])
    with 1(1) [OF False] 1(3) have "Suc y \<le> y' \<and> d' < year_days y' \<and> days_before y' + d' = days_before (Suc y) + (d - year_days y)" by simp
    moreover have "days_before (Suc y) = days_before y + year_days y" using 1(3) by (simp add: days_before_def)
    ultimately show ?thesis using False by simp
  qed
qed

lemma split_month_correct:
  "split_month ls m d = (m', d') \<Longrightarrow> d < sum_list ls \<Longrightarrow>
   m \<le> m' \<and> m' < m + length ls \<and> d' < ls ! (m' - m) \<and> sum_list (take (m' - m) ls) + d' = d"
proof (induction ls arbitrary: m d)
  case (Cons l ls)
  show ?case
  proof (cases "d < l")
    case False
    then have "split_month ls (Suc m) (d - l) = (m', d')" "d - l < sum_list ls" using Cons.prems by auto
    from Cons.IH [OF this] have I: "Suc m \<le> m'" "m' < Suc m + length ls" "d' < ls ! (m' - Suc m)"
      "sum_list (take (m' - Suc m) ls) + d' = d - l" by auto
    then have "m' - m = Suc (m' - Suc m)" by simp
    then show ?thesis using I False by simp
  qed (use Cons.prems in auto)
qed simp

lemma sum_month_days: "sum_list (month_days y) = year_days y"
  by (simp add: month_days_def year_days_def)

text \<open>\<open>gmtime\<close> names the day with that number, and a time of that day.\<close>

lemma gmtime_correct:
  assumes "t = gmtime n"
  shows "tm_mon t < 12" "1 \<le> tm_mday t" "tm_mday t \<le> month_days (1900 + tm_year t) ! tm_mon t"
    "tm_hour t < 24" "tm_min t < 60" "tm_sec t < 60"
    "86400 * (days_before (1900 + tm_year t) + sum_list (take (tm_mon t) (month_days (1900 + tm_year t))) + tm_mday t - 1) +
       3600 * tm_hour t + 60 * tm_min t + tm_sec t = n"
proof -
  obtain y yd where y: "split_year 1970 (n div 86400) = (y, yd)" by (cases "split_year 1970 (n div 86400)")
  obtain m md where m: "split_month (month_days y) 0 yd = (m, md)" by (cases "split_month (month_days y) 0 yd")
  have Y: "1970 \<le> y" "yd < year_days y" "days_before y + yd = n div 86400"
    using split_year_correct [OF y] by (auto simp: days_before_def)
  have M: "m < length (month_days y)" "md < month_days y ! m" "sum_list (take m (month_days y)) + md = yd"
    using split_month_correct [OF m] Y(2) by (simp_all add: sum_month_days)
  have t: "t = \<lparr> tm_year = y - 1900, tm_mon = m, tm_mday = md + 1, tm_hour = n mod 86400 div 3600,
      tm_min = n mod 86400 mod 3600 div 60, tm_sec = n mod 86400 mod 60 \<rparr>"
    using assms y m by (simp add: gmtime_def Let_def)
  have y': "1900 + tm_year t = y" using Y(1) t by simp
  show "tm_mon t < 12" using M(1) t by (simp add: month_days_def)
  show "1 \<le> tm_mday t" using t by simp
  show "tm_mday t \<le> month_days (1900 + tm_year t) ! tm_mon t" using M(2) unfolding y' by (simp add: t)
  show "tm_hour t < 24" "tm_min t < 60" "tm_sec t < 60" by (auto simp: t less_mult_imp_div_less)
  have s: "3600 * (k div 3600) + 60 * (k mod 3600 div 60) + k mod 60 = k" for k :: nat
  proof -
    have "k mod 60 = k mod 3600 mod 60" by (simp add: mod_mod_cancel)
    then show ?thesis using div_mult_mod_eq [of k 3600] div_mult_mod_eq [of "k mod 3600" 60] by linarith
  qed
  have e: "days_before y + sum_list (take m (month_days y)) + (md + 1) - 1 = n div 86400" using M(3) Y(3) by simp
  show "86400 * (days_before (1900 + tm_year t) + sum_list (take (tm_mon t) (month_days (1900 + tm_year t))) + tm_mday t - 1) +
       3600 * tm_hour t + 60 * tm_min t + tm_sec t = n"
    unfolding y' using s [of "n mod 86400"] mult_div_mod_eq [of 86400 n] by (simp only: t tm.select_convs e)
qed

section \<open>The line that is written\<close>

lemma snprintf_correct:
  assumes "ofst + n = length buf" and "0 < n"
  shows "snprintf buf ofst n txt = Some (length txt, take ofst buf @ take (n - 1) txt @ 0 # drop (ofst + min (n - 1) (length txt) + 1) buf)"
  using assms by (auto simp: snprintf_def wrn_def min_def)

lemma log_line_correct:
  assumes "log_level \<le> level" and "LTS_LOG_PREFIXES level = Some name" and "msg \<noteq> []"
    and "pre = log_prefix (gmtime (now div 10)) lts_pid name" and "length pre < LOG_BUF"
  shows "lts_write_logger os junk now lts_pid log_level level msg =
    (if length pre + length msg < LOG_BUF then lts_write_logger_fd os (pre @ msg)
     else if length pre + length msg = LOG_BUF then lts_write_logger_fd os (pre @ butlast msg @ [0])
     else None)"
proof -
  let ?b0 = "map junk [0..<LOG_BUF]" and ?n = "LOG_BUF - length pre"
  obtain R where R: "snprintf ?b0 0 LOG_BUF pre = Some (length pre, pre @ R)" "length (pre @ R) = LOG_BUF"
    using snprintf_correct [of 0 LOG_BUF ?b0 pre] assms(5) by (auto simp: min_def simp del: upt_Suc upt_rec_numeral)
  let ?m = "take (?n - 1) msg"
  let ?b = "pre @ ?m @ 0 # drop (length pre + min (?n - 1) (length msg) + 1) (pre @ R)"
  have m: "snprintf (pre @ R) (length pre) ?n msg = Some (length msg, ?b)"
    using snprintf_correct [of "length pre" ?n "pre @ R" msg] R(2) assms(5) by (simp add: min_def)
  have r: "rdn ?b 0 (int (length pre + length msg)) = (if length pre + length msg < LOG_BUF then Some (pre @ msg)
     else if length pre + length msg = LOG_BUF then Some (pre @ butlast msg @ [0]) else None)"
  proof -
    consider "length pre + length msg < LOG_BUF" | "length pre + length msg = LOG_BUF" | "LOG_BUF < length pre + length msg" by linarith
    then show ?thesis
    proof cases
      case 1
      then show ?thesis using assms(5) R(2) by (simp add: rdn_def)
    next
      case 2
      then have "?n - 1 = length msg - 1" "msg \<noteq> []" using assms(3) by auto
      then have "?m = butlast msg" by (simp add: butlast_conv_take)
      then have B: "?b = pre @ butlast msg @ [0]" using 2 R(2) by simp
      have "length (pre @ butlast msg @ [0]) = length pre + length msg" using assms(3) by (simp add: Suc_pred)
      then show ?thesis unfolding B using 2 by (simp add: rdn_def)
    next
      case 3
      then have "length ?b = LOG_BUF" using R(2) assms(5) by simp
      then show ?thesis using 3 by (simp add: rdn_def)
    qed
  qed
  have "lts_write_logger os junk now lts_pid log_level level msg =
      do { line \<leftarrow> rdn ?b 0 (int (length pre + length msg)); lts_write_logger_fd os line }"
    using assms(1,2,3,5) R(1) m by (simp add: lts_write_logger_def assms(4) [symmetric] del: upt_Suc upt_rec_numeral)
  then show ?thesis unfolding r by simp
qed

text \<open>The prefix is short: a year of four digits, a pid of at most seven and the longest level.\<close>

text \<open>C39. A log line of less than 4096 bytes is written as it is.  With exactly 4096 bytes its last character is the
  NUL of \<open>vsnprintf\<close>; a longer one makes \<open>write\<close> read behind the buffer on the stack, because the code takes
  the length the text would have for the length of what was stored.\<close>

theorem log_line_bounds:
  assumes "log_level \<le> level" and "LTS_LOG_PREFIXES level = Some name" and "msg \<noteq> []"
    and "pre = log_prefix (gmtime (now div 10)) lts_pid name" and "length pre < LOG_BUF"
  shows "lts_write_logger os junk now lts_pid log_level level msg =
    (if length pre + length msg < LOG_BUF then lts_write_logger_fd os (pre @ msg)
     else if length pre + length msg = LOG_BUF then lts_write_logger_fd os (pre @ butlast msg @ [0])
     else None)"
  by (rule log_line_correct [OF assms])

definition sample_prefix :: bstr where
  "sample_prefix = lit ''2024.06.14 01:01:01 [42] [WARN] ''"

lemma sample_time: "gmtime 1718326861 = \<lparr> tm_year = 124, tm_mon = 5, tm_mday = 14, tm_hour = 1, tm_min = 1, tm_sec = 1 \<rparr>"
  by (simp add: gmtime_def split_year.simps year_days_def leap_year_def month_days_def)

lemma sample_prefix_eq: "sample_prefix = log_prefix (gmtime (17183268612 div 10)) 42 (lit ''WARN'')"
  by (simp add: sample_time sample_prefix_def log_prefix_def dec02_def dec_def sdec_def rdec_pos lit_def)

theorem log_line_bounds_witness:
  "lts_write_logger (\<lambda>b. Some (length b)) (\<lambda>_. 7) 17183268612 42 1 4 (lit ''down'') = Some (36, sample_prefix @ lit ''down'') \<and>
   lts_write_logger (\<lambda>b. Some (length b)) (\<lambda>_. 7) 17183268612 42 1 4 (replicate 4096 0x41) = None"
proof -
  have l: "length sample_prefix = 32" by code_simp
  have p: "LTS_LOG_PREFIXES 4 = Some (lit ''WARN'')" by code_simp
  have "length sample_prefix < LOG_BUF" using l by simp
  from log_line_bounds [OF _ p _ sample_prefix_eq this, where log_level = 1 and os = "\<lambda>b. Some (length b)" and junk = "\<lambda>_. 7"]
  have b: "msg \<noteq> [] \<Longrightarrow> lts_write_logger (\<lambda>b. Some (length b)) (\<lambda>_. 7) 17183268612 42 1 4 msg =
    (if length sample_prefix + length msg < LOG_BUF then lts_write_logger_fd (\<lambda>b. Some (length b)) (sample_prefix @ msg)
     else if length sample_prefix + length msg = LOG_BUF then lts_write_logger_fd (\<lambda>b. Some (length b)) (sample_prefix @ butlast msg @ [0])
     else None)" for msg by simp
  show ?thesis using b [of "lit ''down''"] b [of "replicate 4096 0x41"] l by (simp add: lts_write_logger_fd_def lit_def)
qed

end
