(* ===== verification/CoreModule.thy ===== *)
theory CoreModule
  imports ConfMain FileIO Logger
begin

text \<open>
  \<open>src/modules/mod_core.c\<close>: the start and the end of the master as far as the core module does it: the
  configuration, the log, the daemon, and the pid file that keeps a second server from starting.
\<close>

section \<open>Becoming a daemon\<close>

text \<open>A process goes on with a value or ends with a status.\<close>

datatype proc_end = Returned int | Exited int

text \<open>The answers of \<open>fork\<close>, \<open>setsid\<close>, \<open>chdir\<close>, three times \<open>close\<close>, \<open>open\<close> and three times \<open>dup2\<close>.\<close>

definition daemonize :: "bool \<Rightarrow> (nat \<Rightarrow> int) \<Rightarrow> proc_end" where
  "daemonize wd os =
     (if os 0 = -1 then Returned (-1)
      else if os 0 \<noteq> 0 then Exited 0
      else if os 1 = -1 then Exited 0
      else if wd \<and> os 2 = -1 then Exited 0
      else if os 3 = -1 then Exited 0
      else if os 4 = -1 then Exited 0
      else if os 5 = -1 then Exited 0
      else if os 6 = -1 then Exited 0
      else if os 7 = -1 then Exited 0
      else if os 8 = -1 then Exited 0
      else if os 9 = -1 then Exited 0
      else Returned 0)"

section \<open>State\<close>

abbreviation LTS_MAX_PROCESSES :: nat where "LTS_MAX_PROCESSES \<equiv> 1024"

text \<open>The globals of the module; a process is its parent's and its own pid.\<close>

record core =
  co_pool :: bool
  co_conf :: lts_conf
  co_pid :: int
  co_log :: lts_file
  co_pid_file :: lts_file
  co_processes :: "(int \<times> int) list"
  co_timer_heap :: rbmap

text \<open>What the start finds: whether there is memory for the pool, the configuration file, the memory for the
  name of a file (two requests) and for the text of the pid, the answers of \<open>daemonize\<close>, \<open>getpid\<close>; for the
  log, the time, the stack, and the texts of the locations of the messages.\<close>

record core_env =
  ce_pool :: bool
  ce_junk :: "nat \<Rightarrow> byte"
  ce_conf :: conf_file
  ce_out :: addr
  ce_heap :: jheap
  ce_name_mem :: "bool \<times> bool"
  ce_daemon :: "nat \<Rightarrow> int"
  ce_getpid :: int
  ce_pid_buf :: "byte list option"
  ce_now :: nat
  ce_stack :: "nat \<Rightarrow> byte"
  ce_loc :: "nat \<Rightarrow> bstr"

abbreviation LTS_LOG_INFO :: nat where "LTS_LOG_INFO \<equiv> 2"
abbreviation LTS_LOG_EMERGE :: nat where "LTS_LOG_EMERGE \<equiv> 8"

text \<open>A line to \<open>lts_file_logger\<close>, whose level is \<open>LTS_LOG_DEBUG\<close>.  What goes to the terminal is left out.\<close>

definition core_log :: "core_env \<Rightarrow> core \<Rightarrow> nat \<Rightarrow> bstr \<Rightarrow> disk \<Rightarrow> disk option" where
  "core_log e s level msg d = do {
     (n, line) \<leftarrow> lts_write_logger
       (\<lambda>b. case sys_pwrite (f_fd (co_log s)) b 0 d of (Inl _, _) \<Rightarrow> None | (Inr n, _) \<Rightarrow> Some n)
       (ce_stack e) (ce_now e) (co_pid s) 1 level msg;
     Some (snd (sys_pwrite (f_fd (co_log s)) line 0 d)) }"

definition wd :: bstr where
  "wd = lit ''./''"

definition pid_file_error :: "core_env \<Rightarrow> file_errno \<Rightarrow> bstr \<Rightarrow> bstr" where
  "pid_file_error e err name = (case err of
     EEXIST \<Rightarrow> ce_loc e 1 @ lit '':pid file '' @ wd @ cstr name @ lit '' exists'' @ [c_nl]
   | ENOENT \<Rightarrow> ce_loc e 2 @ lit '':plese ensure the directories where the pid file '' @ wd @ cstr name @ lit '' located exists'' @ [c_nl]
   | EACCES \<Rightarrow> ce_loc e 3 @ lit '':open pid file '' @ wd @ cstr name @ lit '' failed:13'' @ [c_nl]
   | EBADF \<Rightarrow> ce_loc e 3 @ lit '':open pid file '' @ wd @ cstr name @ lit '' failed:9'' @ [c_nl]
   | EISDIR \<Rightarrow> ce_loc e 3 @ lit '':open pid file '' @ wd @ cstr name @ lit '' failed:21'' @ [c_nl])"

section \<open>Start\<close>

definition log_flags :: open_flags where
  "log_flags = \<lparr> o_write = True, o_creat = True, o_excl = False, o_append = True \<rparr>"

definition pid_flags :: open_flags where
  "pid_flags = \<lparr> o_write = True, o_creat = True, o_excl = True, o_append = False \<rparr>"

text \<open>From the pid file on.\<close>

definition init_pid_file :: "core_env \<Rightarrow> core \<Rightarrow> disk \<Rightarrow> (proc_end \<times> core \<times> disk) option" where
  "init_pid_file e s d = do {
     let s = s\<lparr> co_pid := ce_getpid e \<rparr>;
     let s = s\<lparr> co_pid_file := (co_pid_file s)\<lparr> f_name := lts_str_init (s_data (mc_pid_file (co_conf s))) (s_len (mc_pid_file (co_conf s))) \<rparr> \<rparr>;
     (err, pf, d) \<leftarrow> lts_file_open (snd (ce_name_mem e)) pid_flags (co_pid_file s) d;
     let s = s\<lparr> co_pid_file := pf \<rparr>;
     case err of
       Some err \<Rightarrow> do { d \<leftarrow> core_log e s LTS_LOG_EMERGE (pid_file_error e err (s_data (f_name pf))) d; Some (Returned (-1), s, d) }
     | None \<Rightarrow> do {
         buf \<leftarrow> ce_pid_buf e;
         (r, strpid) \<leftarrow> lts_l2str \<lparr> s_data = buf, s_len = 32 \<rparr> (co_pid s);
         txt \<leftarrow> rdn (s_data strpid) 0 (int (s_len strpid));
         let (r, pf, d) = lts_file_write pf txt d;
         Some (Returned 0, s\<lparr> co_pid_file := pf, co_processes := replicate LTS_MAX_PROCESSES (-1, -1),
           co_timer_heap := lts_rbmap_entity (rb_mem (rm_tree (co_timer_heap s))) (rm_key (co_timer_heap s)) \<rparr>, d) } }"

definition init_core_master :: "core_env \<Rightarrow> core \<Rightarrow> disk \<Rightarrow> (proc_end \<times> core \<times> disk) option" where
  "init_core_master e s d =
     (if \<not> ce_pool e then Some (Returned (-1), s, d)
      else do {
        let s = s\<lparr> co_pool := True \<rparr>;
        (r, conf, h) \<leftarrow> load_main_config (ce_junk e) (ce_conf e) (ce_out e) (co_conf s) (ce_heap e);
        let s = s\<lparr> co_conf := conf \<rparr>;
        let s = s\<lparr> co_log := (co_log s)\<lparr> f_name := lts_str_init (s_data (mc_log_file conf)) (s_len (mc_log_file conf)) \<rparr> \<rparr>;
        (err, lf, d) \<leftarrow> lts_file_open (fst (ce_name_mem e)) log_flags (co_log s) d;
        let s = s\<lparr> co_log := lf \<rparr>;
        if err \<noteq> None then Some (Returned (-1), s, d)
        else if mc_daemon conf \<noteq> 0 then
          (case daemonize True (ce_daemon e) of
             Exited c \<Rightarrow> Some (Exited c, s, d)
           | Returned r \<Rightarrow>
               if r = -1 then do { d \<leftarrow> core_log e s LTS_LOG_INFO (ce_loc e 0 @ lit '':fall into daemon failed'' @ [c_nl]) d; Some (Returned (-1), s, d) }
               else init_pid_file e s d)
        else init_pid_file e s d })"

section \<open>End\<close>

text \<open>A failed \<open>unlink\<close> is logged; \<open>errno\<close> is that of a missing name.\<close>

definition exit_core_master :: "core_env \<Rightarrow> core \<Rightarrow> disk \<Rightarrow> (core \<times> disk) option" where
  "exit_core_master e s d = do {
     let (r, d) = sys_unlink (cstr (s_data (mc_pid_file (co_conf s)))) d;
     d \<leftarrow> (if r = -1 then core_log e s 5 (ce_loc e 4 @ lit '':delete pid file failed:2'' @ [c_nl]) d else Some d);
     let d = lts_file_close (co_log s) d;
     Some (s\<lparr> co_pool := False \<rparr>, d) }"

section \<open>Facts\<close>

lemma str_init_same [simp]: "lts_str_init (s_data s) (s_len s) = s"
  by (simp add: lts_str_init_def)

text \<open>The name the operating system gets for a path.\<close>

definition name_of :: "lts_str \<Rightarrow> bstr" where
  "name_of s = cstr (chars s @ [0])"

lemma name_of_data: "path_str_ok s \<Longrightarrow> cstr (s_data s) = name_of s"
proof -
  assume p: "path_str_ok s"
  then have "s_data s = chars s @ 0 # drop (Suc (s_len s)) (s_data s)"
    unfolding path_str_ok_def chars_def by (metis id_take_nth_drop)
  then show ?thesis unfolding name_of_def by (metis cstr_item)
qed

lemma file_open_correct:
  assumes "path_str_ok (f_name fi)" and "sys_open fl (name_of (f_name fi)) d = (r, d')"
  shows "lts_file_open True fl fi d = Some (case r of Inl err \<Rightarrow> (Some err, fi\<lparr> f_fd := -1 \<rparr>, d')
    | Inr f \<Rightarrow> (None, fi\<lparr> f_fd := f, f_rseek := 0 \<rparr>, d'))"
  using assms by (simp add: lts_file_open_def rdn_def path_str_ok_def name_of_def chars_def split: sum.splits)

definition log_len :: "core_env \<Rightarrow> core \<Rightarrow> nat" where
  "log_len e s = length (log_prefix (gmtime (ce_now e div 10)) (co_pid s) (lit ''EMERGE''))"

lemma core_log_correct:
  assumes "d_fds d (f_fd (co_log s)) = Some (i, True)" and "d_dir d name = Some i" and "disk_ok d"
    and "level \<in> {2, 5, 8}" and "msg \<noteq> []" and "log_len e s + length msg < LOG_BUF"
  shows "\<exists>d'. core_log e s level msg d = Some d' \<and> disk_ok d' \<and> d_dir d' = d_dir d \<and> (\<forall>n. n \<noteq> name \<longrightarrow> file_of n d' = file_of n d)"
proof -
  let ?w = "\<lambda>b. case sys_pwrite (f_fd (co_log s)) b 0 d of (Inl _, _) \<Rightarrow> None | (Inr n, _) \<Rightarrow> Some n"
  obtain nm where nm: "LTS_LOG_PREFIXES level = Some nm" "length nm \<le> 6"
    using assms(4) by (auto simp: LTS_LOG_PREFIXES_def numeral_eq_Suc lit_def)
  let ?pre = "log_prefix (gmtime (ce_now e div 10)) (co_pid s) nm"
  have "length ?pre \<le> log_len e s" using nm(2) by (simp add: log_len_def log_prefix_def lit_def)
  then have l: "length ?pre < LOG_BUF" "length ?pre + length msg < LOG_BUF" using assms(6) by simp_all
  have "1 \<le> level" using assms(4) by auto
  from log_line_correct [OF this nm(1) assms(5) refl l(1), of ?w "ce_stack e"] l(2)
  have 1: "lts_write_logger ?w (ce_stack e) (ce_now e) (co_pid s) 1 level msg = lts_write_logger_fd ?w (?pre @ msg)" by simp
  obtain x where x: "sys_pwrite (f_fd (co_log s)) (?pre @ msg) 0 d = (Inr (length (?pre @ msg)), d\<lparr> d_data := (d_data d)(i := x) \<rparr>)"
      "disk_ok (d\<lparr> d_data := (d_data d)(i := x) \<rparr>)" "\<forall>n. n \<noteq> name \<longrightarrow> file_of n (d\<lparr> d_data := (d_data d)(i := x) \<rparr>) = file_of n d"
    using pwrite_keeps [OF assms(1,3,2), of "?pre @ msg" 0] by blast
  have "core_log e s level msg d = Some (d\<lparr> d_data := (d_data d)(i := x) \<rparr>)"
    unfolding core_log_def 1 by (simp add: lts_write_logger_fd_def x(1) del: append_assoc)
  then show ?thesis using x(2,3) by simp
qed

text \<open>Memory for the name and the text of the pid, a pid of the machine, and short texts for the log.\<close>

definition env_ok :: "core_env \<Rightarrow> core \<Rightarrow> bool" where
  "env_ok e s \<longleftrightarrow> ce_pool e \<and> ce_name_mem e = (True, True) \<and> (\<exists>buf. ce_pid_buf e = Some buf \<and> length buf = 32) \<and>
     0 < ce_getpid e \<and> ce_getpid e < 2 ^ 31 \<and> f_wseek (co_pid_file s) = 0 \<and> (\<forall>k. length (ce_loc e k) \<le> 100) \<and>
     log_len e s \<le> 100 \<and> log_len e (s\<lparr> co_pid := ce_getpid e \<rparr>) \<le> 100"

lemma pid_text:
  assumes "0 < p" and "p < 2 ^ 31" and "length buf = 32"
  shows "\<exists>str. lts_l2str \<lparr> s_data = buf, s_len = 32 \<rparr> p = Some (0, str) \<and> rdn (s_data str) 0 (int (s_len str)) = Some (sdec p)"
proof -
  have "length (sdec p) \<le> 10" using rdec_length [of "nat p" 10] assms(1,2) by (simp add: sdec_def dec_def)
  then show ?thesis using lts_l2str_correct [of p "\<lparr> s_data = buf, s_len = 32 \<rparr>"] assms by (simp add: rdn_def)
qed

lemma pid_file_error_length:
  assumes "\<And>k. length (ce_loc e k) \<le> 100" and "length (cstr nm) \<le> 3000"
  shows "pid_file_error e err nm \<noteq> [] \<and> length (pid_file_error e err nm) \<le> 3500"
proof -
  have "length (ce_loc e k) + length (cstr nm) \<le> 3100" for k using assms(1) [of k] assms(2) by linarith
  note this [of 1] this [of 2] this [of 3]
  then show ?thesis by (cases err) (simp_all add: pid_file_error_def wd_def lit_def)
qed

lemma init_pid_file_correct:
  assumes "path_str_ok (mc_pid_file (co_conf s))" and "name = name_of (mc_pid_file (co_conf s))" and "length name \<le> 3000" and "env_ok e s"
    and "disk_ok d" and "d_fds d (f_fd (co_log s)) = Some (i, True)" and "d_dir d logn = Some i"
  shows "\<exists>p s' d'. init_pid_file e s d = Some (p, s', d') \<and> disk_ok d' \<and> (\<forall>n. n \<noteq> name \<longrightarrow> n \<noteq> logn \<longrightarrow> file_of n d' = file_of n d) \<and>
    (p = Returned 0 \<and> d_dir d name = None \<and> file_of name d' = Some (sdec (ce_getpid e)) \<and> co_conf s' = co_conf s \<or>
     p = Returned (-1) \<and> (file_of name d \<noteq> None \<longrightarrow> name \<noteq> logn \<longrightarrow> file_of name d' = file_of name d) \<and>
       \<not> (d_dir d name = None \<and> openable name d))"
proof -
  obtain buf where E: "ce_name_mem e = (True, True)" "ce_pid_buf e = Some buf" "length buf = 32" "0 < ce_getpid e" "ce_getpid e < 2 ^ 31"
      "f_wseek (co_pid_file s) = 0" "\<And>k. length (ce_loc e k) \<le> 100" "log_len e (s\<lparr> co_pid := ce_getpid e \<rparr>) \<le> 100"
    using assms(4) by (auto simp: env_ok_def)
  obtain r d1 where o: "sys_open pid_flags name d = (r, d1)" by (cases "sys_open pid_flags name d")
  let ?s = "s\<lparr> co_pid := ce_getpid e, co_pid_file := (co_pid_file s)\<lparr> f_name := mc_pid_file (co_conf s) \<rparr> \<rparr>"
  note K = open_keeps [OF o assms(5)]
  note fo = file_open_correct [of "co_pid_file ?s" pid_flags d r d1, simplified, OF assms(1) o [unfolded assms(2)]]
  show ?thesis
  proof (cases r)
    case (Inl err)
    let ?s1 = "?s\<lparr> co_pid_file := (co_pid_file ?s)\<lparr> f_fd := -1 \<rparr> \<rparr>"
    let ?m = "pid_file_error e err (s_data (mc_pid_file (co_conf s)))"
    have "length (cstr (s_data (mc_pid_file (co_conf s)))) \<le> 3000" using name_of_data [OF assms(1)] assms(2,3) by simp
    from pid_file_error_length [OF E(7) this]
    have m: "?m \<noteq> []" "log_len e ?s1 + length ?m < LOG_BUF" using E(8) add_le_mono [of "log_len e ?s1" 100 "length ?m" 3500] by (auto simp: log_len_def)
    have d1: "d1 = d" using K(8) Inl by simp
    obtain d2 where d2: "core_log e ?s1 8 ?m d = Some d2" "disk_ok d2" "\<forall>n. n \<noteq> logn \<longrightarrow> file_of n d2 = file_of n d"
      using core_log_correct [of d ?s1 i logn 8 ?m e] assms(5-7) m by auto
    have "init_pid_file e s d = Some (Returned (-1), ?s1, d2)"
      using fo E(1) Inl d1 d2(1) by (simp add: init_pid_file_def Let_def)
    moreover have "\<not> (d_dir d name = None \<and> openable name d)"
      using K(10) Inl by (auto simp: pid_flags_def)
    ultimately show ?thesis using d2(2,3) by auto
  next
    case (Inr f)
    have N: "d_dir d name = None" and D: "d_fds d1 f = Some (d_inode d, False)" "d_dir d1 name = Some (d_inode d)" "file_of name d1 = Some []"
      using open_exclusive [of pid_flags name d f d1] o Inr by (auto simp: pid_flags_def)
    let ?pf = "(co_pid_file ?s)\<lparr> f_fd := f, f_rseek := 0 \<rparr>"
    obtain str where str: "lts_l2str \<lparr> s_data = buf, s_len = 32 \<rparr> (ce_getpid e) = Some (0, str)"
        "rdn (s_data str) 0 (int (s_len str)) = Some (sdec (ce_getpid e))"
      using pid_text [OF E(4,5,3)] by auto
    let ?t = "sdec (ce_getpid e)"
    obtain x where x: "sys_pwrite f ?t 0 d1 = (Inr (length ?t), d1\<lparr> d_data := (d_data d1)(d_inode d := x) \<rparr>)"
        "disk_ok (d1\<lparr> d_data := (d_data d1)(d_inode d := x) \<rparr>)" "x = overwrite 0 ?t (d_data d1 (d_inode d))"
        "\<forall>n. n \<noteq> name \<longrightarrow> file_of n (d1\<lparr> d_data := (d_data d1)(d_inode d := x) \<rparr>) = file_of n d1"
      using pwrite_keeps [OF D(1) K(1) D(2), of ?t 0] by auto
    let ?d2 = "d1\<lparr> d_data := (d_data d1)(d_inode d := x) \<rparr>"
    have "x = ?t" using x(3) D(2,3) by (simp add: overwrite_def file_of_def)
    then have F: "file_of name ?d2 = Some ?t" using D(2) by (simp add: file_of_def)
    have "\<exists>s'. init_pid_file e s d = Some (Returned 0, s', ?d2) \<and> co_conf s' = co_conf s"
      using fo E(1,2,6) Inr str x(1) by (simp add: init_pid_file_def Let_def lts_file_write_def)
    then show ?thesis using N F x(2,4) K(3) by auto
  qed
qed

lemma exit_removes_pid_file:
  assumes "path_str_ok (mc_pid_file (co_conf s))" and "file_of (name_of (mc_pid_file (co_conf s))) d \<noteq> None"
  shows "\<exists>s' d'. exit_core_master e s d = Some (s', d') \<and> file_of (name_of (mc_pid_file (co_conf s))) d' = None"
  using assms by (auto simp: exit_core_master_def sys_unlink_def name_of_data file_of_def lts_file_close_def sys_close_def)

text \<open>The start after the log is open.\<close>

definition after_log :: "core_env \<Rightarrow> core \<Rightarrow> disk \<Rightarrow> (proc_end \<times> core \<times> disk) option" where
  "after_log e s d =
     (if mc_daemon (co_conf s) \<noteq> 0 then
        (case daemonize True (ce_daemon e) of
           Exited c \<Rightarrow> Some (Exited c, s, d)
         | Returned r \<Rightarrow>
             if r = -1 then do { d \<leftarrow> core_log e s LTS_LOG_INFO (ce_loc e 0 @ lit '':fall into daemon failed'' @ [c_nl]) d; Some (Returned (-1), s, d) }
             else init_pid_file e s d)
      else init_pid_file e s d)"

lemma daemonize_cases: "daemonize b os \<in> {Returned (-1), Exited 0, Returned 0}"
  by (simp add: daemonize_def)

definition start_ok :: "core_env \<Rightarrow> bstr \<Rightarrow> bstr \<Rightarrow> disk \<Rightarrow> proc_end \<Rightarrow> core \<Rightarrow> disk \<Rightarrow> bool" where
  "start_ok e name logn d p s' d' \<longleftrightarrow>
     (p = Returned 0 \<longrightarrow> d_dir d name = None \<and> file_of name d' = Some (sdec (ce_getpid e)) \<and>
        (\<exists>s'' d''. exit_core_master e s' d' = Some (s'', d'') \<and> file_of name d'' = None)) \<and>
     (file_of name d \<noteq> None \<longrightarrow> name \<noteq> logn \<longrightarrow> file_of name d' = file_of name d) \<and>
     (\<forall>n. n \<noteq> name \<longrightarrow> n \<noteq> logn \<longrightarrow> file_of n d' = file_of n d)"

lemma after_log_correct:
  assumes "path_str_ok (mc_pid_file (co_conf s))" and "name = name_of (mc_pid_file (co_conf s))" and "length name \<le> 3000" and "env_ok e s"
    and "disk_ok d" and "d_fds d (f_fd (co_log s)) = Some (i, True)" and "d_dir d logn = Some i"
  shows "\<exists>p s' d'. after_log e s d = Some (p, s', d') \<and> start_ok e name logn d p s' d' \<and>
    ((mc_daemon (co_conf s) = 0 \<or> daemonize True (ce_daemon e) = Returned 0) \<longrightarrow> openable name d \<longrightarrow> d_dir d name = None \<longrightarrow> p = Returned 0)"
proof -
  obtain p s' d' where P: "init_pid_file e s d = Some (p, s', d')" "\<forall>n. n \<noteq> name \<longrightarrow> n \<noteq> logn \<longrightarrow> file_of n d' = file_of n d"
    "p = Returned 0 \<and> d_dir d name = None \<and> file_of name d' = Some (sdec (ce_getpid e)) \<and> co_conf s' = co_conf s \<or>
     p = Returned (-1) \<and> (file_of name d \<noteq> None \<longrightarrow> name \<noteq> logn \<longrightarrow> file_of name d' = file_of name d) \<and> \<not> (d_dir d name = None \<and> openable name d)"
    using init_pid_file_correct [OF assms] by auto
  have ok: "start_ok e name logn d p s' d'"
  proof (cases "p = Returned 0")
    case True
    then have "d_dir d name = None" "file_of name d' = Some (sdec (ce_getpid e))" "co_conf s' = co_conf s" using P(3) by auto
    moreover from this have "file_of name d = None" by (simp add: file_of_def)
    ultimately show ?thesis using P(2) exit_removes_pid_file [of s' d' e] assms(1,2) by (auto simp: start_ok_def)
  next
    case False
    then show ?thesis using P(2,3) by (auto simp: start_ok_def)
  qed
  let ?m = "ce_loc e 0 @ lit '':fall into daemon failed'' @ [c_nl]"
  have "length (ce_loc e 0) \<le> 100" "log_len e s \<le> 100" using assms(4) by (auto simp: env_ok_def)
  then have "log_len e s + length ?m < LOG_BUF" by (simp add: lit_def)
  then obtain d2 where l: "core_log e s 2 ?m d = Some d2" "\<forall>n. n \<noteq> logn \<longrightarrow> file_of n d2 = file_of n d"
    using core_log_correct [of d s i logn 2 ?m e] assms(5-7) by auto
  consider "mc_daemon (co_conf s) = 0 \<or> daemonize True (ce_daemon e) = Returned 0"
    | "mc_daemon (co_conf s) \<noteq> 0" "daemonize True (ce_daemon e) = Returned (-1)"
    | "mc_daemon (co_conf s) \<noteq> 0" "daemonize True (ce_daemon e) = Exited 0"
    using daemonize_cases [of True "ce_daemon e"] by auto
  then show ?thesis
  proof cases
    case 1
    then have "after_log e s d = init_pid_file e s d" by (auto simp: after_log_def)
    then show ?thesis using P ok by auto
  next
    case 2
    then have "after_log e s d = Some (Returned (-1), s, d2)" using l(1) by (simp add: after_log_def)
    then show ?thesis using l(2) 2 by (simp add: start_ok_def)
  next
    case 3
    then show ?thesis by (simp add: after_log_def start_ok_def)
  qed
qed

lemma core_start_correct:
  assumes "load_main_config (ce_junk e) (ce_conf e) (ce_out e) (co_conf s) (ce_heap e) = Some (r0, c, h)" and "conf_ok c"
    and "env_ok e s" and "disk_ok d" and "name = name_of (mc_pid_file c)" and "length name \<le> 3000" and "logn = name_of (mc_log_file c)"
  shows "\<exists>p s' d'. init_core_master e s d = Some (p, s', d') \<and> start_ok e name logn d p s' d' \<and>
    ((mc_daemon c = 0 \<or> daemonize True (ce_daemon e) = Returned 0) \<longrightarrow> openable logn d \<longrightarrow> openable name d \<longrightarrow>
      d_dir d name = None \<longrightarrow> name \<noteq> logn \<longrightarrow> p = Returned 0)"
proof -
  let ?s = "s\<lparr> co_pool := True, co_conf := c, co_log := (co_log s)\<lparr> f_name := mc_log_file c \<rparr> \<rparr>"
  have ok: "path_str_ok (mc_log_file c)" "path_str_ok (mc_pid_file c)" using assms(2) by (auto simp: conf_ok_def)
  have E: "ce_pool e" "ce_name_mem e = (True, True)" using assms(3) by (auto simp: env_ok_def)
  obtain r d1 where o: "sys_open log_flags logn d = (r, d1)" by (cases "sys_open log_flags logn d")
  note K = open_keeps [OF o assms(4)]
  note fo = file_open_correct [of "co_log ?s" log_flags d r d1, simplified, OF ok(1) o [unfolded assms(7)]]
  show ?thesis
  proof (cases r)
    case (Inl err)
    have "d1 = d" using K(8) Inl by simp
    then have "init_core_master e s d = Some (Returned (-1), ?s\<lparr> co_log := (co_log ?s)\<lparr> f_fd := -1 \<rparr> \<rparr>, d)"
      using fo Inl E assms(1) by (simp add: init_core_master_def Let_def)
    moreover have "\<not> openable logn d" using K(10) Inl by (auto simp: log_flags_def)
    ultimately show ?thesis by (simp add: start_ok_def)
  next
    case (Inr f)
    let ?s1 = "?s\<lparr> co_log := (co_log ?s)\<lparr> f_fd := f, f_rseek := 0 \<rparr> \<rparr>"
    have i: "init_core_master e s d = after_log e ?s1 d1"
      using fo Inr E assms(1) by (simp add: init_core_master_def Let_def after_log_def split: if_splits proc_end.splits)
    obtain j where j: "d_dir d1 logn = Some j" "d_fds d1 f = Some (j, True)" using K(9) [OF Inr] by (auto simp: log_flags_def)
    have e: "env_ok e ?s1" using assms(3) by (simp add: env_ok_def log_len_def)
    obtain p s' d' where A: "after_log e ?s1 d1 = Some (p, s', d')" "start_ok e name logn d1 p s' d'"
      "(mc_daemon c = 0 \<or> daemonize True (ce_daemon e) = Returned 0) \<longrightarrow> openable name d1 \<longrightarrow> d_dir d1 name = None \<longrightarrow> p = Returned 0"
      using after_log_correct [of ?s1 name e d1 j logn] ok(2) assms(5,6) e K(1) j by auto
    have n: "d_dir d name = None" if "d_dir d1 name = None" using that j(1) K(2) [of name] by (cases "name = logn") auto
    have "start_ok e name logn d p s' d'" using A(2) n K(3) by (auto simp: start_ok_def)
    then show ?thesis unfolding i using A(1,3) K(2,6,7) by (auto simp: openable_def)
  qed
qed

section \<open>Properties\<close>

text \<open>C16. The pid file admits one server.  A start returns; when it succeeds there was no file of that name, the file
  then holds the pid in decimal, and the exit of this server removes it.  While the file is there no start
  succeeds and none changes it, and no start touches a file other than the pid file and the log.  When the
  name is free and both files can be opened, the start succeeds.\<close>

theorem pid_file_guards_instance:
  assumes "load_main_config (ce_junk e) (ce_conf e) (ce_out e) (co_conf s) (ce_heap e) = Some (r0, c, h)" and "conf_ok c"
    and "env_ok e s" and "disk_ok d" and "name = name_of (mc_pid_file c)" and "length name \<le> 3000" and "logn = name_of (mc_log_file c)"
  shows "\<exists>p s' d'. init_core_master e s d = Some (p, s', d') \<and>
    (p = Returned 0 \<longrightarrow> d_dir d name = None \<and> file_of name d' = Some (sdec (ce_getpid e)) \<and>
       (\<exists>s'' d''. exit_core_master e s' d' = Some (s'', d'') \<and> file_of name d'' = None)) \<and>
    (file_of name d \<noteq> None \<longrightarrow> p \<noteq> Returned 0 \<and> (name \<noteq> logn \<longrightarrow> file_of name d' = file_of name d)) \<and>
    (\<forall>n. n \<noteq> name \<longrightarrow> n \<noteq> logn \<longrightarrow> file_of n d' = file_of n d) \<and>
    ((mc_daemon c = 0 \<or> daemonize True (ce_daemon e) = Returned 0) \<longrightarrow> openable logn d \<longrightarrow> openable name d \<longrightarrow>
      d_dir d name = None \<longrightarrow> name \<noteq> logn \<longrightarrow> p = Returned 0)"
  using core_start_correct [OF assms] by (auto simp: start_ok_def file_of_def)

definition empty_disk :: disk where
  "empty_disk = \<lparr> d_dir = Map.empty, d_data = (\<lambda>_. []), d_isdir = (\<lambda>_. False), d_fds = Map.empty, d_inode = 0, d_fd = 3, d_access = (\<lambda>_. True), d_parent = (\<lambda>_. True) \<rparr>"

definition core0 :: core where
  "core0 = \<lparr> co_pool = False, co_conf = lts_main_conf, co_pid = -1, co_log = define_file (lts_string []), co_pid_file = define_file (lts_string []),
     co_processes = [], co_timer_heap = empty_map \<rparr>"

definition core_env0 :: core_env where
  "core_env0 = \<lparr> ce_pool = True, ce_junk = (\<lambda>_. 7), ce_conf = \<lparr> cf_opens = False, cf_size = None, cf_map = None \<rparr>, ce_out = 40, ce_heap = heap0,
     ce_name_mem = (True, True), ce_daemon = (\<lambda>_. -1), ce_getpid = 42, ce_pid_buf = Some (replicate 32 7), ce_now = 17183268612,
     ce_stack = (\<lambda>_. 7), ce_loc = (\<lambda>_. lit ''src/modules/mod_core.c:150'') \<rparr>"

lemma pid_file_guards_instance_witness:
  "\<exists>s' d' s'' d''. init_core_master core_env0 core0 empty_disk = Some (Returned 0, s', d') \<and>
     file_of (lit ''run/latasia.pid'') d' = Some (lit ''42'') \<and>
     exit_core_master core_env0 s' d' = Some (s'', d'') \<and> file_of (lit ''run/latasia.pid'') d'' = None"
proof -
  have l: "load_main_config (ce_junk core_env0) (ce_conf core_env0) (ce_out core_env0) (co_conf core0) (ce_heap core_env0) =
      Some (-1, lts_main_conf, heap0)"
    by (simp add: load_main_config_def load_config_def load_conf_file_def core_env0_def core0_def)
  have n: "name_of (mc_pid_file lts_main_conf) = lit ''run/latasia.pid''" "name_of (mc_log_file lts_main_conf) = lit ''run/latasia.log''"
    by code_simp+
  have len: "length (log_prefix (gmtime (17183268612 div 10)) p (lit ''EMERGE'')) \<le> 100" if "p = -1 \<or> p = 42" for p
    using that by (auto simp: sample_time log_prefix_def dec02_def dec_def sdec_def rdec_pos lit_def)
  have e: "env_ok core_env0 core0" using len by (simp add: env_ok_def core_env0_def core0_def define_file_def log_len_def lit_def)
  have d: "disk_ok empty_disk" by (simp add: disk_ok_def empty_disk_def)
  have s: "sdec 42 = lit ''42''" by (simp add: sdec_def dec_def rdec_pos lit_def)
  from pid_file_guards_instance [OF l default_ok e d n(1) [symmetric] _ n(2) [symmetric]]
  obtain p s' d' where P: "init_core_master core_env0 core0 empty_disk = Some (p, s', d')"
    "p = Returned 0 \<longrightarrow> file_of (lit ''run/latasia.pid'') d' = Some (sdec 42) \<and>
       (\<exists>s'' d''. exit_core_master core_env0 s' d' = Some (s'', d'') \<and> file_of (lit ''run/latasia.pid'') d'' = None)"
    "p = Returned 0"
    by (auto simp: empty_disk_def openable_def lts_main_conf_def core_env0_def lit_def)
  then show ?thesis unfolding s by blast
qed

end
