(* ===== verification/HttpCore.thy ===== *)
theory HttpCore
  imports ServerProps StrFind FileIO Logger
begin

text \<open>
  \<open>src/modules/mod_app_http_core.c\<close>: an application that serves files.

  The first line of what a client sent names a file below the root directory; the answer is a header and
  the file, which the callback \<open>send_more\<close> reads piece by piece whenever the send buffer is empty.  The state
  extends \<open>net\<close> with the disk and the files of the requests, which are named by the addresses of the structs
  in \<open>app_ctx\<close>.
\<close>

section \<open>Texts\<close>

definition crlf :: bstr where
  "crlf = [0x0D, c_nl]"

definition DEFAULT_FILENAME :: bstr where
  "DEFAULT_FILENAME = lit ''index.html''"

definition HTTP_404_HEADER :: bstr where
  "HTTP_404_HEADER = lit ''HTTP/1.1 404 NOT FOUND'' @ crlf @ lit ''Server: latasia'' @ crlf @ lit ''Content-Length: 133'' @ crlf @
     lit ''Content-Type: text/html'' @ crlf @ lit ''Connection: close'' @ crlf @ crlf"

definition HTTP_404_BODY :: bstr where
  "HTTP_404_BODY = lit ''<!DOCTYPE html><html><head><meta charset='' @ [c_quot] @ lit ''utf-8'' @ [c_quot] @ lit '' /><title>404</title></head><body>{'' @
     [c_quot] @ lit ''result'' @ [c_quot] @ lit '': 404, '' @ [c_quot] @ lit ''message'' @ [c_quot] @ lit '': not found}</body></html>''"

text \<open>The format with its arguments, and the size of the format itself.\<close>

definition HTTP_200_HEADER :: "nat \<Rightarrow> bstr \<Rightarrow> bstr" where
  "HTTP_200_HEADER st_size mime = lit ''HTTP/1.1 200 OK'' @ crlf @ lit ''Server: latasia'' @ crlf @ lit ''Content-Length: '' @ dec st_size @ crlf @
     lit ''Content-Type: '' @ mime @ crlf @ lit ''Connection: keep-alive'' @ crlf @ crlf"

definition header_format_size :: nat where
  "header_format_size = length (HTTP_200_HEADER 0 []) - 1 + length (lit ''%lu'') + length (lit ''%s'')"

text \<open>The default configuration, which nothing changes: the root of the file system.\<close>

definition http_cwd :: bstr where
  "http_cwd = lit ''/''"

section \<open>The path of a request\<close>

text \<open>The loop over the first line and the byte behind it: the index \<open>i\<close>, where the path starts, its length.\<close>

fun uri_loop :: "bstr \<Rightarrow> nat \<Rightarrow> nat \<Rightarrow> nat option \<Rightarrow> nat \<Rightarrow> (nat option \<times> nat) option" where
  "uri_loop D 0 i u n = Some (u, n)"
| "uri_loop D (Suc k) i u n = do {
     c \<leftarrow> rd D i;
     if u \<noteq> None then (if c = c_space then Some (u, n + 1) else uri_loop D k (i + 1) u (n + 1))
     else uri_loop D k (i + 1) (if c = 0x2F then Some i else None) n }"

text \<open>\<open>None\<close>: no slash.\<close>

definition find_uri :: "bstr \<Rightarrow> nat \<Rightarrow> bstr option option" where
  "find_uri idata req_len = do {
     (u, n) \<leftarrow> uri_loop idata (req_len + 1) 0 None 0;
     case u of None \<Rightarrow> Some None
     | Some p \<Rightarrow> if n = 0 then Some None else do { uri \<leftarrow> rdn idata (int p) (int n); Some (Some uri) } }"

definition req_path :: "bstr \<Rightarrow> bstr" where
  "req_path uri = http_cwd @ uri @ (if List.last uri = 0x2F then DEFAULT_FILENAME else [])"

section \<open>The type of a file\<close>

definition tolower :: "byte \<Rightarrow> byte" where
  "tolower c = (if 0x41 \<le> c \<and> c \<le> 0x5A then c + 0x20 else c)"

text \<open>\<open>strncasecmp(s, t, n) = 0\<close>; \<open>s\<close> holds at least \<open>n\<close> characters or a NUL.\<close>

fun strncaseeq :: "bstr \<Rightarrow> bstr \<Rightarrow> nat \<Rightarrow> bool" where
  "strncaseeq (a # s) (b # t) (Suc n) = (tolower a = tolower b \<and> (a = 0 \<or> strncaseeq s t n))"
| "strncaseeq s t 0 = True"
| "strncaseeq s t (Suc n) = (s = [] \<and> t = [])"

text \<open>The chain of comparisons, in its order.\<close>

definition mime_types :: "(string \<times> string) list" where
  "mime_types =
     [(''html'', ''text/html''), (''txt'', ''text/plain''), (''log'', ''text/plain''), (''xml'', ''text/xml''),
      (''gif'', ''image/gif''), (''jpg'', ''image/jpeg''), (''png'', ''image/png''), (''ico'', ''image/x-icon''),
      (''mid'', ''audio/midi''), (''mp3'', ''audio/mpeg''), (''mp4'', ''video/mp4''), (''webm'', ''video/webm''),
      (''flv'', ''video/x-flv''), (''avi'', ''video/x-msvideo'')]"

definition mime_of :: "bstr \<Rightarrow> bstr" where
  "mime_of ftype = (case find (\<lambda>(ext, _). strncaseeq ftype (lit ext) (min (length ftype) (length ext))) mime_types of
     Some (_, mime) \<Rightarrow> lit mime | None \<Rightarrow> lit ''application/octet-stream'')"

text \<open>What stands behind the last dot; \<open>None\<close> when there is none, and the code leaves its variable unset.\<close>

definition file_type :: "bstr \<Rightarrow> bstr option" where
  "file_type path = (if 0x2E \<in> set path then Some (rev (takeWhile (\<lambda>c. c \<noteq> 0x2E) (rev path))) else None)"

section \<open>State\<close>

record http = net +
  ht_disk :: disk
  ht_files :: "addr \<Rightarrow> lts_file"

text \<open>What a request finds: the addresses of the two structs it allocates (0 is NULL), the memory for the name of
  the file, and what the unset variable \<open>ftype\<close> points to, \<open>None\<close> when that cannot be read.\<close>

record http_env =
  he_req :: addr
  he_path :: addr
  he_name_mem :: bool
  he_ftype :: "bstr option"

section \<open>Callbacks\<close>

definition http_core_on_connected :: "addr \<Rightarrow> http \<Rightarrow> http option" where
  "http_core_on_connected s w = Some w"

text \<open>\<open>memcpy\<close> to \<open>last\<close>, without a look at the room.\<close>

definition http_put :: "bstr \<Rightarrow> buffer \<Rightarrow> buffer option" where
  "http_put data b = do {
     m \<leftarrow> wrn (b_mem b) (b_last b - b_start b) data;
     Some (b\<lparr> b_mem := m, b_last := b_last b + int (length data) \<rparr>) }"

definition buffer_room :: "buffer \<Rightarrow> nat" where
  "buffer_room b = nat ((b_end b - b_last b) mod 2 ^ 64)"

text \<open>\<open>snprintf\<close> to \<open>last\<close>; \<open>last\<close> advances by the length of the whole text.\<close>

definition http_print :: "bstr \<Rightarrow> buffer \<Rightarrow> buffer option" where
  "http_print text b =
     (if b_last b < b_start b then None
      else do {
        (n_read, m) \<leftarrow> snprintf (b_mem b) (nat (b_last b - b_start b)) (buffer_room b) text;
        Some (b\<lparr> b_mem := m, b_last := b_last b + int n_read \<rparr>) })"

definition http_answer :: "http_env \<Rightarrow> bstr \<Rightarrow> addr \<Rightarrow> http \<Rightarrow> http option" where
  "http_answer e path s w = do {
     c \<leftarrow> conn_of (skts w s);
     let sb = sbuf c;
     let name = \<lparr> s_data = path @ [0], s_len = length path \<rparr>;
     (err, file, d) \<leftarrow> lts_file_open (he_name_mem e) \<lparr> o_write = False, o_creat = False, o_excl = False, o_append = False \<rparr>
       ((ht_files w (he_req e))\<lparr> f_fd := -1, f_name := name \<rparr>) (ht_disk w);
     let w = w\<lparr> ht_disk := d, ht_files := (ht_files w)(he_req e := file) \<rparr>;
     if err \<noteq> None then do { sb \<leftarrow> http_put HTTP_404_HEADER sb; sb \<leftarrow> http_put HTTP_404_BODY sb; Some (set_sbuf s sb w) }
     else do {
       let w = upd_skt s (\<lambda>k. k\<lparr> app_ctx := he_req e \<rparr>) w;
       (i, _) \<leftarrow> d_fds d (f_fd file);
       ftype \<leftarrow> (case file_type path of None \<Rightarrow> he_ftype e | Some t \<Rightarrow> Some t);
       if header_format_size > (buffer_room sb + 32) mod 2 ^ 64 then None
       else do { sb \<leftarrow> http_print (HTTP_200_HEADER (length (d_data d i)) (mime_of ftype)) sb; Some (set_sbuf s sb w) } } }"

definition http_core_service :: "http_env \<Rightarrow> addr \<Rightarrow> http \<Rightarrow> http option" where
  "http_core_service e s w = do {
     c \<leftarrow> conn_of (skts w s);
     let rb = rbuf c;
     if lts_buffer_empty rb then None
     else do {
       let idata = contents rb;
       pattern_s \<leftarrow> lts_str_find idata crlf 0;
       if pattern_s = -1 then Some w
       else do {
         uri \<leftarrow> find_uri idata (nat pattern_s);
         case uri of None \<Rightarrow> Some w
         | Some uri \<Rightarrow>
             if he_req e = 0 \<or> he_path e = 0 then None
             else http_answer e (req_path uri) s (set_rbuf s (lts_buffer_clear rb) w) } } }"

text \<open>The result of a failed \<open>pread\<close>, -1, is a \<open>size_t\<close> here and greater than 0: \<open>last\<close> goes back by one.\<close>

definition http_core_send_more :: "addr \<Rightarrow> http \<Rightarrow> http option" where
  "http_core_send_more s w = do {
     c \<leftarrow> conn_of (skts w s);
     let sb = sbuf c;
     let req = app_ctx (skts w s);
     if req = 0 then Some w
     else if lts_buffer_full sb then Some w
     else case lts_file_read (ht_files w req) (buffer_room sb) (ht_disk w) of
       (Inl _, _) \<Rightarrow> Some (set_sbuf s (sb\<lparr> b_last := b_last sb - 1 \<rparr>) w)
     | (Inr data, file) \<Rightarrow>
         let w = w\<lparr> ht_files := (ht_files w)(req := file) \<rparr>
         in if data \<noteq> [] then do { sb \<leftarrow> http_put data sb; Some (set_sbuf s sb w) }
            else Some (w\<lparr> ht_disk := lts_file_close file (ht_disk w) \<rparr>) }"

text \<open>The requests find different memory: \<open>env\<close> tells which.\<close>

definition http_core_itfc :: "(addr \<Rightarrow> http \<Rightarrow> http_env) \<Rightarrow> http app_itfc" where
  "http_core_itfc env = \<lparr> on_connected = Some http_core_on_connected, service = (\<lambda>s w. http_core_service (env s w) s w),
     send_more = http_core_send_more, on_closing = None \<rparr>"

section \<open>The path\<close>

fun uri_scan :: "bstr \<Rightarrow> nat \<Rightarrow> nat option \<Rightarrow> nat \<Rightarrow> nat option \<times> nat" where
  "uri_scan [] i u n = (u, n)"
| "uri_scan (c # cs) i u n =
     (if u \<noteq> None then (if c = c_space then (u, n + 1) else uri_scan cs (i + 1) u (n + 1))
      else uri_scan cs (i + 1) (if c = 0x2F then Some i else None) n)"

lemma uri_loop_scan: "i + k \<le> length D \<Longrightarrow> uri_loop D k i u n = Some (uri_scan (take k (drop i D)) i u n)"
proof (induction D k i u n rule: uri_loop.induct)
  case (2 D k i u n)
  then have "drop i D = D ! i # drop (i + 1) D" by (simp add: Cons_nth_drop_Suc)
  then show ?case using 2 by (simp add: rd_def)
qed simp

declare uri_loop.simps [simp del]

lemma uri_scan_found:
  "uri_scan xs i (Some p) n = (Some p, n + (if c_space \<in> set xs then length (takeWhile (\<lambda>c. c \<noteq> c_space) xs) + 1 else length xs))"
  by (induction xs arbitrary: i n) auto

lemma uri_scan_start:
  "uri_scan (xs @ 0x2F # ys) i None n = uri_scan ys (i + length xs + 1) (Some (i + length xs)) n" if "0x2F \<notin> set xs"
  using that by (induction xs arbitrary: i) auto

lemma uri_scan_none: "0x2F \<notin> set xs \<Longrightarrow> uri_scan xs i None n = (None, n)"
  by (induction xs arbitrary: i) auto

text \<open>What the loop finds: from the first slash of the line to the next blank or its end.\<close>

definition uri_of :: "bstr \<Rightarrow> bstr" where
  "uri_of line = takeWhile (\<lambda>c. c \<noteq> c_space) (dropWhile (\<lambda>c. c \<noteq> 0x2F) line)"

lemma find_uri_correct:
  "find_uri (line @ 0x0D # rest) (length line) = Some (if uri_of line = [] then None else Some (uri_of line))"
proof (cases "0x2F \<in> set line")
  case True
  then obtain xs ys where l: "line = xs @ 0x2F # ys" "0x2F \<notin> set xs" using split_list_first by fast
  let ?u = "takeWhile (\<lambda>c. c \<noteq> c_space) ys"
  have u: "uri_of line = 0x2F # ?u" using l by (auto simp: uri_of_def dropWhile_append dropWhile_eq_Nil_conv)
  have p: "take (length ?u) ys = ?u" by (metis takeWhile_eq_take)
  have n: "(if c_space \<in> set (ys @ [0x0D]) then length (takeWhile (\<lambda>c. c \<noteq> c_space) (ys @ [0x0D])) + 1 else length (ys @ [0x0D])) = length ?u + 1"
  proof (cases "c_space \<in> set ys")
    case False
    then have "length ?u = length ys" by (induction ys) auto
    then show ?thesis using False by simp
  qed (auto simp: takeWhile_append)
  have "uri_scan (line @ [0x0D]) 0 None 0 = (Some (length xs), length ?u + 1)"
    unfolding l(1) using uri_scan_start [OF l(2), of "ys @ [0x0D]" 0 0] uri_scan_found [of "ys @ [0x0D]" "length xs + 1" "length xs" 0] n by simp
  then have "uri_loop (line @ 0x0D # rest) (length line + 1) 0 None 0 = Some (Some (length xs), length ?u + 1)"
    using uri_loop_scan [of 0 "length line + 1" "line @ 0x0D # rest"] by simp
  moreover have "rdn (line @ 0x0D # rest) (int (length xs)) (int (length ?u + 1)) = Some (0x2F # ?u)"
    using length_takeWhile_le [of "\<lambda>c. c \<noteq> c_space" ys] p by (simp add: rdn_def l(1) nat_add_distrib)
  ultimately show ?thesis using u by (simp add: find_uri_def)
next
  case False
  then have "dropWhile (\<lambda>c. c \<noteq> 0x2F) line = []" by (induction line) auto
  then have "uri_of line = []" by (simp only: uri_of_def takeWhile.simps)
  then show ?thesis
    using False uri_loop_scan [of 0 "length line + 1" "line @ 0x0D # rest"] uri_scan_none [of "line @ [0x0D]"]
    by (simp add: find_uri_def)
qed

lemma find_crlf:
  assumes "0x0D \<notin> set line"
  shows "lts_str_find (line @ crlf @ rest) crlf 0 = Some (int (length line))"
proof -
  obtain r where r: "lts_str_find (line @ crlf @ rest) crlf 0 = Some r" "first_occurrence (line @ crlf @ rest) crlf r"
    using lts_str_find_total [of crlf 0 "line @ crlf @ rest"] by (auto simp: crlf_def)
  have here: "occurs_at (line @ crlf @ rest) crlf (length line)" by (simp add: occurs_at_take)
  have "\<not> occurs_at (line @ crlf @ rest) crlf k" if "k < length line" for k
  proof
    assume "occurs_at (line @ crlf @ rest) crlf k"
    then have "(line @ crlf @ rest) ! k = 0x0D" by (auto simp: occurs_at_def crlf_def)
    then show False using that assms nth_mem [OF that] by (auto simp: nth_append)
  qed
  then have "r = int (length line)" using r(2) here 
    by (cases "nat r < length line"; cases "length line < nat r") (auto simp: first_occurrence_def split: if_splits)
  then show ?thesis using r(1) by simp
qed

section \<open>The send buffer\<close>

text \<open>What is stored at \<open>last\<close> is appended.\<close>

lemma stored:
  assumes "buffer_ok b" and "m = take (nat (b_last b - b_start b)) (b_mem b) @ data @ r" and "length m = length (b_mem b)"
  shows "buffer_ok (b\<lparr> b_mem := m, b_last := b_last b + int (length data) \<rparr>)"
    and "pending (b\<lparr> b_mem := m, b_last := b_last b + int (length data) \<rparr>) = pending b @ data"
proof -
  let ?l = "nat (b_last b - b_start b)" and ?s = "nat (b_seek b - b_start b)"
  have o: "b_start b \<le> b_seek b" "b_seek b \<le> b_last b" "b_last b \<le> b_end b" "length (b_mem b) = nat (b_end b - b_start b)"
    using assms(1) by (auto simp: buffer_ok_def)
  then have l: "length (take ?l (b_mem b)) = ?l" by simp
  then have "?l + length data \<le> length (b_mem b)" using assms(2,3) by simp
  then show "buffer_ok (b\<lparr> b_mem := m, b_last := b_last b + int (length data) \<rparr>)"
    using o assms(3) by (simp add: buffer_ok_def)
  have n: "nat (b_last b + int (length data) - b_start b) = ?l + length data" using o by simp
  have "take (?l + length data) m = take ?l (b_mem b) @ data" using l unfolding assms(2) by simp
  then show "pending (b\<lparr> b_mem := m, b_last := b_last b + int (length data) \<rparr>) = pending b @ data"
    using o l by (simp add: pending_def contents_def n)
qed

lemma room_eq: "buffer_ok b \<Longrightarrow> b_end b - b_start b < 2 ^ 64 \<Longrightarrow> int (buffer_room b) = b_end b - b_last b"
  by (simp add: buffer_ok_def buffer_room_def)

lemma http_put_correct:
  assumes "buffer_ok b" and "length data \<le> buffer_room b" and "b_end b - b_start b < 2 ^ 64"
  shows "\<exists>m. http_put data b = Some (b\<lparr> b_mem := m, b_last := b_last b + int (length data) \<rparr>) \<and>
    buffer_ok (b\<lparr> b_mem := m, b_last := b_last b + int (length data) \<rparr>) \<and>
    pending (b\<lparr> b_mem := m, b_last := b_last b + int (length data) \<rparr>) = pending b @ data"
proof -
  let ?l = "nat (b_last b - b_start b)"
  let ?m = "take ?l (b_mem b) @ data @ drop (?l + length data) (b_mem b)"
  have o: "b_start b \<le> b_last b" "?l + length data \<le> length (b_mem b)"
    using assms room_eq [OF assms(1,3)] by (auto simp: buffer_ok_def)
  then have "http_put data b = Some (b\<lparr> b_mem := ?m, b_last := b_last b + int (length data) \<rparr>)" by (simp add: http_put_def wrn_def)
  then show ?thesis using stored [OF assms(1) refl, of data "drop (?l + length data) (b_mem b)"] o by auto
qed

lemma http_print_correct:
  assumes "buffer_ok b" and "length out < buffer_room b" and "b_end b - b_start b < 2 ^ 64"
  shows "\<exists>m. http_print out b = Some (b\<lparr> b_mem := m, b_last := b_last b + int (length out) \<rparr>) \<and>
    buffer_ok (b\<lparr> b_mem := m, b_last := b_last b + int (length out) \<rparr>) \<and>
    pending (b\<lparr> b_mem := m, b_last := b_last b + int (length out) \<rparr>) = pending b @ out"
proof -
  let ?l = "nat (b_last b - b_start b)" and ?n = "buffer_room b"
  let ?r = "0 # drop (?l + min (?n - 1) (length out) + 1) (b_mem b)"
  have o: "b_start b \<le> b_last b" "?l + ?n = length (b_mem b)" using assms(1) room_eq [OF assms(1,3)] by (auto simp: buffer_ok_def)
  have "snprintf (b_mem b) ?l ?n out = Some (length out, take ?l (b_mem b) @ out @ ?r)"
    using snprintf_correct [OF o(2), of out] assms(2) by simp
  then have "http_print out b = Some (b\<lparr> b_mem := take ?l (b_mem b) @ out @ ?r, b_last := b_last b + int (length out) \<rparr>)"
    using o(1) by (simp add: http_print_def)
  moreover have "length (take ?l (b_mem b) @ out @ ?r) = length (b_mem b)" using o(2) assms(2) by simp
  ultimately show ?thesis using stored [OF assms(1) refl, of out ?r] by auto
qed

section \<open>Sending a file\<close>

text \<open>The socket sends at most \<open>n\<close> bytes of what is pending; the result has the bytes of all sends.\<close>

fun transmit :: "(addr \<Rightarrow> http \<Rightarrow> http_env) \<Rightarrow> int \<Rightarrow> nat list \<Rightarrow> addr \<Rightarrow> http \<Rightarrow> (bstr \<times> http) option" where
  "transmit env ka [] s w = Some ([], w)"
| "transmit env ka (n # ns) s w = do {
     c \<leftarrow> conn_of (skts w s);
     let out = take n (pending (sbuf c));
     w \<leftarrow> lts_send (http_core_itfc env) ka (Inr (length out)) s w;
     (rest, w) \<leftarrow> transmit env ka ns s w;
     Some (out @ rest, w) }"

text \<open>The state in which \<open>sent\<close> is the part of the answer \<open>resp\<close> that has left.  Either a part is pending and the rest
  is to be read, or everything is sent.\<close>

definition streaming :: "addr \<Rightarrow> bstr \<Rightarrow> bstr \<Rightarrow> http \<Rightarrow> bool" where
  "streaming s resp sent w \<longleftrightarrow> (\<exists>c. conn_of (skts w s) = Some c \<and> buffer_ok (sbuf c) \<and> b_start (sbuf c) < b_end (sbuf c) \<and>
     b_end (sbuf c) - b_start (sbuf c) < 2 ^ 64 \<and> app_ctx (skts w s) \<noteq> 0 \<and>
     (if lts_buffer_empty (sbuf c) then sent = resp
      else pending (sbuf c) \<noteq> [] \<and>
        (\<exists>i app. d_fds (ht_disk w) (f_fd (ht_files w (app_ctx (skts w s)))) = Some (i, app) \<and> \<not> d_isdir (ht_disk w) i \<and>
          sent @ pending (sbuf c) @ drop (f_rseek (ht_files w (app_ctx (skts w s)))) (d_data (ht_disk w) i) = resp)))"

lemma http_simps [simp]:
  "ht_disk (upd_skt s f w) = ht_disk w" "ht_files (upd_skt s f w) = ht_files w" "ht_disk (set_sbuf s b w) = ht_disk w"
  "ht_files (set_sbuf s b w) = ht_files w" "ht_disk (set_rbuf s b w) = ht_disk w" "ht_files (set_rbuf s b w) = ht_files w"
  "ht_disk (epoll_event_mod s w) = ht_disk w" "ht_files (epoll_event_mod s w) = ht_files w" "skts (epoll_event_mod s w) = skts w"
  by (simp_all add: upd_skt_def set_sbuf_def set_rbuf_def epoll_event_mod_def Let_def)

lemma buf_simps [simp]:
  "conn_of (skts (set_sbuf s b w) x) = (if x = s then map_option (\<lambda>c. c\<lparr> sbuf := b \<rparr>) (conn_of (skts w s)) else conn_of (skts w x))"
  "app_ctx (skts (set_sbuf s b w) x) = app_ctx (skts w x)"
  by (simp_all add: set_sbuf_def upd_skt_def)

lemma pending_empty: "buffer_ok b \<Longrightarrow> lts_buffer_empty b \<Longrightarrow> pending b = []"
  by (simp add: buffer_ok_def lts_buffer_empty_def pending_def contents_def)

lemma pending_not_empty: "buffer_ok b \<Longrightarrow> pending b \<noteq> [] \<Longrightarrow> \<not> lts_buffer_empty b"
  using pending_empty by blast

lemma send_more_streams:
  assumes c: "conn_of (skts w s) = Some c" and b: "buffer_ok (sbuf c)" "lts_buffer_empty (sbuf c)" "b_start (sbuf c) < b_end (sbuf c)"
      "b_end (sbuf c) - b_start (sbuf c) < 2 ^ 64"
    and r: "app_ctx (skts w s) \<noteq> 0" "f = ht_files w (app_ctx (skts w s))" "d_fds (ht_disk w) (f_fd f) = Some (i, app)" "\<not> d_isdir (ht_disk w) i"
    and e: "sent @ drop (f_rseek f) (d_data (ht_disk w) i) = resp"
  shows "\<exists>w'. http_core_send_more s w = Some w' \<and> streaming s resp sent w'"
proof -
  let ?b = "sbuf c" and ?n = "buffer_room (sbuf c)" and ?R = "drop (f_rseek f) (d_data (ht_disk w) i)"
  let ?data = "take ?n ?R" and ?f = "f\<lparr> f_rseek := f_rseek f + ?n \<rparr>" and ?req = "app_ctx (skts w s)"
  have n: "0 < ?n" using room_eq [OF b(1,4)] b(2,3) by (simp add: lts_buffer_empty_def)
  have fl: "\<not> lts_buffer_full ?b" using b(2,3) by (simp add: lts_buffer_empty_def lts_buffer_full_def)
  have rd: "lts_file_read f ?n (ht_disk w) = (Inr ?data, ?f)" using r by (simp add: lts_file_read_def sys_pread_def)
  show ?thesis
  proof (cases "?R = []")
    case True
    have "http_core_send_more s w = Some (w\<lparr> ht_files := (ht_files w)(?req := ?f), ht_disk := lts_file_close ?f (ht_disk w) \<rparr>)"
      using c fl rd r(1) True by (simp add: http_core_send_more_def Let_def r(2) [symmetric])
    moreover have "sent = resp" using e True by simp
    ultimately show ?thesis using b c r(1) by (simp add: streaming_def)
  next
    case False
    then have d: "?data \<noteq> []" using n by simp
    obtain m where m: "http_put ?data ?b = Some (?b\<lparr> b_mem := m, b_last := b_last ?b + int (length ?data) \<rparr>)"
        "buffer_ok (?b\<lparr> b_mem := m, b_last := b_last ?b + int (length ?data) \<rparr>)"
        "pending (?b\<lparr> b_mem := m, b_last := b_last ?b + int (length ?data) \<rparr>) = pending ?b @ ?data"
      using http_put_correct [OF b(1) _ b(4), of ?data] by auto
    let ?b' = "?b\<lparr> b_mem := m, b_last := b_last ?b + int (length ?data) \<rparr>"
    have p: "pending ?b' = ?data" using m(3) pending_empty [OF b(1,2)] by simp
    have ne: "\<not> lts_buffer_empty ?b'" by (rule pending_not_empty [OF m(2)]) (use p d in simp)
    let ?w = "set_sbuf s ?b' (w\<lparr> ht_files := (ht_files w)(?req := ?f) \<rparr>)"
    have "http_core_send_more s w = Some ?w"
      using c fl rd r(1) d m(1) by (simp add: http_core_send_more_def Let_def r(2) [symmetric])
    moreover have "streaming s resp sent ?w"
      unfolding streaming_def
    proof (intro exI conjI)
      show "conn_of (skts ?w s) = Some (c\<lparr> sbuf := ?b' \<rparr>)" using c by simp
      show "if lts_buffer_empty (sbuf (c\<lparr> sbuf := ?b' \<rparr>)) then sent = resp
        else pending (sbuf (c\<lparr> sbuf := ?b' \<rparr>)) \<noteq> [] \<and>
          (\<exists>i app. d_fds (ht_disk ?w) (f_fd (ht_files ?w (app_ctx (skts ?w s)))) = Some (i, app) \<and> \<not> d_isdir (ht_disk ?w) i \<and>
            sent @ pending (sbuf (c\<lparr> sbuf := ?b' \<rparr>)) @ drop (f_rseek (ht_files ?w (app_ctx (skts ?w s)))) (d_data (ht_disk ?w) i) = resp)"
        using ne p d r(3,4) e append_take_drop_id [of ?n ?R] by (simp add: add.commute)
    qed (use m(2) b(3,4) r(1) in simp_all)
    ultimately show ?thesis by blast
  qed
qed

lemma pending_seek:
  assumes "buffer_ok b" and "int k \<le> lts_buffer_pending b"
  shows "pending (b\<lparr> b_seek := b_seek b + int k \<rparr>) = drop k (pending b)" "buffer_ok (b\<lparr> b_seek := b_seek b + int k \<rparr>)"
proof -
  have "nat (b_seek b + int k - b_start b) = k + nat (b_seek b - b_start b)" using assms(1) by (auto simp: buffer_ok_def)
  then show "pending (b\<lparr> b_seek := b_seek b + int k \<rparr>) = drop k (pending b)" by (simp add: pending_def contents_def)
  show "buffer_ok (b\<lparr> b_seek := b_seek b + int k \<rparr>)" using assms by (simp add: buffer_ok_def lts_buffer_pending_def)
qed

lemma streaming_cong:
  assumes "streaming s resp sent w" and "conn_of (skts w' s) = conn_of (skts w s)" and "app_ctx (skts w' s) = app_ctx (skts w s)"
    and "ht_disk w' = ht_disk w" and "ht_files w' = ht_files w"
  shows "streaming s resp sent w'"
  using assms(1) unfolding streaming_def assms(2-5) .

lemma send_streams:
  assumes "streaming s resp sent w" and "0 < n"
  shows "\<exists>c w'. conn_of (skts w s) = Some c \<and> lts_send (http_core_itfc env) ka (Inr (length (take n (pending (sbuf c))))) s w = Some w' \<and>
    streaming s resp (sent @ take n (pending (sbuf c))) w' \<and> (pending (sbuf c) = [] \<longleftrightarrow> lts_buffer_empty (sbuf c))"
proof -
  obtain c where c: "conn_of (skts w s) = Some c" and b: "buffer_ok (sbuf c)" "b_start (sbuf c) < b_end (sbuf c)"
      "b_end (sbuf c) - b_start (sbuf c) < 2 ^ 64" and r: "app_ctx (skts w s) \<noteq> 0"
    and st: "if lts_buffer_empty (sbuf c) then sent = resp else pending (sbuf c) \<noteq> [] \<and>
      (\<exists>i app. d_fds (ht_disk w) (f_fd (ht_files w (app_ctx (skts w s)))) = Some (i, app) \<and> \<not> d_isdir (ht_disk w) i \<and>
        sent @ pending (sbuf c) @ drop (f_rseek (ht_files w (app_ctx (skts w s)))) (d_data (ht_disk w) i) = resp)"
    using assms(1) by (auto simp: streaming_def)
  let ?b = "sbuf c"
  show ?thesis
  proof (cases "lts_buffer_empty ?b")
    case True
    then show ?thesis using c assms(1) pending_empty [OF b(1)]
      by (auto simp: lts_send_def Let_def intro!: streaming_cong [OF assms(1)])
  next
    case False
    let ?f = "ht_files w (app_ctx (skts w s))"
    obtain i app where P: "pending ?b \<noteq> []" "d_fds (ht_disk w) (f_fd ?f) = Some (i, app)" "\<not> d_isdir (ht_disk w) i"
        "sent @ pending ?b @ drop (f_rseek ?f) (d_data (ht_disk w) i) = resp"
      using st False by auto
    let ?k = "length (take n (pending ?b))"
    let ?b1 = "?b\<lparr> b_seek := b_seek ?b + int ?k \<rparr>"
    have l: "int (length (pending ?b)) = b_last ?b - b_seek ?b" using length_pending [OF b(1)] by (simp add: lts_buffer_pending_def)
    have sk: "b_seek ?b < b_last ?b" using l P(1) by (metis diff_gt_0_iff_gt length_greater_0_conv of_nat_0_less_iff)
    have "int ?k \<le> lts_buffer_pending ?b" using l by (simp add: lts_buffer_pending_def)
    note b1 = pending_seek [OF b(1) this]
    have s1: "lts_send (http_core_itfc env) ka (Inr ?k) s w =
        (if b_seek ?b1 = b_last ?b1 then send_done (http_core_itfc env) s ?b1 (set_sbuf s ?b1 w) else Some (set_sbuf s ?b1 w))"
      using c False sk by (simp add: lts_send_def Let_def)
    show ?thesis
    proof (cases "n < length (pending ?b)")
      case True
      then have ne: "pending ?b1 \<noteq> []" "b_seek ?b1 \<noteq> b_last ?b1" using b1(1) l by auto
      have "\<not> lts_buffer_empty ?b1" by (rule pending_not_empty [OF b1(2) ne(1)])
      moreover have e: "sent @ take n (pending ?b) @ drop n (pending ?b) @ drop (f_rseek ?f) (d_data (ht_disk w) i) = resp"
        using P(4) by (metis append.assoc append_take_drop_id)
      ultimately have "streaming s resp (sent @ take n (pending ?b)) (set_sbuf s ?b1 w)"
        unfolding streaming_def using c b b1 r ne(1) P(2,3) True e
        by (intro exI [of _ "c\<lparr> sbuf := ?b1 \<rparr>"]) simp
      then show ?thesis using c s1 ne(2) P(1) False by auto
    next
      case False
      then have k: "take n (pending ?b) = pending ?b" by simp
      let ?b2 = "lts_buffer_clear ?b1" and ?w1 = "set_sbuf s ?b1 w"
      let ?w2 = "set_sbuf s ?b2 ?w1"
      have b2: "buffer_ok ?b2" "lts_buffer_empty ?b2" using lts_buffer_clear_correct [OF b1(2)] by auto
      have c2: "conn_of (skts ?w2 s) = Some (c\<lparr> sbuf := ?b2 \<rparr>)" using c by simp
      obtain w3 where w3: "http_core_send_more s ?w2 = Some w3" "streaming s resp (sent @ pending ?b) w3"
        using send_more_streams [OF c2, of ?f i app "sent @ pending ?b" resp] b2 b(2,3) r P(2-4) by (auto simp: lts_buffer_clear_def)
      obtain c3 where c3: "conn_of (skts w3 s) = Some c3" using w3(2) by (auto simp: streaming_def)
      have "\<exists>w4. send_done (http_core_itfc env) s ?b1 ?w1 = Some w4 \<and> streaming s resp (sent @ pending ?b) w4"
        using w3 c3 by (auto simp: send_done_def Let_def http_core_itfc_def intro!: streaming_cong [OF w3(2)])
      moreover have "b_seek ?b1 = b_last ?b1" using k l by simp
      ultimately show ?thesis using c s1 k P(1) \<open>\<not> lts_buffer_empty ?b\<close> by auto
    qed
  qed
qed

lemma streaming_prefix: "streaming s resp sent w \<Longrightarrow> \<exists>t. resp = sent @ t"
  by (auto simp: streaming_def split: if_splits)

lemma transmit_streams:
  assumes "streaming s resp sent w" and "\<forall>n\<in>set ns. 0 < n"
  shows "\<exists>out w'. transmit env ka ns s w = Some (out, w') \<and> streaming s resp (sent @ out) w' \<and> (length ns \<le> length out \<or> sent @ out = resp)"
  using assms
proof (induction ns arbitrary: sent w)
  case (Cons n ns)
  obtain c w1 where S: "conn_of (skts w s) = Some c" "lts_send (http_core_itfc env) ka (Inr (length (take n (pending (sbuf c))))) s w = Some w1"
      "streaming s resp (sent @ take n (pending (sbuf c))) w1" "pending (sbuf c) = [] \<longleftrightarrow> lts_buffer_empty (sbuf c)"
    using send_streams [OF Cons.prems(1)] Cons.prems(2) by (metis list.set_intros(1))
  let ?o = "take n (pending (sbuf c))"
  obtain out w' where T: "transmit env ka ns s w1 = Some (out, w')" "streaming s resp ((sent @ ?o) @ out) w'"
      "length ns \<le> length out \<or> (sent @ ?o) @ out = resp"
    using Cons.IH [OF S(3)] Cons.prems(2) by auto
  have "length (n # ns) \<le> length (?o @ out) \<or> sent @ ?o @ out = resp"
  proof (cases "pending (sbuf c) = []")
    case True
    then have "sent = resp" using Cons.prems(1) S(1,4) by (simp add: streaming_def)
    then show ?thesis using streaming_prefix [OF T(2)] True by simp
  next
    case False
    then have "1 \<le> length ?o" using Cons.prems(2) by (simp add: Suc_le_eq)
    then have "length ns \<le> length out \<Longrightarrow> length (n # ns) \<le> length (?o @ out)"
      unfolding length_append list.size by linarith
    then show ?thesis using T(3) by auto
  qed
  then show ?case using S(1,2) T(1,2) by simp
qed (auto simp: streaming_def)

section \<open>The answer\<close>

lemma header_size: "header_format_size = 99" "99 \<le> length (HTTP_200_HEADER n mime) + 5"
  by (simp_all add: header_format_size_def HTTP_200_HEADER_def lit_def crlf_def dec_def)

lemma http_answer_file:
  assumes c: "conn_of (skts w s) = Some c" and b: "buffer_ok (sbuf c)" "lts_buffer_empty (sbuf c)"
      "b_end (sbuf c) - b_start (sbuf c) < 2 ^ 63" "int (length hdr) < b_end (sbuf c) - b_start (sbuf c)"
    and f: "0 \<notin> set path" "d_dir (ht_disk w) path = Some i" "\<not> d_isdir (ht_disk w) i" "d_access (ht_disk w) path"
    and e: "he_req e \<noteq> 0" "he_name_mem e" "file_type path = Some ext"
    and h: "hdr = HTTP_200_HEADER (length (d_data (ht_disk w) i)) (mime_of ext)"
  shows "\<exists>w'. http_answer e path s w = Some w' \<and> streaming s (hdr @ d_data (ht_disk w) i) [] w'"
proof -
  let ?fl = "\<lparr> o_write = False, o_creat = False, o_excl = False, o_append = False \<rparr>" and ?d = "ht_disk w" and ?X = "d_data (ht_disk w) i"
  let ?g = "(ht_files w (he_req e))\<lparr> f_fd := -1, f_name := \<lparr> s_data = path @ [0], s_len = length path \<rparr> \<rparr>"
  let ?f = "?g\<lparr> f_fd := d_fd ?d, f_rseek := 0 \<rparr>" and ?d' = "?d\<lparr> d_fds := (d_fds ?d)(d_fd ?d \<mapsto> (i, False)), d_fd := d_fd ?d + 1 \<rparr>"
  let ?b = "sbuf c"
  have o: "lts_file_open True ?fl ?g ?d = Some (None, ?f, ?d')"
    using f cstr_terminated [of path "[]"] by (simp add: lts_file_open_def rdn_def sys_open_def new_fd_def)
  have r: "int (buffer_room ?b) = b_end ?b - b_start ?b" using room_eq [OF b(1)] b(2,3) by (simp add: lts_buffer_empty_def)
  then have lt: "length hdr < buffer_room ?b" using b(4) by simp
  have rs: "\<not> header_format_size > (buffer_room ?b + 32) mod 2 ^ 64"
    using lt r b(3) header_size(2) [of "length ?X" "mime_of ext"] unfolding header_size(1) h by simp
  obtain m where m: "http_print hdr ?b = Some (?b\<lparr> b_mem := m, b_last := b_last ?b + int (length hdr) \<rparr>)"
      "buffer_ok (?b\<lparr> b_mem := m, b_last := b_last ?b + int (length hdr) \<rparr>)"
      "pending (?b\<lparr> b_mem := m, b_last := b_last ?b + int (length hdr) \<rparr>) = pending ?b @ hdr"
    using http_print_correct [OF b(1) lt] b(3) by auto
  let ?b' = "?b\<lparr> b_mem := m, b_last := b_last ?b + int (length hdr) \<rparr>"
  let ?w = "set_sbuf s ?b' (upd_skt s (\<lambda>k. k\<lparr> app_ctx := he_req e \<rparr>) (w\<lparr> ht_disk := ?d', ht_files := (ht_files w)(he_req e := ?f) \<rparr>))"
  have p: "pending ?b' = hdr" using m(3) pending_empty [OF b(1,2)] by simp
  have ne: "hdr \<noteq> []" using header_size(2) [of "length ?X" "mime_of ext"] h by auto
  have nb: "\<not> lts_buffer_empty ?b'" by (rule pending_not_empty [OF m(2)]) (use p ne in simp)
  have a: "http_answer e path s w = Some ?w"
    using c o e rs m(1) by (simp add: http_answer_def Let_def h [symmetric])
  have cw: "conn_of (skts ?w s) = Some (c\<lparr> sbuf := ?b' \<rparr>)" "app_ctx (skts ?w s) = he_req e"
    using c by (simp_all add: upd_skt_def)
  have files: "ht_files ?w (he_req e) = ?f" "ht_disk ?w = ?d'" by simp_all
  have "streaming s (hdr @ ?X) [] ?w"
    unfolding streaming_def cw(2) files
  proof (intro exI conjI)
    show "conn_of (skts ?w s) = Some (c\<lparr> sbuf := ?b' \<rparr>)" by (rule cw(1))
  qed (use b(3,4) m(2) nb p ne e(1) f(3) in auto)
  then show ?thesis using a by blast
qed


section \<open>The contract\<close>

lemma net_same_http [simp]: "net_same w (h\<lparr> ht_disk := d \<rparr>) = net_same w h" "net_same w (h\<lparr> ht_files := f \<rparr>) = net_same w h"
  by (simp_all add: net_same_def)

lemma http_answer_frame: "http_answer e path s w = Some w' \<Longrightarrow> net_same w w'"
  by (auto simp: http_answer_def Let_def bind_eq_Some_conv split: if_splits)

lemma http_service_frame: "http_core_service e s w = Some w' \<Longrightarrow> net_same w w'"
  by (auto simp: http_core_service_def Let_def bind_eq_Some_conv split: if_splits option.splits)
    (metis net_same_trans net_same_steps(1,2) http_answer_frame less_irrefl)

lemma http_send_more_frame: "http_core_send_more s w = Some w' \<Longrightarrow> net_same w w'"
  by (auto simp: http_core_send_more_def Let_def bind_eq_Some_conv split: if_splits prod.splits sum.splits)

interpretation http_core: plain_app "http_core_itfc env" for env
  by unfold_locales (auto simp: http_core_itfc_def callback_def http_core_on_connected_def intro: http_service_frame http_send_more_frame)

section \<open>A file that cannot be read\<close>

lemma read_error_crashes:
  assumes c: "conn_of (skts w s) = Some c" and b: "buffer_ok (sbuf c)" "pending (sbuf c) \<noteq> []" "b_start (sbuf c) < b_end (sbuf c)"
    and r: "app_ctx (skts w s) \<noteq> 0" "f = ht_files w (app_ctx (skts w s))" "case d_fds (ht_disk w) (f_fd f) of None \<Rightarrow> True | Some (i, _) \<Rightarrow> d_isdir (ht_disk w) i"
  shows "\<exists>w'. lts_send (http_core_itfc env) ka (Inr (length (pending (sbuf c)))) s w = Some w' \<and>
    (\<forall>tx. lts_send (http_core_itfc env) ka tx s w' = None)"
proof -
  let ?b = "sbuf c"
  let ?b1 = "?b\<lparr> b_seek := b_seek ?b + int (length (pending ?b)) \<rparr>"
  let ?b2 = "lts_buffer_clear ?b1"
  let ?b3 = "?b2\<lparr> b_last := b_last ?b2 - 1 \<rparr>"
  let ?w2 = "set_sbuf s ?b2 (set_sbuf s ?b1 w)"
  have l: "int (length (pending ?b)) = b_last ?b - b_seek ?b" using length_pending [OF b(1)] by (simp add: lts_buffer_pending_def)
  have sk: "b_seek ?b < b_last ?b" using l b(2) by (metis diff_gt_0_iff_gt length_greater_0_conv of_nat_0_less_iff)
  have ne: "\<not> lts_buffer_empty ?b" by (rule pending_not_empty [OF b(1,2)])
  have e: "lts_buffer_empty ?b3 = False" "b_seek ?b3 \<ge> b_last ?b3" by (simp_all add: lts_buffer_empty_def lts_buffer_clear_def)
  have "\<exists>err. lts_file_read f n (ht_disk w) = (Inl err, f)" for n
    using r(3) by (auto simp: lts_file_read_def sys_pread_def split: option.splits)
  then obtain err where err: "lts_file_read f (buffer_room ?b2) (ht_disk w) = (Inl err, f)" by blast
  have more: "http_core_send_more s ?w2 = Some (set_sbuf s ?b3 ?w2)"
    using c r(1) err b(3) by (simp add: http_core_send_more_def Let_def r(2) [symmetric] lts_buffer_full_def lts_buffer_clear_def)
  have "lts_send (http_core_itfc env) ka (Inr (length (pending ?b))) s w = Some (set_sbuf s ?b3 ?w2)"
    using c ne sk l more e(1) by (simp add: lts_send_def send_done_def Let_def http_core_itfc_def)
  moreover have "lts_send (http_core_itfc env) ka tx s (set_sbuf s ?b3 ?w2) = None" for tx
    using c e by (simp add: lts_send_def Let_def)
  ultimately show ?thesis by blast
qed

text \<open>C40. A response whose file cannot be read crashes the worker: a request for a directory, which \<open>open\<close> accepts, or
  a 404 on a connection whose last file was sent and closed.  When the pending bytes have been sent, \<open>pread\<close>
  fails, its -1 moves \<open>last\<close> before \<open>start\<close>, and the next \<open>lts_send\<close> aborts.\<close>

theorem http_read_error_crashes:
  assumes "conn_of (skts w s) = Some c" and "buffer_ok (sbuf c)" and "pending (sbuf c) \<noteq> []" and "b_start (sbuf c) < b_end (sbuf c)"
    and "app_ctx (skts w s) \<noteq> 0" and "f = ht_files w (app_ctx (skts w s))"
    and "case d_fds (ht_disk w) (f_fd f) of None \<Rightarrow> True | Some (i, _) \<Rightarrow> d_isdir (ht_disk w) i"
  shows "\<exists>w'. lts_send (http_core_itfc env) ka (Inr (length (pending (sbuf c)))) s w = Some w' \<and>
    (\<forall>tx. lts_send (http_core_itfc env) ka tx s w' = None)"
  by (rule read_error_crashes [OF assms])

section \<open>Witnesses\<close>

text \<open>A disk with the file \<open>/a.txt\<close>, or with a directory of that name, and a client that asks for it.\<close>

definition sample_disk :: "bstr \<Rightarrow> bool \<Rightarrow> disk" where
  "sample_disk X dir = \<lparr> d_dir = [lit ''//a.txt'' \<mapsto> 0], d_data = (\<lambda>_. X), d_isdir = (\<lambda>_. dir), d_fds = Map.empty, d_inode = 1, d_fd = 3,
     d_access = (\<lambda>_. True), d_parent = (\<lambda>_. True) \<rparr>"

definition sample_line :: bstr where
  "sample_line = lit ''GET /a.txt HTTP/1.1''"

definition sample_http_env :: http_env where
  "sample_http_env = \<lparr> he_req = 8, he_path = 16, he_name_mem = True, he_ftype = None \<rparr>"

lemma http_client:
  "\<exists>(w :: http) F c. net_inv w F {} \<and> conn_of (skts w 1008) = Some c \<and> rbuf c = buffer_with (sample_line @ crlf @ crlf) 400 \<and>
     sbuf c = buffer_with out 400 \<and> app_ctx (skts w 1008) = a \<and> ht_disk w = d \<and> ht_files w a = f"
proof -
  obtain w0 :: http and F c where w0: "net_inv w0 F {}" "live w0 = {1008}" "conn_of (skts w0 1008) = Some c"
    using server_with_client by blast
  let ?w1 = "set_sbuf 1008 (buffer_with out 400) (set_rbuf 1008 (buffer_with (sample_line @ crlf @ crlf) 400) w0)"
  let ?w = "upd_skt 1008 (\<lambda>k. k\<lparr> app_ctx := a \<rparr>) (?w1\<lparr> ht_disk := d, ht_files := (\<lambda>_. f) \<rparr>)"
  have "net_same w0 ?w" by simp
  then have "net_inv ?w F {}" using net_same_keeps w0(1) by blast
  then show ?thesis using w0(3) by (intro exI [of _ ?w]) (auto simp: upd_skt_def set_rbuf_def)
qed

lemma sample_uri: "uri_of sample_line = lit ''/a.txt''" "0x0D \<notin> set sample_line" "req_path (lit ''/a.txt'') = lit ''//a.txt''"
  "0 \<notin> set (lit ''//a.txt'')" "file_type (lit ''//a.txt'') = Some (lit ''txt'')" "mime_of (lit ''txt'') = lit ''text/plain''"
  by (simp_all add: sample_line_def uri_of_def lit_def req_path_def http_cwd_def file_type_def mime_of_def mime_types_def tolower_def)


theorem http_read_error_crashes_witness:
  "\<exists>(w :: http) w'. d_isdir (ht_disk w) 0 \<and> lts_send (http_core_itfc (\<lambda>_ _. sample_http_env)) 60 (Inr 2) 1008 w = Some w' \<and>
     lts_send (http_core_itfc (\<lambda>_ _. sample_http_env)) 60 (Inl E_AGAIN) 1008 w' = None"
proof -
  let ?d = "(sample_disk [] True)\<lparr> d_fds := [3 \<mapsto> (0, False)] \<rparr>"
  let ?f = "\<lparr> f_fd = 3, f_name = \<lparr> s_data = [0], s_len = 0 \<rparr>, f_rseek = 0, f_wseek = 0 \<rparr>"
  obtain w :: http and c where w: "conn_of (skts w 1008) = Some c" "sbuf c = buffer_with [1, 2] 400" "ht_disk w = ?d"
      "app_ctx (skts w 1008) = 8" "ht_files w 8 = ?f"
    using http_client [of "[1, 2]" 8 ?d ?f] by blast
  have b: "buffer_ok (sbuf c)" "pending (sbuf c) = [1, 2]" "b_start (sbuf c) < b_end (sbuf c)"
    using w(2) buffer_with_ok [of "[1, 2]" 400] by (simp_all add: buffer_with_def)
  have d: "d_isdir (ht_disk w) 0" using w(3) by (simp add: sample_disk_def)
  obtain w' where "lts_send (http_core_itfc (\<lambda>_ _. sample_http_env)) 60 (Inr 2) 1008 w = Some w'"
      "\<forall>tx. lts_send (http_core_itfc (\<lambda>_ _. sample_http_env)) 60 tx 1008 w' = None"
    using http_read_error_crashes [OF w(1) b(1) _ b(3) _ refl, of "\<lambda>_ _. sample_http_env" 60] b(2) d w(3-5)
    by (auto simp: numeral_2_eq_2)
  then show ?thesis using d by blast
qed

end
