(* ===== verification/BackendApps.thy ===== *)
theory BackendApps
  imports ConfMain FileIO P2pServer
begin

text \<open>
  The applications \<open>src/modules/mod_app_asyn_backend.c\<close> and \<open>src/modules/mod_app_sync_backend.c\<close>, with their
  configurations \<open>src/modules/conf_asyn.c\<close> and \<open>src/modules/conf_sync.c\<close>.

  What a client sends is put behind the identity of its connection and pushed through a pair of sockets to
  a thread, which is to talk to a backend server and, so far, sends it back.  The two modules have the
  same start, end and service; they differ in their thread and in what they do with what comes back.
\<close>

section \<open>Configuration\<close>

text \<open>The handlers of both tables only print what they get.\<close>

record lts_conf_asyn =
  as_host :: bstr
  as_port :: int

definition lts_asyn_conf :: lts_conf_asyn where
  "lts_asyn_conf = \<lparr> as_host = lit ''127.0.0.1'', as_port = 6666 \<rparr>"

definition asyn_host_match :: "lts_conf_asyn conf_handler" where
  "asyn_host_match k v c h = Some (c, h)"

definition asyn_port_match :: "lts_conf_asyn conf_handler" where
  "asyn_port_match k v c h = Some (c, h)"

definition lts_conf_asyn_items :: "lts_conf_asyn conf_item list" where
  "lts_conf_asyn_items =
     [\<lparr> ci_name = lit ''host'', ci_handler = Some asyn_host_match \<rparr>, \<lparr> ci_name = lit ''port'', ci_handler = Some asyn_port_match \<rparr>]"

definition load_asyn_config :: "conf_file \<Rightarrow> addr \<Rightarrow> lts_conf_asyn \<Rightarrow> jheap \<Rightarrow> (int \<times> lts_conf_asyn \<times> jheap) option" where
  "load_asyn_config f out conf h = load_config f lts_conf_asyn_items out conf h"

record lts_conf_sync =
  sy_host :: bstr
  sy_port :: int

definition lts_sync_conf :: lts_conf_sync where
  "lts_sync_conf = \<lparr> sy_host = lit ''127.0.0.1'', sy_port = 6666 \<rparr>"

definition sync_host_match :: "lts_conf_sync conf_handler" where
  "sync_host_match k v c h = Some (c, h)"

definition sync_port_match :: "lts_conf_sync conf_handler" where
  "sync_port_match k v c h = Some (c, h)"

definition lts_conf_sync_items :: "lts_conf_sync conf_item list" where
  "lts_conf_sync_items =
     [\<lparr> ci_name = lit ''host'', ci_handler = Some sync_host_match \<rparr>, \<lparr> ci_name = lit ''port'', ci_handler = Some sync_port_match \<rparr>]"

definition load_sync_config :: "conf_file \<Rightarrow> addr \<Rightarrow> lts_conf_sync \<Rightarrow> jheap \<Rightarrow> (int \<times> lts_conf_sync \<times> jheap) option" where
  "load_sync_config f out conf h = load_config f lts_conf_sync_items out conf h"

section \<open>State\<close>

text \<open>\<open>s_ctx\<close> and \<open>s_running\<close>: the socket of the channel (0 is NULL) and the push buffer (\<open>None\<close> is NULL);
  \<open>bk_out\<close> are the bytes in the channel on their way to the thread.\<close>

record backend = net +
  bk_cs :: addr
  bk_push :: "buffer option"
  bk_running :: bool
  bk_out :: bstr

section \<open>Frames\<close>

text \<open>A number of \<open>n\<close> bytes as the machine stores it, and back.\<close>

fun le_bytes :: "nat \<Rightarrow> int \<Rightarrow> bstr" where
  "le_bytes 0 x = []"
| "le_bytes (Suc n) x = word_of_int x # le_bytes n (x div 256)"

fun le_value :: "bstr \<Rightarrow> int" where
  "le_value [] = 0"
| "le_value (b # bs) = uint b + 256 * le_value bs"

text \<open>An \<open>int64_t\<close> in its 8 bytes.\<close>

definition le_signed :: "bstr \<Rightarrow> int" where
  "le_signed bs = (let n = le_value bs in if n < 2 ^ 63 then n else n - 2 ^ 64)"

section \<open>Service\<close>

text \<open>What \<open>lts_buffer_append\<close> would need for a larger buffer, and what \<open>send\<close> returns.\<close>

record push_env =
  pe_base :: layout
  pe_pagesize :: nat
  pe_mem :: bool
  pe_junk :: "nat \<Rightarrow> byte"
  pe_send :: "errno + nat"

definition push_append :: "push_env \<Rightarrow> buffer \<Rightarrow> bstr \<Rightarrow> buffer option" where
  "push_append e b data = do {
     (_, b) \<leftarrow> lts_buffer_append (pe_base e) (pe_pagesize e) (pe_mem e) (pe_junk e) b data (int (length data));
     Some b }"

definition asyn_backend_service :: "push_env \<Rightarrow> addr \<Rightarrow> backend \<Rightarrow> backend option" where
  "asyn_backend_service e s w = do {
     c \<leftarrow> conn_of (skts w s);
     let rb = rbuf c;
     push \<leftarrow> bk_push w;
     let sending_sz = 8 + 8 + (b_last rb - b_seek rb);
     if b_limit push = 0 then None
     else if b_end push - b_last push < sending_sz then Some w
     else do {
       data \<leftarrow> rdn (b_mem rb) (b_seek rb - b_start rb) (b_last rb - b_seek rb);
       push \<leftarrow> push_append e push (le_bytes 8 (born_time (skts w s)));
       push \<leftarrow> push_append e push (le_bytes 8 (int s));
       push \<leftarrow> push_append e push data;
       let w = set_rbuf s (lts_buffer_clear rb) w;
       out \<leftarrow> rdn (b_mem push) (b_seek push - b_start push) (b_last push - b_seek push);
       case pe_send e of
         Inl err \<Rightarrow> if err = E_AGAIN \<or> err = E_WOULDBLOCK then Some (w\<lparr> bk_push := Some push \<rparr>) else None
       | Inr sent \<Rightarrow> do {
           push \<leftarrow> lts_buffer_drop_accessed (push\<lparr> b_seek := b_seek push + int sent \<rparr>);
           Some (w\<lparr> bk_push := Some push, bk_out := bk_out w @ take sent out \<rparr>) } } }"

text \<open>The other module has the same function, line by line.\<close>

definition sync_backend_service :: "push_env \<Rightarrow> addr \<Rightarrow> backend \<Rightarrow> backend option" where
  "sync_backend_service e s w = asyn_backend_service e s w"

definition asyn_backend_on_connected :: "addr \<Rightarrow> backend \<Rightarrow> backend option" where
  "asyn_backend_on_connected s w = Some w"

definition asyn_backend_send_more :: "addr \<Rightarrow> backend \<Rightarrow> backend option" where
  "asyn_backend_send_more s w = Some w"

definition asyn_backend_itfc :: "(addr \<Rightarrow> backend \<Rightarrow> push_env) \<Rightarrow> backend app_itfc" where
  "asyn_backend_itfc env = \<lparr> on_connected = Some asyn_backend_on_connected, service = (\<lambda>s w. asyn_backend_service (env s w) s w),
     send_more = asyn_backend_send_more, on_closing = None \<rparr>"

definition sync_backend_on_connected :: "addr \<Rightarrow> backend \<Rightarrow> backend option" where
  "sync_backend_on_connected s w = Some w"

definition sync_backend_send_more :: "addr \<Rightarrow> backend \<Rightarrow> backend option" where
  "sync_backend_send_more s w = Some w"

definition sync_backend_itfc :: "(addr \<Rightarrow> backend \<Rightarrow> push_env) \<Rightarrow> backend app_itfc" where
  "sync_backend_itfc env = \<lparr> on_connected = Some sync_backend_on_connected, service = (\<lambda>s w. sync_backend_service (env s w) s w),
     send_more = sync_backend_send_more, on_closing = None \<rparr>"

section \<open>The thread and the way back\<close>

text \<open>A round of the thread: the result of \<open>select\<close>, the number of bytes \<open>send\<close> takes, which nobody looks at, and what
  the channel holds.  The result is what is sent back and what is left; \<open>recv\<close> takes at most 4096 bytes.
  On the way the thread prints \<open>recv_buf\<close> from byte 16 to the next NUL, which may lie behind the buffer: that is
  left out.\<close>

abbreviation RECV_BUF_SZ :: nat where "RECV_BUF_SZ \<equiv> 4096"

definition netio_round :: "int \<Rightarrow> nat \<Rightarrow> bstr \<Rightarrow> bstr \<times> bstr" where
  "netio_round nready sent chan =
     (if nready = -1 then ([], chan)
      else if nready = 0 then ([], chan)
      else (take sent (take RECV_BUF_SZ chan), drop RECV_BUF_SZ chan))"

text \<open>\<open>netio_thread_init\<close>: one turn of the loop per answer of \<open>connect\<close>, as long as the module runs.\<close>

fun netio_thread_init :: "bool list \<Rightarrow> int" where
  "netio_thread_init [] = -1"
| "netio_thread_init (ok # oks) = (if ok then 0 else netio_thread_init oks)"

text \<open>The handler of the channel: what comes back is read in pieces of 64 bytes, each taken for the start of a frame.
  \<open>mapped\<close> tells the addresses that can be followed, \<open>junk\<close> what the stack holds.  The result is the
  connection that is recognised.\<close>

definition rs_channel_recv ::
  "(int \<Rightarrow> bool) \<Rightarrow> (nat \<Rightarrow> byte) \<Rightarrow> bstr option \<Rightarrow> addr \<Rightarrow> 'a net_scheme \<Rightarrow> (addr option \<times> 'a net_scheme) option" where
  "rs_channel_recv mapped junk rx cs w = (case rx of
     None \<Rightarrow> Some (None, upd_skt cs (\<lambda>k. k\<lparr> readable := False \<rparr>) w)
   | Some data \<Rightarrow>
       let tmp_buf = take 64 data @ map junk [length (take 64 data)..<256];
           cid = le_signed (take 8 tmp_buf);
           s = le_value (take 8 (drop 8 tmp_buf))
       in if \<not> mapped s then None
          else if cid \<noteq> born_time (skts w (nat s)) then Some (None, w)
          else Some (Some (nat s), w))"

text \<open>The handler of the other module does nothing, and its thread only sleeps.\<close>

definition sync_rs_channel_recv :: "addr \<Rightarrow> 'a net_scheme \<Rightarrow> 'a net_scheme option" where
  "sync_rs_channel_recv cs w = Some w"

section \<open>Start and end\<close>

record backend_start_env =
  bs_pool :: bool
  bs_pipeline :: "int option"
  bs_nonblock :: bool
  bs_push_buf :: "buffer option"
  bs_args :: bool
  bs_thread :: bool

text \<open>\<open>Do_sub\<close> is the handler an application gives its first channel, here \<open>rs_channel_recv\<close>.  The start
  makes its channel as the P2P module does (\<open>alloc_channel\<close>), and keeps the address of the socket.  The
  configuration is loaded after the pool is made; it changes nothing.  The memory for the arguments of the
  thread is not checked; \<open>lts_create_buffer\<close> may leave NULL.\<close>

definition init_asyn_backend_module :: "backend_start_env \<Rightarrow> backend \<Rightarrow> (int \<times> backend) option" where
  "init_asyn_backend_module e w =
     (if \<not> bs_pool e then Some (-1, w)
      else case bs_pipeline e of None \<Rightarrow> Some (-1, w)
      | Some chan \<Rightarrow>
          if \<not> bs_nonblock e then Some (-1, w)
          else do {
            (cs, _) \<leftarrow> lts_alloc_socket w;
            w \<leftarrow> alloc_channel chan Do_sub w;
            let w = w\<lparr> bk_cs := cs, bk_push := bs_push_buf e, bk_running := True \<rparr>;
            if \<not> bs_args e then None
            else Some (if bs_thread e then 0 else -1, w) })"

definition init_sync_backend_module :: "backend_start_env \<Rightarrow> backend \<Rightarrow> (int \<times> backend) option" where
  "init_sync_backend_module e w = init_asyn_backend_module e w"

definition exit_asyn_backend_module :: "backend \<Rightarrow> backend" where
  "exit_asyn_backend_module w = (let w = lts_free_socket (bk_cs w) (w\<lparr> bk_running := False \<rparr>) in w\<lparr> bk_cs := 0 \<rparr>)"

definition exit_sync_backend_module :: "backend \<Rightarrow> backend" where
  "exit_sync_backend_module w = exit_asyn_backend_module w"

section \<open>The contract\<close>

lemma backend_same [simp]: "net_same w (h\<lparr> bk_push := p \<rparr>) = net_same w h" "net_same w (h\<lparr> bk_out := b \<rparr>) = net_same w h"
  by (simp_all add: net_same_def)

lemma backend_bufs [simp]: "bk_out (set_rbuf s b w) = bk_out w" "bk_push (set_rbuf s b w) = bk_push w"
  by (simp_all add: set_rbuf_def upd_skt_def)

lemma asyn_backend_service_same: "asyn_backend_service e s w = Some w' \<Longrightarrow> net_same w w'"
  by (cases "pe_send e") (auto simp: asyn_backend_service_def Let_def bind_eq_Some_conv split: if_splits)

interpretation asyn_backend: plain_app "asyn_backend_itfc env" for env
  by unfold_locales (auto simp: asyn_backend_itfc_def callback_def asyn_backend_on_connected_def asyn_backend_send_more_def
      intro: asyn_backend_service_same)

interpretation sync_backend: plain_app "sync_backend_itfc env" for env
  by unfold_locales (auto simp: sync_backend_itfc_def callback_def sync_backend_on_connected_def sync_backend_send_more_def
      sync_backend_service_def intro: asyn_backend_service_same)

text \<open>Neither configuration can be changed by a file.\<close>

interpretation asyn_table: conf_table lts_conf_asyn_items "\<lambda>_ _ c. c" "\<lambda>_. True"
  by unfold_locales (auto simp: lts_conf_asyn_items_def asyn_host_match_def asyn_port_match_def intro!: exI [of _ "jh_next _"])

interpretation sync_table: conf_table lts_conf_sync_items "\<lambda>_ _ c. c" "\<lambda>_. True"
  by unfold_locales (auto simp: lts_conf_sync_items_def sync_host_match_def sync_port_match_def intro!: exI [of _ "jh_next _"])

section \<open>Frames\<close>

lemma length_le_bytes [simp]: "length (le_bytes n x) = n"
  by (induction n arbitrary: x) auto

lemma le_value_bytes: "le_value (le_bytes n x) = x mod 256 ^ n"
proof (induction n arbitrary: x)
  case (Suc n)
  have "uint (word_of_int x :: byte) = x mod 256" by (simp add: uint_word_of_int)
  then have "le_value (le_bytes (Suc n) x) = x mod 256 + 256 * (x div 256 mod 256 ^ n)" by (simp add: Suc)
  then show ?case using zmod_zmult2_eq [of "256 ^ n" x 256] by simp
qed simp

lemma le_signed_bytes: "- (2 ^ 63) \<le> x \<Longrightarrow> x < 2 ^ 63 \<Longrightarrow> le_signed (le_bytes 8 x) = x"
proof -
  assume x: "- (2 ^ 63) \<le> x" "x < 2 ^ 63"
  have "(x + 2 ^ 64) mod 2 ^ 64 = x + 2 ^ 64" if "x < 0" using x that by (intro mod_pos_pos_trivial) simp_all
  then have "x mod 2 ^ 64 = (if x < 0 then x + 2 ^ 64 else x)" using x by simp
  then show ?thesis using x by (simp add: le_signed_def le_value_bytes Let_def)
qed

text \<open>The frame of a request.\<close>

definition frame_of :: "int \<Rightarrow> addr \<Rightarrow> bstr \<Rightarrow> bstr" where
  "frame_of cid s data = le_bytes 8 cid @ le_bytes 8 (int s) @ data"

lemma length_frame [simp]: "length (frame_of cid s data) = 16 + length data"
  by (simp add: frame_of_def)

lemma push_append_correct:
  assumes "buffer_ok b" and "int (length data) \<le> lts_buffer_space b"
  shows "\<exists>b'. push_append e b data = Some b' \<and> buffer_ok b' \<and> pending b' = pending b @ data \<and> contents b' = contents b @ data \<and> b_start b' = b_start b \<and>
    b_seek b' = b_seek b \<and> b_end b' = b_end b \<and> b_last b' = b_last b + int (length data)"
  using lts_buffer_append_room [OF assms, of "pe_base e" "pe_pagesize e" "pe_mem e" "pe_junk e"] by (auto simp: push_append_def)

lemma rdn_pending: "buffer_ok b \<Longrightarrow> rdn (b_mem b) (b_seek b - b_start b) (b_last b - b_seek b) = Some (pending b)"
proof -
  assume b: "buffer_ok b"
  have "nat (b_last b - b_start b) - nat (b_seek b - b_start b) = nat (b_last b - b_seek b)" using b by (auto simp: buffer_ok_def)
  then show ?thesis using b by (auto simp: rdn_def buffer_ok_def pending_def contents_def drop_take simp flip: nat_add_distrib)
qed

text \<open>A request with room is framed behind what is pending; then \<open>send\<close> takes what it takes.\<close>

lemma service_pushes:
  assumes c: "conn_of (skts w s) = Some c" and rb: "buffer_ok (rbuf c)" and p: "bk_push w = Some push" "buffer_ok push" "b_limit push \<noteq> 0"
    and room: "int (length (frame_of cid s (pending (rbuf c)))) \<le> lts_buffer_space push" and cid: "cid = born_time (skts w s)"
  shows "\<exists>push'. buffer_ok push' \<and> pending push' = pending push @ frame_of cid s (pending (rbuf c)) \<and>
    contents push' = contents push @ frame_of cid s (pending (rbuf c)) \<and>
    b_start push' = b_start push \<and> b_seek push' = b_seek push \<and> b_end push' = b_end push \<and>
    asyn_backend_service e s w = (case pe_send e of
      Inl err \<Rightarrow> if err = E_AGAIN \<or> err = E_WOULDBLOCK
        then Some ((set_rbuf s (lts_buffer_clear (rbuf c)) w)\<lparr> bk_push := Some push' \<rparr>) else None
    | Inr sent \<Rightarrow> do {
        push' \<leftarrow> lts_buffer_drop_accessed (push'\<lparr> b_seek := b_seek push' + int sent \<rparr>);
        Some ((set_rbuf s (lts_buffer_clear (rbuf c)) w)\<lparr> bk_push := Some push',
          bk_out := bk_out w @ take sent (pending push @ frame_of cid s (pending (rbuf c))) \<rparr>) })"
proof -
  let ?d = "pending (rbuf c)"
  have l: "int (length ?d) = b_last (rbuf c) - b_seek (rbuf c)" using length_pending [OF rb] by (simp add: lts_buffer_pending_def)
  have sp: "16 + int (length ?d) \<le> b_end push - b_last push" using room by (simp add: lts_buffer_space_def)
  obtain p1 where p1: "push_append e push (le_bytes 8 cid) = Some p1" "buffer_ok p1" "pending p1 = pending push @ le_bytes 8 cid"
      "contents p1 = contents push @ le_bytes 8 cid" "b_start p1 = b_start push" "b_seek p1 = b_seek push" "b_end p1 = b_end push" "b_last p1 = b_last push + 8"
    using push_append_correct [OF p(2), of "le_bytes 8 cid" e] sp by (auto simp: lts_buffer_space_def)
  obtain p2 where p2: "push_append e p1 (le_bytes 8 (int s)) = Some p2" "buffer_ok p2" "pending p2 = pending p1 @ le_bytes 8 (int s)"
      "contents p2 = contents p1 @ le_bytes 8 (int s)" "b_start p2 = b_start push" "b_seek p2 = b_seek push" "b_end p2 = b_end push" "b_last p2 = b_last push + 16"
    using push_append_correct [OF p1(2), of "le_bytes 8 (int s)" e] sp p1(5-8) by (auto simp: lts_buffer_space_def)
  obtain p3 where p3: "push_append e p2 ?d = Some p3" "buffer_ok p3" "pending p3 = pending p2 @ ?d"
      "contents p3 = contents p2 @ ?d" "b_start p3 = b_start push" "b_seek p3 = b_seek push" "b_end p3 = b_end push"
    using push_append_correct [OF p2(2), of ?d e] sp p2(5-8) by (auto simp: lts_buffer_space_def)
  show ?thesis
    using c p(1,3) sp l rdn_pending [OF rb] rdn_pending [OF p3(2)] p1(1) p2(1) p3(1) cid
    by (intro exI [of _ p3] conjI)
      (simp_all add: asyn_backend_service_def Let_def p1(3,4) p2(3,4) p3(2-7) frame_of_def split: sum.splits)
qed

section \<open>There and back\<close>

lemma empty_pending: "buffer_ok b \<Longrightarrow> lts_buffer_empty b \<Longrightarrow> pending b = [] \<and> contents b = [] \<and> b_seek b = b_start b"
  by (simp add: buffer_ok_def lts_buffer_empty_def pending_def contents_def)

lemma recv_first:
  assumes "mapped (int s)" and "- (2 ^ 63) \<le> cid" and "cid < 2 ^ 63" and "int s < 2 ^ 64" and "born_time (skts w s) = cid"
  shows "rs_channel_recv mapped junk (Some (frame_of cid s data)) cs w = Some (Some s, w)"
proof -
  let ?t = "take 64 (frame_of cid s data) @ map junk [length (take 64 (frame_of cid s data))..<256]"
  have "take 8 ?t = le_bytes 8 cid" "take 8 (drop 8 ?t) = le_bytes 8 (int s)" by (simp_all add: frame_of_def)
  moreover have "le_value (le_bytes 8 (int s)) = int s" using assms(4) by (simp add: le_value_bytes)
  ultimately show ?thesis using assms le_signed_bytes [of cid] by (simp add: rs_channel_recv_def Let_def del: take_append drop_append)
qed

lemma recv_second:
  assumes "\<not> mapped (le_value (take 8 (drop 56 data)))" and "64 \<le> length data"
  shows "rs_channel_recv mapped junk (Some (drop 64 (frame_of cid s data))) cs w = None"
proof -
  let ?d = "drop 64 (frame_of cid s data)"
  have d: "?d = drop 48 data" by (simp add: frame_of_def)
  have "take 8 (drop 8 (take 64 ?d @ xs)) = take 8 (drop 56 data)" for xs
    unfolding d using assms(2) by (auto simp: min_def drop_take)
  then show ?thesis using assms(1) by (simp add: rs_channel_recv_def Let_def del: take_append drop_append)
qed


text \<open>When \<open>send\<close> takes less than half of the pending bytes, what is sent next starts right and then repeats bytes.\<close>

lemma partial_push_corrupts:
  assumes "conn_of (skts w s) = Some c" and "buffer_ok (rbuf c)" and "bk_push w = Some push" and "buffer_ok push" and "lts_buffer_empty push"
    and "b_limit push \<noteq> 0" and "f = frame_of (born_time (skts w s)) s (pending (rbuf c))" and "int (length f) \<le> b_end push - b_start push"
    and "pe_send e = Inr n" and "2 * n \<le> length f"
  shows "\<exists>w' push'. asyn_backend_service e s w = Some w' \<and> bk_push w' = Some push' \<and>
    pending push' = take n (drop n f) @ take (length f - 2 * n) (drop n f)"
proof -
  have "int (length f) \<le> lts_buffer_space push" using assms(5,8) by (simp add: lts_buffer_space_def lts_buffer_empty_def)
  then obtain p where p: "buffer_ok p" "pending p = f" "contents p = f" "b_start p = b_start push" "b_seek p = b_start push" "b_end p = b_end push"
      "asyn_backend_service e s w = do {
        push' \<leftarrow> lts_buffer_drop_accessed (p\<lparr> b_seek := b_seek p + int n \<rparr>);
        Some ((set_rbuf s (lts_buffer_clear (rbuf c)) w)\<lparr> bk_push := Some push', bk_out := bk_out w @ take n f \<rparr>) }"
    using service_pushes [OF assms(1-4,6) _ refl, of e] empty_pending [OF assms(4,5)] assms(7,9) by auto
  let ?q = "p\<lparr> b_seek := b_seek p + int n \<rparr>"
  have l: "int (length f) = b_last p - b_seek p" using length_pending [OF p(1)] p(2) by (simp add: lts_buffer_pending_def)
  have q: "buffer_ok ?q" using p(1) l assms(10) by (auto simp: buffer_ok_def)
  have s: "nat (b_seek ?q - b_start ?q) = n" "nat (lts_buffer_pending ?q) = length f - n" "contents ?q = f"
    using p(3-5) l by (simp_all add: lts_buffer_pending_def contents_def)
  have pq: "pending ?q = drop n f" using p(3-5) by (simp add: pending_def contents_def)
  obtain push' where d: "lts_buffer_drop_accessed ?q = Some push'" "pending push' = take n (drop n f) @ drop n (take (length f - n) f)"
    using lts_buffer_drop_accessed_lemma [OF q] assms(8,10) p(4-6) unfolding s pq by auto
  moreover have "drop n (take (length f - n) f) = take (length f - 2 * n) (drop n f)" by (simp add: drop_take mult_2)
  ultimately show ?thesis using p(7) by auto
qed

lemma backend_client:
  "\<exists>(w :: backend) c. conn_of (skts w 1008) = Some c \<and> rbuf c = buffer_with data 400 \<and> bk_push w = Some push \<and> bk_out w = [] \<and>
     born_time (skts w 1008) = 7"
proof -
  obtain w0 :: backend and c where w0: "conn_of (skts w0 1008) = Some c" using server_with_client by blast
  let ?w = "upd_skt 1008 (\<lambda>k. k\<lparr> born_time := 7 \<rparr>) (set_rbuf 1008 (buffer_with data 400) (w0\<lparr> bk_push := Some push, bk_out := [] \<rparr>))"
  show ?thesis using w0 by (intro exI [of _ ?w]) (auto simp: upd_skt_def set_rbuf_def)
qed


section \<open>The start keeps the invariant\<close>

lemma init_backend_alloc:
  assumes "bs_pool e" and "bs_pipeline e = Some chan" and "bs_nonblock e" and "bs_args e"
    and "lts_alloc_socket w = Some (s, w0)" and "alloc_channel chan Do_sub w = Some w1"
  shows "init_asyn_backend_module e w =
    Some (if bs_thread e then 0 else -1, w1\<lparr> bk_cs := s, bk_push := bs_push_buf e, bk_running := True \<rparr>)"
  using assms by (simp add: init_asyn_backend_module_def)

text \<open>In a worker with a free socket the start takes it for the channel and keeps the invariant of the event loop.\<close>

lemma init_backend_correct:
  assumes "net_inv w F {}" and "F lts_sock_list = s # fs"
    and "bs_pool e" and "bs_pipeline e = Some chan" and "bs_nonblock e" and "bs_args e"
  shows "\<exists>w'. init_asyn_backend_module e w = Some (if bs_thread e then 0 else -1, w') \<and> net_inv w' (F(lts_sock_list := fs)) {} \<and>
    live w' = live w \<and> special w' = insert s (special w) \<and> bk_push w' = bs_push_buf e \<and> bk_running w'"
proof -
  obtain w1 where w1: "alloc_channel chan Do_sub w = Some w1" "net_inv w1 (F(lts_sock_list := fs)) {}" "live w1 = live w" "special w1 = insert s (special w)"
    using alloc_channel_correct [OF assms(1,2), of Do_sub chan] by auto
  obtain a w0 where a: "lts_alloc_socket w = Some (a, w0)" using w1(1) by (auto simp: alloc_channel_def bind_eq_Some_conv)
  let ?w = "w1\<lparr> bk_cs := a, bk_push := bs_push_buf e, bk_running := True \<rparr>"
  have "net_same w1 ?w" by (simp add: net_same_def same_skt_def)
  from net_same_keeps [OF this w1(2)] have "net_inv ?w (F(lts_sock_list := fs)) {}" "live ?w = live w1" by (rule conjunct1, rule conjunct2)
  moreover have "special ?w = special w1" by (simp add: special_def)
  ultimately show ?thesis using init_backend_alloc [OF assms(3-6) a w1(1)] w1(3,4) by (intro exI [of _ ?w]) simp
qed

end
