(* ===== verification/EventModules.thy ===== *)
theory EventModules
  imports ServerProps FileIO
begin

text \<open>
  The start and the end of the event modules as a whole: \<open>init_event_core_master\<close> and its exit
  (\<open>src/modules/mod_event_core.c\<close>), and the epoll module of a worker (\<open>src/modules/mod_event_epoll.c\<close>).

  A worker's channel is the socket that \<open>init_event_core_worker\<close> takes from the cache; the epoll module
  watches it from its start to its end, and the core module puts it back.
\<close>

section \<open>The master\<close>

abbreviation LTS_MAX_PATH_LEN :: nat where "LTS_MAX_PATH_LEN \<equiv> 256"

text \<open>The length of the working directory.\<close>

function cwd_loop :: "byte list \<Rightarrow> nat \<Rightarrow> nat option" where
  "cwd_loop D len =
     (if LTS_MAX_PATH_LEN \<le> len then Some len
      else do { c \<leftarrow> rd D len; if c = 0 then Some len else cwd_loop D (len + 1) })"
  by auto
termination by (relation "measure (\<lambda>(D, len). LTS_MAX_PATH_LEN - len)") auto

declare cwd_loop.simps [simp del]

text \<open>What \<open>getcwd\<close> leaves in the buffer (\<open>None\<close> when it fails), the pool, the page of the accept lock, and what
  \<open>alloc_listen_sockets\<close> finds.\<close>

record event_start_env =
  ev_getcwd :: "byte list option"
  ev_pool :: bool
  ev_mmap :: "int option"
  ev_gai :: "listen_record list option"
  ev_array :: bool
  ev_maxc :: int
  ev_base :: addr
  ev_sz :: nat

text \<open>\<open>lts_cwd\<close>, \<open>lts_accept_lock\<close> and \<open>lts_listen_array\<close>.\<close>

record event_globals =
  eg_cwd :: lts_str
  eg_lock :: lts_shm
  eg_listen :: "addr list"

definition init_event_core_master ::
  "event_start_env \<Rightarrow> event_globals \<Rightarrow> 'a net_scheme \<Rightarrow> (int \<times> event_globals \<times> 'a net_scheme) option" where
  "init_event_core_master e g w = (case ev_getcwd e of
     None \<Rightarrow> Some (-1, g, w)
   | Some buf \<Rightarrow> do {
       len \<leftarrow> cwd_loop buf 0;
       let g = g\<lparr> eg_cwd := \<lparr> s_data = buf, s_len = len \<rparr> \<rparr>;
       if \<not> ev_pool e then Some (-1, g, w)
       else do {
         let (r, lock) = lts_shm_alloc (ev_mmap e) (eg_lock g);
         let g = g\<lparr> eg_lock := lock \<rparr>;
         if r \<noteq> 0 then Some (r, g, w)
         else do {
           (r, ls, w) \<leftarrow> alloc_listen_sockets (ev_gai e) (ev_array e) (ev_maxc e) (ev_base e) (ev_sz e) w;
           Some (r, g\<lparr> eg_listen := ls \<rparr>, w) } } })"

text \<open>The descriptors that \<open>free_listen_sockets\<close> closes.\<close>

definition free_listen_sockets :: "event_globals \<Rightarrow> 'a net_scheme \<Rightarrow> int list" where
  "free_listen_sockets g w = map (\<lambda>ls. fd (skts w ls)) (eg_listen g)"

section \<open>The epoll module\<close>

text \<open>The pool, the epoll descriptor, the memory of the events.\<close>

record epoll_env =
  ep_pool :: bool
  ep_fd :: int
  ep_events :: bool

definition init_event_epoll_worker :: "epoll_env \<Rightarrow> addr \<Rightarrow> 'a net_scheme \<Rightarrow> int \<times> 'a net_scheme" where
  "init_event_epoll_worker e chan w =
     (if \<not> ep_pool e then (-1, w)
      else if ep_fd e = -1 then (-1, w)
      else if \<not> ep_events e then (-1, w)
      else (0, epoll_event_add chan w))"

definition exit_event_epoll_worker :: "addr \<Rightarrow> 'a net_scheme \<Rightarrow> 'a net_scheme" where
  "exit_event_epoll_worker chan w = epoll_event_del chan w"

section \<open>Facts\<close>

lemma cwd_loop_correct:
  assumes "0 \<in> set (drop len buf)" and "length buf \<le> LTS_MAX_PATH_LEN"
  shows "cwd_loop buf len = Some (len + length (cstr (drop len buf)))"
  using assms
proof (induction buf len rule: cwd_loop.induct)
  case (1 buf len)
  have l: "len < length buf" using 1(2) by (cases "len < length buf") auto
  then have d: "drop len buf = buf ! len # drop (len + 1) buf" by (simp add: Cons_nth_drop_Suc)
  show ?case
  proof (cases "buf ! len = 0")
    case True
    then show ?thesis using l 1(3) d by (simp add: cwd_loop.simps [of buf len] rd_def cstr_def)
  next
    case False
    then have "cwd_loop buf (len + 1) = Some (len + 1 + length (cstr (drop (len + 1) buf)))"
      using 1(1) [of "buf ! len"] 1(2,3) l d by (simp add: rd_def)
    then show ?thesis using l 1(3) d False by (simp add: cwd_loop.simps [of buf len] rd_def cstr_def)
  qed
qed

lemma init_socket_interest: "lts_init_socket s w = Some w' \<Longrightarrow> interest w' = interest w"
  by (auto simp: lts_init_socket_def skt_timer_init_def upd_skt_def upd_links_def Let_def bind_eq_Some_conv)

lemma listen_loop_interest: "listen_loop rs ls w = Some (ls', w') \<Longrightarrow> interest w' = interest w"
  by (induction rs arbitrary: ls w) (auto simp: bind_eq_Some_conv upd_skt_def dest!: init_socket_interest split: if_splits)

lemma alloc_listen_interest: "alloc_listen_sockets gai arr maxc base sz w = Some (r, ls, w') \<Longrightarrow> interest w' = interest w"
  by (auto simp: alloc_listen_sockets_def init_sock_cache_def upd_links_def Let_def bind_eq_Some_conv dest!: listen_loop_interest split: if_splits option.splits)

lemma core_worker_facts:
  assumes "init_event_core_worker fd0 w = Some (s, w')"
  shows "interest w' = interest w" "fd (skts w' s) = fd0" "ev_mask (skts w' s) = or EPOLLET EPOLLIN" "do_read (skts w' s) = Do_channel"
  using assms by (auto simp: init_event_core_worker_def lts_alloc_socket_def upd_skt_def upd_links_def Let_def bind_eq_Some_conv
      dest!: init_socket_interest split: if_splits)

lemma epoll_add_same: "net_same w (epoll_event_add s w)"
  by (simp add: epoll_event_add_def net_same_def Let_def)

lemma epoll_del_same: "net_same w (epoll_event_del s w)"
  by (simp add: epoll_event_del_def net_same_def)

section \<open>From the start to the end\<close>

text \<open>The three starts one after the other.\<close>

definition event_start :: "event_start_env \<Rightarrow> event_globals \<Rightarrow> int \<Rightarrow> epoll_env \<Rightarrow> 'a net_scheme \<Rightarrow> (event_globals \<times> addr \<times> 'a net_scheme) option" where
  "event_start e g chan_fd ep w = do {
     (r, g, w) \<leftarrow> init_event_core_master e g w;
     if r \<noteq> 0 then None
     else do {
       (chan, w) \<leftarrow> init_event_core_worker chan_fd w;
       let (r, w) = init_event_epoll_worker ep chan w;
       if r \<noteq> 0 then None else Some (g, chan, w) } }"

text \<open>C23. The event modules start and end well.  When the sockets can be made, master and worker start in fresh
  memory: the working directory is stored, the channel is the first socket of the cache and is watched by
  epoll, and the invariant of the event loops holds.  When they end, in any state the loops can leave that has
  the channel intact, epoll no longer watches the channel, and its socket is back in the cache.\<close>

theorem event_modules_start_and_end:
  assumes "fresh_memory w" and "interest w = Map.empty" and "max_conn_ok (ev_maxc e)" and "apart rs (ev_base e) (ev_sz e) (nat (ev_maxc e + 64))"
    and "init_event_core_master e g w = Some (0, g1, w1)" and "ev_gai e = Some rs" and "ev_getcwd e = Some buf" and "0 \<in> set buf" and "length buf \<le> 256"
    and "ep_pool ep" and "ep_fd ep \<noteq> -1" and "ep_events ep"
  shows "(\<exists>w3 F. event_start e g chan_fd ep w = Some (g1, ev_base e, w3) \<and> chars (eg_cwd g1) = cstr buf \<and> net_inv w3 F {} \<and> live w3 = {} \<and>
      special w3 = insert (ev_base e) (set (eg_listen g1)) \<and> length (F lts_sock_list) = nat (ev_maxc e) + 63 \<and>
      map_option fst (interest w3 chan_fd) = Some (or EPOLLET EPOLLIN)) \<and>
    (\<forall>w' F. net_inv w' F {} \<and> do_read (skts w' (ev_base e)) = Do_channel \<longrightarrow>
      sock_lists (exit_event_core_worker (ev_base e) (exit_event_epoll_worker (ev_base e) w')) (moved lts_sock_list (ev_base e) F) \<and>
      interest (exit_event_core_worker (ev_base e) (exit_event_epoll_worker (ev_base e) w')) (fd (skts w' (ev_base e))) = None)"
proof (intro conjI allI impI)
  let ?len = "length (cstr buf)"
  have len: "cwd_loop buf 0 = Some ?len" using cwd_loop_correct [of 0 buf] assms(8,9) by simp
  obtain ls where ls: "alloc_listen_sockets (Some rs) True (ev_maxc e) (ev_base e) (ev_sz e) w = Some (0, ls, w1)" "eg_listen g1 = ls"
      "eg_cwd g1 = \<lparr> s_data = buf, s_len = ?len \<rparr>"
    using assms(5,6,7) len by (cases "ev_array e")
      (auto simp: init_event_core_master_def lts_shm_alloc_def Let_def bind_eq_Some_conv alloc_listen_sockets_def [of _ False] split: if_splits)
  obtain w2 where w2: "init_event_core_worker chan_fd w1 = Some (ev_base e, w2)"
      "net_inv w2 ((\<lambda>_. [])(lts_sock_list := map (\<lambda>i. ev_base e + i * ev_sz e) [1..<nat (ev_maxc e) + 64])) {}" "live w2 = {}"
      "special w2 = insert (ev_base e) (set ls)"
    using server_start_correct [OF assms(1,3,4) ls(1), of chan_fd] by blast
  let ?F = "(\<lambda>_. [])(lts_sock_list := map (\<lambda>i. ev_base e + i * ev_sz e) [1..<nat (ev_maxc e) + 64])" and ?w3 = "epoll_event_add (ev_base e) w2"
  note f = core_worker_facts [OF w2(1)]
  have i: "interest w2 chan_fd = None" using f(1) alloc_listen_interest [OF ls(1)] assms(2) by simp
  have "event_start e g chan_fd ep w = Some (g1, ev_base e, ?w3)"
    using assms(5,10-12) w2(1) by (simp add: event_start_def init_event_epoll_worker_def)
  moreover have "chars (eg_cwd g1) = cstr buf" unfolding ls(3) by (simp add: chars_def cstr_def takeWhile_eq_take [symmetric])
  moreover have "net_inv ?w3 ?F {} \<and> live ?w3 = live w2" by (rule net_same_keeps [OF epoll_add_same w2(2)])
  moreover have "special ?w3 = special w2" by (simp add: special_def epoll_event_add_def Let_def)
  moreover have "map_option fst (interest ?w3 chan_fd) = Some (or EPOLLET EPOLLIN)" using i f(2,3) by (simp add: epoll_event_add_def Let_def)
  ultimately show "\<exists>w3 F. event_start e g chan_fd ep w = Some (g1, ev_base e, w3) \<and> chars (eg_cwd g1) = cstr buf \<and> net_inv w3 F {} \<and> live w3 = {} \<and>
      special w3 = insert (ev_base e) (set (eg_listen g1)) \<and> length (F lts_sock_list) = nat (ev_maxc e) + 63 \<and>
      map_option fst (interest w3 chan_fd) = Some (or EPOLLET EPOLLIN)"
    using w2(3,4) ls(2) by (intro exI [of _ ?w3] exI [of _ ?F]) simp
next
  fix w' F
  assume a: "net_inv w' F {} \<and> do_read (skts w' (ev_base e)) = Do_channel"
  let ?w = "exit_event_epoll_worker (ev_base e) w'"
  have i: "net_inv ?w F {}" unfolding exit_event_epoll_worker_def using net_same_keeps [OF epoll_del_same] a by blast
  have "ev_base e \<in> special ?w" using a by (simp add: special_def exit_event_epoll_worker_def epoll_event_del_def)
  then have "ev_base e \<noteq> 0" "ev_base e \<notin> set (F lts_sock_list)" "movable (links ?w) heads F (ev_base e)" "sock_lists ?w F"
    using i by (auto simp: net_inv_def special_ok_def)
  then show "sock_lists (exit_event_core_worker (ev_base e) ?w) (moved lts_sock_list (ev_base e) F)"
    unfolding exit_event_core_worker_def by (intro free_socket_correct)
  show "interest (exit_event_core_worker (ev_base e) ?w) (fd (skts w' (ev_base e))) = None"
    by (simp add: exit_event_core_worker_def exit_event_epoll_worker_def epoll_event_del_def)
qed

lemma event_modules_start_and_end_witness:
  "\<exists>g w3 F. event_start \<lparr> ev_getcwd = Some (lit ''/srv'' @ [0]), ev_pool = True, ev_mmap = Some 8192, ev_gai = Some [one_record], ev_array = True,
       ev_maxc = 1, ev_base = 1000, ev_sz = 8 \<rparr> \<lparr> eg_cwd = \<lparr> s_data = [], s_len = 0 \<rparr>, eg_lock = \<lparr> shm_addr = None, shm_size = 64 \<rparr>, eg_listen = [] \<rparr>
     6 \<lparr> ep_pool = True, ep_fd = 9, ep_events = True \<rparr> (zero_net ()) = Some (g, 1000, w3) \<and>
     chars (eg_cwd g) = lit ''/srv'' \<and> net_inv w3 F {} \<and> length (F lts_sock_list) = 64 \<and> interest w3 6 \<noteq> None"
proof -
  let ?buf = "lit ''/srv'' @ [0]"
  let ?e = "\<lparr> ev_getcwd = Some ?buf, ev_pool = True, ev_mmap = Some 8192, ev_gai = Some [one_record], ev_array = True,
       ev_maxc = 1, ev_base = 1000, ev_sz = 8 \<rparr>"
  let ?g = "\<lparr> eg_cwd = \<lparr> s_data = [], s_len = 0 \<rparr>, eg_lock = \<lparr> shm_addr = None, shm_size = 64 \<rparr>, eg_listen = [] \<rparr>"
  let ?ep = "\<lparr> ep_pool = True, ep_fd = 9, ep_events = True \<rparr>"
  obtain w1 where w1: "alloc_listen_sockets (Some [one_record]) True 1 1000 8 (zero_net ()) = Some (0, [40], w1)"
    using one_record_listens [of "()"] by (elim exE)
  have z: "0 \<in> set ?buf" "length ?buf \<le> 256" "cstr ?buf = lit ''/srv''" by (simp_all add: lit_def cstr_def)
  obtain g1 where m: "init_event_core_master ?e ?g (zero_net ()) = Some (0, g1, w1)"
    using cwd_loop_correct [of 0 ?buf] z(1,2) w1 by (auto simp: init_event_core_master_def lts_shm_alloc_def Let_def)
  have c: "max_conn_ok (ev_maxc ?e)" by (simp add: max_conn_ok_def)
  have a: "apart [one_record] (ev_base ?e) (ev_sz ?e) (nat (ev_maxc ?e + 64))" using one_record_apart by simp
  have i: "interest (zero_net ()) = Map.empty" by (simp add: zero_net_def)
  show ?thesis
    using event_modules_start_and_end [OF zero_net_fresh i c a m _ _ z(1,2), of ?ep 6] z(3) by auto
qed

end
