(* ===== verification/TextUtil.thy ===== *)
theory TextUtil
  imports AdvNumber Base64
begin

text \<open>
  The small text functions on top of the others: printing and the base64 wrappers of \<open>src/adv_string.c\<close>, and
  \<open>lts_inet_ntoa\<close> of \<open>src/socket.c\<close>, which writes the text of an IPv4 address into a static array of 16 bytes.
\<close>

section \<open>Printing\<close>

text \<open>The characters that go to the stream.\<close>

fun println_loop :: "lts_str \<Rightarrow> nat \<Rightarrow> nat \<Rightarrow> bstr option" where
  "println_loop s i 0 = Some []"
| "println_loop s i (Suc n) = do { c \<leftarrow> rd (s_data s) i; cs \<leftarrow> println_loop s (i + 1) n; Some (c # cs) }"

definition lts_str_println :: "lts_str \<Rightarrow> bstr option" where
  "lts_str_println s = do { cs \<leftarrow> println_loop s 0 (s_len s); Some (cs @ [c_nl]) }"

lemma println_loop_correct: "i + n \<le> length (s_data s) \<Longrightarrow> println_loop s i n = Some (take n (drop i (s_data s)))"
proof (induction n arbitrary: i)
  case (Suc n)
  then have "drop i (s_data s) = s_data s ! i # drop (i + 1) (s_data s)" by (simp add: Cons_nth_drop_Suc)
  then show ?case using Suc by (simp add: rd_def)
qed simp

lemma lts_str_println_correct: "str_ok s \<Longrightarrow> lts_str_println s = Some (chars s @ [c_nl])"
  by (simp add: lts_str_println_def println_loop_correct str_ok_def chars_def)

text \<open>Formatting is not implemented: the result is NULL.\<close>

definition lts_str_sprintf :: "bstr \<Rightarrow> lts_str option" where
  "lts_str_sprintf format = None"

section \<open>Base64 strings\<close>

text \<open>The variants for C strings: \<open>mem\<close> is the memory at the pointer.\<close>

definition lts_str_base64_en :: "byte list \<Rightarrow> byte list \<Rightarrow> lts_str option" where
  "lts_str_base64_en junk mem = lts_str_base64_en2 junk \<lparr> s_data = mem, s_len = length (cstr mem) \<rparr>"

definition lts_str_base64_de :: "byte list \<Rightarrow> byte list \<Rightarrow> lts_str option" where
  "lts_str_base64_de junk mem = lts_str_base64_de2 junk \<lparr> s_data = mem, s_len = length (cstr mem) \<rparr>"

lemma body_size: "(int (length (b64_body xs)) + 3) div 4 * 3 = int (3 * ((length xs + 2) div 3))"
proof (induction xs rule: enc64.induct)
  case (1 a b c r)
  have m: "(4 + m + 3) div 4 = (m + 3) div 4 + 1" for m :: int by linarith
  have n: "(n + 3 + 2) div 3 = (n + 2) div 3 + 1" for n :: int by linarith
  show ?case using m [of "int (length (b64_body r))"] n [of "int (length r)"] 1 by (simp add: zdiv_int algebra_simps)
qed (simp_all add: b64_body_simps)

text \<open>Encoding a string and decoding the result gives its characters back, but the length is rounded up to a
  multiple of three.\<close>

theorem str_base64_round_trip:
  assumes "str_ok src" and "xs = chars src" and "xs \<noteq> []"
    and "base64_encode_len (int (length xs)) \<le> int (length junk)" and "3 * ((length xs + 2) div 3) < length junk'"
  shows "\<exists>enc dst. lts_str_base64_en2 junk src = Some enc \<and> chars enc = enc64 xs \<and> lts_str_base64_de2 junk' enc = Some dst \<and>
    take (length xs) (s_data dst) = xs \<and> s_len dst = 3 * ((length xs + 2) div 3)"
proof -
  let ?n = "length xs" and ?l = "base64_encode_len (int (length xs))"
  have src: "s_data src = xs @ drop (s_len src) (s_data src)" "s_len src = ?n" using assms(1,2) by (simp_all add: chars_def str_ok_def)
  have l: "?l = int (length (enc64 xs)) + 1"
    using assms(3) by (simp add: base64_encode_len_def length_enc64 c_div_nonneg zdiv_int add.commute)
  let ?b = "take (nat ?l) junk"
  have bl: "?l \<le> int (length ?b)" using assms(4) l by simp
  obtain D where D: "base64_encode ?b (s_data src) (int ?n) = Some (enc64 xs @ 0 # D, ?l)"
    using base64_encode_correct [OF bl assms(3)] src(1) by metis
  let ?enc = "\<lparr> s_data = enc64 xs @ 0 # D, s_len = length (enc64 xs) \<rparr>"
  have e: "lts_str_base64_en2 junk src = Some ?enc" using D l src(2) by (simp add: lts_str_base64_en2_def)
  have dl: "base64_decode_len (enc64 xs @ 0 # D) = Some (int (3 * ((?n + 2) div 3)) + 1)"
    using body_size [of xs] by (simp add: base64_decode_len_def b64_span_enc64 c_div_nonneg)
  let ?k = "3 * ((?n + 2) div 3)"
  have k: "?n \<le> ?k" by linarith
  have "length xs < length (take (nat (int ?k + 1)) junk')" using k assms(5) by simp
  from base64_decode_enc64 [OF this, of D] e dl show ?thesis
    by (auto simp: lts_str_base64_de2_def chars_def)
qed

section \<open>Addresses\<close>

text \<open>\<open>strcat\<close>: the text goes behind the characters before the NUL.\<close>

definition strcat :: "byte list \<Rightarrow> bstr \<Rightarrow> byte list option" where
  "strcat D s = (if 0 \<notin> set D then None else wrn D (int (length (cstr D))) (s @ [0]))"

text \<open>\<open>lts_uint322cstr\<close> returns its own static array, \<open>R\<close>.\<close>

definition cat_number :: "byte list \<Rightarrow> byte \<Rightarrow> byte list \<Rightarrow> (byte list \<times> byte list) option" where
  "cat_number D b R = do { R \<leftarrow> lts_uint322cstr R (ucast b); D \<leftarrow> strcat D (cstr R); Some (D, R) }"

definition lts_inet_ntoa :: "byte \<Rightarrow> byte \<Rightarrow> byte \<Rightarrow> byte \<Rightarrow> byte list \<Rightarrow> (byte list \<times> byte list) option" where
  "lts_inet_ntoa u0 u1 u2 u3 R = do {
     let D = replicate 16 0;
     (D, R) \<leftarrow> cat_number D u0 R;
     D \<leftarrow> strcat D (lit ''.'');
     (D, R) \<leftarrow> cat_number D u1 R;
     D \<leftarrow> strcat D (lit ''.'');
     (D, R) \<leftarrow> cat_number D u2 R;
     D \<leftarrow> strcat D (lit ''.'');
     cat_number D u3 R }"

section \<open>Correctness\<close>

text \<open>An array that holds the text \<open>t\<close>.\<close>

definition holds :: "byte list \<Rightarrow> bstr \<Rightarrow> bool" where
  "holds D t \<longleftrightarrow> length D = 16 \<and> cstr D = t \<and> 0 \<in> set D"

lemma strcat_correct:
  assumes "holds D t" and "0 \<notin> set s" and "length t + length s < 16"
  shows "\<exists>D'. strcat D s = Some D' \<and> holds D' (t @ s)"
proof -
  obtain xs ys where D: "D = xs @ 0 # ys" "0 \<notin> set xs" using assms(1) split_list_first [of 0 D] by (auto simp: holds_def)
  then have x: "cstr D = xs" using cstr_terminated by auto
  then have t: "t = xs" using assms(1) by (simp add: holds_def)
  let ?D = "xs @ (s @ [0]) @ drop (length xs + length s + 1) D"
  have z: "length D = 16" using assms(1) by (simp add: holds_def)
  then have l: "length xs + length (s @ [0]) \<le> length D" using assms(3) t by simp
  have "take (length xs) D = xs" using D(1) by simp
  then have "strcat D s = Some ?D"
    using D(1) l unfolding strcat_def x by (simp add: wrn_def nat_add_distrib)
  moreover have "holds ?D (t @ s)"
    using z l t D(2) assms(2) cstr_terminated [of "xs @ s"] by (simp add: holds_def)
  ultimately show ?thesis by blast
qed

lemma dec_no_nul: "0 \<notin> set (dec n)"
  using dec_digits by (auto simp: is_digit_def)

lemma dec_byte: "length (dec (unat (b :: byte))) \<le> 3"
  using rdec_length [of "unat b" 3] unat_byte_less [of b] by (simp add: dec_def)

lemma ucast_same: "unat (ucast (b :: byte) :: 32 word) = unat b"
  by (simp add: unsigned_ucast_eq take_bit_nat_eq_self less_trans [OF unat_byte_less])

lemma cat_number_correct:
  assumes "holds D t" and "length t + 3 < 16" and "length R = 16"
  shows "\<exists>D' R'. cat_number D b R = Some (D', R') \<and> length R' = 16 \<and> holds D' (t @ dec (unat b))"
proof -
  obtain R' where R': "lts_uint322cstr R (ucast b) = Some R'" "length R' = 16" "cstr R' = dec (unat b)"
    using lts_uint322cstr_correct [OF assms(3), of "ucast b"] ucast_same by auto
  then show ?thesis
    using strcat_correct [OF assms(1) dec_no_nul [of "unat b"]] assms(2) dec_byte [of b] by (auto simp: cat_number_def)
qed

text \<open>The dotted decimals of the four bytes always fit.\<close>

theorem inet_ntoa_dotted:
  assumes "length R = 16"
  shows "\<exists>D R'. lts_inet_ntoa u0 u1 u2 u3 R = Some (D, R') \<and> length D = 16 \<and>
    cstr D = dec (unat u0) @ lit ''.'' @ dec (unat u1) @ lit ''.'' @ dec (unat u2) @ lit ''.'' @ dec (unat u3)"
proof -
  have dot: "\<exists>D'. strcat D (lit ''.'') = Some D' \<and> holds D' (t @ lit ''.'')" if "holds D t" "length t + 1 < 16" for D t
    using strcat_correct [OF that(1), of "lit ''.''"] that(2) by (simp add: lit_def)
  note d = dec_byte [of u0] dec_byte [of u1] dec_byte [of u2]
  have l: "length (lit ''.'') = 1" by (simp add: lit_def)
  have 0: "holds (replicate 16 0) []" by (simp add: holds_def cstr_def)
  let ?t1 = "dec (unat u0)" 
  let ?t2 = "?t1 @ lit ''.''"
  let ?t3 = "?t2 @ dec (unat u1)"
  let ?t4 = "?t3 @ lit ''.''"
  let ?t5 = "?t4 @ dec (unat u2)"
  let ?t6 = "?t5 @ lit ''.''"
  obtain D1 R1 where 1: "cat_number (replicate 16 0) u0 R = Some (D1, R1)" "length R1 = 16" "holds D1 ?t1"
    using cat_number_correct [OF 0 _ assms, of u0] by auto
  obtain D2 where 2: "strcat D1 (lit ''.'') = Some D2" "holds D2 ?t2" using dot [OF 1(3)] d by auto
  obtain D3 R3 where 3: "cat_number D2 u1 R1 = Some (D3, R3)" "length R3 = 16" "holds D3 ?t3"
    using cat_number_correct [OF 2(2) _ 1(2), of u1] d l by auto
  obtain D4 where 4: "strcat D3 (lit ''.'') = Some D4" "holds D4 ?t4" using dot [OF 3(3)] d l by auto
  obtain D5 R5 where 5: "cat_number D4 u2 R3 = Some (D5, R5)" "length R5 = 16" "holds D5 ?t5"
    using cat_number_correct [OF 4(2) _ 3(2), of u2] d l by auto
  obtain D6 where 6: "strcat D5 (lit ''.'') = Some D6" "holds D6 ?t6" using dot [OF 5(3)] d l by auto
  obtain D7 R7 where 7: "cat_number D6 u3 R5 = Some (D7, R7)" "holds D7 (?t6 @ dec (unat u3))"
    using cat_number_correct [OF 6(2) _ 5(2), of u3] d l by auto
  show ?thesis using 1(1) 2(1) 3(1) 4(1) 5(1) 6(1) 7 by (simp add: lts_inet_ntoa_def holds_def)
qed

end
