(* ===== verification/Spec2Isabelle.thy ===== *)
theory Spec2Isabelle
  imports StrFind Base64 MemPool Hashing ServerProps P2pServer RetinueThreads AcceptLock Supervisor Lifecycle CoreModule HttpCore BackendApps EventModules TextUtil
begin

text \<open>
  latasia: an event driven TCP server in C (\<open>src/\<close>, \<open>include/\<close>) with a NAT traversal application
  (\<open>src/modules/mod_app_p2p_fsm.c\<close>).

  \<^bold>\<open>The program.\<close>  \<open>main\<close> initialises the core modules, which read the configuration and make the listening
  sockets and the shared accept lock, and becomes the master, which forks workers and replaces those that
  exit.  A worker runs one event loop: it waits for epoll, moves the sockets with events to a post list, runs
  their handlers, and closes the connections whose timer is due.  The handlers read into and write from the
  buffers of a connection; what was read is given to an application module.  The application of this server
  takes JSON requests in packets with a binary header: clients log in under a token, keep their session
  alive, and ask for the address and the kind of NAT of their peers.  Two threads beside the loop receive
  what outside servers observe about a client and post it to the loop, which runs a state machine per
  session to find the kind of NAT.

  \<^bold>\<open>Reading the model.\<close>  A function of the code is a HOL function of the same name.  The state it changes is
  an argument and a result, a record with a field per variable or struct field; a pointer is an address
  (\<open>nat\<close>, 0 is NULL) or, into a byte array, an offset.  \<open>None\<close> is an execution that has no defined result or
  ends the process: an access outside an object, a followed NULL, a failed \<open>ASSERT\<close>, \<open>abort()\<close>.  The return
  values of the code are kept (\<open>-1\<close>, a sum with the error).  What a system call answers is an argument of
  the step that makes the call.  Integers that can wrap are words of their width; the sizes and indices that
  the code bounds before are \<open>nat\<close> or \<open>int\<close>.  A loop without bound is a \<open>partial_function\<close>, for which \<open>None\<close>
  also means that it does not end, and every use of one comes with a lemma that it returns.  The event loops
  are lists of rounds, so a statement about them is about every finite run.

  \<^bold>\<open>The theories, from the bottom up.\<close>
  \<^item> \<open>LtsPrelude\<close>: bytes, checked array accesses, C division, characters.
  \<^item> \<open>AdvString\<close>, \<open>AdvNumber\<close>, \<open>StrFind\<close> (\<open>src/adv_string.c\<close>): byte strings in memory and their operations
    in place; decimal numbers, \<open>atoi\<close>, splitting; Knuth-Morris-Pratt search.  Each operation is shown equal
    to a function on lists.
  \<^item> \<open>Base64\<close> (\<open>src/base64.c\<close>), \<open>MemPool\<close> (\<open>src/mem_pool.c\<close>), \<open>Buffer\<close> (\<open>src/buffer.c\<close>), \<open>ListH\<close>
    (\<open>include/list.h\<close>), \<open>Hashing\<close> (\<open>src/hashtable.c\<close>).
  \<^item> \<open>RbTree\<close> (\<open>src/rbtree.c\<close>) the red-black tree statement by statement on its pointers, with a zipper that
    says which tree the memory holds; \<open>RbMap\<close> (\<open>src/rbmap.c\<close>) the ordered map on it, the locale \<open>node_map\<close> and
    its refinement to maps; \<open>RbtTimer\<close> (\<open>src/rbt_timer.c\<close>) the timer heap and its expiry loop.
  \<^item> \<open>SimpleJson\<close>, \<open>SjsonDecode\<close> (\<open>src/simple_json.c\<close>): objects as trees of nodes, the encoder, and the decoder as
    a state machine.  \<open>SjsonTree\<close>, \<open>SjsonEncode\<close>, \<open>SjsonBuild\<close>, \<open>SjsonSafe\<close>, \<open>SjsonRound\<close>: search and linking, the
    text the encoder writes, insertion, safety on every input, and the value a text decodes to;
    \<open>JsonProps\<close> the properties a caller sees.
  \<^item> \<open>ProtoSjsonb\<close> (\<open>src/protocol_sjsonb.c\<close>): packets in the buffers of a connection.
  \<^item> \<open>Socket\<close> (\<open>include/socket.h\<close>), \<open>EventCore\<close> (\<open>mod_event_core.c\<close>, \<open>mod_event_epoll.c\<close>): sockets, their lists and
    the operations on connections.  \<open>EventInv\<close> has the invariant \<open>net_inv\<close> and the locale \<open>net_app\<close>, what the
    event modules ask of an application; \<open>EventLoop\<close> (\<open>latasia.c\<close>) the loops and the invariant over whole runs;
    \<open>EventStart\<close> the start of a worker; \<open>DemoApps\<close> the applications \<open>echo\<close> and \<open>sjsonb\<close>, which keep the contract,
    with the locale \<open>plain_app\<close> for applications that touch the buffers of one connection only (a sublocale of
    \<open>net_app\<close>); \<open>ServerProps\<close> the properties of a running server; \<open>EventModules\<close> the start and end of the event
    modules in master and worker, up to the lists and the channel a worker starts from.
  \<^item> \<open>NatFsm\<close>, \<open>P2pSession\<close>, \<open>P2pService\<close> (\<open>mod_app_p2p_fsm.c\<close>): the NAT state machine with its specification, the
    sessions, and one definition per request.  \<open>P2pInv\<close>: the invariant \<open>p2p_inv\<close> that ties sessions to sockets and
    what every request does to it.  \<open>P2pProps\<close>: what a client sees.  \<open>P2pServer\<close>: the start of the module, the
    channels of its threads, and the invariant over whole runs of either event loop.  \<open>RetinueThreads\<close> (\<open>subscribe_thread.c\<close>,
    \<open>udp_thread.c\<close>): the threads, and the way from a published message to the verdict of the state machine.
  \<^item> \<open>ConfFile\<close>, \<open>ConfMain\<close> (\<open>conf.c\<close>, \<open>conf_main.c\<close>, \<open>conf_p2p_fsm.c\<close>): configuration files; the locale \<open>conf_table\<close> is
    what the parser asks of the handlers of the items.
  \<^item> \<open>FileIO\<close> (\<open>src/file.c\<close>, \<open>src/shmem.c\<close>): files on a disk of names, inodes and descriptors, with their locks;
    \<open>Logger\<close> (\<open>src/logger.c\<close>) the lines of the log and the calendar they use; \<open>CoreModule\<close> (\<open>mod_core.c\<close>) the
    pid file that admits one master, the log and the process table; \<open>TextUtil\<close> the rest of the text helpers.
  \<^item> \<open>HttpCore\<close> (\<open>mod_app_http_core.c\<close>) and \<open>BackendApps\<close> (\<open>mod_app_asyn_backend.c\<close>, \<open>mod_app_sync_backend.c\<close>): the
    applications that are commented out of the module table; they are instances of \<open>plain_app\<close> too.
  \<^item> \<open>AcceptLock\<close>, \<open>Supervisor\<close>, \<open>Lifecycle\<close> (\<open>latasia.c\<close>, \<open>vsignal.c\<close>): the lock as an interleaving of the workers'
    atomic steps, the master process, and the order in which modules are initialised and exited.

  \<^bold>\<open>What the theorems show.\<close>  The properties carry the names C1, C2, \<dots> in the theory of the component they are
  about.  For the data structures: the operations keep the structure well formed and implement their
  abstract counterparts, the searches and loops end.  For the texts: what the encoders write is what the
  decoders read, on every input the decoder is safe, and which value it builds.  For the server: whatever
  the clients send and the system calls answer, the lists, timers and counters stay intact, connections
  beyond their time are closed, one worker at a time holds the accept lock, the master never aborts.  For the
  application: each request has the effect and the answer it should have, and the messages of the outside
  servers decide the kind of NAT as the specification says.  The remaining theorems are about defects: an
  input or a state the code does not handle, with the crash or the wrong result it leads to.

  \<^bold>\<open>Bounds.\<close>  Addresses and the counters of allocations are unbounded.  The sizes of requests and packets are
  bounded as in the code (4096 bytes of content, 65535 bytes of configuration); where a length is stored in
  an \<open>int\<close> or \<open>uint32_t\<close> the theorem that needs it has the bound as a premise.  The sequences of rounds,
  reports and lock steps are of any length.  No fuel is used.

  \<^bold>\<open>Not modelled.\<close>  What is printed to the terminal and the backtrace a SIGSEGV writes; the binding of a worker
  to a processor; calls that only release and whose result the code ignores (\<open>munmap\<close>, \<open>close\<close> at the end of a
  process, \<open>lts_shm_free\<close>, \<open>close_conf_file\<close>).  Redis (\<open>hiredis\<close>), the sockets of the threads and the scheduler
  are inputs, so nothing is said about when they answer.  The table of error texts (\<open>lts_errno_desc\<close>) is data; the
  operations of \<open>include/atomic.h\<close> are inline assembly that nothing in the program uses.  The programs under
  \<open>tests\<close> are clients of the code modelled here.
\<close>

end
